(* ===== verification/Prelude.thy ===== *)
theory Prelude
  imports Main "HOL-Library.Char_ord" "HOL-Library.List_Lexorder"
begin

text \<open>
  Shared vocabulary of the development.

  \<^item> A Rust \<open>u8\<close> is a \<^typ>\<open>char\<close> (HOL's 8-bit character), so a byte vector and a
    Rust \<open>String\<close> (its UTF-8 bytes) are both a \<^typ>\<open>char list\<close>, and
    \<open>str::as_bytes\<close> is the identity.
  \<^item> \<open>Result<T, E>\<close> is \<open>'e + 'a\<close> with \<open>Inl\<close> the error; the \<open>?\<close>
    operator is \<open>res_bind\<close>.
  \<^item> \<open>BTreeMap<K, V>\<close> is an association list in strictly ascending key order
    (\<open>bm_wf\<close>), so iterating it is walking the list; \<open>BTreeSet<T>\<close> is a
    strictly ascending list.
  \<^item> \<open>u64\<close> values are natural numbers; the places where the code saturates write it
    out with \<open>sat_add64\<close>.
\<close>

type_synonym bytes = "char list"

named_theorems res_simps \<open>inversion of successful results\<close>
named_theorems bmap_simps \<open>lookups in ordered maps after an update\<close>

section \<open>Results\<close>

definition res_bind :: "'e + 'a \<Rightarrow> ('a \<Rightarrow> 'e + 'b) \<Rightarrow> 'e + 'b" where
  "res_bind m f = (case m of Inl e \<Rightarrow> Inl e | Inr x \<Rightarrow> f x)"

definition ok_or :: "'a option \<Rightarrow> 'e \<Rightarrow> 'e + 'a" where
  "ok_or m e = (case m of None \<Rightarrow> Inl e | Some x \<Rightarrow> Inr x)"

definition res_guard :: "bool \<Rightarrow> 'e \<Rightarrow> 'e + unit" where
  "res_guard b e = (if b then Inr () else Inl e)"

definition res_map :: "('a \<Rightarrow> 'b) \<Rightarrow> 'e + 'a \<Rightarrow> 'e + 'b" where
  "res_map f m = (case m of Inl e \<Rightarrow> Inl e | Inr x \<Rightarrow> Inr (f x))"

fun res_list :: "('e + 'a) list \<Rightarrow> 'e + 'a list" where
  "res_list [] = Inr []"
| "res_list (x # xs) = res_bind x (\<lambda>y. res_map ((#) y) (res_list xs))"

lemma res_bind_Inr [simp]: "res_bind (Inr x) f = f x"
  by (simp add: res_bind_def)

lemma res_bind_Inl [simp]: "res_bind (Inl e) f = Inl e"
  by (simp add: res_bind_def)

lemma res_bind_eq_Inr [res_simps]: "res_bind m f = Inr y \<longleftrightarrow> (\<exists>x. m = Inr x \<and> f x = Inr y)"
  by (cases m) (auto simp: res_bind_def)

lemma res_bind_eq_Inl: "res_bind m f = Inl e \<longleftrightarrow> m = Inl e \<or> (\<exists>x. m = Inr x \<and> f x = Inl e)"
  by (cases m) (auto simp: res_bind_def)

lemma ok_or_simps [simp]: "ok_or None e = Inl e" "ok_or (Some x) e = Inr x"
  by (simp_all add: ok_or_def)

lemma ok_or_eq_Inr [res_simps]: "ok_or m e = Inr x \<longleftrightarrow> m = Some x"
  by (cases m) auto

lemma res_guard_simps [simp]: "res_guard True e = Inr ()" "res_guard False e = Inl e"
  by (simp_all add: res_guard_def)

lemma res_guard_eq_Inr [res_simps]: "res_guard b e = Inr u \<longleftrightarrow> b"
  by (cases b) auto

lemma res_map_simps [simp]: "res_map f (Inl e) = Inl e" "res_map f (Inr x) = Inr (f x)"
  by (simp_all add: res_map_def)

lemma res_map_eq_Inr [res_simps]: "res_map f m = Inr y \<longleftrightarrow> (\<exists>x. m = Inr x \<and> y = f x)"
  by (cases m) auto

lemma res_list_Inr: "res_list xs = Inr ys \<longleftrightarrow> xs = map Inr ys"
proof (induction xs arbitrary: ys)
  case Nil
  then show ?case by auto
next
  case (Cons x xs)
  then show ?case by (cases ys) (auto simp: res_simps)
qed

section \<open>Ordered maps and sets\<close>

type_synonym ('k, 'v) bmap = "('k \<times> 'v) list"

definition bm_wf :: "('k::linorder, 'v) bmap \<Rightarrow> bool" where
  "bm_wf m \<longleftrightarrow> sorted_wrt (<) (map fst m)"

definition bm_get :: "('k, 'v) bmap \<Rightarrow> 'k \<Rightarrow> 'v option" where
  "bm_get m k = map_of m k"

fun bm_insert :: "'k::linorder \<Rightarrow> 'v \<Rightarrow> ('k, 'v) bmap \<Rightarrow> ('k, 'v) bmap" where
  "bm_insert k v [] = [(k, v)]"
| "bm_insert k v ((k', v') # m) =
     (if k < k' then (k, v) # (k', v') # m
      else if k = k' then (k, v) # m
      else (k', v') # bm_insert k v m)"

definition bm_retain :: "('k \<Rightarrow> 'v \<Rightarrow> bool) \<Rightarrow> ('k, 'v) bmap \<Rightarrow> ('k, 'v) bmap" where
  "bm_retain P m = filter (\<lambda>(k, v). P k v) m"

definition bm_remove :: "'k \<Rightarrow> ('k, 'v) bmap \<Rightarrow> ('k, 'v) bmap" where
  "bm_remove k m = bm_retain (\<lambda>k' _. k' \<noteq> k) m"

definition bm_keys :: "('k, 'v) bmap \<Rightarrow> 'k list" where
  "bm_keys m = map fst m"

definition bm_values :: "('k, 'v) bmap \<Rightarrow> 'v list" where
  "bm_values m = map snd m"

definition bm_of_list :: "('k::linorder \<times> 'v) list \<Rightarrow> ('k, 'v) bmap" where
  "bm_of_list xs = fold (\<lambda>(k, v) m. bm_insert k v m) xs []"

definition bs_of_list :: "'a::linorder list \<Rightarrow> 'a list" where
  "bs_of_list xs = sort (remdups xs)"

lemma bm_wf_Nil [simp]: "bm_wf []"
  by (simp add: bm_wf_def)

lemma bm_wf_Cons: "bm_wf ((k, v) # m) \<longleftrightarrow> (\<forall>k' \<in> fst ` set m. k < k') \<and> bm_wf m"
  by (auto simp: bm_wf_def)

lemma bm_get_Nil [simp]: "bm_get [] k = None"
  by (simp add: bm_get_def)

lemma bm_get_Cons [simp]: "bm_get ((k', v) # m) k = (if k = k' then Some v else bm_get m k)"
  by (simp add: bm_get_def)

lemma bm_get_insert [simp, bmap_simps]:
  "bm_get (bm_insert k v m) k' = (if k' = k then Some v else bm_get m k')"
  by (induction k v m rule: bm_insert.induct) auto

lemma fst_set_insert [simp]: "fst ` set (bm_insert k v m) = insert k (fst ` set m)"
  by (induction k v m rule: bm_insert.induct) (auto simp: insert_commute)

lemma bm_wf_insert [simp]: "bm_wf m \<Longrightarrow> bm_wf (bm_insert k v m)"
  by (induction k v m rule: bm_insert.induct) (auto simp: bm_wf_Cons)

lemma bm_wf_distinct: "bm_wf m \<Longrightarrow> distinct (map fst m)"
  by (simp add: bm_wf_def strict_sorted_iff)

lemma bm_get_eq_Some: "bm_wf m \<Longrightarrow> bm_get m k = Some v \<longleftrightarrow> (k, v) \<in> set m"
  by (simp add: bm_get_def bm_wf_distinct)

lemma bm_get_None: "bm_get m k = None \<longleftrightarrow> k \<notin> fst ` set m"
  by (simp add: bm_get_def map_of_eq_None_iff)

lemma bm_get_SomeD: "bm_get m k = Some v \<Longrightarrow> (k, v) \<in> set m"
  by (simp add: bm_get_def map_of_SomeD)

lemma bm_wf_filter: "bm_wf m \<Longrightarrow> bm_wf (filter P m)"
proof (induction m)
  case (Cons a m)
  then show ?case by (cases a) (auto simp: bm_wf_Cons)
qed simp

lemma bm_wf_retain [simp]: "bm_wf m \<Longrightarrow> bm_wf (bm_retain P m)"
  by (simp add: bm_retain_def bm_wf_filter)

lemma bm_get_retain [bmap_simps]:
  assumes "bm_wf m"
  shows "bm_get (bm_retain P m) k =
    (case bm_get m k of None \<Rightarrow> None | Some v \<Rightarrow> if P k v then Some v else None)"
  using assms
proof (induction m)
  case Nil
  then show ?case by (simp add: bm_retain_def)
next
  case (Cons a m)
  obtain k' v where a: "a = (k', v)" by (cases a)
  from Cons.prems have notin: "k' \<notin> fst ` set m" and wf: "bm_wf m"
    by (auto simp: a bm_wf_Cons)
  have "bm_get m k' = None" using notin by (simp add: bm_get_None)
  then show ?case
    using Cons.IH [OF wf] by (auto simp: a bm_retain_def split: option.splits)
qed

lemma bm_get_remove [simp, bmap_simps]:
  "bm_get (bm_remove k m) k' = (if k' = k then None else bm_get m k')"
  by (induction m) (auto simp: bm_remove_def bm_retain_def)

lemma bm_wf_of_list [simp]: "bm_wf (bm_of_list xs)"
proof -
  have "bm_wf m \<Longrightarrow> bm_wf (fold (\<lambda>(k, v) m. bm_insert k v m) xs m)" for m
    by (induction xs arbitrary: m) auto
  then show ?thesis by (simp add: bm_of_list_def)
qed

lemma set_bs_of_list [simp]: "set (bs_of_list xs) = set xs"
  by (simp add: bs_of_list_def)

lemma sorted_bs_of_list: "sorted_wrt (<) (bs_of_list xs)"
  by (simp add: bs_of_list_def strict_sorted_iff)

section \<open>Machine integers\<close>

abbreviation u64_max :: nat where
  "u64_max \<equiv> 2 ^ 64 - 1"

abbreviation i64_max :: int where
  "i64_max \<equiv> 2 ^ 63 - 1"

definition sat_add64 :: "nat \<Rightarrow> nat \<Rightarrow> nat" where
  "sat_add64 a b = min u64_max (a + b)"

lemma sat_add64_ge: "a \<le> u64_max \<Longrightarrow> a \<le> sat_add64 a b"
  by (simp add: sat_add64_def)

section \<open>Decimal numerals\<close>

text \<open>\<open>u64\<close> formatted with \<open>{}\<close>: decimal digits, most significant first.\<close>

definition digit_char :: "nat \<Rightarrow> char" where
  "digit_char d = char_of (48 + d)"

fun show_nat :: "nat \<Rightarrow> string" where
  "show_nat n = (if n < 10 then [digit_char n] else show_nat (n div 10) @ [digit_char (n mod 10)])"

declare show_nat.simps [simp del]

definition is_digit :: "char \<Rightarrow> bool" where
  "is_digit c \<longleftrightarrow> 48 \<le> (of_char c :: nat) \<and> (of_char c :: nat) \<le> 57"

lemma of_char_digit: "d < 10 \<Longrightarrow> (of_char (digit_char d) :: nat) = 48 + d"
  by (simp add: digit_char_def)

lemma digit_char_inj: "a < 10 \<Longrightarrow> b < 10 \<Longrightarrow> digit_char a = digit_char b \<Longrightarrow> a = b"
  by (metis add_left_imp_eq of_char_digit)

lemma is_digit_digit_char: "d < 10 \<Longrightarrow> is_digit (digit_char d)"
  by (simp add: is_digit_def of_char_digit)

lemma show_nat_digits: "c \<in> set (show_nat n) \<Longrightarrow> is_digit c"
proof (induction n rule: show_nat.induct)
  case (1 n)
  then show ?case
    by (subst (asm) show_nat.simps) (auto simp: is_digit_digit_char split: if_splits)
qed

lemma show_nat_nonempty: "show_nat n \<noteq> []"
  by (subst show_nat.simps) simp

lemma show_nat_inj: "show_nat a = show_nat b \<Longrightarrow> a = b"
proof (induction a arbitrary: b rule: show_nat.induct)
  case (1 a)
  show ?case
  proof (cases "a < 10")
    case True
    then have "length (show_nat b) = 1"
      using "1.prems" by (metis One_nat_def length_Cons list.size(3) show_nat.simps)
    then have "b < 10"
      using show_nat_nonempty [of "b div 10"] by (subst (asm) show_nat.simps) (auto split: if_splits)
    with True "1.prems" show ?thesis
      by (auto simp: show_nat.simps [of a] show_nat.simps [of b] dest: digit_char_inj)
  next
    case False
    have b: "\<not> b < 10"
    proof
      assume "b < 10"
      then have "length (show_nat a) = 1"
        using "1.prems" by (metis One_nat_def length_Cons list.size(3) show_nat.simps)
      with False show False
        using show_nat_nonempty [of "a div 10"] by (subst (asm) show_nat.simps) simp
    qed
    with False "1.prems"
    have eq: "show_nat (a div 10) = show_nat (b div 10)"
      and last: "digit_char (a mod 10) = digit_char (b mod 10)"
      by (auto simp: show_nat.simps [of a] show_nat.simps [of b])
    from "1.IH" [OF False eq] have "a div 10 = b div 10" .
    moreover from last have "a mod 10 = b mod 10" by (rule digit_char_inj [rotated 2]) simp_all
    ultimately show ?thesis by (metis div_mult_mod_eq)
  qed
qed

section \<open>Lists\<close>

lemma append_eq_same_length:
  "a @ b = c @ d \<Longrightarrow> length a = length c \<Longrightarrow> a = c \<and> b = d"
  by simp

text \<open>A walk that adds an unseen element of a finite universe comes closer to its end.\<close>

lemma card_unseen_less:
  assumes "finite A" and "x \<in> A" and "x \<notin> S" and "x \<in> S'" and "S \<subseteq> S'"
  shows "card (A - S') < card (A - S)"
  using assms by (intro psubset_card_mono) auto

text \<open>Splitting at the first separator is unambiguous when the separator occurs in neither
  first field.\<close>

lemma append_sep_inj:
  assumes "a @ x # b = a' @ x # b'" and "x \<notin> set a" and "x \<notin> set a'"
  shows "a = a' \<and> b = b'"
  using assms
proof (induction a arbitrary: a')
  case Nil
  then show ?case by (cases a') auto
next
  case (Cons y a)
  then show ?case by (cases a') auto
qed

section \<open>Strings\<close>

text \<open>\<open>str::split\<close> on a character.\<close>

fun split_on :: "char \<Rightarrow> string \<Rightarrow> string list" where
  "split_on d [] = [[]]"
| "split_on d (c # s) =
     (if c = d then [] # split_on d s
      else case split_on d s of [] \<Rightarrow> [[c]] | seg # segs \<Rightarrow> (c # seg) # segs)"

lemma split_on_plain: "d \<notin> set a \<Longrightarrow> split_on d a = [a]"
  by (induction a) auto

lemma split_on_at: "d \<notin> set a \<Longrightarrow> split_on d (a @ d # b) = a # split_on d b"
  by (induction a) auto

end
