(* ===== verification/Merkle.thy ===== *)
theory Merkle
  imports Prelude "HOL-Library.While_Combinator"
begin

text \<open>
  The RFC 9162 Merkle tree of \<open>decern-ledger/src/merkle.rs\<close>: the tree hash, the two
  proof generators and the two verifiers. SHA-256 is a parameter \<open>H\<close>, an argument of every
  definition that hashes. The generators recurse over the leaves as the code does; the
  verifiers are the code's bit-shifting loops over \<open>u64\<close> counters, kept as loops.

  \<open>incl_ref\<close> and \<open>cons_ref\<close> are the specification: the recomputation of the root
  along the shape of the tree. The locale \<open>rfc_walk\<close> states the shift loop both verifiers
  share and proves once that it follows that shape; it is interpreted on both loops. From it
  come the equivalences, completeness (every generated proof verifies) and soundness (a
  verified proof pins the leaf, or the prefix, unless \<open>H\<close> collides on the inputs that were
  hashed).
\<close>

section \<open>The code\<close>

definition hash_leaf :: "(bytes \<Rightarrow> bytes) \<Rightarrow> bytes \<Rightarrow> bytes" where
  "hash_leaf H d = H (CHR 0x00 # d)"

definition hash_children :: "(bytes \<Rightarrow> bytes) \<Rightarrow> bytes \<Rightarrow> bytes \<Rightarrow> bytes" where
  "hash_children H l r = H (CHR 0x01 # l @ r)"

text \<open>The split point: the loop doubles \<open>k\<close> while \<open>k * 2 < n\<close>.\<close>

definition split :: "nat \<Rightarrow> nat" where
  "split n = while (\<lambda>k. k * 2 < n) (\<lambda>k. k * 2) 1"

lemma split_pow2:
  assumes "2 \<le> n"
  shows "\<exists>j. split n = 2 ^ j \<and> 2 ^ j < n \<and> n \<le> 2 ^ Suc j"
  unfolding split_def
proof (rule while_rule [where P = "\<lambda>k. \<exists>j. k = 2 ^ j \<and> 2 ^ j < n" and r = "measure (\<lambda>k. n - k)"])
  show "\<exists>j. (1::nat) = 2 ^ j \<and> 2 ^ j < n"
    using assms by (intro exI [of _ 0]) simp
next
  fix k assume "\<exists>j. k = 2 ^ j \<and> 2 ^ j < n" and "k * 2 < n"
  then show "\<exists>j. k * 2 = 2 ^ j \<and> 2 ^ j < n"
    by (metis mult.commute power_Suc)
next
  fix k assume "\<exists>j. k = 2 ^ j \<and> 2 ^ j < n" and "\<not> k * 2 < n"
  then show "\<exists>j. k = 2 ^ j \<and> 2 ^ j < n \<and> n \<le> 2 ^ Suc j"
    by (metis mult.commute not_less power_Suc)
next
  show "wf (measure (\<lambda>k. n - k))" by simp
next
  fix k assume "\<exists>j. k = 2 ^ j \<and> 2 ^ j < n" and "k * 2 < n"
  then have "0 < k" and "k * 2 < n" by auto
  then show "(k * 2, k) \<in> measure (\<lambda>k. n - k)" by (simp add: diff_less_mono2)
qed

lemma split_pos: "2 \<le> n \<Longrightarrow> 0 < split n"
  using split_pow2 by fastforce

lemma split_less: "2 \<le> n \<Longrightarrow> split n < n"
  using split_pow2 by fastforce

lemma split_shorter [simp]:
  assumes "\<not> length d \<le> 1"
  shows "length (take (split (length d)) d) < length d"
    and "length (drop (split (length d)) d) < length d"
  using assms split_pos [of "length d"] split_less [of "length d"] by auto

lemma split_shorter' [simp]:
  assumes "d \<noteq> []" and "length d \<noteq> Suc 0"
  shows "length (take (split (length d)) d) < length d"
    and "length (drop (split (length d)) d) < length d"
  using assms split_shorter [of d] by (auto simp: le_Suc_eq simp del: length_take length_drop)

function tree_hash :: "(bytes \<Rightarrow> bytes) \<Rightarrow> bytes list \<Rightarrow> bytes" where
  "tree_hash H d =
     (if length d = 0 then H []
      else if length d = 1 then hash_leaf H (d ! 0)
      else let k = split (length d)
           in hash_children H (tree_hash H (take k d)) (tree_hash H (drop k d)))"
  by pat_completeness auto
termination
  by (relation "measure (\<lambda>(H, d). length d)") (auto simp del: length_take length_drop)

text \<open>The inner \<open>path\<close>: the code calls it with \<open>m < d.len()\<close> only, so its base case
  \<open>n == 1\<close> is written \<open>n \<le> 1\<close> to be total.\<close>

function inclusion_path :: "(bytes \<Rightarrow> bytes) \<Rightarrow> bytes list \<Rightarrow> nat \<Rightarrow> bytes list" where
  "inclusion_path H d m =
     (if length d \<le> 1 then []
      else let k = split (length d)
           in if m < k then inclusion_path H (take k d) m @ [tree_hash H (drop k d)]
              else inclusion_path H (drop k d) (m - k) @ [tree_hash H (take k d)])"
  by pat_completeness auto
termination
  by (relation "measure (\<lambda>(H, d, m). length d)") (auto simp del: length_take length_drop)

definition inclusion_proof :: "(bytes \<Rightarrow> bytes) \<Rightarrow> bytes list \<Rightarrow> nat \<Rightarrow> bytes list option" where
  "inclusion_proof H d m = (if m \<ge> length d then None else Some (inclusion_path H d m))"

text \<open>The inner \<open>subproof\<close>, called with \<open>1 \<le> m \<le> d.len()\<close> only; the \<open>n \<le> 1\<close>
  branch after \<open>m \<noteq> n\<close> is unreachable and is there to be total.\<close>

function subproof :: "(bytes \<Rightarrow> bytes) \<Rightarrow> bytes list \<Rightarrow> nat \<Rightarrow> bool \<Rightarrow> bytes list" where
  "subproof H d m b =
     (if m = length d then (if b then [] else [tree_hash H d])
      else if length d \<le> 1 then []
      else let k = split (length d)
           in if m \<le> k then subproof H (take k d) m b @ [tree_hash H (drop k d)]
              else subproof H (drop k d) (m - k) False @ [tree_hash H (take k d)])"
  by pat_completeness auto
termination
  by (relation "measure (\<lambda>(H, d, m, b). length d)") (auto simp del: length_take length_drop)

definition consistency_proof :: "(bytes \<Rightarrow> bytes) \<Rightarrow> bytes list \<Rightarrow> nat \<Rightarrow> bytes list option" where
  "consistency_proof H d m =
     (if m = 0 \<or> m > length d then None else Some (subproof H d m True))"

text \<open>\<open>while (fn_ & 1) == 0 && fn_ != 0 \{ fn_ >>= 1; sn >>= 1; \}\<close>\<close>

function strip_zeros :: "nat \<Rightarrow> nat \<Rightarrow> nat \<times> nat" where
  "strip_zeros fn sn =
     (if even fn \<and> fn \<noteq> 0 then strip_zeros (fn div 2) (sn div 2) else (fn, sn))"
  by pat_completeness auto
termination
  by (relation "measure fst") auto

text \<open>\<open>while (fn_ & 1) == 1 \{ fn_ >>= 1; sn >>= 1; \}\<close>\<close>

function strip_ones :: "nat \<Rightarrow> nat \<Rightarrow> nat \<times> nat" where
  "strip_ones fn sn = (if odd fn then strip_ones (fn div 2) (sn div 2) else (fn, sn))"
  by pat_completeness auto
termination
  by (relation "measure fst") (auto elim: oddE)

declare tree_hash.simps [simp del] inclusion_path.simps [simp del] subproof.simps [simp del]
  strip_zeros.simps [simp del] strip_ones.simps [simp del]

text \<open>The verifier's loop over the path: \<open>None\<close> is the early \<open>return false\<close>, otherwise
  the final \<open>sn\<close> and \<open>r\<close>.\<close>

fun incl_loop :: "(bytes \<Rightarrow> bytes) \<Rightarrow> nat \<Rightarrow> nat \<Rightarrow> bytes \<Rightarrow> bytes list \<Rightarrow> (nat \<times> bytes) option" where
  "incl_loop H fn sn r [] = Some (sn, r)"
| "incl_loop H fn sn r (p # ps) =
     (if sn = 0 then None
      else if odd fn \<or> fn = sn then
        (let r' = hash_children H p r;
             (fn', sn') = (if even fn then strip_zeros fn sn else (fn, sn))
         in incl_loop H (fn' div 2) (sn' div 2) r' ps)
      else incl_loop H (fn div 2) (sn div 2) (hash_children H r p) ps)"

definition verify_inclusion ::
  "(bytes \<Rightarrow> bytes) \<Rightarrow> nat \<Rightarrow> nat \<Rightarrow> bytes \<Rightarrow> bytes \<Rightarrow> bytes list \<Rightarrow> bool" where
  "verify_inclusion H leaf_index tree_size leaf_hash root path =
     (if leaf_index \<ge> tree_size then False
      else case incl_loop H leaf_index (tree_size - 1) leaf_hash path of
             None \<Rightarrow> False
           | Some (sn, r) \<Rightarrow> sn = 0 \<and> r = root)"

text \<open>\<open>u64::is_power_of_two\<close>\<close>

fun is_power_of_two :: "nat \<Rightarrow> bool" where
  "is_power_of_two n = (if n = 0 then False else if n = 1 then True
     else even n \<and> is_power_of_two (n div 2))"

declare is_power_of_two.simps [simp del]

fun cons_loop ::
  "(bytes \<Rightarrow> bytes) \<Rightarrow> nat \<Rightarrow> nat \<Rightarrow> bytes \<Rightarrow> bytes \<Rightarrow> bytes list \<Rightarrow> (nat \<times> bytes \<times> bytes) option" where
  "cons_loop H fn sn fr sr [] = Some (sn, fr, sr)"
| "cons_loop H fn sn fr sr (c # cs) =
     (if sn = 0 then None
      else if odd fn \<or> fn = sn then
        (let fr' = hash_children H c fr; sr' = hash_children H c sr;
             (fn', sn') = (if even fn then strip_zeros fn sn else (fn, sn))
         in cons_loop H (fn' div 2) (sn' div 2) fr' sr' cs)
      else cons_loop H (fn div 2) (sn div 2) fr (hash_children H sr c) cs)"

definition verify_consistency ::
  "(bytes \<Rightarrow> bytes) \<Rightarrow> nat \<Rightarrow> nat \<Rightarrow> bytes \<Rightarrow> bytes \<Rightarrow> bytes list \<Rightarrow> bool" where
  "verify_consistency H first second first_root second_root path =
     (if first = 0 \<or> first > second then False
      else if first = second then path = [] \<and> first_root = second_root
      else let work = (if is_power_of_two first then [first_root] else []) @ path
           in case work of
                [] \<Rightarrow> False
              | w # ws \<Rightarrow>
                  (let (fn, sn) = strip_ones (first - 1) (second - 1)
                   in case cons_loop H fn sn w w ws of
                        None \<Rightarrow> False
                      | Some (sn', fr, sr) \<Rightarrow>
                          fr = first_root \<and> sr = second_root \<and> sn' = 0))"

section \<open>The specification: roots along the shape of the tree\<close>

text \<open>The root a verifier must recompute from a leaf hash and its audit path, by the recursion
  that defines the path: the last element of the path is the sibling at the top split.\<close>

function incl_ref :: "(bytes \<Rightarrow> bytes) \<Rightarrow> nat \<Rightarrow> nat \<Rightarrow> bytes \<Rightarrow> bytes list \<Rightarrow> bytes option" where
  "incl_ref H m n r path =
     (if n \<le> 1 then (if path = [] then Some r else None)
      else if path = [] then None
      else let k = split n; x = last path; ps = butlast path
           in if m < k then map_option (\<lambda>r'. hash_children H r' x) (incl_ref H m k r ps)
              else map_option (hash_children H x) (incl_ref H (m - k) (n - k) r ps))"
  by pat_completeness auto
termination
  by (relation "measure (\<lambda>(H, m, n, r, path). length path)") auto

text \<open>Likewise the pair of roots, over the first \<open>m\<close> and over all \<open>n\<close> leaves, from the
  hash \<open>h\<close> of the last complete subtree inside the prefix.\<close>

function cons_ref ::
  "(bytes \<Rightarrow> bytes) \<Rightarrow> nat \<Rightarrow> nat \<Rightarrow> bytes \<Rightarrow> bytes list \<Rightarrow> (bytes \<times> bytes) option" where
  "cons_ref H m n h path =
     (if m = n \<or> n \<le> 1 then (if path = [] then Some (h, h) else None)
      else if path = [] then None
      else let k = split n; x = last path; ps = butlast path
           in if m \<le> k
              then map_option (\<lambda>(fr, sr). (fr, hash_children H sr x)) (cons_ref H m k h ps)
              else map_option (\<lambda>(fr, sr). (hash_children H x fr, hash_children H x sr))
                     (cons_ref H (m - k) (n - k) h ps))"
  by pat_completeness auto
termination
  by (relation "measure (\<lambda>(H, m, n, h, path). length path)") auto

text \<open>The byte strings hashed while a tree hash, and while a proof's roots, are computed: what
  collision freedom of \<open>H\<close> has to range over.\<close>

function tree_inputs :: "(bytes \<Rightarrow> bytes) \<Rightarrow> bytes list \<Rightarrow> bytes list" where
  "tree_inputs H d =
     (if length d = 0 then [[]]
      else if length d = 1 then [CHR 0x00 # d ! 0]
      else let k = split (length d)
           in (CHR 0x01 # tree_hash H (take k d) @ tree_hash H (drop k d))
              # tree_inputs H (take k d) @ tree_inputs H (drop k d))"
  by pat_completeness auto
termination
  by (relation "measure (\<lambda>(H, d). length d)") (auto simp del: length_take length_drop)

function incl_inputs :: "(bytes \<Rightarrow> bytes) \<Rightarrow> nat \<Rightarrow> nat \<Rightarrow> bytes \<Rightarrow> bytes list \<Rightarrow> bytes list" where
  "incl_inputs H m n r path =
     (if n \<le> 1 \<or> path = [] then []
      else let k = split n; x = last path; ps = butlast path
           in if m < k
              then (case incl_ref H m k r ps of None \<Rightarrow> [] | Some r' \<Rightarrow> [CHR 0x01 # r' @ x])
                   @ incl_inputs H m k r ps
              else (case incl_ref H (m - k) (n - k) r ps of None \<Rightarrow> []
                    | Some r' \<Rightarrow> [CHR 0x01 # x @ r'])
                   @ incl_inputs H (m - k) (n - k) r ps)"
  by pat_completeness auto
termination
  by (relation "measure (\<lambda>(H, m, n, r, path). length path)") auto

function cons_inputs :: "(bytes \<Rightarrow> bytes) \<Rightarrow> nat \<Rightarrow> nat \<Rightarrow> bytes \<Rightarrow> bytes list \<Rightarrow> bytes list" where
  "cons_inputs H m n h path =
     (if m = n \<or> n \<le> 1 \<or> path = [] then []
      else let k = split n; x = last path; ps = butlast path
           in if m \<le> k
              then (case cons_ref H m k h ps of None \<Rightarrow> []
                    | Some (fr, sr) \<Rightarrow> [CHR 0x01 # sr @ x])
                   @ cons_inputs H m k h ps
              else (case cons_ref H (m - k) (n - k) h ps of None \<Rightarrow> []
                    | Some (fr, sr) \<Rightarrow> [CHR 0x01 # x @ fr, CHR 0x01 # x @ sr])
                   @ cons_inputs H (m - k) (n - k) h ps)"
  by pat_completeness auto
termination
  by (relation "measure (\<lambda>(H, m, n, h, path). length path)") auto

declare incl_ref.simps [simp del] cons_ref.simps [simp del] tree_inputs.simps [simp del]
  incl_inputs.simps [simp del] cons_inputs.simps [simp del]

text \<open>The first node and the rest of the path, as \<open>verify_consistency\<close> assembles them.\<close>

definition cons_work :: "nat \<Rightarrow> bytes \<Rightarrow> bytes list \<Rightarrow> bytes list" where
  "cons_work m first_root path = (if is_power_of_two m then [first_root] else []) @ path"

text \<open>A concrete 32-byte function to instantiate \<open>H\<close> with in the examples.\<close>

definition pad32 :: "bytes \<Rightarrow> bytes" where
  "pad32 b = take 32 (b @ replicate 32 (CHR 0x00))"

section \<open>The shift loop follows the shape of the tree\<close>

lemma strip_zeros_odd [simp]: "odd fn \<Longrightarrow> strip_zeros fn sn = (fn, sn)"
  by (simp add: strip_zeros.simps)

lemma strip_zeros_double [simp]: "0 < fn \<Longrightarrow> strip_zeros (2 * fn) (2 * sn) = strip_zeros fn sn"
  by (simp add: strip_zeros.simps [of "2 * fn"])

lemma strip_zeros_pow2: "strip_zeros (2 ^ j) (2 ^ j) = (1, 1)"
  by (induction j) simp_all

lemma strip_zeros_high:
  assumes "0 < fn" and "fn < 2 ^ j"
  shows "\<exists>i f. strip_zeros fn fn = (f, f) \<and> odd f \<and> f < 2 ^ Suc i \<and>
    strip_zeros (2 ^ j + fn) (2 ^ j + fn) = (2 ^ Suc i + f, 2 ^ Suc i + f)"
  using assms
proof (induction j arbitrary: fn)
  case (Suc j)
  show ?case
  proof (cases "odd fn")
    case True
    with Suc.prems show ?thesis by (intro exI [of _ j] exI [of _ fn]) simp
  next
    case False
    then obtain g where g: "fn = 2 * g" by auto
    with Suc.prems have "0 < g" and "g < 2 ^ j" by simp_all
    then obtain i f where if': "strip_zeros g g = (f, f)" "odd f" "f < 2 ^ Suc i"
        "strip_zeros (2 ^ j + g) (2 ^ j + g) = (2 ^ Suc i + f, 2 ^ Suc i + f)"
      using Suc.IH by blast
    have "2 ^ Suc j + fn = 2 * (2 ^ j + g)" by (simp add: g)
    then have "strip_zeros (2 ^ Suc j + fn) (2 ^ Suc j + fn) = (2 ^ Suc i + f, 2 ^ Suc i + f)"
      using if'(4) \<open>0 < g\<close> by (simp only: strip_zeros_double add_gr_0 simp_thms)
    with if' \<open>0 < g\<close> show ?thesis unfolding g by (intro exI [of _ i] exI [of _ f]) simp
  qed
qed simp

lemma pow2_minus_div2: "(2 * 2 ^ i - Suc 0) div 2 = 2 ^ i - Suc 0"
  by (induction i) simp_all

lemma pow2_minus_odd: "odd (2 * 2 ^ i - Suc 0)"
  by simp

lemma half_bounds:
  fixes a :: nat
  shows "a < 2 * b \<Longrightarrow> a div 2 < b" and "2 * b \<le> a \<Longrightarrow> b \<le> a div 2"
  by simp_all

locale rfc_walk =
  fixes walk :: "nat \<Rightarrow> nat \<Rightarrow> 's \<Rightarrow> bytes list \<Rightarrow> (nat \<times> 's) option"
    and onL :: "bytes \<Rightarrow> 's \<Rightarrow> 's"
    and onR :: "bytes \<Rightarrow> 's \<Rightarrow> 's"
  assumes walk_Nil: "walk fn sn s [] = Some (sn, s)"
    and walk_Cons: "walk fn sn s (p # ps) =
      (if sn = 0 then None
       else if odd fn \<or> fn = sn then
         (let (fn', sn') = (if even fn then strip_zeros fn sn else (fn, sn))
          in walk (fn' div 2) (sn' div 2) (onL p s) ps)
       else walk (fn div 2) (sn div 2) (onR p s) ps)"
begin

definition fin :: "nat \<Rightarrow> nat \<Rightarrow> 's \<Rightarrow> bytes list \<Rightarrow> 's option" where
  "fin fn sn s ps = (case walk fn sn s ps of None \<Rightarrow> None
     | Some (sn', s') \<Rightarrow> if sn' = 0 then Some s' else None)"

lemma fin_Nil [simp]: "fin fn sn s [] = (if sn = 0 then Some s else None)"
  by (simp add: fin_def walk_Nil)

lemma fin_zero [simp]: "fin fn 0 s (p # ps) = None"
  by (simp add: fin_def walk_Cons)

lemma fin_odd: "0 < sn \<Longrightarrow> odd fn \<Longrightarrow> fin fn sn s (p # ps) = fin (fn div 2) (sn div 2) (onL p s) ps"
  by (simp add: fin_def walk_Cons)

lemma fin_eq: "0 < sn \<Longrightarrow> strip_zeros sn sn = (f, f) \<Longrightarrow>
    fin sn sn s (p # ps) = fin (f div 2) (f div 2) (onL p s) ps"
  by (cases "even sn") (simp_all add: fin_def walk_Cons)

lemma fin_even: "0 < sn \<Longrightarrow> even fn \<Longrightarrow> fn \<noteq> sn \<Longrightarrow>
    fin fn sn s (p # ps) = fin (fn div 2) (sn div 2) (onR p s) ps"
  by (simp add: fin_def walk_Cons)

lemmas fin_steps = fin_odd fin_eq fin_even

lemma walk_right:
  assumes "fn \<le> sn" and "sn < 2 ^ j"
  shows "fin (2 ^ j + fn) (2 ^ j + sn) s (ps @ [x]) = map_option (onL x) (fin fn sn s ps)"
  using assms
proof (induction ps arbitrary: fn sn s j)
  case Nil
  consider "sn = 0" | "0 < sn" "even fn" "fn = sn" | "0 < sn" "odd fn" | "0 < sn" "even fn" "fn \<noteq> sn"
    by blast
  then show ?case
  proof cases
    case 2
    then obtain i f where "strip_zeros (2 ^ j + sn) (2 ^ j + sn) = (2 ^ Suc i + f, 2 ^ Suc i + f)"
      using strip_zeros_high [of fn j] Nil by auto
    with 2 show ?thesis by (simp add: fin_eq)
  qed (use Nil in \<open>cases j; simp add: fin_steps strip_zeros_pow2\<close>)+
next
  case (Cons p ps)
  have le: "fn div 2 \<le> sn div 2" using Cons.prems by (simp add: div_le_mono)
  consider "sn = 0" | "0 < sn" "even fn" "fn = sn" | "0 < sn" "odd fn" | "0 < sn" "even fn" "fn \<noteq> sn"
    by blast
  then show ?case
  proof cases
    case 1
    with Cons.prems show ?thesis by (cases ps) (simp_all add: fin_eq strip_zeros_pow2)
  next
    case 2
    then obtain i f where z: "strip_zeros fn fn = (f, f)" "f < 2 ^ Suc i"
        "strip_zeros (2 ^ j + fn) (2 ^ j + fn) = (2 ^ Suc i + f, 2 ^ Suc i + f)"
      using strip_zeros_high [of fn j] Cons.prems by auto
    from z(2) have "f div 2 < 2 ^ i" by simp
    with z 2 show ?thesis by (simp add: fin_eq Cons.IH)
  qed (use Cons.prems le in \<open>cases j; simp add: fin_steps Cons.IH half_bounds\<close>)+
qed

lemma walk_left:
  assumes "fn < 2 ^ j" and "2 ^ j \<le> sn" and "sn < 2 ^ Suc j"
  shows "fin fn sn s (ps @ [x]) = map_option (onR x) (fin fn (2 ^ j - 1) s ps)"
  using assms
proof (induction ps arbitrary: fn sn s j)
  case Nil
  show ?case
  proof (cases j)
    case 0
    with Nil show ?thesis by (simp add: fin_even)
  next
    case (Suc i)
    have "(1 :: nat) \<le> 2 ^ i" by simp
    then have "\<not> 2 * 2 ^ i \<le> Suc 0" by linarith
    with Suc Nil show ?thesis by (cases "odd fn") (simp_all add: fin_steps)
  qed
next
  case (Cons p ps)
  show ?case
  proof (cases j)
    case 0
    with Cons.prems show ?thesis by (cases ps) (simp_all add: fin_even)
  next
    case (Suc i)
    have "(1 :: nat) \<le> 2 ^ i" by simp
    then have "Suc 0 < 2 * 2 ^ i" by linarith
    moreover from Suc Cons.prems have "fn \<noteq> sn" "0 < sn" by auto
    moreover have "fin (fn div 2) (sn div 2) t (ps @ [x]) =
        map_option (onR x) (fin (fn div 2) (2 ^ i - Suc 0) t ps)" for t
      using Cons.IH [of "fn div 2" i "sn div 2" t] Suc Cons.prems by (simp add: half_bounds)
    moreover have "even fn \<Longrightarrow> fn \<noteq> 2 * 2 ^ i - Suc 0" using pow2_minus_odd [of i] by metis
    ultimately show ?thesis
      by (cases "odd fn") (simp_all add: Suc fin_steps pow2_minus_div2)
  qed
qed

end

interpretation incl: rfc_walk "incl_loop H" "hash_children H" "\<lambda>p r. hash_children H r p" for H
  by unfold_locales (simp_all add: Let_def)

interpretation cons: rfc_walk "\<lambda>fn sn (fr, sr). cons_loop H fn sn fr sr"
    "\<lambda>c (fr, sr). (hash_children H c fr, hash_children H c sr)"
    "\<lambda>c (fr, sr). (fr, hash_children H sr c)" for H
  by unfold_locales (auto simp: Let_def split: prod.split)

section \<open>Verifiers compute the specification\<close>

lemma split_unique:
  assumes "2 ^ j < n" and "n \<le> 2 ^ Suc j"
  shows "split n = 2 ^ j"
proof -
  have "1 \<le> (2::nat) ^ j" by simp
  with assms(1) have "2 \<le> n" by linarith
  then obtain i where i: "split n = 2 ^ i" "2 ^ i < n" "n \<le> 2 ^ Suc i" using split_pow2 by blast
  from i assms have "(2::nat) ^ i < 2 ^ Suc j" "(2::nat) ^ j < 2 ^ Suc i" by linarith+
  then have "i < Suc j" "j < Suc i" by (simp_all only: power_strict_increasing_iff) 
  then show ?thesis using i(1) by simp
qed

lemma incl_fin_ref:
  "m < n \<Longrightarrow> incl.fin H m (n - 1) r path = incl_ref H m n r path"
proof (induction H m n r path rule: incl_ref.induct)
  case (1 H m n r path)
  show ?case
  proof (cases "n \<le> 1 \<or> path = []")
    case True
    with "1.prems" show ?thesis by (cases path) (auto simp: incl_ref.simps)
  next
    case False
    then obtain ps x where path: "path = ps @ [x]" by (cases path rule: rev_cases) auto
    from False obtain j where j: "split n = 2 ^ j" "2 ^ j < n" "n \<le> 2 ^ Suc j"
      using split_pow2 [of n] by auto
    show ?thesis
    proof (cases "m < split n")
      case True
      have "incl.fin H m (2 ^ j - 1) r ps = incl_ref H m (2 ^ j) r ps"
        using "1.IH"(1) [OF _ _ refl refl refl] False True unfolding j(1) path by simp
      with incl.walk_left [of m j "n - 1" H r ps x] True False j show ?thesis
        by (simp add: incl_ref.simps [of H m n] path Let_def)
    next
      case F: False
      have "incl.fin H (m - 2 ^ j) (n - 2 ^ j - 1) r ps = incl_ref H (m - 2 ^ j) (n - 2 ^ j) r ps"
        using "1.IH"(2) [OF _ _ refl refl refl] False F "1.prems" unfolding j(1) path
        by (simp add: diff_less_mono)
      with incl.walk_right [of "m - 2 ^ j" "n - 2 ^ j - 1" j H r ps x] F False j "1.prems"
      show ?thesis by (simp add: incl_ref.simps [of H m n] path Let_def)
    qed
  qed
qed

lemma verify_inclusion_ref:
  "verify_inclusion H m n r root path \<longleftrightarrow> m < n \<and> incl_ref H m n r path = Some root"
  using incl_fin_ref [of m n H r path]
  by (auto simp: verify_inclusion_def incl.fin_def split: option.splits prod.splits if_splits)

lemma strip_ones_left:
  assumes "fn < 2 ^ j" and "2 ^ j \<le> sn" and "sn < 2 ^ Suc j"
  shows "\<exists>i f s. strip_ones fn sn = (f, s) \<and> strip_ones fn (2 ^ j - 1) = (f, 2 ^ i - 1) \<and>
    f < 2 ^ i \<and> 2 ^ i \<le> s \<and> s < 2 ^ Suc i"
  using assms
proof (induction fn sn arbitrary: j rule: strip_ones.induct)
  case (1 fn sn)
  show ?case
  proof (cases "odd fn")
    case False
    with "1.prems" show ?thesis
      by (intro exI [of _ j] exI [of _ fn] exI [of _ sn]) (simp add: strip_ones.simps)
  next
    case True
    with "1.prems" obtain i where i: "j = Suc i" by (cases j) auto
    then show ?thesis
      using "1.IH" [of i] True "1.prems"
      by (simp add: strip_ones.simps [of fn] half_bounds pow2_minus_div2)
  qed
qed

lemma strip_ones_right:
  assumes "a < b" and "b < 2 ^ j"
  shows "\<exists>i f s. strip_ones a b = (f, s) \<and> strip_ones (2 ^ j + a) (2 ^ j + b) = (2 ^ i + f, 2 ^ i + s)
    \<and> f \<le> s \<and> s < 2 ^ i"
  using assms
proof (induction a b arbitrary: j rule: strip_ones.induct)
  case (1 a b)
  then obtain i where i: "j = Suc i" by (cases j) auto
  show ?case
  proof (cases "odd a")
    case False
    with "1.prems" i show ?thesis
      by (intro exI [of _ j] exI [of _ a] exI [of _ b]) (simp add: strip_ones.simps)
  next
    case True
    then have "a div 2 < b div 2" using "1.prems" by presburger
    then show ?thesis
      using "1.IH" [of i] True "1.prems" i
      by (simp add: strip_ones.simps [of a] strip_ones.simps [of "2 * 2 ^ i + a"] half_bounds)
  qed
qed

lemma is_power_of_two_iff: "is_power_of_two n \<longleftrightarrow> (\<exists>j. n = 2 ^ j)"
proof (induction n rule: is_power_of_two.induct)
  case (1 n)
  show ?case
  proof (cases "n = 0 \<or> n = 1")
    case True
    moreover have "\<exists>j. (1 :: nat) = 2 ^ j" by (rule exI [of _ 0]) simp
    ultimately show ?thesis by (elim disjE) (simp_all add: is_power_of_two.simps)
  next
    case False
    have "(\<exists>j. n = 2 ^ j) \<longleftrightarrow> (\<exists>j. n = 2 * 2 ^ j)"
    proof
      assume "\<exists>j. n = 2 ^ j"
      then obtain j where "n = 2 ^ j" ..
      with False show "\<exists>j. n = 2 * 2 ^ j" by (cases j) auto
    next
      assume "\<exists>j. n = 2 * 2 ^ j"
      then show "\<exists>j. n = 2 ^ j" by (metis power_Suc)
    qed
    also have "\<dots> \<longleftrightarrow> even n \<and> (\<exists>j. n div 2 = 2 ^ j)"
      by (metis dvd_mult_div_cancel dvd_triv_left nonzero_mult_div_cancel_left zero_neq_numeral)
    finally have "(\<exists>j. n = 2 ^ j) \<longleftrightarrow> even n \<and> (\<exists>j. n div 2 = 2 ^ j)" .
    with 1 False show ?thesis by (simp add: is_power_of_two.simps [of n])
  qed
qed

lemma strip_ones_all: "strip_ones (2 ^ j - 1) (2 ^ j - 1) = (0, 0)"
proof (induction j)
  case (Suc j)
  then show ?case by (simp add: strip_ones.simps [of "2 * 2 ^ j - Suc 0"] pow2_minus_div2)
qed (simp add: strip_ones.simps)

lemma cons_fin_ref:
  assumes "0 < m" and "m < n \<or> m = n \<and> is_power_of_two n"
  shows "(case strip_ones (m - 1) (n - 1) of (fn, sn) \<Rightarrow> cons.fin H fn sn (h, h) path) =
    cons_ref H m n h path"
  using assms
proof (induction H m n h path rule: cons_ref.induct)
  case (1 H m n h path)
  show ?case
  proof (cases "m = n")
    case True
    with "1.prems" show ?thesis
      by (cases path) (auto simp: is_power_of_two_iff strip_ones_all [simplified] cons_ref.simps)
  next
    case False
    with "1.prems" have mn: "0 < m" "m < n" by auto
    then obtain j where j: "split n = 2 ^ j" "2 ^ j < n" "n \<le> 2 ^ Suc j"
      using split_pow2 [of n] by auto
    show ?thesis
    proof (cases "m \<le> 2 ^ j")
      case le: True
      from mn le j have "m - 1 < 2 ^ j" "2 ^ j \<le> n - 1" "n - 1 < 2 ^ Suc j" by linarith+
      then obtain i f s where z: "strip_ones (m - 1) (n - 1) = (f, s)"
          "strip_ones (m - 1) (2 ^ j - 1) = (f, 2 ^ i - 1)" "f < 2 ^ i" "2 ^ i \<le> s" "s < 2 ^ Suc i"
        using strip_ones_left by blast
      show ?thesis
      proof (cases path rule: rev_cases)
        case Nil
        with z mn show ?thesis by (auto simp: cons_ref.simps)
      next
        case (snoc ps x)
        have "cons.fin H f (2 ^ i - 1) (h, h) ps = cons_ref H m (2 ^ j) h ps"
          using "1.IH"(1) [OF _ _ refl refl refl] mn le z unfolding j(1) snoc
          by (auto simp: is_power_of_two_iff le_less)
        with cons.walk_left [of f i s H "(h, h)" ps x] z mn le j show ?thesis
          by (simp add: cons_ref.simps [of H m n] snoc Let_def)
      qed
    next
      case gt: False
      then have "m - 2 ^ j - 1 < n - 2 ^ j - 1" "n - 2 ^ j - 1 < 2 ^ j" using mn j by auto
      moreover have "m - 1 = 2 ^ j + (m - 2 ^ j - 1)" "n - 1 = 2 ^ j + (n - 2 ^ j - 1)"
        using gt mn by auto
      ultimately obtain i f s where z: "strip_ones (m - 2 ^ j - 1) (n - 2 ^ j - 1) = (f, s)"
          "strip_ones (m - 1) (n - 1) = (2 ^ i + f, 2 ^ i + s)" "f \<le> s" "s < 2 ^ i"
        using strip_ones_right by metis
      show ?thesis
      proof (cases path rule: rev_cases)
        case Nil
        with z mn show ?thesis by (auto simp: cons_ref.simps)
      next
        case (snoc ps x)
        have "cons.fin H f s (h, h) ps = cons_ref H (m - 2 ^ j) (n - 2 ^ j) h ps"
          using "1.IH"(2) [OF _ _ refl refl refl] mn gt z unfolding j(1) snoc
          by (auto simp: diff_less_mono)
        with cons.walk_right [of f s i H "(h, h)" ps x] z mn gt j show ?thesis
          by (simp add: cons_ref.simps [of H m n] snoc Let_def)
      qed
    qed
  qed
qed

lemma verify_consistency_ref:
  assumes "0 < m" and "m < n"
  shows "verify_consistency H m n r1 r2 path \<longleftrightarrow>
    (case cons_work m r1 path of [] \<Rightarrow> False | h # rest \<Rightarrow> cons_ref H m n h rest = Some (r1, r2))"
proof (cases "cons_work m r1 path")
  case Nil
  with assms show ?thesis by (auto simp: verify_consistency_def cons_work_def split: list.splits)
next
  case (Cons h rest)
  obtain fn sn where z: "strip_ones (m - 1) (n - 1) = (fn, sn)" by fastforce
  then have "cons.fin H fn sn (h, h) rest = cons_ref H m n h rest"
    using cons_fin_ref [of m n H h rest] assms by simp
  with z assms Cons show ?thesis
    by (auto simp: verify_consistency_def cons_work_def [symmetric] Let_def cons.fin_def
        split: option.splits prod.splits if_splits)
qed

section \<open>Generated proofs verify\<close>

lemma tree_hash_split:
  assumes "2 \<le> length d" and "k = split (length d)"
  shows "tree_hash H d = hash_children H (tree_hash H (take k d)) (tree_hash H (drop k d))"
  using assms by (subst tree_hash.simps) (auto simp: Let_def)

lemma inclusion_path_ref:
  "m < length d \<Longrightarrow>
    incl_ref H m (length d) (hash_leaf H (d ! m)) (inclusion_path H d m) = Some (tree_hash H d)"
proof (induction H d m rule: inclusion_path.induct)
  case (1 H d m)
  show ?case
  proof (cases "length d \<le> 1")
    case True
    with "1.prems" have "m = 0" "length d = 1" by auto
    then show ?thesis by (simp add: incl_ref.simps inclusion_path.simps tree_hash.simps)
  next
    case False
    define k where "k = split (length d)"
    have k: "k < length d" using False split_less [of "length d"] by (simp add: k_def)
    note split = tree_hash_split [of d k H, OF _ k_def]
    show ?thesis
    proof (cases "m < k")
      case True
      have "incl_ref H m k (hash_leaf H (d ! m)) (inclusion_path H (take k d) m) =
          Some (tree_hash H (take k d))"
        using "1.IH"(1) [OF False k_def True] True k by simp
      with True False split show ?thesis
        by (simp add: incl_ref.simps [of H m] inclusion_path.simps [of H d m] Let_def
            k_def [symmetric])
    next
      case F: False
      have "incl_ref H (m - k) (length d - k) (hash_leaf H (d ! m))
            (inclusion_path H (drop k d) (m - k)) = Some (tree_hash H (drop k d))"
        using "1.IH"(2) [OF False k_def F] F k "1.prems" by simp
      with F False split show ?thesis
        by (simp add: incl_ref.simps [of H m] inclusion_path.simps [of H d m] Let_def
            k_def [symmetric])
    qed
  qed
qed

text \<open>A subproof is the path \<open>cons_ref\<close> consumes, headed by the prefix's last complete subtree
  unless the flag leaves that head to be the prefix's own root.\<close>

lemma subproof_ref:
  assumes "0 < m" and "m \<le> length d"
  shows "\<exists>h rest. subproof H d m b = (if b \<and> is_power_of_two m \<or> b \<and> m = length d then [] else [h]) @ rest \<and>
    cons_ref H m (length d) h rest = Some (tree_hash H (take m d), tree_hash H d) \<and>
    (is_power_of_two m \<or> m = length d \<longrightarrow> h = tree_hash H (take m d))"
  using assms
proof (induction H d m b rule: subproof.induct)
  case (1 H d m b)
  show ?case
  proof (cases "m = length d")
    case True
    then show ?thesis
      by (intro exI [of _ "tree_hash H d"] exI [of _ "[]"])
        (simp add: subproof.simps cons_ref.simps)
  next
    case False
    with "1.prems" have mn: "0 < m" "m < length d" "\<not> length d \<le> 1" by auto
    then obtain j where j: "split (length d) = 2 ^ j" "2 ^ j < length d" "length d \<le> 2 ^ Suc j"
      using split_pow2 [of "length d"] by auto
    define k where "k = split (length d)"
    have k: "0 < k" "k < length d" using j by (simp_all add: k_def)
    note split = tree_hash_split [of d k H, OF _ k_def]
    show ?thesis
    proof (cases "m \<le> k")
      case True
      obtain h rest where IH:
        "subproof H (take k d) m b = (if b \<and> is_power_of_two m \<or> b \<and> m = k then [] else [h]) @ rest"
        "cons_ref H m k h rest = Some (tree_hash H (take m d), tree_hash H (take k d))"
        "is_power_of_two m \<or> m = k \<longrightarrow> h = tree_hash H (take m d)"
        using "1.IH"(1) [OF False mn(3) k_def True] mn True k by (auto simp: min_absorb1)
      have pow: "m = k \<Longrightarrow> is_power_of_two m" using j k_def by (auto simp: is_power_of_two_iff)
      have "subproof H d m b = subproof H (take k d) m b @ [tree_hash H (drop k d)]"
        using mn False True by (simp add: subproof.simps [of H d m] Let_def k_def)
      moreover have "cons_ref H m (length d) h (rest @ [tree_hash H (drop k d)]) =
          Some (tree_hash H (take m d), tree_hash H d)"
        using mn False True split IH(2)
        by (simp add: cons_ref.simps [of H m "length d"] Let_def k_def [symmetric])
      ultimately show ?thesis using pow IH(1,3) False
        by (intro exI [of _ h] exI [of _ "rest @ [tree_hash H (drop k d)]"]) auto
    next
      case F: False
      obtain h rest where
        IH: "subproof H (drop k d) (m - k) False = h # rest"
        "cons_ref H (m - k) (length d - k) h rest =
           Some (tree_hash H (take (m - k) (drop k d)), tree_hash H (drop k d))"
        using "1.IH"(2) [OF False mn(3) k_def F] mn F k by (auto simp: diff_le_mono)
      have "split m = k" using split_unique [of j m] F j mn by (simp add: k_def)
      then have m: "tree_hash H (take m d) =
          hash_children H (tree_hash H (take k d)) (tree_hash H (take (m - k) (drop k d)))"
        using tree_hash_split [of "take m d" k H] mn F k by (simp add: take_drop min_absorb1)
      have "\<not> is_power_of_two m"
      proof
        assume "is_power_of_two m"
        then obtain i where i: "m = 2 ^ i" by (auto simp: is_power_of_two_iff)
        with F j mn have "(2::nat) ^ j < 2 ^ i" "(2::nat) ^ i < 2 ^ Suc j"
          by (simp_all add: k_def)
        then have "j < i" "i < Suc j" by (simp_all only: power_strict_increasing_iff)
        then show False by simp
      qed
      moreover have "subproof H d m b = h # rest @ [tree_hash H (take k d)]"
        using mn False F IH(1) by (simp add: subproof.simps [of H d m] Let_def k_def)
      moreover have "cons_ref H m (length d) h (rest @ [tree_hash H (take k d)]) =
          Some (tree_hash H (take m d), tree_hash H d)"
        using mn False F split m IH(2)
        by (simp add: cons_ref.simps [of H m "length d"] Let_def k_def [symmetric])
      ultimately show ?thesis using False
        by (intro exI [of _ h] exI [of _ "rest @ [tree_hash H (take k d)]"]) simp
    qed
  qed
qed

section \<open>A verified proof pins what it claims\<close>

lemma length_tree_hash: "(\<And>x. length (H x) = 32) \<Longrightarrow> length (tree_hash H d) = 32"
  by (subst tree_hash.simps) (simp add: hash_leaf_def hash_children_def Let_def)

lemma length_incl_ref:
  "incl_ref H m n r path = Some r' \<Longrightarrow> (\<And>x. length (H x) = 32) \<Longrightarrow> length r = 32 \<Longrightarrow> length r' = 32"
  by (subst (asm) incl_ref.simps) (auto simp: hash_children_def Let_def split: if_splits)

lemma length_cons_ref:
  "cons_ref H m n h path = Some (fr, sr) \<Longrightarrow> (\<And>x. length (H x) = 32) \<Longrightarrow> length h = 32 \<Longrightarrow>
    length fr = 32 \<and> length sr = 32"
proof (induction H m n h path arbitrary: fr sr rule: cons_ref.induct)
  case (1 H m n h path)
  show ?case
  proof (cases "m = n \<or> n \<le> 1 \<or> path = []")
    case True
    with "1.prems" show ?thesis by (subst (asm) cons_ref.simps) (auto split: if_splits)
  next
    case False
    with "1.prems" show ?thesis
      using "1.IH"(1) [OF _ _ refl refl refl]
      by (subst (asm) cons_ref.simps) (auto simp: hash_children_def Let_def split: if_splits)
  qed
qed

lemma hash_children_inj:
  assumes "hash_children H a b = hash_children H c d"
    and "inj_on H S" and "CHR 0x01 # a @ b \<in> S" and "CHR 0x01 # c @ d \<in> S"
    and "length a = length c"
  shows "a = c \<and> b = d"
  using assms by (auto simp: hash_children_def dest!: inj_onD)

lemma tree_inputs_split:
  assumes "2 \<le> length d" and "k = split (length d)"
  shows "set (tree_inputs H d) = insert (CHR 0x01 # tree_hash H (take k d) @ tree_hash H (drop k d))
    (set (tree_inputs H (take k d)) \<union> set (tree_inputs H (drop k d)))"
  using assms by (subst tree_inputs.simps) (auto simp: Let_def)

lemma tree_hash_inj:
  assumes "tree_hash H d = tree_hash H e" and "length d = length e"
    and "\<And>x. length (H x) = 32"
    and "inj_on H S" and "set (tree_inputs H d) \<subseteq> S" and "set (tree_inputs H e) \<subseteq> S"
  shows "d = e"
  using assms
proof (induction H d arbitrary: e rule: tree_hash.induct)
  case (1 H d)
  consider "length d = 0" | "length d = 1" | "2 \<le> length d" by linarith
  then show ?case
  proof cases
    case 1
    with "1.prems" show ?thesis by simp
  next
    case 2
    then obtain a b where "d = [a]" "e = [b]" using "1.prems"(2)
      by (metis One_nat_def length_0_conv length_Suc_conv)
    with "1.prems" show ?thesis
      by (auto simp: tree_hash.simps hash_leaf_def tree_inputs.simps dest!: inj_onD)
  next
    case 3
    define k where "k = split (length d)"
    have k: "k < length d" using split_less 3 by (simp add: k_def)
    note in_d = tree_inputs_split [of d k H, OF 3 k_def]
      and in_e = tree_inputs_split [of e k H, OF 3 [unfolded "1.prems"(2)] k_def [unfolded "1.prems"(2)]]
    have "tree_hash H (take k d) = tree_hash H (take k e) \<and>
        tree_hash H (drop k d) = tree_hash H (drop k e)"
      using "1.prems" 3 tree_hash_split [of d k H] tree_hash_split [of e k H] in_d in_e
      by (intro hash_children_inj [of H _ _ _ _ S]) (auto simp: k_def length_tree_hash)
    moreover have ne: "e \<noteq> []" using 3 "1.prems"(2) by auto
    ultimately have "take k d = take k e \<and> drop k d = drop k e"
      using "1.IH"(1) [OF _ _ k_def, of "take k e"] "1.IH"(2) [OF _ _ k_def, of "drop k e"]
        "1.prems" in_d in_e 3 ne by simp
    then show ?thesis by (metis append_take_drop_id)
  qed
qed

lemma incl_ref_sound:
  assumes "incl_ref H m (length d) (hash_leaf H x) path = Some (tree_hash H d)" and "m < length d"
    and "\<And>b. length (H b) = 32" and "\<forall>p \<in> set path. length p = 32"
    and "inj_on H S" and "set (tree_inputs H d) \<subseteq> S" and "CHR 0x00 # x \<in> S"
    and "set (incl_inputs H m (length d) (hash_leaf H x) path) \<subseteq> S"
  shows "d ! m = x"
  using assms
proof (induction "length path" arbitrary: d m path)
  case 0
  then have "length d = 1" by (auto simp: incl_ref.simps split: if_splits)
  then obtain a where "d = [a]" by (metis One_nat_def length_0_conv length_Suc_conv)
  with 0 show ?case
    by (auto simp: incl_ref.simps tree_hash.simps tree_inputs.simps hash_leaf_def dest!: inj_onD)
next
  case (Suc l)
  then obtain ps y where path: "path = ps @ [y]" by (cases path rule: rev_cases) auto
  with Suc.prems(1) have two: "2 \<le> length d"
    by (subst (asm) incl_ref.simps) (auto split: if_splits)
  define k where "k = split (length d)"
  have k: "k < length d" using split_less two by (simp add: k_def)
  note th = tree_hash_split [OF two k_def, of H] and ti = tree_inputs_split [OF two k_def, of H]
  note lens = length_tree_hash [of H, OF Suc.prems(3)] 
  have hl: "length (hash_leaf H x) = 32" by (simp add: hash_leaf_def Suc.prems(3))
  show ?case
  proof (cases "m < k")
    case True
    with Suc.prems(1) two obtain r' where r': "incl_ref H m k (hash_leaf H x) ps = Some r'"
        "hash_children H r' y = tree_hash H d"
      by (subst (asm) incl_ref.simps) (auto simp: path Let_def k_def split: if_splits)
    have ins: "set (incl_inputs H m (length d) (hash_leaf H x) path) =
        insert (CHR 0x01 # r' @ y) (set (incl_inputs H m k (hash_leaf H x) ps))"
      using True two r' by (subst incl_inputs.simps) (auto simp: path Let_def k_def)
    have "r' = tree_hash H (take k d) \<and> y = tree_hash H (drop k d)"
      using r'(2) th ti ins Suc.prems length_incl_ref [OF r'(1) _ hl] lens
      by (intro hash_children_inj [of H _ _ _ _ S]) auto
    then have "take k d ! m = x"
      using Suc.hyps(1) [of ps m "take k d"] r' ins ti Suc.prems Suc.hyps(2) True k
      by (simp add: path)
    with True show ?thesis by simp
  next
    case False
    with Suc.prems(1) two obtain r' where r': "incl_ref H (m - k) (length d - k) (hash_leaf H x) ps = Some r'"
        "hash_children H y r' = tree_hash H d"
      by (subst (asm) incl_ref.simps) (auto simp: path Let_def k_def split: if_splits)
    have ins: "set (incl_inputs H m (length d) (hash_leaf H x) path) =
        insert (CHR 0x01 # y @ r') (set (incl_inputs H (m - k) (length d - k) (hash_leaf H x) ps))"
      using False two r' by (subst incl_inputs.simps) (auto simp: path Let_def k_def)
    have "y = tree_hash H (take k d) \<and> r' = tree_hash H (drop k d)"
      using r'(2) th ti ins Suc.prems lens
      by (intro hash_children_inj [of H _ _ _ _ S]) (auto simp: path)
    then have "drop k d ! (m - k) = x"
      using Suc.hyps(1) [of ps "m - k" "drop k d"] r' ins ti Suc.prems Suc.hyps(2) False k
      by (simp add: path diff_less_mono)
    with False k show ?thesis by simp
  qed
qed

lemma cons_ref_sound:
  assumes "cons_ref H (length d1) (length d2) h path = Some (tree_hash H d1, tree_hash H d2)"
    and "0 < length d1" and "length d1 \<le> length d2"
    and "\<And>b. length (H b) = 32" and "\<forall>p \<in> set path. length p = 32" and "length h = 32"
    and "inj_on H S" and "set (tree_inputs H d1) \<subseteq> S" and "set (tree_inputs H d2) \<subseteq> S"
    and "set (cons_inputs H (length d1) (length d2) h path) \<subseteq> S"
  shows "d1 = take (length d1) d2"
  using assms
proof (induction "length path" arbitrary: d1 d2 path)
  case 0
  then have "length d1 = length d2" "tree_hash H d1 = tree_hash H d2"
    by (auto simp: cons_ref.simps le_Suc_eq split: if_splits)
  then show ?case using tree_hash_inj [of H d1 d2 S] 0 by simp
next
  case (Suc l)
  then obtain ps y where path: "path = ps @ [y]" by (cases path rule: rev_cases) auto
  with Suc.prems have ne: "length d1 \<noteq> length d2" and two: "2 \<le> length d2"
    by (auto simp: cons_ref.simps split: if_splits)
  define k where "k = split (length d2)"
  obtain j where j: "k = 2 ^ j" "k < length d2" "length d2 \<le> 2 ^ Suc j"
    using split_pow2 [OF two] by (auto simp: k_def)
  note th2 = tree_hash_split [OF two k_def, of H] and ti2 = tree_inputs_split [OF two k_def, of H]
  note lens = length_tree_hash [of H, OF Suc.prems(4)]
  show ?case
  proof (cases "length d1 \<le> k")
    case True
    with Suc.prems(1) two ne obtain sr where sr:
        "cons_ref H (length d1) k h ps = Some (tree_hash H d1, sr)"
        "hash_children H sr y = tree_hash H d2"
      by (subst (asm) cons_ref.simps) (auto simp: path Let_def k_def split: if_splits)
    have ins: "set (cons_inputs H (length d1) (length d2) h path) =
        insert (CHR 0x01 # sr @ y) (set (cons_inputs H (length d1) k h ps))"
      using True two ne sr by (subst cons_inputs.simps) (auto simp: path Let_def k_def)
    have "length sr = 32" using length_cons_ref [OF sr(1)] Suc.prems by auto
    then have "sr = tree_hash H (take k d2) \<and> y = tree_hash H (drop k d2)"
      using sr(2) th2 ti2 ins Suc.prems lens
      by (intro hash_children_inj [of H _ _ _ _ S]) auto
    then have "d1 = take (length d1) (take k d2)"
      using Suc.hyps(1) [of ps d1 "take k d2"] sr ins ti2 Suc.prems Suc.hyps(2) True j
      by (simp add: path)
    with True show ?thesis by (simp add: min_absorb1)
  next
    case False
    then have two1: "2 \<le> length d1" using j by (cases j) auto
    have k1: "k = split (length d1)" using split_unique [of j "length d1"] False j Suc.prems(3) by simp
    note th1 = tree_hash_split [OF two1 k1, of H] and ti1 = tree_inputs_split [OF two1 k1, of H]
    from False Suc.prems(1) two ne obtain fr sr where r:
        "cons_ref H (length d1 - k) (length d2 - k) h ps = Some (fr, sr)"
        "hash_children H y fr = tree_hash H d1" "hash_children H y sr = tree_hash H d2"
      by (subst (asm) cons_ref.simps) (auto simp: path Let_def k_def split: if_splits)
    have ins: "set (cons_inputs H (length d1) (length d2) h path) =
        {CHR 0x01 # y @ fr, CHR 0x01 # y @ sr} \<union> set (cons_inputs H (length d1 - k) (length d2 - k) h ps)"
      using False two ne r by (subst cons_inputs.simps) (auto simp: path Let_def k_def)
    have "y = tree_hash H (take k d1) \<and> fr = tree_hash H (drop k d1)"
      using r(2) th1 ti1 ins Suc.prems lens
      by (intro hash_children_inj [of H _ _ _ _ S]) (auto simp: path)
    moreover have "y = tree_hash H (take k d2) \<and> sr = tree_hash H (drop k d2)"
      using r(3) th2 ti2 ins Suc.prems lens
      by (intro hash_children_inj [of H _ _ _ _ S]) (auto simp: path)
    moreover have "take k d1 = take k d2"
    proof (rule tree_hash_inj [OF _ _ Suc.prems(4) Suc.prems(7)])
      show "tree_hash H (take k d1) = tree_hash H (take k d2)" using calculation by simp
      show "length (take k d1) = length (take k d2)" using False j(2) by simp
      show "set (tree_inputs H (take k d1)) \<subseteq> S" using ti1 Suc.prems(8) by auto
      show "set (tree_inputs H (take k d2)) \<subseteq> S" using ti2 Suc.prems(9) by auto
    qed
    moreover have "drop k d1 = take (length d1 - k) (drop k d2)"
      using Suc.hyps(1) [of ps "drop k d1" "drop k d2"] calculation r ins ti1 ti2 Suc.prems
        Suc.hyps(2) False by (simp add: path diff_le_mono)
    ultimately have "take k d1 @ drop k d1 = take (k + (length d1 - k)) d2"
      by (simp only: take_add)
    then show ?thesis using False by simp
  qed
qed

section \<open>Properties\<close>

text \<open>Every inclusion proof the generator produces verifies: for an index inside the log the
  generator returns a path, and the verifier accepts it for that leaf, size and root.\<close>

theorem inclusion_proof_verifies:
  assumes "m < length d"
  shows "\<exists>path. inclusion_proof H d m = Some path \<and>
    verify_inclusion H m (length d) (hash_leaf H (d ! m)) (tree_hash H d) path"
  using assms inclusion_path_ref [OF assms]
  by (simp add: inclusion_proof_def verify_inclusion_ref)

theorem inclusion_proof_verifies_witness:
  "\<exists>path. inclusion_proof pad32 [''a'', ''b'', ''c''] 2 = Some path \<and>
    verify_inclusion pad32 2 3 (hash_leaf pad32 ''c'') (tree_hash pad32 [''a'', ''b'', ''c'']) path"
  using inclusion_proof_verifies [of 2 "[''a'', ''b'', ''c'']" pad32]
  by (simp add: numeral_eq_Suc)

lemma consistency_proof_ok:
  assumes "0 < m" and "m \<le> length d"
  shows "\<exists>path. consistency_proof H d m = Some path \<and>
    verify_consistency H m (length d) (tree_hash H (take m d)) (tree_hash H d) path"
proof (cases "m = length d")
  case True
  with assms show ?thesis
    by (simp add: consistency_proof_def verify_consistency_def subproof.simps)
next
  case False
  with assms obtain h rest where
    "subproof H d m True = (if is_power_of_two m then [] else [h]) @ rest"
    "cons_ref H m (length d) h rest = Some (tree_hash H (take m d), tree_hash H d)"
    "is_power_of_two m \<longrightarrow> h = tree_hash H (take m d)"
    using subproof_ref [of m d H True] by auto
  moreover from this have "cons_work m (tree_hash H (take m d)) (subproof H d m True) = h # rest"
    by (auto simp: cons_work_def)
  ultimately show ?thesis using assms False
    by (simp add: consistency_proof_def verify_consistency_ref)
qed

text \<open>Every consistency proof verifies.\<close>

theorem consistency_proof_verifies:
  assumes "0 < m" and "m \<le> length d"
  shows "\<exists>path. consistency_proof H d m = Some path \<and>
    verify_consistency H m (length d) (tree_hash H (take m d)) (tree_hash H d) path"
  using assms by (rule consistency_proof_ok)

theorem consistency_proof_verifies_witness:
  "\<exists>path. consistency_proof pad32 [''a'', ''b'', ''c''] 2 = Some path \<and>
    verify_consistency pad32 2 3 (tree_hash pad32 [''a'', ''b'']) (tree_hash pad32 [''a'', ''b'', ''c'']) path"
  using consistency_proof_verifies [of 2 "[''a'', ''b'', ''c'']" pad32]
  by (simp add: numeral_eq_Suc)

text \<open>C18: an accepted inclusion proof is about the leaf at that index.\<close>

theorem verify_inclusion_sound:
  assumes "verify_inclusion H m (length d) (hash_leaf H x) (tree_hash H d) path"
    and "\<forall>b. length (H b) = 32" and "\<forall>p \<in> set path. length p = 32"
    and "inj_on H (set (tree_inputs H d) \<union> {CHR 0x00 # x} \<union>
                   set (incl_inputs H m (length d) (hash_leaf H x) path))"
  shows "m < length d \<and> d ! m = x"
  using assms incl_ref_sound [OF _ _ _ _ assms(4), where path = path and m = m]
  by (auto simp: verify_inclusion_ref)

lemma length_pad32: "length (pad32 b) = 32"
  by (simp add: pad32_def)

theorem verify_inclusion_sound_witness:
  "1 < length [''a'', ''b''] \<and> [''a'', ''b''] ! 1 = ''b''"
proof -
  have "verify_inclusion pad32 1 (length [''a'', ''b'']) (hash_leaf pad32 ''b'')
      (tree_hash pad32 [''a'', ''b'']) [hash_leaf pad32 ''a'']"
    by code_simp
  moreover have "inj_on pad32 (set (tree_inputs pad32 [''a'', ''b'']) \<union> {CHR 0x00 # ''b''} \<union>
      set (incl_inputs pad32 1 (length [''a'', ''b'']) (hash_leaf pad32 ''b'') [hash_leaf pad32 ''a'']))"
    by code_simp
  ultimately show ?thesis
    by (intro verify_inclusion_sound [of pad32 1 _ _ "[hash_leaf pad32 ''a'']"])
      (simp_all add: length_pad32 hash_leaf_def)
qed

text \<open>C17: an accepted consistency proof is about a prefix.\<close>

theorem verify_consistency_sound:
  assumes "verify_consistency H (length d1) (length d2) (tree_hash H d1) (tree_hash H d2) path"
    and "\<forall>b. length (H b) = 32" and "\<forall>p \<in> set path. length p = 32"
    and "inj_on H (set (tree_inputs H d1) \<union> set (tree_inputs H d2) \<union>
      (case cons_work (length d1) (tree_hash H d1) path of [] \<Rightarrow> {}
       | h # rest \<Rightarrow> set (cons_inputs H (length d1) (length d2) h rest)))"
  shows "0 < length d1 \<and> length d1 \<le> length d2 \<and> d1 = take (length d1) d2"
proof -
  have len: "0 < length d1" "length d1 \<le> length d2"
    using assms(1) by (auto simp: verify_consistency_def split: if_splits)
  show ?thesis
  proof (cases "length d1 = length d2")
    case True
    with assms(1) have "tree_hash H d1 = tree_hash H d2" 
      by (simp add: verify_consistency_def split: if_splits)
    then have "d1 = d2" using True assms(2,4) by (intro tree_hash_inj [of H d1 d2]) auto
    with len show ?thesis by simp
  next
    case False
    with len assms(1) obtain h rest where w: "cons_work (length d1) (tree_hash H d1) path = h # rest"
        "cons_ref H (length d1) (length d2) h rest = Some (tree_hash H d1, tree_hash H d2)"
      by (auto simp: verify_consistency_ref split: list.splits)
    have "length h = 32" "\<forall>p \<in> set rest. length p = 32"
      using w(1) assms(2,3) length_tree_hash [of H d1] by (auto simp: cons_work_def split: if_splits)
    with w len assms(2,4) show ?thesis
      by (auto intro!: cons_ref_sound [of H d1 d2 h rest])
  qed
qed

theorem verify_consistency_sound_witness:
  "0 < length [''a''] \<and> length [''a''] \<le> length [''a'', ''b''] \<and>
    [''a''] = take (length [''a'']) [''a'', ''b'']"
proof -
  have "verify_consistency pad32 (length [''a'']) (length [''a'', ''b'']) (tree_hash pad32 [''a''])
      (tree_hash pad32 [''a'', ''b'']) [hash_leaf pad32 ''b'']"
    by code_simp
  moreover have "inj_on pad32 (set (tree_inputs pad32 [''a'']) \<union> set (tree_inputs pad32 [''a'', ''b'']) \<union>
      (case cons_work (length [''a'']) (tree_hash pad32 [''a'']) [hash_leaf pad32 ''b''] of [] \<Rightarrow> {}
       | h # rest \<Rightarrow> set (cons_inputs pad32 (length [''a'']) (length [''a'', ''b'']) h rest)))"
    by code_simp
  ultimately show ?thesis
    by (intro verify_consistency_sound [of pad32 _ _ "[hash_leaf pad32 ''b'']"])
      (simp_all add: length_pad32 hash_leaf_def)
qed

end
