(* ===== verification/Json.thy ===== *)
theory Json
  imports Prelude "HOL-Library.Word"
begin

text \<open>
  The part of \<open>serde_json::Value\<close> the program reads: the six constructors, and the
  accessors the code calls. An object is a \<open>BTreeMap\<close> (the workspace does not enable
  \<open>preserve_order\<close>), so it is an ordered association list; a number is an unsigned or a
  negative integer, or the bits of a double.
\<close>

datatype jnum = PosInt nat | NegInt int | Float "64 word"

datatype json =
    JNull
  | JBool bool
  | JNumber jnum
  | JString string
  | JArray "json list"
  | JObject "(string \<times> json) list"

type_synonym jmap = "(string \<times> json) list"

definition jget :: "json \<Rightarrow> string \<Rightarrow> json option" where
  "jget v k = (case v of JObject m \<Rightarrow> bm_get m k | _ \<Rightarrow> None)"

definition as_str :: "json \<Rightarrow> string option" where
  "as_str v = (case v of JString s \<Rightarrow> Some s | _ \<Rightarrow> None)"

definition as_bool :: "json \<Rightarrow> bool option" where
  "as_bool v = (case v of JBool b \<Rightarrow> Some b | _ \<Rightarrow> None)"

definition as_array :: "json \<Rightarrow> json list option" where
  "as_array v = (case v of JArray a \<Rightarrow> Some a | _ \<Rightarrow> None)"

definition as_object :: "json \<Rightarrow> jmap option" where
  "as_object v = (case v of JObject m \<Rightarrow> Some m | _ \<Rightarrow> None)"

definition as_i64 :: "json \<Rightarrow> int option" where
  "as_i64 v = (case v of
      JNumber (PosInt n) \<Rightarrow> if int n \<le> i64_max then Some (int n) else None
    | JNumber (NegInt i) \<Rightarrow> Some i
    | _ \<Rightarrow> None)"

definition as_u64 :: "json \<Rightarrow> nat option" where
  "as_u64 v = (case v of JNumber (PosInt n) \<Rightarrow> Some n | _ \<Rightarrow> None)"

text \<open>\<open>Value::get\<close> chained through \<open>and_then\<close>.\<close>

definition jget_str :: "json \<Rightarrow> string \<Rightarrow> string option" where
  "jget_str v k = Option.bind (jget v k) as_str"

definition unwrap_or :: "'a \<Rightarrow> 'a option \<Rightarrow> 'a" where
  "unwrap_or d m = (case m of None \<Rightarrow> d | Some x \<Rightarrow> x)"

definition is_object :: "json \<Rightarrow> bool" where
  "is_object v = (case v of JObject _ \<Rightarrow> True | _ \<Rightarrow> False)"

definition is_string :: "json \<Rightarrow> bool" where
  "is_string v = (case v of JString _ \<Rightarrow> True | _ \<Rightarrow> False)"

lemma as_str_JString [simp]: "as_str (JString s) = Some s"
  by (simp add: as_str_def)

lemma as_str_eq_Some: "as_str v = Some s \<longleftrightarrow> v = JString s"
  by (cases v) (simp_all add: as_str_def)

lemma as_object_eq_Some: "as_object v = Some m \<longleftrightarrow> v = JObject m"
  by (cases v) (simp_all add: as_object_def)

lemma as_array_eq_Some: "as_array v = Some a \<longleftrightarrow> v = JArray a"
  by (cases v) (simp_all add: as_array_def)

lemma jget_JObject [simp]: "jget (JObject m) k = bm_get m k"
  by (simp add: jget_def)

lemma unwrap_or_simps [simp]: "unwrap_or d None = d" "unwrap_or d (Some x) = x"
  by (simp_all add: unwrap_or_def)

end
