(* ===== verification/Graph.thy ===== *)
theory Graph
  imports Json
begin

text \<open>
  The authority graph of \<open>decern-kernel/src/graph.rs\<close>: the directory of principals,
  resources and organizations, its parser from Cedar entities JSON, the walks over it
  (\<open>ancestors_of\<close>, \<open>revoked\<close>, \<open>descendants_of\<close>, \<open>first_cycle_id\<close>) and
  the load-time check \<open>validate\<close>.

  The violation strings of the code are the constructors of \<open>violation\<close>, carrying the
  values the code formats. The walks keep their \<open>seen\<close> set as a list. Both uses of the
  cycle check, over delegators and over organization parents, go through the locale
  \<open>linked_nodes\<close>.
\<close>

section \<open>The code\<close>

record principal_rec =
  p_id :: string
  p_kind :: string
  p_tenant :: string
  p_expiry :: int
  p_scopes :: "string list"
  p_delegator :: "string option"
  p_org :: "string option"
  p_roles :: "string list"
  p_jurisdictions :: "string list"
  p_revoked :: bool

record resource_rec =
  r_id :: string
  r_owner :: string
  r_tenant :: string
  r_org :: "string option"
  r_sensitivity :: "string option"
  r_residency :: "string option"
  r_viewers :: "string list"

definition reserved_tenant :: string where
  "reserved_tenant = ''__system__''"

record org_rec =
  o_id :: string
  o_tenant :: string
  o_parent :: "string option"

record directory =
  principals :: "(string, principal_rec) bmap"
  resources :: "(string, resource_rec) bmap"
  orgs :: "(string, org_rec) bmap"

definition default_directory :: directory where
  "default_directory = \<lparr>principals = [], resources = [], orgs = []\<rparr>"

datatype ref_error =
    RefNotArray string
  | RefMissing string nat
  | RefWrongType string string string
  | RefUnparseable string

text \<open>One constructor per message shape: the entity's type and id, then the values formatted in.
  The \<open>does not exist\<close>, \<open>tenant\<close>, \<open>exceed\<close> and \<open>cycle\<close> messages carry which
  attribute they are about.\<close>

datatype (plugins del: size quickcheck_random quickcheck_exhaustive quickcheck_narrowing) violation =
    EntitiesNotArray
  | MissingUid nat
  | MissingAttrs string string
  | BadRef string string ref_error
  | RevokedNotBool string
  | MissingTenant string string
  | MissingExpiry string
  | MissingOwner string
  | DuplicateUid string string
  | UnknownType string string
  | DoesNotExist string string string string
  | TenantMismatch string string string string string
  | ExpiryOutlives string int string int
  | Exceeds string string string "string list"
  | Cycle string string string
  | ReservedTenant string string
  | OwnerOrgDiffers string string string string

subsection \<open>Attributes\<close>

definition attr_str :: "jmap \<Rightarrow> string \<Rightarrow> string option" where
  "attr_str attrs name = Option.bind (bm_get attrs name) as_str"

definition attr_set :: "jmap \<Rightarrow> string \<Rightarrow> string list" where
  "attr_set attrs name =
     (case Option.bind (bm_get attrs name) as_array of
        None \<Rightarrow> []
      | Some a \<Rightarrow> bs_of_list (List.map_filter as_str a))"

definition attr_entity_ref :: "jmap \<Rightarrow> string \<Rightarrow> string \<Rightarrow> ref_error + string option" where
  "attr_entity_ref attrs name expected_type =
     (case bm_get attrs name of
        None \<Rightarrow> Inr None
      | Some v \<Rightarrow>
          (let inner = unwrap_or v (jget v ''__entity'') in
           case (jget_str inner ''type'', jget_str inner ''id'') of
             (Some t, Some i) \<Rightarrow>
               if t = expected_type then Inr (Some i)
               else Inl (RefWrongType name t expected_type)
           | _ \<Rightarrow> Inl (RefUnparseable name)))"

fun attr_entity_elems :: "string \<Rightarrow> string \<Rightarrow> nat \<Rightarrow> json list \<Rightarrow> string list \<Rightarrow> ref_error + string list" where
  "attr_entity_elems name expected_type i [] out = Inr (bs_of_list out)"
| "attr_entity_elems name expected_type i (elem # es) out =
     res_bind (attr_entity_ref [(name, elem)] name expected_type) (\<lambda>r.
       case r of
         Some ident \<Rightarrow> attr_entity_elems name expected_type (Suc i) es (ident # out)
       | None \<Rightarrow> Inl (RefMissing name i))"

definition attr_entity_set :: "jmap \<Rightarrow> string \<Rightarrow> string \<Rightarrow> ref_error + string list" where
  "attr_entity_set attrs name expected_type =
     (case bm_get attrs name of
        None \<Rightarrow> Inr []
      | Some v \<Rightarrow>
          (case as_array v of
             None \<Rightarrow> Inl (RefNotArray name)
           | Some arr \<Rightarrow> attr_entity_elems name expected_type 0 arr []))"

subsection \<open>The cycle walk\<close>

text \<open>\<open>lookup\<close> is the directory map both callers pass; the walk ends because every
  step adds a key of that map to \<open>seen\<close>.\<close>

function cycle_walk ::
  "('n \<Rightarrow> string option) \<Rightarrow> (string, 'n) bmap \<Rightarrow> string list \<Rightarrow> 'n \<Rightarrow> string option" where
  "cycle_walk next_of nodes seen cur =
     (case next_of cur of
        None \<Rightarrow> None
      | Some next_id \<Rightarrow>
          if next_id \<in> set seen then Some next_id
          else (case bm_get nodes next_id of
                  None \<Rightarrow> None
                | Some n \<Rightarrow> cycle_walk next_of nodes (next_id # seen) n))"
  by pat_completeness auto
termination
proof (relation "measure (\<lambda>(next_of, nodes, seen, cur). card (fst ` set nodes - set seen))", goal_cases)
  case (2 next_of nodes seen cur next_id n)
  then have "next_id \<in> fst ` set nodes" using bm_get_SomeD by force
  with 2 show ?case by (simp only: in_measure prod.case) (rule card_unseen_less [of _ next_id], auto)
qed simp

definition first_cycle_id ::
  "('n \<Rightarrow> string) \<Rightarrow> ('n \<Rightarrow> string option) \<Rightarrow> (string, 'n) bmap \<Rightarrow> 'n \<Rightarrow> string option" where
  "first_cycle_id id_of next_of nodes start = cycle_walk next_of nodes [id_of start] start"

subsection \<open>Parsing\<close>

text \<open>One entity of the list: the directory after it and the violations it adds. Each
  \<open>continue\<close> of the loop body returns with the directory unchanged.\<close>

definition parse_principal ::
  "directory \<Rightarrow> string \<Rightarrow> jmap \<Rightarrow> directory \<times> violation list" where
  "parse_principal dir ident attrs =
     (case attr_entity_ref attrs ''delegator'' ''Principal'' of
        Inl e \<Rightarrow> (dir, [BadRef ''Principal'' ident e])
      | Inr delegator \<Rightarrow>
     (case attr_entity_ref attrs ''org'' ''Organization'' of
        Inl e \<Rightarrow> (dir, [BadRef ''Principal'' ident e])
      | Inr org \<Rightarrow>
     (case (case bm_get attrs ''revoked'' of
              None \<Rightarrow> Some False
            | Some (JBool b) \<Rightarrow> Some b
            | Some _ \<Rightarrow> None) of
        None \<Rightarrow> (dir, [RevokedNotBool ident])
      | Some revoked \<Rightarrow>
          (let rec = \<lparr>p_id = ident,
                      p_kind = unwrap_or '''' (attr_str attrs ''kind''),
                      p_tenant = unwrap_or '''' (attr_str attrs ''tenant''),
                      p_expiry = unwrap_or (- 1) (Option.bind (bm_get attrs ''expiry'') as_i64),
                      p_scopes = attr_set attrs ''scopes'',
                      p_delegator = delegator,
                      p_org = org,
                      p_roles = attr_set attrs ''roles'',
                      p_jurisdictions = attr_set attrs ''jurisdictions'',
                      p_revoked = revoked\<rparr>
           in (dir\<lparr>principals := bm_insert ident rec (principals dir)\<rparr>,
               (if p_tenant rec = '''' then [MissingTenant ''Principal'' ident] else []) @
               (if p_expiry rec < 0 then [MissingExpiry ident] else []) @
               (if bm_get (principals dir) ident \<noteq> None
                then [DuplicateUid ''Principal'' ident] else []))))))"

definition parse_resource ::
  "directory \<Rightarrow> string \<Rightarrow> jmap \<Rightarrow> directory \<times> violation list" where
  "parse_resource dir ident attrs =
     (case attr_entity_ref attrs ''owner'' ''Principal'' of
        Inl e \<Rightarrow> (dir, [BadRef ''Resource'' ident e])
      | Inr owner \<Rightarrow>
     (case attr_entity_ref attrs ''org'' ''Organization'' of
        Inl e \<Rightarrow> (dir, [BadRef ''Resource'' ident e])
      | Inr org \<Rightarrow>
     (case attr_entity_set attrs ''viewers'' ''Principal'' of
        Inl e \<Rightarrow> (dir, [BadRef ''Resource'' ident e])
      | Inr viewers \<Rightarrow>
          (let rec = \<lparr>r_id = ident,
                      r_owner = unwrap_or '''' owner,
                      r_tenant = unwrap_or '''' (attr_str attrs ''tenant''),
                      r_org = org,
                      r_sensitivity = attr_str attrs ''sensitivity'',
                      r_residency = attr_str attrs ''residency'',
                      r_viewers = viewers\<rparr>
           in (dir\<lparr>resources := bm_insert ident rec (resources dir)\<rparr>,
               (if r_owner rec = '''' then [MissingOwner ident] else []) @
               (if r_tenant rec = '''' then [MissingTenant ''Resource'' ident] else []) @
               (if bm_get (resources dir) ident \<noteq> None
                then [DuplicateUid ''Resource'' ident] else []))))))"

definition parse_org ::
  "directory \<Rightarrow> string \<Rightarrow> jmap \<Rightarrow> directory \<times> violation list" where
  "parse_org dir ident attrs =
     (case attr_entity_ref attrs ''parent'' ''Organization'' of
        Inl e \<Rightarrow> (dir, [BadRef ''Organization'' ident e])
      | Inr parent \<Rightarrow>
          (let rec = \<lparr>o_id = ident,
                      o_tenant = unwrap_or '''' (attr_str attrs ''tenant''),
                      o_parent = parent\<rparr>
           in (dir\<lparr>orgs := bm_insert ident rec (orgs dir)\<rparr>,
               (if o_tenant rec = '''' then [MissingTenant ''Organization'' ident] else []) @
               (if bm_get (orgs dir) ident \<noteq> None
                then [DuplicateUid ''Organization'' ident] else []))))"

definition parse_entity :: "directory \<Rightarrow> nat \<Rightarrow> json \<Rightarrow> directory \<times> violation list" where
  "parse_entity dir i e =
     (let ty = unwrap_or '''' (Option.bind (jget e ''uid'') (\<lambda>u. jget_str u ''type''));
          ident = unwrap_or '''' (Option.bind (jget e ''uid'') (\<lambda>u. jget_str u ''id''))
      in if ty = '''' \<or> ident = '''' then (dir, [MissingUid i])
         else case Option.bind (jget e ''attrs'') as_object of
                None \<Rightarrow> (dir, [MissingAttrs ty ident])
              | Some attrs \<Rightarrow>
                  if ty = ''Principal'' then parse_principal dir ident attrs
                  else if ty = ''Resource'' then parse_resource dir ident attrs
                  else if ty = ''Organization'' then parse_org dir ident attrs
                  else (dir, [UnknownType ty ident]))"

fun parse_entities :: "directory \<Rightarrow> nat \<Rightarrow> json list \<Rightarrow> directory \<times> violation list" where
  "parse_entities dir i [] = (dir, [])"
| "parse_entities dir i (e # es) =
     (let (dir1, vs) = parse_entity dir i e;
          (dir2, ws) = parse_entities dir1 (Suc i) es
      in (dir2, vs @ ws))"

definition parse :: "json \<Rightarrow> violation list + directory" where
  "parse entities =
     (case as_array entities of
        None \<Rightarrow> Inl [EntitiesNotArray]
      | Some xs \<Rightarrow>
          (let (dir, vs) = parse_entities default_directory 0 xs
           in if vs = [] then Inr dir else Inl vs))"

subsection \<open>Walks\<close>

function ancestors_walk ::
  "(string, principal_rec) bmap \<Rightarrow> string list \<Rightarrow> principal_rec option \<Rightarrow> string list" where
  "ancestors_walk ps seen cur =
     (case cur of
        None \<Rightarrow> []
      | Some p \<Rightarrow>
          (case p_delegator p of
             None \<Rightarrow> []
           | Some d \<Rightarrow>
               if d \<in> set seen then []
               else d # ancestors_walk ps (d # seen) (bm_get ps d)))"
  by pat_completeness auto
termination
proof (relation "measure (\<lambda>(ps, seen, cur).
    2 * card (fst ` set ps - set seen) + (if cur = None then 0 else 1))", goal_cases)
  case (2 ps seen cur p d)
  show ?case
  proof (cases "bm_get ps d")
    case None
    then have "fst ` set ps - set (d # seen) = fst ` set ps - set seen"
      by (auto simp: bm_get_None)
    with None 2 show ?thesis by simp
  next
    case (Some q)
    then have "d \<in> fst ` set ps" using bm_get_SomeD by force
    with 2 have "card (fst ` set ps - set (d # seen)) < card (fst ` set ps - set seen)"
      by (intro card_unseen_less [of _ d]) auto
    with Some 2 show ?thesis by (simp del: set_simps)
  qed
qed simp

definition ancestors_of :: "directory \<Rightarrow> string \<Rightarrow> string list" where
  "ancestors_of dir ident = ancestors_walk (principals dir) [ident] (bm_get (principals dir) ident)"

definition authored_revoked :: "directory \<Rightarrow> string \<Rightarrow> bool" where
  "authored_revoked dir p = (case bm_get (principals dir) p of None \<Rightarrow> False | Some r \<Rightarrow> p_revoked r)"

definition revoked :: "directory \<Rightarrow> string \<Rightarrow> bool" where
  "revoked dir ident \<longleftrightarrow>
     authored_revoked dir ident \<or> list_ex (authored_revoked dir) (ancestors_of dir ident)"

text \<open>The inverted graph: delegator to everyone delegating from it, in directory order.\<close>

fun children_map ::
  "string \<Rightarrow> (string, principal_rec) bmap \<Rightarrow> (string, string list) bmap \<Rightarrow> (string, string list) bmap" where
  "children_map root_tenant [] children = children"
| "children_map root_tenant ((child_id, child) # ps) children =
     (if p_tenant child \<noteq> root_tenant then children_map root_tenant ps children
      else case p_delegator child of
             None \<Rightarrow> children_map root_tenant ps children
           | Some delegator \<Rightarrow>
               children_map root_tenant ps
                 (bm_insert delegator (unwrap_or [] (bm_get children delegator) @ [child_id]) children))"

text \<open>The inner \<open>for\<close> loop over one node's children.\<close>

fun visit :: "string list \<Rightarrow> string list \<Rightarrow> string list \<Rightarrow> string list \<Rightarrow>
    string list \<times> string list \<times> string list" where
  "visit [] seen out queue = (seen, out, queue)"
| "visit (child # cs) seen out queue =
     (if child \<in> set seen then visit cs seen out queue
      else visit cs (child # seen) (out @ [child]) (queue @ [child]))"

lemma visit_eq:
  "visit cs seen out queue = (seen', out', queue') \<Longrightarrow>
    \<exists>new. set seen' = set new \<union> set seen \<and> out' = out @ new \<and> queue' = queue @ new \<and>
      set new = set cs - set seen \<and> distinct new"
proof (induction cs seen out queue rule: visit.induct)
  case (2 child cs seen out queue)
  show ?case
  proof (cases "child \<in> set seen")
    case True
    with 2 show ?thesis by auto
  next
    case False
    with 2 obtain new where "set seen' = set new \<union> set (child # seen)"
        "out' = (out @ [child]) @ new" "queue' = (queue @ [child]) @ new"
        "set new = set cs - set (child # seen)" "distinct new"
      by auto
    with False show ?thesis by (intro exI [of _ "child # new"]) auto
  qed
qed simp

definition all_children :: "(string, string list) bmap \<Rightarrow> string set" where
  "all_children children = (\<Union>(k, cs) \<in> set children. set cs)"

lemma finite_all_children [simp]: "finite (all_children children)"
  by (auto simp: all_children_def)

lemma children_in_all: "set (unwrap_or [] (bm_get children cur)) \<subseteq> all_children children"
  by (cases "bm_get children cur") (auto simp: all_children_def dest!: bm_get_SomeD)

function bfs ::
  "(string, string list) bmap \<Rightarrow> string list \<Rightarrow> string list \<Rightarrow> string list \<Rightarrow> string list" where
  "bfs children seen out queue =
     (case queue of
        [] \<Rightarrow> out
      | cur # rest \<Rightarrow>
          (case visit (unwrap_or [] (bm_get children cur)) seen out rest of
             (seen', out', queue') \<Rightarrow> bfs children seen' out' queue'))"
  by pat_completeness auto
termination
proof (relation "(\<lambda>(children, seen, out, queue). card (all_children children - set seen))
    <*mlex*> measure (\<lambda>(children, seen, out, queue). length queue)", goal_cases)
  case 1
  then show ?case by (simp add: wf_mlex)
next
  case (2 children seen out queue cur rest seen' y out' queue')
  then have y: "y = (out', queue')" by simp
  from 2 obtain new where new: "set seen' = set new \<union> set seen" "queue' = rest @ new"
      "set new = set (unwrap_or [] (bm_get children cur)) - set seen"
    using visit_eq by (metis prod.inject)
  show ?case
  proof (cases "new = []")
    case True
    with new 2(1) show ?thesis by (simp add: mlex_iff y)
  next
    case False
    then obtain x where "x \<in> set new" by (cases new) auto
    with new have "x \<in> all_children children" "x \<notin> set seen" "x \<in> set seen'"
      using children_in_all by fastforce+
    with new have "card (all_children children - set seen') < card (all_children children - set seen)"
      by (intro card_unseen_less [of _ x]) auto
    then show ?thesis by (intro mlex_less) (simp add: y)
  qed
qed

declare cycle_walk.simps [simp del] ancestors_walk.simps [simp del] bfs.simps [simp del]

definition descendants_of :: "directory \<Rightarrow> string \<Rightarrow> string list" where
  "descendants_of dir ident =
     (case bm_get (principals dir) ident of
        None \<Rightarrow> []
      | Some root \<Rightarrow> bfs (children_map (p_tenant root) (principals dir) []) [ident] [] [ident])"

definition contains :: "directory \<Rightarrow> string \<Rightarrow> bool" where
  "contains dir ident \<longleftrightarrow> bm_get (principals dir) ident \<noteq> None"

subsection \<open>Validation\<close>

text \<open>Each \<open>for\<close> loop of \<open>validate\<close>, as the violations one iteration pushes.
  \<open>BTreeSet::is_subset\<close> and \<open>difference\<close> work on the sorted lists.\<close>

definition is_subset :: "string list \<Rightarrow> string list \<Rightarrow> bool" where
  "is_subset xs ys \<longleftrightarrow> list_all (\<lambda>x. x \<in> set ys) xs"

definition set_difference :: "string list \<Rightarrow> string list \<Rightarrow> string list" where
  "set_difference xs ys = filter (\<lambda>x. x \<notin> set ys) xs"

definition validate_delegation :: "directory \<Rightarrow> principal_rec \<Rightarrow> violation list" where
  "validate_delegation dir p =
     (case p_delegator p of
        None \<Rightarrow> []
      | Some del_id \<Rightarrow>
          (case bm_get (principals dir) del_id of
             None \<Rightarrow> [DoesNotExist ''Principal'' (p_id p) ''delegator'' del_id]
           | Some d \<Rightarrow>
               (if p_tenant d \<noteq> p_tenant p
                then [TenantMismatch ''Principal'' (p_id p) ''delegation'' (p_tenant p) (p_tenant d)] else []) @
               (if p_expiry p > p_expiry d
                then [ExpiryOutlives (p_id p) (p_expiry p) (p_id d) (p_expiry d)] else []) @
               (if \<not> is_subset (p_scopes p) (p_scopes d)
                then [Exceeds ''scopes'' (p_id p) (p_id d) (set_difference (p_scopes p) (p_scopes d))]
                else []) @
               (if \<not> is_subset (p_roles p) (p_roles d)
                then [Exceeds ''roles'' (p_id p) (p_id d) (set_difference (p_roles p) (p_roles d))]
                else []) @
               (if \<not> is_subset (p_jurisdictions p) (p_jurisdictions d)
                then [Exceeds ''jurisdictions'' (p_id p) (p_id d)
                        (set_difference (p_jurisdictions p) (p_jurisdictions d))]
                else [])))"

definition validate_chain :: "directory \<Rightarrow> principal_rec \<Rightarrow> violation list" where
  "validate_chain dir p =
     (case first_cycle_id p_id p_delegator (principals dir) p of
        None \<Rightarrow> []
      | Some via \<Rightarrow> [Cycle ''Principal'' (p_id p) via])"

definition validate_resource :: "directory \<Rightarrow> resource_rec \<Rightarrow> violation list" where
  "validate_resource dir r =
     (case bm_get (principals dir) (r_owner r) of
        None \<Rightarrow> [DoesNotExist ''Resource'' (r_id r) ''owner'' (r_owner r)]
      | Some ow \<Rightarrow>
          if p_tenant ow \<noteq> r_tenant r
          then [TenantMismatch ''Resource'' (r_id r) (''owner '' @ p_id ow) (p_tenant ow) (r_tenant r)] else []) @
     concat (map (\<lambda>viewer_id.
       (case bm_get (principals dir) viewer_id of
          None \<Rightarrow> [DoesNotExist ''Resource'' (r_id r) ''viewer'' viewer_id]
        | Some p \<Rightarrow>
            if p_tenant p \<noteq> r_tenant r
            then [TenantMismatch ''Resource'' (r_id r) (''viewer '' @ viewer_id) (p_tenant p) (r_tenant r)] else []))
       (r_viewers r))"

definition validate_reserved :: "directory \<Rightarrow> violation list" where
  "validate_reserved dir =
     concat (map (\<lambda>p. if p_tenant p = reserved_tenant
                      then [ReservedTenant ''Principal'' (p_id p)] else [])
       (bm_values (principals dir))) @
     concat (map (\<lambda>r. if r_tenant r = reserved_tenant
                      then [ReservedTenant ''Resource'' (r_id r)] else [])
       (bm_values (resources dir))) @
     concat (map (\<lambda>g. if o_tenant g = reserved_tenant
                      then [ReservedTenant ''Organization'' (o_id g)] else [])
       (bm_values (orgs dir)))"

definition validate_parent :: "directory \<Rightarrow> org_rec \<Rightarrow> violation list" where
  "validate_parent dir g =
     (case o_parent g of
        None \<Rightarrow> []
      | Some parent_id \<Rightarrow>
          (case bm_get (orgs dir) parent_id of
             None \<Rightarrow> [DoesNotExist ''Organization'' (o_id g) ''parent'' parent_id]
           | Some p \<Rightarrow>
               if o_tenant p \<noteq> o_tenant g
               then [TenantMismatch ''Organization'' (o_id g) ''parent'' (o_tenant g) (o_tenant p)] else []))"

definition validate_hierarchy :: "directory \<Rightarrow> org_rec \<Rightarrow> violation list" where
  "validate_hierarchy dir g =
     (case first_cycle_id o_id o_parent (orgs dir) g of
        None \<Rightarrow> []
      | Some via \<Rightarrow> [Cycle ''Organization'' (o_id g) via])"

definition validate_principal_org :: "directory \<Rightarrow> principal_rec \<Rightarrow> violation list" where
  "validate_principal_org dir p =
     (case p_org p of
        None \<Rightarrow> []
      | Some org_id \<Rightarrow>
          (case bm_get (orgs dir) org_id of
             None \<Rightarrow> [DoesNotExist ''Principal'' (p_id p) ''org'' org_id]
           | Some g \<Rightarrow>
               if o_tenant g \<noteq> p_tenant p
               then [TenantMismatch ''Principal'' (p_id p) (''org '' @ o_id g) (o_tenant g) (p_tenant p)] else []))"

definition validate_resource_org :: "directory \<Rightarrow> resource_rec \<Rightarrow> violation list" where
  "validate_resource_org dir r =
     (case r_org r of
        None \<Rightarrow> []
      | Some org_id \<Rightarrow>
          (case bm_get (orgs dir) org_id of
             None \<Rightarrow> [DoesNotExist ''Resource'' (r_id r) ''org'' org_id]
           | Some g \<Rightarrow>
               if o_tenant g \<noteq> r_tenant r
               then [TenantMismatch ''Resource'' (r_id r) (''org '' @ o_id g) (o_tenant g) (r_tenant r)] else []) @
          (case bm_get (principals dir) (r_owner r) of
             None \<Rightarrow> []
           | Some owner \<Rightarrow>
               (case p_org owner of
                  None \<Rightarrow> []
                | Some owner_org \<Rightarrow>
                    if owner_org \<noteq> org_id
                    then [OwnerOrgDiffers (r_id r) org_id (p_id owner) owner_org] else [])))"

definition validate :: "directory \<Rightarrow> violation list" where
  "validate dir =
     concat (map (validate_delegation dir) (bm_values (principals dir))) @
     concat (map (validate_chain dir) (bm_values (principals dir))) @
     concat (map (validate_resource dir) (bm_values (resources dir))) @
     validate_reserved dir @
     concat (map (validate_parent dir) (bm_values (orgs dir))) @
     concat (map (validate_hierarchy dir) (bm_values (orgs dir))) @
     concat (map (validate_principal_org dir) (bm_values (principals dir))) @
     concat (map (validate_resource_org dir) (bm_values (resources dir)))"

section \<open>Well-formed directories\<close>

text \<open>The representation invariant: ordered maps keyed by the records' own ids.\<close>

definition dir_wf :: "directory \<Rightarrow> bool" where
  "dir_wf dir \<longleftrightarrow>
     bm_wf (principals dir) \<and> bm_wf (resources dir) \<and> bm_wf (orgs dir) \<and>
     list_all (\<lambda>(k, p). p_id p = k) (principals dir) \<and>
     list_all (\<lambda>(k, r). r_id r = k) (resources dir) \<and>
     list_all (\<lambda>(k, g). o_id g = k) (orgs dir)"

lemma dir_wf_default [simp]: "dir_wf default_directory"
  by (simp add: dir_wf_def default_directory_def)

lemma list_all_bm_insert: "list_all P m \<Longrightarrow> P (k, v) \<Longrightarrow> list_all P (bm_insert k v m)"
  by (induction k v m rule: bm_insert.induct) auto

lemma parse_principal_wf: "dir_wf dir \<Longrightarrow> dir_wf (fst (parse_principal dir ident attrs))"
  by (simp add: parse_principal_def Let_def dir_wf_def list_all_bm_insert
      split: sum.split option.split json.split)

lemma parse_resource_wf: "dir_wf dir \<Longrightarrow> dir_wf (fst (parse_resource dir ident attrs))"
  by (simp add: parse_resource_def Let_def dir_wf_def list_all_bm_insert split: sum.split)

lemma parse_org_wf: "dir_wf dir \<Longrightarrow> dir_wf (fst (parse_org dir ident attrs))"
  by (simp add: parse_org_def Let_def dir_wf_def list_all_bm_insert split: sum.split)

lemma parse_entity_wf:
  assumes "dir_wf dir" and "parse_entity dir i e = (dir', vs)"
  shows "dir_wf dir'"
proof -
  have "dir_wf (fst (parse_entity dir i e))"
    using assms(1)
    by (simp add: parse_entity_def Let_def parse_principal_wf parse_resource_wf parse_org_wf
        split: option.split)
  with assms(2) show ?thesis by simp
qed

lemma parse_entities_wf:
  "dir_wf dir \<Longrightarrow> parse_entities dir i es = (dir', vs) \<Longrightarrow> dir_wf dir'"
proof (induction dir i es arbitrary: vs rule: parse_entities.induct)
  case (2 dir i e es)
  then show ?case
    by (auto simp: Let_def dest: parse_entity_wf split: prod.splits)
qed simp

lemma parse_wf: "parse v = Inr dir \<Longrightarrow> dir_wf dir"
  by (auto simp: parse_def dest: parse_entities_wf [OF dir_wf_default]
      split: option.splits prod.splits if_splits)

lemma mem_bm_values: "bm_wf m \<Longrightarrow> v \<in> set (bm_values m) \<longleftrightarrow> (\<exists>k. bm_get m k = Some v)"
  by (force simp: bm_values_def bm_get_eq_Some)

lemma is_subset_iff [simp]: "is_subset xs ys \<longleftrightarrow> set xs \<subseteq> set ys"
  by (auto simp: is_subset_def list_all_iff)

section \<open>Chains of linked nodes\<close>

text \<open>Principals linked by their delegator and organizations linked by their parent: nodes in
  a map keyed by their own id, each naming at most one successor.\<close>

locale linked_nodes =
  fixes id_of :: "'n \<Rightarrow> string"
    and next_of :: "'n \<Rightarrow> string option"
    and nodes :: "'d \<Rightarrow> (string, 'n) bmap"
    and wf_nodes :: "'d \<Rightarrow> bool"
  assumes keyed: "wf_nodes D \<Longrightarrow> bm_get (nodes D) k = Some n \<Longrightarrow> id_of n = k"
    and ordered: "wf_nodes D \<Longrightarrow> bm_wf (nodes D)"
begin

definition edge :: "'d \<Rightarrow> (string \<times> string) set" where
  "edge D = {(x, y). \<exists>n. bm_get (nodes D) x = Some n \<and> next_of n = Some y}"

lemma edge_unfold:
  assumes "bm_get (nodes D) x = Some n"
  shows "(x, y) \<in> (edge D)\<^sup>+ \<longleftrightarrow> (\<exists>d. next_of n = Some d \<and> (y = d \<or> (d, y) \<in> (edge D)\<^sup>+))"
proof
  assume "(x, y) \<in> (edge D)\<^sup>+"
  then show "\<exists>d. next_of n = Some d \<and> (y = d \<or> (d, y) \<in> (edge D)\<^sup>+)"
    by (cases rule: converse_tranclE) (use assms in \<open>auto simp: edge_def\<close>)
next
  assume "\<exists>d. next_of n = Some d \<and> (y = d \<or> (d, y) \<in> (edge D)\<^sup>+)"
  then obtain d where "next_of n = Some d" and y: "y = d \<or> (d, y) \<in> (edge D)\<^sup>+" by auto
  with assms have "(x, d) \<in> edge D" by (simp add: edge_def)
  with y show "(x, y) \<in> (edge D)\<^sup>+" by (auto intro: trancl_into_trancl2)
qed

lemma edge_unknown: "bm_get (nodes D) x = None \<Longrightarrow> (x, y) \<notin> (edge D)\<^sup>+"
  by (auto simp: edge_def elim: converse_tranclE)

lemma cycle_walk_None:
  "cycle_walk next_of (nodes D) seen n = None \<Longrightarrow> bm_get (nodes D) x = Some n \<Longrightarrow>
    (x, y) \<in> (edge D)\<^sup>+ \<Longrightarrow> y \<notin> set seen"
proof (induction nx \<equiv> next_of nd \<equiv> "nodes D" seen n arbitrary: x rule: cycle_walk.induct)
  case (1 seen cur)
  from "1.prems"(2,3) obtain d where d: "next_of cur = Some d" "y = d \<or> (d, y) \<in> (edge D)\<^sup>+"
    by (auto simp: edge_unfold)
  from d(1) "1.prems"(1) have new: "d \<notin> set seen"
    by (subst (asm) cycle_walk.simps) (auto split: if_splits)
  show ?case
  proof (cases "bm_get (nodes D) d")
    case None
    with d new edge_unknown show ?thesis by auto
  next
    case (Some n)
    with d new "1.prems"(1) have "cycle_walk next_of (nodes D) (d # seen) n = None"
      by (subst (asm) cycle_walk.simps) auto
    with "1.hyps" [OF d(1) new Some _ Some] d new show ?thesis by auto
  qed
qed

lemma cycle_walk_Some:
  "cycle_walk next_of (nodes D) seen n = Some v \<Longrightarrow> bm_get (nodes D) x = Some n \<Longrightarrow>
    \<forall>s \<in> set seen. (s, x) \<in> (edge D)\<^sup>* \<Longrightarrow> (v, v) \<in> (edge D)\<^sup>+"
proof (induction nx \<equiv> next_of nd \<equiv> "nodes D" seen n arbitrary: x rule: cycle_walk.induct)
  case (1 seen cur)
  from "1.prems"(1) obtain d where d: "next_of cur = Some d"
    by (subst (asm) cycle_walk.simps) (auto split: option.splits)
  with "1.prems"(2) have e: "(x, d) \<in> edge D" by (auto simp: edge_def)
  show ?case
  proof (cases "d \<in> set seen")
    case True
    with d "1.prems"(1) have "v = d" by (subst (asm) cycle_walk.simps) simp
    with True "1.prems"(3) e show ?thesis by (metis rtrancl_into_trancl1)
  next
    case False
    with d "1.prems"(1) obtain n where n: "bm_get (nodes D) d = Some n"
        "cycle_walk next_of (nodes D) (d # seen) n = Some v"
      by (subst (asm) cycle_walk.simps) (auto split: option.splits)
    moreover have "\<forall>s \<in> set (d # seen). (s, d) \<in> (edge D)\<^sup>*"
      using "1.prems"(3) e by (auto intro: rtrancl_into_rtrancl)
    ultimately show ?thesis using "1.hyps" [OF d False n(1) n(2) n(1)] by simp
  qed
qed

lemma first_cycle_id_Some:
  assumes "wf_nodes D" and "bm_get (nodes D) x = Some n"
    and "first_cycle_id id_of next_of (nodes D) n = Some v"
  shows "(v, v) \<in> (edge D)\<^sup>+"
  using assms cycle_walk_Some [of D "[x]" n v x] keyed [of D x n] by (simp add: first_cycle_id_def)

lemma no_cycle_iff:
  assumes "wf_nodes D"
  shows "(\<forall>n \<in> set (bm_values (nodes D)). first_cycle_id id_of next_of (nodes D) n = None)
    \<longleftrightarrow> acyclic (edge D)"
proof
  assume none: "\<forall>n \<in> set (bm_values (nodes D)). first_cycle_id id_of next_of (nodes D) n = None"
  show "acyclic (edge D)"
  proof (rule acyclicI, rule allI, rule notI)
    fix x assume x: "(x, x) \<in> (edge D)\<^sup>+"
    then obtain n where n: "bm_get (nodes D) x = Some n"
      using edge_unknown [of D x x] by (cases "bm_get (nodes D) x") auto
    with none assms have "cycle_walk next_of (nodes D) [x] n = None"
      using keyed [OF assms n] mem_bm_values [OF ordered [OF assms]]
      by (auto simp: first_cycle_id_def)
    from cycle_walk_None [OF this n x] show False by simp
  qed
next
  assume "acyclic (edge D)"
  then show "\<forall>n \<in> set (bm_values (nodes D)). first_cycle_id id_of next_of (nodes D) n = None"
    using first_cycle_id_Some [OF assms] mem_bm_values [OF ordered [OF assms]]
    by (metis acyclic_def not_None_eq)
qed

end

lemma dir_wf_keyed:
  assumes "dir_wf D"
  shows "bm_get (principals D) k = Some p \<Longrightarrow> p_id p = k"
    and "bm_get (resources D) k = Some r \<Longrightarrow> r_id r = k"
    and "bm_get (orgs D) k = Some g \<Longrightarrow> o_id g = k"
  using assms by (auto simp: dir_wf_def list_all_iff dest!: bm_get_SomeD)

lemma dir_wf_ordered:
  "dir_wf D \<Longrightarrow> bm_wf (principals D)" "dir_wf D \<Longrightarrow> bm_wf (resources D)" "dir_wf D \<Longrightarrow> bm_wf (orgs D)"
  by (simp_all add: dir_wf_def)

interpretation deleg: linked_nodes p_id p_delegator principals dir_wf
  by unfold_locales (simp_all add: dir_wf_keyed dir_wf_ordered)

interpretation hier: linked_nodes o_id o_parent orgs dir_wf
  by unfold_locales (simp_all add: dir_wf_keyed dir_wf_ordered)

section \<open>The walks compute reachability\<close>

lemma ancestors_walk_set:
  assumes "cur = bm_get (principals D) c" and "c \<in> set seen"
    and "\<And>s y. s \<in> set seen \<Longrightarrow> s \<noteq> c \<Longrightarrow> (s, y) \<in> deleg.edge D \<Longrightarrow> y \<in> set seen"
  shows "set (ancestors_walk (principals D) seen cur) = {a. (c, a) \<in> (deleg.edge D)\<^sup>+} - set seen"
  using assms
proof (induction "principals D" seen cur arbitrary: c rule: ancestors_walk.induct)
  case (1 seen cur)
  show ?case
  proof (cases "\<exists>p d. cur = Some p \<and> p_delegator p = Some d")
    case False
    with "1.prems"(1) have "(c, a) \<notin> (deleg.edge D)\<^sup>+" for a
      using deleg.edge_unknown [of D c a] deleg.edge_unfold [of D c _ a] by (cases cur) auto
    with False show ?thesis by (subst ancestors_walk.simps) (auto split: option.splits)
  next
    case True
    then obtain p d where p: "cur = Some p" "p_delegator p = Some d" by auto
    then have plus: "(c, a) \<in> (deleg.edge D)\<^sup>+ \<longleftrightarrow> a = d \<or> (d, a) \<in> (deleg.edge D)\<^sup>+" for a
      using deleg.edge_unfold [of D c p a] "1.prems"(1) by simp
    have only: "y = d" if "(c, y) \<in> deleg.edge D" for y
      using that p "1.prems"(1) by (simp add: deleg.edge_def)
    show ?thesis
    proof (cases "d \<in> set seen")
      case seen: True
      have "deleg.edge D `` set seen \<subseteq> set seen"
        using "1.prems"(3) only seen by blast
      then have "a \<in> set seen" if "(c, a) \<in> (deleg.edge D)\<^sup>+" for a
        using that "1.prems"(2) by (metis Image_closed_trancl ImageI rtrancl_trancl_absorb trancl_into_rtrancl)
      with p seen show ?thesis by (subst ancestors_walk.simps) auto
    next
      case new: False
      have "set (ancestors_walk (principals D) (d # seen) (bm_get (principals D) d)) =
          {a. (d, a) \<in> (deleg.edge D)\<^sup>+} - set (d # seen)"
        using "1.hyps" [OF p new refl] "1.prems"(3) only by auto
      with p new show ?thesis by (subst ancestors_walk.simps) (auto simp: plus)
    qed
  qed
qed

lemma set_ancestors_of:
  "set (ancestors_of D x) = {a. (x, a) \<in> (deleg.edge D)\<^sup>+} - {x}"
  using ancestors_walk_set [of "bm_get (principals D) x" D x "[x]"] by (simp add: ancestors_of_def)

lemma distinct_ancestors_walk: "distinct (ancestors_walk ps seen cur) \<and> set (ancestors_walk ps seen cur) \<inter> set seen = {}"
proof (induction ps seen cur rule: ancestors_walk.induct)
  case (1 ps seen cur)
  then show ?case by (subst (1 2) ancestors_walk.simps) (auto split: option.splits)
qed

lemma distinct_ancestors_of: "distinct (ancestors_of D x)"
  using distinct_ancestors_walk by (simp add: ancestors_of_def)

lemma revoked_iff:
  "revoked D x \<longleftrightarrow> (\<exists>a. (x, a) \<in> (deleg.edge D)\<^sup>* \<and> authored_revoked D a)"
  by (auto simp: revoked_def list_ex_iff set_ancestors_of rtrancl_eq_or_trancl)

section \<open>What validation establishes\<close>

definition attenuated :: "principal_rec \<Rightarrow> principal_rec \<Rightarrow> bool" where
  "attenuated p d \<longleftrightarrow>
     p_tenant p = p_tenant d \<and> p_expiry p \<le> p_expiry d \<and> set (p_scopes p) \<subseteq> set (p_scopes d) \<and>
     set (p_roles p) \<subseteq> set (p_roles d) \<and> set (p_jurisdictions p) \<subseteq> set (p_jurisdictions d)"

lemma attenuated_trans: "attenuated p q \<Longrightarrow> attenuated q r \<Longrightarrow> attenuated p r"
  by (auto simp: attenuated_def)

text \<open>The specification of \<open>validate\<close>, rule by rule.\<close>

definition principal_ok :: "directory \<Rightarrow> principal_rec \<Rightarrow> bool" where
  "principal_ok D p \<longleftrightarrow>
     (\<forall>d. p_delegator p = Some d \<longrightarrow> (\<exists>q. bm_get (principals D) d = Some q \<and> attenuated p q)) \<and>
     p_tenant p \<noteq> reserved_tenant \<and>
     (\<forall>g. p_org p = Some g \<longrightarrow> (\<exists>o'. bm_get (orgs D) g = Some o' \<and> o_tenant o' = p_tenant p))"

definition resource_ok :: "directory \<Rightarrow> resource_rec \<Rightarrow> bool" where
  "resource_ok D r \<longleftrightarrow>
     (\<exists>ow. bm_get (principals D) (r_owner r) = Some ow \<and> p_tenant ow = r_tenant r \<and>
        (\<forall>g h. r_org r = Some g \<longrightarrow> p_org ow = Some h \<longrightarrow> h = g)) \<and>
     (\<forall>v \<in> set (r_viewers r). \<exists>p. bm_get (principals D) v = Some p \<and> p_tenant p = r_tenant r) \<and>
     r_tenant r \<noteq> reserved_tenant \<and>
     (\<forall>g. r_org r = Some g \<longrightarrow> (\<exists>o'. bm_get (orgs D) g = Some o' \<and> o_tenant o' = r_tenant r))"

definition org_ok :: "directory \<Rightarrow> org_rec \<Rightarrow> bool" where
  "org_ok D g \<longleftrightarrow>
     o_tenant g \<noteq> reserved_tenant \<and>
     (\<forall>h. o_parent g = Some h \<longrightarrow> (\<exists>o'. bm_get (orgs D) h = Some o' \<and> o_tenant o' = o_tenant g))"

definition graph_ok :: "directory \<Rightarrow> bool" where
  "graph_ok D \<longleftrightarrow>
     (\<forall>p \<in> set (bm_values (principals D)). principal_ok D p) \<and>
     (\<forall>r \<in> set (bm_values (resources D)). resource_ok D r) \<and>
     (\<forall>g \<in> set (bm_values (orgs D)). org_ok D g) \<and>
     acyclic (deleg.edge D) \<and> acyclic (hier.edge D)"

lemma concat_map_Nil: "concat (map f xs) = [] \<longleftrightarrow> (\<forall>x \<in> set xs. f x = [])"
  by auto

lemma validate_principal_ok:
  "validate_delegation D p = [] \<and> p_tenant p \<noteq> reserved_tenant \<and> validate_principal_org D p = []
    \<longleftrightarrow> principal_ok D p"
  by (auto simp: validate_delegation_def validate_principal_org_def principal_ok_def attenuated_def
      split: option.splits if_splits)

lemma validate_resource_ok:
  "validate_resource D r = [] \<and> r_tenant r \<noteq> reserved_tenant \<and> validate_resource_org D r = []
    \<longleftrightarrow> resource_ok D r"
proof -
  have v: "(case bm_get (principals D) w of None \<Rightarrow> [DoesNotExist ''Resource'' (r_id r) ''viewer'' w] | Some p \<Rightarrow>
      if p_tenant p \<noteq> r_tenant r then [TenantMismatch ''Resource'' (r_id r) (''viewer '' @ w) (p_tenant p) (r_tenant r)] else []) = []
    \<longleftrightarrow> (\<exists>p. bm_get (principals D) w = Some p \<and> p_tenant p = r_tenant r)" for w
    by (auto split: option.splits)
  have "validate_resource D r = [] \<longleftrightarrow>
      (\<exists>ow. bm_get (principals D) (r_owner r) = Some ow \<and> p_tenant ow = r_tenant r) \<and>
      (\<forall>w \<in> set (r_viewers r). \<exists>p. bm_get (principals D) w = Some p \<and> p_tenant p = r_tenant r)"
    unfolding validate_resource_def append_is_Nil_conv concat_map_Nil v
    by (auto split: option.splits)
  then show ?thesis
    by (auto simp: validate_resource_org_def resource_ok_def split: option.splits if_splits)
qed

lemma validate_org_ok:
  "validate_parent D g = [] \<and> o_tenant g \<noteq> reserved_tenant \<longleftrightarrow> org_ok D g"
  by (auto simp: validate_parent_def org_ok_def split: option.splits if_splits)

lemma validate_chain_Nil: "validate_chain D p = [] \<longleftrightarrow> first_cycle_id p_id p_delegator (principals D) p = None"
  by (simp add: validate_chain_def split: option.splits)

lemma validate_hierarchy_Nil: "validate_hierarchy D g = [] \<longleftrightarrow> first_cycle_id o_id o_parent (orgs D) g = None"
  by (simp add: validate_hierarchy_def split: option.splits)

lemma validate_reserved_Nil:
  "validate_reserved D = [] \<longleftrightarrow>
     (\<forall>p \<in> set (bm_values (principals D)). p_tenant p \<noteq> reserved_tenant) \<and>
     (\<forall>r \<in> set (bm_values (resources D)). r_tenant r \<noteq> reserved_tenant) \<and>
     (\<forall>g \<in> set (bm_values (orgs D)). o_tenant g \<noteq> reserved_tenant)"
  unfolding validate_reserved_def append_is_Nil_conv concat_map_Nil by auto

lemma validate_Nil:
  assumes "dir_wf D"
  shows "validate D = [] \<longleftrightarrow> graph_ok D"
proof -
  have "graph_ok D \<longleftrightarrow>
     (\<forall>p \<in> set (bm_values (principals D)). validate_delegation D p = [] \<and>
        p_tenant p \<noteq> reserved_tenant \<and> validate_principal_org D p = []) \<and>
     (\<forall>r \<in> set (bm_values (resources D)). validate_resource D r = [] \<and>
        r_tenant r \<noteq> reserved_tenant \<and> validate_resource_org D r = []) \<and>
     (\<forall>g \<in> set (bm_values (orgs D)). validate_parent D g = [] \<and> o_tenant g \<noteq> reserved_tenant) \<and>
     (\<forall>p \<in> set (bm_values (principals D)). validate_chain D p = []) \<and>
     (\<forall>g \<in> set (bm_values (orgs D)). validate_hierarchy D g = [])"
    unfolding graph_ok_def validate_principal_ok [symmetric] validate_resource_ok [symmetric]
      validate_org_ok [symmetric] deleg.no_cycle_iff [OF assms, symmetric]
      hier.no_cycle_iff [OF assms, symmetric] validate_chain_Nil validate_hierarchy_Nil ..
  then show ?thesis
    unfolding validate_def append_is_Nil_conv concat_map_Nil validate_reserved_Nil by blast
qed

lemma graph_ok_acyclic: "graph_ok D \<Longrightarrow> acyclic (deleg.edge D)"
  by (simp add: graph_ok_def)

lemma graph_ok_principal:
  "dir_wf D \<Longrightarrow> graph_ok D \<Longrightarrow> bm_get (principals D) x = Some p \<Longrightarrow> principal_ok D p"
  using dir_wf_ordered(1) [of D] by (auto simp: graph_ok_def mem_bm_values)

lemma graph_ok_edge:
  assumes "dir_wf D" and "graph_ok D" and "(x, a) \<in> deleg.edge D"
  shows "\<exists>p q. bm_get (principals D) x = Some p \<and> bm_get (principals D) a = Some q \<and> attenuated p q"
  using assms graph_ok_principal by (force simp: deleg.edge_def principal_ok_def)

lemma graph_ok_chain:
  assumes "dir_wf D" and "graph_ok D" and "(x, a) \<in> (deleg.edge D)\<^sup>+"
  shows "\<exists>p q. bm_get (principals D) x = Some p \<and> bm_get (principals D) a = Some q \<and> attenuated p q"
  using assms(3)
proof (induction rule: trancl_induct)
  case (base y)
  then show ?case using graph_ok_edge [OF assms(1,2)] by blast
next
  case (step y z)
  then show ?case using graph_ok_edge [OF assms(1,2) step.hyps(2)] attenuated_trans by fastforce
qed

lemma ancestors_acyclic:
  "acyclic (deleg.edge D) \<Longrightarrow> set (ancestors_of D x) = {a. (x, a) \<in> (deleg.edge D)\<^sup>+}"
  by (auto simp: set_ancestors_of acyclic_def)

section \<open>Breadth-first search\<close>

definition kid_rel :: "(string, string list) bmap \<Rightarrow> (string \<times> string) set" where
  "kid_rel ch = {(x, y). y \<in> set (unwrap_or [] (bm_get ch x))}"

lemma bfs_reach:
  assumes "set seen = insert i (set out)" and "distinct (i # out)" and "set queue \<subseteq> set seen"
    and "\<And>x y. x \<in> set seen - set queue \<Longrightarrow> (x, y) \<in> kid_rel ch \<Longrightarrow> y \<in> set seen"
    and "\<And>x. x \<in> set seen \<Longrightarrow> (i, x) \<in> (kid_rel ch)\<^sup>*"
  shows "set (bfs ch seen out queue) = {x. (i, x) \<in> (kid_rel ch)\<^sup>*} - {i} \<and> distinct (bfs ch seen out queue)"
  using assms
proof (induction ch seen out queue rule: bfs.induct)
  case (1 ch seen out queue)
  show ?case
  proof (cases queue)
    case Nil
    have "kid_rel ch `` set seen \<subseteq> set seen" using "1.prems"(4) Nil by auto
    then have "x \<in> set seen" if "(i, x) \<in> (kid_rel ch)\<^sup>*" for x
      using that "1.prems"(1) by (metis Image_closed_trancl ImageI insertI1)
    moreover have "bfs ch seen out queue = out" by (simp add: Nil bfs.simps)
    ultimately show ?thesis using "1.prems"(1,2,5) by auto
  next
    case (Cons cur rest)
    obtain seen' out' queue' where
      v: "visit (unwrap_or [] (bm_get ch cur)) seen out rest = (seen', out', queue')"
      using prod_cases3 by blast
    then obtain new where new: "set seen' = set new \<union> set seen" "out' = out @ new" "queue' = rest @ new"
        "set new = set (unwrap_or [] (bm_get ch cur)) - set seen" "distinct new"
      using visit_eq by blast
    have kid: "(cur, y) \<in> kid_rel ch \<longleftrightarrow> y \<in> set (unwrap_or [] (bm_get ch cur))" for y
      by (simp add: kid_rel_def)
    have cur: "(i, cur) \<in> (kid_rel ch)\<^sup>*" using "1.prems"(3,5) Cons by auto
    have "set (bfs ch seen' out' queue') = {x. (i, x) \<in> (kid_rel ch)\<^sup>*} - {i} \<and>
        distinct (bfs ch seen' out' queue')"
    proof (rule "1.IH" [OF Cons v [symmetric] refl])
      show "set seen' = insert i (set out')" "distinct (i # out')" "set queue' \<subseteq> set seen'"
        using new "1.prems"(1,2,3) Cons by auto
      show "y \<in> set seen'" if "x \<in> set seen' - set queue'" "(x, y) \<in> kid_rel ch" for x y
        using that new "1.prems"(4) [of x y] Cons kid by (cases "x = cur") auto
      show "(i, x) \<in> (kid_rel ch)\<^sup>*" if "x \<in> set seen'" for x
        using that new "1.prems"(5) [of x] cur kid by (auto intro: rtrancl_into_rtrancl)
    qed
    moreover have "bfs ch seen out queue = bfs ch seen' out' queue'"
      by (subst bfs.simps) (simp add: Cons v)
    ultimately show ?thesis by simp
  qed
qed

lemma children_map_kids:
  "set (unwrap_or [] (bm_get (children_map t ps ch) x)) =
     set (unwrap_or [] (bm_get ch x)) \<union>
     {c. \<exists>p. (c, p) \<in> set ps \<and> p_tenant p = t \<and> p_delegator p = Some x}"
  by (induction t ps ch rule: children_map.induct) (auto split: option.splits)

lemma kid_rel_children:
  "bm_wf (principals D) \<Longrightarrow>
    kid_rel (children_map t (principals D) []) =
      {(x, y). (y, x) \<in> deleg.edge D \<and> (\<exists>p. bm_get (principals D) y = Some p \<and> p_tenant p = t)}"
  by (auto simp: kid_rel_def children_map_kids deleg.edge_def simp flip: bm_get_eq_Some)

lemma descendants_reach:
  assumes "bm_wf (principals D)" and "bm_get (principals D) i = Some root"
  shows "set (descendants_of D i) =
      {x. (i, x) \<in> (kid_rel (children_map (p_tenant root) (principals D) []))\<^sup>*} - {i}
    \<and> distinct (descendants_of D i)"
  using bfs_reach [of "[i]" i "[]" "[i]" "children_map (p_tenant root) (principals D) []"] assms(2)
  by (simp add: descendants_of_def)

lemma tenant_chain:
  assumes "dir_wf D" and "graph_ok D" and "bm_get (principals D) i = Some root"
    and "(x, i) \<in> (deleg.edge D)\<^sup>+"
  shows "(i, x) \<in> (kid_rel (children_map (p_tenant root) (principals D) []))\<^sup>*"
  using assms(4)
proof (induction rule: converse_trancl_induct)
  case (base y)
  then show ?case
    using graph_ok_edge [OF assms(1,2) base] assms(3) dir_wf_ordered(1) [OF assms(1)]
    by (force simp: kid_rel_children attenuated_def)
next
  case (step y z)
  have "(y, i) \<in> (deleg.edge D)\<^sup>+" using step by auto
  then have "\<exists>p. bm_get (principals D) y = Some p \<and> p_tenant p = p_tenant root"
    using graph_ok_chain [OF assms(1,2)] assms(3) by (force simp: attenuated_def)
  with step show ?case using dir_wf_ordered(1) [OF assms(1)]
    by (auto simp: kid_rel_children intro: rtrancl_into_rtrancl)
qed

lemma descendants_dual:
  assumes "dir_wf D" and "graph_ok D" and "bm_get (principals D) i = Some root"
  shows "x \<in> set (descendants_of D i) \<longleftrightarrow> i \<in> set (ancestors_of D x)"
proof -
  let ?K = "kid_rel (children_map (p_tenant root) (principals D) [])"
  have sub: "?K \<subseteq> (deleg.edge D)\<inverse>" 
    using kid_rel_children [OF dir_wf_ordered(1) [OF assms(1)]] by auto
  have "(i, x) \<in> ?K\<^sup>* \<Longrightarrow> (x, i) \<in> (deleg.edge D)\<^sup>*"
    using rtrancl_mono [OF sub] by (auto simp: rtrancl_converse)
  moreover have "(x, i) \<in> (deleg.edge D)\<^sup>+ \<Longrightarrow> x \<noteq> i"
    using graph_ok_acyclic [OF assms(2)] by (auto simp: acyclic_def)
  ultimately show ?thesis
    using descendants_reach [OF dir_wf_ordered(1) [OF assms(1)] assms(3)] tenant_chain [OF assms]
      ancestors_acyclic [OF graph_ok_acyclic [OF assms(2)]]
    by (auto simp: rtrancl_eq_or_trancl)
qed

section \<open>What a successful parse establishes\<close>

definition rec_count :: "directory \<Rightarrow> nat" where
  "rec_count D = length (principals D) + length (resources D) + length (orgs D)"

definition fields_ok :: "directory \<Rightarrow> bool" where
  "fields_ok D \<longleftrightarrow>
     list_all (\<lambda>(k, p). p_tenant p \<noteq> '''' \<and> 0 \<le> p_expiry p) (principals D) \<and>
     list_all (\<lambda>(k, r). r_owner r \<noteq> '''' \<and> r_tenant r \<noteq> '''') (resources D) \<and>
     list_all (\<lambda>(k, g). o_tenant g \<noteq> '''') (orgs D)"

lemma length_bm_insert: "bm_get m k = None \<Longrightarrow> length (bm_insert k v m) = Suc (length m)"
  by (induction k v m rule: bm_insert.induct) (auto split: if_splits)

lemma parse_principal_clean:
  "parse_principal D ident attrs = (D', []) \<Longrightarrow>
    rec_count D' = Suc (rec_count D) \<and> (fields_ok D \<longrightarrow> fields_ok D')"
  by (auto simp: parse_principal_def Let_def rec_count_def fields_ok_def length_bm_insert
      list_all_bm_insert split: if_splits option.splits sum.splits)

lemma parse_resource_clean:
  "parse_resource D ident attrs = (D', []) \<Longrightarrow>
    rec_count D' = Suc (rec_count D) \<and> (fields_ok D \<longrightarrow> fields_ok D')"
  by (auto simp: parse_resource_def Let_def rec_count_def fields_ok_def length_bm_insert
      list_all_bm_insert split: if_splits sum.splits)

lemma parse_org_clean:
  "parse_org D ident attrs = (D', []) \<Longrightarrow>
    rec_count D' = Suc (rec_count D) \<and> (fields_ok D \<longrightarrow> fields_ok D')"
  by (auto simp: parse_org_def Let_def rec_count_def fields_ok_def length_bm_insert
      list_all_bm_insert split: if_splits sum.splits)

lemma parse_entity_clean:
  "parse_entity D i e = (D', []) \<Longrightarrow>
    rec_count D' = Suc (rec_count D) \<and> (fields_ok D \<longrightarrow> fields_ok D')"
  by (auto simp: parse_entity_def Let_def
      dest: parse_principal_clean parse_resource_clean parse_org_clean
      split: if_splits option.splits)

lemma parse_entities_clean:
  "parse_entities D i es = (D', []) \<Longrightarrow>
    rec_count D' = rec_count D + length es \<and> (fields_ok D \<longrightarrow> fields_ok D')"
proof (induction D i es rule: parse_entities.induct)
  case (2 D i e es)
  obtain D1 vs where e: "parse_entity D i e = (D1, vs)" by fastforce
  with 2 parse_entity_clean [of D i e D1] show ?case
    by (auto simp: Let_def split: prod.splits)
qed simp

section \<open>Properties\<close>

definition demo_principal :: "string \<Rightarrow> string option \<Rightarrow> nat \<Rightarrow> string list \<Rightarrow> json" where
  "demo_principal ident delegator expiry scopes =
     JObject [(''attrs'', JObject
        ((case delegator of None \<Rightarrow> []
          | Some d \<Rightarrow> [(''delegator'', JObject [(''id'', JString d), (''type'', JString ''Principal'')])]) @
         [(''expiry'', JNumber (PosInt expiry)),
          (''scopes'', JArray (map JString scopes)),
          (''tenant'', JString ''acme'')])),
      (''uid'', JObject [(''id'', JString ident), (''type'', JString ''Principal'')])]"

definition demo_es :: "json list" where
  "demo_es = [demo_principal ''root'' None 9 [''a'', ''b''],
     demo_principal ''mid'' (Some ''root'') 8 [''a''], demo_principal ''leaf'' (Some ''mid'') 7 []]"

definition demo_entities :: json where
  "demo_entities = JArray demo_es"

definition demo_dir :: directory where
  "demo_dir = (case parse demo_entities of Inl _ \<Rightarrow> default_directory | Inr D \<Rightarrow> D)"

lemma demo_parse: "parse demo_entities = Inr demo_dir"
  by code_simp

lemma demo_valid: "validate demo_dir = []"
  by code_simp

text \<open>C32: load-time validation is exact: on a parsed directory \<open>validate\<close> reports nothing if and only if every delegation edge attenuates, every reference resolves inside its own tenant, no tenant is the reserved one, and both the delegation and the organization graph are acyclic.\<close>

theorem validate_iff_graph_ok:
  assumes "parse v = Inr D"
  shows "validate D = [] \<longleftrightarrow> graph_ok D"
  using assms by (simp add: parse_wf validate_Nil)

theorem validate_iff_graph_ok_witness: "validate demo_dir = [] \<longleftrightarrow> graph_ok demo_dir"
  using validate_iff_graph_ok [OF demo_parse] .

text \<open>C4: attenuation composes along the chain: in a loaded graph a principal's tenant, expiry, scopes, roles and jurisdictions lie inside those of every ancestor \<open>ancestors_of\<close> returns, not only of its direct delegator.\<close>

theorem ancestors_attenuate:
  assumes "parse v = Inr D" and "validate D = []" and "a \<in> set (ancestors_of D x)"
  shows "\<exists>p q. bm_get (principals D) x = Some p \<and> bm_get (principals D) a = Some q \<and> attenuated p q"
proof -
  have wf: "dir_wf D" using assms(1) by (rule parse_wf)
  with assms(2) have ok: "graph_ok D" by (simp add: validate_Nil)
  with assms(3) have "(x, a) \<in> (deleg.edge D)\<^sup>+" by (simp add: ancestors_acyclic graph_ok_acyclic)
  with wf ok show ?thesis by (rule graph_ok_chain)
qed

theorem ancestors_attenuate_witness:
  "\<exists>p q. bm_get (principals demo_dir) ''leaf'' = Some p \<and> bm_get (principals demo_dir) ''root'' = Some q \<and>
     attenuated p q"
proof -
  have "''root'' \<in> set (ancestors_of demo_dir ''leaf'')" by code_simp
  from ancestors_attenuate [OF demo_parse demo_valid this] show ?thesis .
qed

text \<open>\<open>descendants_of\<close>, a breadth-first search over the inverted graph, returns each principal once, and exactly those whose \<open>ancestors_of\<close> contains the start.\<close>

theorem descendants_converse_ancestors:
  assumes "parse v = Inr D" and "validate D = []" and "contains D i"
  shows "(x \<in> set (descendants_of D i) \<longleftrightarrow> i \<in> set (ancestors_of D x)) \<and>
    distinct (descendants_of D i)"
  using assms descendants_dual [of D i] descendants_reach [of D i] dir_wf_ordered(1)
  by (auto simp: contains_def parse_wf validate_Nil)

theorem descendants_converse_ancestors_witness:
  "(''leaf'' \<in> set (descendants_of demo_dir ''root'') \<longleftrightarrow>
      ''root'' \<in> set (ancestors_of demo_dir ''leaf'')) \<and>
    distinct (descendants_of demo_dir ''root'')"
proof -
  have "contains demo_dir ''root''" by code_simp
  from descendants_converse_ancestors [OF demo_parse demo_valid this] show ?thesis .
qed

text \<open>The blast radius is exact: marking a principal revoked makes it and its \<open>descendants_of\<close> effectively revoked, and changes the answer of \<open>revoked\<close> for no one else.\<close>

definition revoke_principal :: "directory \<Rightarrow> string \<Rightarrow> directory" where
  "revoke_principal D i = (case bm_get (principals D) i of None \<Rightarrow> D
     | Some p \<Rightarrow> D\<lparr>principals := bm_insert i (p\<lparr>p_revoked := True\<rparr>) (principals D)\<rparr>)"

lemma edge_revoke: "deleg.edge (revoke_principal D i) = deleg.edge D"
  by (auto simp: revoke_principal_def deleg.edge_def split: option.splits if_splits)

lemma authored_revoke:
  "contains D i \<Longrightarrow> authored_revoked (revoke_principal D i) a \<longleftrightarrow> authored_revoked D a \<or> a = i"
  by (auto simp: revoke_principal_def authored_revoked_def contains_def split: option.splits)

theorem blast_radius_exact:
  assumes "parse v = Inr D" and "validate D = []" and "contains D i"
  shows "revoked (revoke_principal D i) x \<longleftrightarrow> revoked D x \<or> x = i \<or> x \<in> set (descendants_of D i)"
proof -
  have wf: "dir_wf D" using assms(1) by (rule parse_wf)
  with assms(2) have ok: "graph_ok D" by (simp add: validate_Nil)
  obtain root where "bm_get (principals D) i = Some root" using assms(3) by (auto simp: contains_def)
  from descendants_dual [OF wf ok this] show ?thesis
    using assms(3) ancestors_acyclic [OF graph_ok_acyclic [OF ok]]
    by (auto simp: revoked_iff edge_revoke authored_revoke rtrancl_eq_or_trancl)
qed

theorem blast_radius_exact_witness:
  "revoked (revoke_principal demo_dir ''mid'') ''leaf'' \<longleftrightarrow>
     revoked demo_dir ''leaf'' \<or> ''leaf'' = ''mid'' \<or> ''leaf'' \<in> set (descendants_of demo_dir ''mid'')"
proof -
  have "contains demo_dir ''mid''" by code_simp
  from blast_radius_exact [OF demo_parse demo_valid this] show ?thesis .
qed

text \<open>A successful parse yields an ordered directory keyed by the records' own ids, with one record per entity of the input (nothing dropped, nothing overwritten), every tenant and owner non-empty and every expiry non-negative.\<close>

theorem parse_complete:
  assumes "parse (JArray es) = Inr D"
  shows "dir_wf D \<and> rec_count D = length es \<and> fields_ok D"
proof -
  obtain D' vs where p: "parse_entities default_directory 0 es = (D', vs)" by fastforce
  with assms have "D' = D" "vs = []"
    by (auto simp: parse_def as_array_def split: if_splits)
  with p parse_entities_clean [of default_directory 0 es D] assms parse_wf show ?thesis
    by (auto simp: rec_count_def fields_ok_def default_directory_def)
qed

theorem parse_complete_witness:
  "dir_wf demo_dir \<and> rec_count demo_dir = 3 \<and> fields_ok demo_dir"
  using parse_complete [OF demo_parse [unfolded demo_entities_def]] by (simp add: demo_es_def)

lemma ancestors_walk_from:
  "cur = bm_get ps c \<Longrightarrow> ancestors_walk ps seen cur \<noteq> [] \<Longrightarrow> set (c # butlast (ancestors_walk ps seen cur)) \<subseteq> set (bm_keys ps)"
proof (induction ps seen cur arbitrary: c rule: ancestors_walk.induct)
  case (1 ps seen cur)
  from "1.prems"(2) obtain p d where p: "cur = Some p" "p_delegator p = Some d" "d \<notin> set seen"
    by (subst (asm) ancestors_walk.simps) (auto split: option.splits if_splits)
  then have w: "ancestors_walk ps seen cur = d # ancestors_walk ps (d # seen) (bm_get ps d)" by (subst ancestors_walk.simps) simp
  have "c \<in> set (bm_keys ps)" using "1.prems"(1) p(1) by (metis bm_get_SomeD bm_keys_def fst_conv image_eqI set_map)
  with "1.IH" [OF p refl] w show ?case by auto
qed

text \<open>C39: the walk up the delegation chain ends on every directory, a cyclic one included: it meets no
  principal twice, never the one it started from, and takes at most as many steps as there are
  principals.\<close>

theorem ancestors_walk_ends:
  "distinct (x # ancestors_of D x) \<and> length (ancestors_of D x) \<le> length (principals D)"
proof -
  have d: "distinct (ancestors_of D x)" "x \<notin> set (ancestors_of D x)" using distinct_ancestors_of set_ancestors_of by auto
  have "length (ancestors_of D x) \<le> length (principals D)"
  proof (cases "ancestors_of D x = []")
    case False
    have "set (x # butlast (ancestors_of D x)) \<subseteq> set (bm_keys (principals D))"
      using ancestors_walk_from [where ps = "principals D" and c = x and seen = "[x]", OF refl] False by (simp add: ancestors_of_def)
    moreover have "distinct (x # butlast (ancestors_of D x))" using d by (auto dest: in_set_butlastD intro: distinct_butlast)
    ultimately have "length (x # butlast (ancestors_of D x)) \<le> length (bm_keys (principals D))"
      by (metis card_mono card_length distinct_card finite_set le_trans)
    with False show ?thesis by (simp add: bm_keys_def)
  qed simp
  with d show ?thesis by simp
qed

end
