(* ===== verification/Declared_Context.thy ===== *)
theory Declared_Context
  imports Json
begin

text \<open>
  The declared context of \<open>decern-kernel/src/context.rs\<close>: the shape each action declares,
  the union of shapes, and the pruning that keeps a request's context to a shape. Cedar's
  schema-to-JSON conversion is outside the repository; \<open>declared_context_shape\<close> takes its
  result as an argument.

  \<open>restrict_to\<close> is the specification of pruning, a structural restriction without in-place
  updates; \<open>prune\<close> computes it, and the shape laws are stated over it.
\<close>

section \<open>The code\<close>

datatype declared = Record "(string \<times> declared) list" | Opaque

fun union_shape :: "declared \<Rightarrow> declared \<Rightarrow> declared"
and union_into :: "(string \<times> declared) list \<Rightarrow> (string \<times> declared) list \<Rightarrow> (string \<times> declared) list"
where
  "union_shape (Record x) (Record y) = Record (union_into x y)"
| "union_shape _ _ = Opaque"
| "union_into out [] = out"
| "union_into out ((key, shape) # y) =
     union_into (bm_insert key
       (case bm_get out key of Some have \<Rightarrow> union_shape have shape | None \<Rightarrow> shape) out) y"

definition at_path :: "string \<Rightarrow> string \<Rightarrow> string" where
  "at_path path key = (if path = '''' then key else path @ ''.'' @ key)"

fun remove_keys :: "string list \<Rightarrow> jmap \<Rightarrow> jmap" where
  "remove_keys [] obj = obj"
| "remove_keys (k # ks) obj = remove_keys ks (bm_remove k obj)"

text \<open>The pruned value, and the paths dropped in the order the code pushes them.\<close>

fun prune :: "declared \<Rightarrow> json \<Rightarrow> string \<Rightarrow> json \<times> string list"
and prune_attrs :: "(string \<times> declared) list \<Rightarrow> jmap \<Rightarrow> string \<Rightarrow> jmap \<times> string list"
where
  "prune Opaque v path = (v, [])"
| "prune (Record attrs) v path =
     (case v of
        JObject obj \<Rightarrow>
          (let undeclared = filter (\<lambda>k. bm_get attrs k = None) (bm_keys obj);
               (obj', dropped) = prune_attrs attrs (remove_keys undeclared obj) path
           in (JObject obj', map (at_path path) undeclared @ dropped))
      | _ \<Rightarrow> (v, []))"
| "prune_attrs [] obj path = (obj, [])"
| "prune_attrs ((key, child) # attrs) obj path =
     (case bm_get obj key of
        None \<Rightarrow> prune_attrs attrs obj path
      | Some v \<Rightarrow>
          (let (v', d) = prune child v (at_path path key);
               (obj', ds) = prune_attrs attrs (bm_insert key v' obj) path
           in (obj', d @ ds)))"

lemma size_bm_get: "bm_get m k = Some v \<Longrightarrow> size v < size_list (size_prod (\<lambda>_. 0) size) m"
  by (induction m) (auto split: if_splits)

lemma size_jget: "jget t k = Some v \<Longrightarrow> size v < size t"
  by (cases t) (auto simp: jget_def less_Suc_eq dest: size_bm_get)

lemma size_mem_obj: "(k, v) \<in> set m \<Longrightarrow> size v < size (JObject m)"
  by (induction m) auto

text \<open>\<open>shape_of\<close>: a record recurses into its attributes, a name resolves through at most
  five common-type hops.\<close>

function shape_of :: "json option \<Rightarrow> jmap option \<Rightarrow> nat \<Rightarrow> declared" where
  "shape_of ty common depth =
     (case ty of
        None \<Rightarrow> Record []
      | Some t \<Rightarrow>
          (case jget_str t ''type'' of
             None \<Rightarrow> Opaque
           | Some kind \<Rightarrow>
               if kind = ''Record'' then
                 (if Option.bind (jget t ''additionalAttributes'') as_bool = Some True then Opaque
                  else Record
                    (case Option.bind (jget t ''attributes'') as_object of
                       None \<Rightarrow> []
                     | Some attrs \<Rightarrow> map (\<lambda>(k, v). (k, shape_of (Some v) common depth)) attrs))
               else
                 (let name = (if kind = ''EntityOrCommon'' then jget_str t ''name'' else Some kind)
                  in case Option.bind name (\<lambda>n. Option.bind common (\<lambda>c. bm_get c n)) of
                       Some target \<Rightarrow>
                         if depth \<le> 4 then shape_of (Some target) common (Suc depth) else Opaque
                     | None \<Rightarrow> Opaque)))"
  by pat_completeness auto
termination
proof (relation "(\<lambda>(ty, common, depth). 5 - depth) <*mlex*>
    measure (\<lambda>(ty, common, depth). case ty of None \<Rightarrow> 0 | Some t \<Rightarrow> size t)", goal_cases)
  case 1
  then show ?case by (simp add: wf_mlex)
next
  case (2 ty common depth t kind attrs kv k v)
  then have "size v < size (JObject attrs)" and "jget t ''attributes'' = Some (JObject attrs)"
    by (auto simp: size_mem_obj bind_eq_Some_conv as_object_eq_Some simp del: json.size)
  then have "size v < size t" using size_jget by fastforce
  with 2 show ?case by (simp add: mlex_iff)
next
  case (3 ty common depth t kind name target)
  then have "5 - Suc depth < 5 - depth" by simp
  then show ?case by (intro mlex_less) simp
qed

declare shape_of.simps [simp del]

text \<open>\<open>fragment_json\<close> is what \<open>SchemaFragment::from_cedarschema_str\<close> followed by
  \<open>to_json_value\<close> gives.\<close>

definition declared_context_shape :: "'e + json \<Rightarrow> 'e + (string, declared) bmap" where
  "declared_context_shape fragment_json =
     res_map (\<lambda>schema.
       case jget schema '''' of
         None \<Rightarrow> []
       | Some root \<Rightarrow>
           (let common = Option.bind (jget root ''commonTypes'') as_object;
                actions = unwrap_or [] (Option.bind (jget root ''actions'') as_object)
            in bm_of_list (map (\<lambda>(name, action).
                 (name, shape_of (Option.bind (jget action ''appliesTo'') (\<lambda>a. jget a ''context''))
                          common 0)) actions)))
       fragment_json"

section \<open>Specification\<close>

fun json_wf :: "json \<Rightarrow> bool" where
  "json_wf (JObject m) \<longleftrightarrow> bm_wf m \<and> list_all (\<lambda>(k, v). json_wf v) m"
| "json_wf (JArray a) \<longleftrightarrow> list_all json_wf a"
| "json_wf _ \<longleftrightarrow> True"

fun shape_wf :: "declared \<Rightarrow> bool" where
  "shape_wf (Record m) \<longleftrightarrow> bm_wf m \<and> list_all (\<lambda>(k, s). shape_wf s) m"
| "shape_wf Opaque \<longleftrightarrow> True"

text \<open>The restriction of a value to a shape: at a record position keep the declared attributes,
  each restricted to its own shape.\<close>

function restrict_to :: "declared \<Rightarrow> json \<Rightarrow> json" where
  "restrict_to (Record attrs) (JObject obj) =
     JObject (concat (map
       (\<lambda>(k, v). case bm_get attrs k of None \<Rightarrow> [] | Some s \<Rightarrow> [(k, restrict_to s v)]) obj))"
| "restrict_to Opaque v = v"
| "restrict_to (Record attrs) JNull = JNull"
| "restrict_to (Record attrs) (JBool b) = JBool b"
| "restrict_to (Record attrs) (JNumber n) = JNumber n"
| "restrict_to (Record attrs) (JString s) = JString s"
| "restrict_to (Record attrs) (JArray a) = JArray a"
  by pat_completeness auto
termination
  by (relation "measure (\<lambda>(s, v). size s)") (auto intro: less_SucI dest: size_bm_get)

lemma concat_map_concat: "concat (map g (concat (map f xs))) = concat (map (\<lambda>x. concat (map g (f x))) xs)"
  by (induction xs) auto

lemma restrict_map_cong:
  assumes "\<And>k v. (k, v) \<in> set obj \<Longrightarrow>
    concat (map (\<lambda>(k, v). case bm_get x k of None \<Rightarrow> [] | Some s \<Rightarrow> [(k, restrict_to s v)])
      (case bm_get u k of None \<Rightarrow> [] | Some s \<Rightarrow> [(k, restrict_to s v)])) =
    (case bm_get x k of None \<Rightarrow> [] | Some s \<Rightarrow> [(k, restrict_to s v)])"
  shows "restrict_to (Record x) (restrict_to (Record u) (JObject obj)) = restrict_to (Record x) (JObject obj)"
  using assms by (auto simp: concat_map_concat intro!: arg_cong [of _ _ concat])

lemma restrict_idem: "restrict_to s (restrict_to s v) = restrict_to s v"
proof (induction s arbitrary: v)
  case (Record attrs)
  show ?case
  proof (cases v)
    case (JObject obj)
    have "restrict_to c (restrict_to c w) = restrict_to c w" if "bm_get attrs k = Some c" for k c w
      using Record that by (force dest!: bm_get_SomeD)
    then show ?thesis unfolding JObject
      by (intro restrict_map_cong) (auto split: option.splits)
  qed simp_all
qed simp

lemma bm_get_union_into:
  "bm_wf y \<Longrightarrow> bm_get (union_into x y) k =
    (case (bm_get x k, bm_get y k) of
       (Some a, Some b) \<Rightarrow> Some (union_shape a b)
     | (Some a, None) \<Rightarrow> Some a
     | (None, b) \<Rightarrow> b)"
proof (induction y arbitrary: x)
  case (Cons kv y)
  obtain key shape where kv: "kv = (key, shape)" by (cases kv)
  have "bm_get y key = None" using Cons.prems by (auto simp: kv bm_wf_Cons bm_get_None)
  then show ?case using Cons by (auto simp: kv bm_wf_Cons split: option.splits)
qed (simp split: option.splits)

lemma union_covers:
  "shape_wf b \<Longrightarrow> restrict_to a (restrict_to (union_shape a b) v) = restrict_to a v \<and>
     restrict_to b (restrict_to (union_shape a b) v) = restrict_to b v"
proof (induction a arbitrary: b v)
  case Opaque
  then show ?case by simp
next
  case (Record x)
  show ?case
  proof (cases b)
    case Opaque
    then show ?thesis by simp
  next
    case b: (Record y)
    with Record.prems have wf: "bm_wf y" by simp
    show ?thesis
    proof (cases v)
      case (JObject obj)
      have IH: "restrict_to c (restrict_to (union_shape c d) w) = restrict_to c w \<and>
          restrict_to d (restrict_to (union_shape c d) w) = restrict_to d w"
        if "bm_get x k = Some c" "bm_get y k = Some d" for k c d w
      proof (rule Record.IH)
        show "(k, c) \<in> set x" using that(1) by (rule bm_get_SomeD)
        show "c \<in> Basic_BNFs.snds (k, c)" by simp
        show "shape_wf d" using Record.prems b that(2)
          by (auto simp: list_all_iff dest!: bm_get_SomeD)
      qed
      show ?thesis unfolding JObject b union_shape.simps
        by (intro conjI restrict_map_cong)
          (auto simp: bm_get_union_into [OF wf] IH restrict_idem split: option.splits)
    qed (simp_all add: b)
  qed
qed

lemma bm_wf_union_into: "bm_wf x \<Longrightarrow> bm_wf (union_into x y)"
  by (induction x y rule: union_shape_union_into.induct(2) [where P = "\<lambda>_ _. True"]) auto

lemma bm_insert_present:
  "bm_wf m \<Longrightarrow> bm_get m k = Some w \<Longrightarrow>
    bm_insert k v m = map (\<lambda>(k', v'). (k', if k' = k then v else v')) m"
proof (induction k v m rule: bm_insert.induct)
  case (2 k v k' v' m)
  then have k': "k' \<notin> fst ` set m" "bm_wf m" by (auto simp: bm_wf_Cons)
  have id: "j \<notin> fst ` set m \<Longrightarrow> map (\<lambda>(k', v'). (k', if k' = j then v else v')) m = m" for j
    by (induction m) auto
  have "k < k' \<Longrightarrow> bm_get m k = None" using 2(2) by (force simp: bm_wf_Cons bm_get_None)
  then show ?case using 2 k' id [of k'] by (auto split: if_splits)
qed simp

lemma bm_wf_map_val: "bm_wf (map (\<lambda>(k, v). (k, f k v)) m) \<longleftrightarrow> bm_wf m"
proof -
  have "map fst (map (\<lambda>(k, v). (k, f k v)) m) = map fst m" by (induction m) auto
  then show ?thesis by (simp only: bm_wf_def)
qed

lemma remove_keys_filter: "remove_keys ks m = filter (\<lambda>(k, v). k \<notin> set ks) m"
  by (induction ks arbitrary: m) (auto simp: bm_remove_def bm_retain_def intro!: filter_cong)

lemma json_wf_get: "json_wf (JObject m) \<Longrightarrow> bm_get m k = Some v \<Longrightarrow> json_wf v"
  by (auto simp: list_all_iff dest!: bm_get_SomeD)

lemma restrict_obj:
  "restrict_to (Record attrs) (JObject obj) =
    JObject (map (\<lambda>(k, v). (k, case bm_get attrs k of None \<Rightarrow> v | Some s \<Rightarrow> restrict_to s v))
      (filter (\<lambda>(k, v). bm_get attrs k \<noteq> None) obj))"
  by (simp, induction obj) (auto split: option.splits)

lemma json_wf_restrict: "json_wf v \<Longrightarrow> json_wf (restrict_to s v)"
proof (induction s arbitrary: v)
  case (Record attrs)
  show ?case
  proof (cases v)
    case (JObject obj)
    with Record.prems have "bm_wf (filter (\<lambda>(k, v). bm_get attrs k \<noteq> None) obj)"
      by (simp add: bm_wf_filter)
    moreover have "json_wf (restrict_to c w)" if "bm_get attrs k = Some c" "(k, w) \<in> set obj" for k c w
      using Record that JObject by (force simp: list_all_iff dest!: bm_get_SomeD)
    ultimately show ?thesis
      by (auto simp: JObject restrict_obj bm_wf_map_val list_all_iff simp del: restrict_to.simps)
  qed (use Record.prems in simp_all)
qed simp

lemma prune_restrict:
  "shape_wf s \<Longrightarrow> json_wf v \<Longrightarrow> fst (prune s v path) = restrict_to s v"
  "shape_wf (Record attrs) \<Longrightarrow> json_wf (JObject obj) \<Longrightarrow>
    fst (prune_attrs attrs obj path) =
      map (\<lambda>(k, v). (k, case bm_get attrs k of None \<Rightarrow> v | Some s \<Rightarrow> restrict_to s v)) obj"
proof (induction s v path and attrs obj path rule: prune_prune_attrs.induct)
  case (1 v path)
  then show ?case by simp
next
  case (2 attrs v path)
  show ?case
  proof (cases v)
    case (JObject obj)
    let ?u = "filter (\<lambda>k. bm_get attrs k = None) (bm_keys obj)"
    have rk: "remove_keys ?u obj = filter (\<lambda>(k, v). bm_get attrs k \<noteq> None) obj"
      by (force simp: remove_keys_filter bm_keys_def intro!: filter_cong)
    have "json_wf (JObject (remove_keys ?u obj))"
      using 2(3) by (auto simp: rk JObject bm_wf_filter list_all_iff)
    with 2 JObject have "fst (prune_attrs attrs (remove_keys ?u obj) path) =
        map (\<lambda>(k, v). (k, case bm_get attrs k of None \<Rightarrow> v | Some s \<Rightarrow> restrict_to s v)) (remove_keys ?u obj)"
      by simp
    then show ?thesis
      by (simp add: JObject restrict_obj rk case_prod_unfold del: restrict_to.simps)
  qed simp_all
next
  case (3 obj path)
  then show ?case by (simp add: case_prod_unfold)
next
  case (4 key child attrs obj path)
  have nk: "bm_get attrs key = None" and wfa: "shape_wf (Record attrs)" and wfc: "shape_wf child"
    using "4.prems"(1) by (auto simp: bm_wf_Cons bm_get_None)
  show ?case
  proof (cases "bm_get obj key")
    case None
    then have "k \<noteq> key" if "(k, v) \<in> set obj" for k v using that by (force simp: bm_get_None)
    then show ?thesis using 4(1) [OF None wfa "4.prems"(2)] None by (auto intro!: map_cong)
  next
    case (Some v)
    let ?o = "map (\<lambda>(k, w). (k, if k = key then restrict_to child v else w)) obj"
    have p: "fst (prune child v (at_path path key)) = restrict_to child v"
      using 4(2) [OF Some wfc] json_wf_get [OF "4.prems"(2) Some] by simp
    have ins: "bm_insert key (restrict_to child v) obj = ?o"
      using "4.prems"(2) Some by (simp add: bm_insert_present)
    have uniq: "(key, w) \<in> set obj \<Longrightarrow> w = v" for w
      using "4.prems"(2) Some by (simp add: bm_get_eq_Some [symmetric])
    have "json_wf (JObject ?o)"
      using "4.prems"(2) json_wf_restrict [OF json_wf_get [OF "4.prems"(2) Some]]
      by (auto simp: bm_wf_map_val list_all_iff)
    then have "fst (prune_attrs attrs ?o path) =
        map (\<lambda>(k, v). (k, case bm_get attrs k of None \<Rightarrow> v | Some s \<Rightarrow> restrict_to s v)) ?o"
      using 4(3) [OF Some refl prod.collapse wfa] by (simp add: p ins)
    moreover have "\<dots> = map (\<lambda>(k, v). (k, case bm_get ((key, child) # attrs) k of None \<Rightarrow> v
        | Some s \<Rightarrow> restrict_to s v)) obj"
      unfolding map_map
    proof (rule map_cong [OF refl], clarify)
      fix k w assume "(k, w) \<in> set obj"
      then show "((\<lambda>(k, v). (k, case bm_get attrs k of None \<Rightarrow> v | Some s \<Rightarrow> restrict_to s v)) \<circ>
          (\<lambda>(k, w). (k, if k = key then restrict_to child v else w))) (k, w) =
        (k, case bm_get ((key, child) # attrs) k of None \<Rightarrow> w | Some s \<Rightarrow> restrict_to s w)"
        using nk uniq [of w] by (cases "k = key") simp_all
    qed
    ultimately show ?thesis using Some p ins by (simp add: case_prod_unfold Let_def)
  qed
qed


lemma map_filter_fixed:
  "map F (filter P xs) = xs \<longleftrightarrow> (\<forall>x \<in> set xs. P x \<and> F x = x)"
proof
  assume eq: "map F (filter P xs) = xs"
  then have "length (filter P xs) = length xs" by (metis length_map)
  then have "filter P xs = xs" by (metis length_filter_less filter_True less_irrefl)
  with eq have "map F xs = map id xs" and "\<forall>x \<in> set xs. P x"
    by (simp_all add: filter_id_conv)
  then show "\<forall>x \<in> set xs. P x \<and> F x = x" by (simp only: map_eq_conv id_def) blast
qed (simp add: map_idI)

lemma prune_dropped:
  "shape_wf s \<Longrightarrow> json_wf v \<Longrightarrow> snd (prune s v path) = [] \<longleftrightarrow> restrict_to s v = v"
  "shape_wf (Record attrs) \<Longrightarrow> json_wf (JObject obj) \<Longrightarrow>
    snd (prune_attrs attrs obj path) = [] \<longleftrightarrow>
      (\<forall>(k, v) \<in> set obj. \<forall>s. bm_get attrs k = Some s \<longrightarrow> restrict_to s v = v)"
proof (induction s v path and attrs obj path rule: prune_prune_attrs.induct)
  case (1 v path)
  then show ?case by simp
next
  case (2 attrs v path)
  show ?case
  proof (cases v)
    case (JObject obj)
    let ?u = "filter (\<lambda>k. bm_get attrs k = None) (bm_keys obj)"
    have rk: "remove_keys ?u obj = filter (\<lambda>(k, v). bm_get attrs k \<noteq> None) obj"
      by (force simp: remove_keys_filter bm_keys_def intro!: filter_cong)
    have "json_wf (JObject (remove_keys ?u obj))"
      using 2(3) by (auto simp: rk JObject bm_wf_filter list_all_iff)
    with 2 JObject have "snd (prune_attrs attrs (remove_keys ?u obj) path) = [] \<longleftrightarrow>
        (\<forall>(k, v) \<in> set (remove_keys ?u obj). \<forall>s. bm_get attrs k = Some s \<longrightarrow> restrict_to s v = v)"
      by simp
    moreover have "\<dots> \<longleftrightarrow> (\<forall>x \<in> set obj. bm_get attrs (fst x) \<noteq> None \<longrightarrow>
        (\<forall>s. bm_get attrs (fst x) = Some s \<longrightarrow> restrict_to s (snd x) = snd x))"
      unfolding rk set_filter case_prod_unfold by blast
    moreover have "?u = [] \<longleftrightarrow> (\<forall>x \<in> set obj. bm_get attrs (fst x) \<noteq> None)"
      by (simp add: filter_empty_conv bm_keys_def)
    moreover have "restrict_to (Record attrs) v = v \<longleftrightarrow> (\<forall>x \<in> set obj. bm_get attrs (fst x) \<noteq> None \<and>
        (\<forall>s. bm_get attrs (fst x) = Some s \<longrightarrow> restrict_to s (snd x) = snd x))"
      unfolding JObject restrict_obj json.inject map_filter_fixed
      by (intro ball_cong refl) (auto split: option.splits prod.splits)
    moreover have "snd (prune (Record attrs) v path) = [] \<longleftrightarrow>
        ?u = [] \<and> snd (prune_attrs attrs (remove_keys ?u obj) path) = []"
      by (simp add: JObject Let_def case_prod_unfold)
    ultimately show ?thesis by blast
  qed simp_all
next
  case (3 obj path)
  then show ?case by simp
next
  case (4 key child attrs obj path)
  have nk: "bm_get attrs key = None" and wfa: "shape_wf (Record attrs)" and wfc: "shape_wf child"
    using "4.prems"(1) by (auto simp: bm_wf_Cons bm_get_None)
  show ?case
  proof (cases "bm_get obj key")
    case None
    then have "k \<noteq> key" if "(k, v) \<in> set obj" for k v using that by (force simp: bm_get_None)
    then show ?thesis using 4(1) [OF None wfa "4.prems"(2)] None by auto
  next
    case (Some v)
    let ?o = "map (\<lambda>(k, w). (k, if k = key then restrict_to child v else w)) obj"
    have wfv: "json_wf v" using json_wf_get [OF "4.prems"(2) Some] .
    have p: "fst (prune child v (at_path path key)) = restrict_to child v"
      using prune_restrict(1) [OF wfc wfv] .
    have d: "snd (prune child v (at_path path key)) = [] \<longleftrightarrow> restrict_to child v = v"
      using 4(2) [OF Some wfc wfv] .
    have ins: "bm_insert key (restrict_to child v) obj = ?o"
      using "4.prems"(2) Some by (simp add: bm_insert_present)
    have mem: "(key, w) \<in> set obj \<longleftrightarrow> w = v" for w
      using "4.prems"(2) Some by (auto simp: bm_get_eq_Some [symmetric])
    have "json_wf (JObject ?o)"
      using "4.prems"(2) json_wf_restrict [OF wfv] by (auto simp: bm_wf_map_val list_all_iff)
    then have "snd (prune_attrs attrs ?o path) = [] \<longleftrightarrow>
        (\<forall>(k, v) \<in> set ?o. \<forall>s. bm_get attrs k = Some s \<longrightarrow> restrict_to s v = v)"
      using 4(3) [OF Some refl prod.collapse wfa] by (simp add: p ins)
    moreover have "\<dots> \<longleftrightarrow> (\<forall>(k, v) \<in> set obj. \<forall>s. bm_get attrs k = Some s \<longrightarrow> restrict_to s v = v)"
      using nk by (fastforce split: if_splits)
    moreover have "(\<forall>(k, v) \<in> set obj. \<forall>s. bm_get ((key, child) # attrs) k = Some s \<longrightarrow> restrict_to s v = v)
        \<longleftrightarrow> restrict_to child v = v \<and>
          (\<forall>(k, v) \<in> set obj. \<forall>s. bm_get attrs k = Some s \<longrightarrow> restrict_to s v = v)" (is "?l \<longleftrightarrow> ?c \<and> ?r")
    proof
      assume l: ?l
      from bspec [OF l, of "(key, v)"] mem have ?c by simp
      moreover have "restrict_to s w = w" if "(k, w) \<in> set obj" "bm_get attrs k = Some s" for k w s
        using bspec [OF l that(1)] that(2) nk by (cases "k = key") simp_all
      then have ?r by blast
      ultimately show "?c \<and> ?r" ..
    next
      assume "?c \<and> ?r"
      with nk mem show ?l by (auto split: if_splits)
    qed
    ultimately show ?thesis using Some p ins d by (simp add: case_prod_unfold Let_def)
  qed
qed

section \<open>Properties\<close>

definition demo_shape :: declared where
  "demo_shape = Record [(''now'', Opaque), (''subject'', Record [(''role'', Opaque)])]"

definition demo_context :: json where
  "demo_context = JObject [(''ip'', JString ''10.0.0.1''), (''now'', JNumber (PosInt 1)),
     (''subject'', JObject [(''department'', JString ''Sales''), (''role'', JString ''admin'')])]"

text \<open>Pruning is exactly the restriction to the declared shape, at every level: what the
  shape declares is kept unchanged, everything else is gone, and the list of dropped paths is
  empty precisely when the value was already inside the shape.\<close>

theorem prune_is_restriction:
  assumes "shape_wf s" and "json_wf v"
  shows "fst (prune s v path) = restrict_to s v \<and>
    (snd (prune s v path) = [] \<longleftrightarrow> restrict_to s v = v)"
  using prune_restrict(1) [OF assms] prune_dropped(1) [OF assms] by simp

theorem prune_is_restriction_witness:
  "fst (prune demo_shape demo_context '''') = restrict_to demo_shape demo_context \<and>
    (snd (prune demo_shape demo_context '''') = [] \<longleftrightarrow> restrict_to demo_shape demo_context = demo_context)"
proof -
  have "shape_wf demo_shape" "json_wf demo_context" by code_simp+
  from prune_is_restriction [OF this] show ?thesis .
qed

end
