(* ===== verification/Kernel.thy ===== *)
theory Kernel
  imports Graph Declared_Context
begin

text \<open>
  The decision core of \<open>decern-kernel/src/lib.rs\<close>: loading a model (\<open>kernel_new\<close>),
  the derived attributes injected into the entities, the context pruning of a loaded kernel, the
  decision \<open>check\<close> and the three searches.

  The Cedar engine is a third-party crate. Its entry points are the fields of the record
  \<open>cedar\<close>, an argument of every operation that calls it; nothing is assumed of them, so each
  theorem holds for any engine.
\<close>

section \<open>The code\<close>

record model =
  md_schema :: string
  md_policies :: string
  md_entities :: json

datatype kernel_error =
    KIo string
  | KSchema string
  | KPolicy string
  | KValidation "string list"
  | KEntities string
  | KGraph "violation list"

record entity_ref =
  er_ty :: string
  er_id :: string

record check_response =
  cr_decision :: bool
  cr_reasons :: "string list"
  cr_errors :: "string list"

definition deny :: "string \<Rightarrow> check_response" where
  "deny reason = \<lparr>cr_decision = False, cr_reasons = [], cr_errors = [reason]\<rparr>"

text \<open>A policy as \<open>Kernel::new\<close> handles it: its id, its \<open>@id\<close> annotation, and a body
  only the engine reads.\<close>

record 'p policy =
  pol_id :: string
  pol_annotation :: "string option"
  pol_body :: 'p

type_synonym euid = "string \<times> string"

text \<open>The Cedar entry points: schema parsing and its JSON form, policy-set parsing, strict
  validation (the list of errors), entity loading, type-name and id parsing, context and
  request construction, and the authorizer (decision, determining policies, errors); and the
  \<open>Display\<close> of a JSON value.\<close>

record ('s, 'p, 'e, 'c, 'r) cedar =
  cd_schema :: "string \<Rightarrow> string + 's"
  cd_fragment :: "string \<Rightarrow> string + json"
  cd_policies :: "string \<Rightarrow> string + 'p policy list"
  cd_validate :: "'s \<Rightarrow> 'p policy list \<Rightarrow> string list"
  cd_entities :: "json \<Rightarrow> 's \<Rightarrow> string + 'e"
  cd_type_name :: "string \<Rightarrow> string + string"
  cd_entity_id :: "string \<Rightarrow> string + string"
  cd_context :: "json \<Rightarrow> 's \<Rightarrow> euid \<Rightarrow> string + 'c"
  cd_request :: "euid \<Rightarrow> euid \<Rightarrow> euid \<Rightarrow> 'c \<Rightarrow> 's \<Rightarrow> string + 'r"
  cd_is_authorized :: "'r \<Rightarrow> 'p policy list \<Rightarrow> 'e \<Rightarrow> bool \<times> string list \<times> string list"
  cd_show :: "json \<Rightarrow> string"

record ('s, 'p, 'e) kernel =
  k_schema :: 's
  k_context_shape :: "(string, declared) bmap"
  k_context_union :: declared
  k_policies :: "'p policy list"
  k_entities :: 'e
  k_directory :: directory

subsection \<open>Loading\<close>

definition err_map :: "('e \<Rightarrow> 'f) \<Rightarrow> 'e + 'a \<Rightarrow> 'f + 'a" where
  "err_map f m = (case m of Inl e \<Rightarrow> Inl (f e) | Inr x \<Rightarrow> Inr x)"

definition rename_policy :: "'p policy \<Rightarrow> 'p policy" where
  "rename_policy p = (case pol_annotation p of Some i \<Rightarrow> p\<lparr>pol_id := i\<rparr> | None \<Rightarrow> p)"

text \<open>\<open>PolicySet::add\<close> refuses an id already present.\<close>

fun name_policies :: "'p policy list \<Rightarrow> 'p policy list \<Rightarrow> kernel_error + 'p policy list" where
  "name_policies named [] = Inr named"
| "name_policies named (p # ps) =
     (let q = rename_policy p in
      if pol_id q \<in> pol_id ` set named then Inl (KPolicy (pol_id q))
      else name_policies (named @ [q]) ps)"

definition principal_entity :: "json \<Rightarrow> bool" where
  "principal_entity e \<longleftrightarrow>
     Option.bind (jget e ''uid'') (\<lambda>u. jget_str u ''type'') = Some ''Principal''"

definition ancestor_ref :: "string \<Rightarrow> json" where
  "ancestor_ref a = JObject [(''__entity'',
     JObject [(''id'', JString a), (''type'', JString ''Principal'')])]"

definition inject_entity :: "directory \<Rightarrow> json \<Rightarrow> json" where
  "inject_entity dir e =
     (if \<not> principal_entity e then e
      else
        (let ident = unwrap_or '''' (Option.bind (jget e ''uid'') (\<lambda>u. jget_str u ''id''));
             effective_revoked = revoked dir ident;
             refs = map ancestor_ref (ancestors_of dir ident)
         in case e of
              JObject m \<Rightarrow>
                (case bm_get m ''attrs'' of
                   Some (JObject attrs) \<Rightarrow>
                     JObject (bm_insert ''attrs''
                       (JObject (bm_insert ''revoked'' (JBool effective_revoked)
                          (bm_insert ''ancestors'' (JArray refs) attrs))) m)
                 | _ \<Rightarrow> e)
            | _ \<Rightarrow> e))"

definition inject_derived :: "json \<Rightarrow> directory \<Rightarrow> json" where
  "inject_derived entities dir =
     JArray (map (inject_entity dir) (unwrap_or [] (as_array entities)))"

definition context_union_of :: "(string, declared) bmap \<Rightarrow> declared" where
  "context_union_of shapes = fold (\<lambda>shape acc. union_shape acc shape) (bm_values shapes) (Record [])"

definition kernel_new ::
  "('s, 'p, 'e, 'c, 'r) cedar \<Rightarrow> model \<Rightarrow> kernel_error + ('s, 'p, 'e) kernel" where
  "kernel_new cd model =
     res_bind (err_map KSchema (cd_schema cd (md_schema model))) (\<lambda>schema.
     res_bind (err_map KSchema (declared_context_shape (cd_fragment cd (md_schema model)))) (\<lambda>shape.
     res_bind (err_map KPolicy (cd_policies cd (md_policies model))) (\<lambda>parsed.
     res_bind (name_policies [] parsed) (\<lambda>policies.
     res_bind (let errs = cd_validate cd schema policies
               in res_guard (errs = []) (KValidation errs)) (\<lambda>_.
     res_bind (err_map KGraph (parse (md_entities model))) (\<lambda>dir.
     res_bind (let violations = validate dir
               in res_guard (violations = []) (KGraph violations)) (\<lambda>_.
     res_bind (err_map KEntities (cd_entities cd (inject_derived (md_entities model) dir) schema))
       (\<lambda>entities.
     Inr \<lparr>k_schema = schema, k_context_shape = shape, k_context_union = context_union_of shape,
          k_policies = policies, k_entities = entities, k_directory = dir\<rparr>))))))))"

subsection \<open>Pruning\<close>

definition prune_undeclared_context ::
  "('s, 'p, 'e) kernel \<Rightarrow> string \<Rightarrow> json \<Rightarrow> json \<times> string list" where
  "prune_undeclared_context k action context =
     (let (v, dropped) =
        (case bm_get (k_context_shape k) action of
           Some shape \<Rightarrow> prune shape context ''''
         | None \<Rightarrow> prune (Record [(''now'', Opaque)]) context '''')
      in (v, sort dropped))"

definition prune_to_any_declared :: "('s, 'p, 'e) kernel \<Rightarrow> json \<Rightarrow> json \<times> string list" where
  "prune_to_any_declared k context =
     (let (v, dropped) = prune (k_context_union k) context '''' in (v, sort dropped))"

subsection \<open>The decision\<close>

definition uid :: "('s, 'p, 'e, 'c, 'r) cedar \<Rightarrow> string \<Rightarrow> string \<Rightarrow> string + euid" where
  "uid cd ty ident =
     res_bind (cd_type_name cd ty) (\<lambda>tn.
     res_bind (cd_entity_id cd ident) (\<lambda>eid. Inr (tn, eid)))"

definition check ::
  "('s, 'p, 'e, 'c, 'r) cedar \<Rightarrow> ('s, 'p, 'e) kernel \<Rightarrow>
   entity_ref \<Rightarrow> string \<Rightarrow> entity_ref \<Rightarrow> json \<Rightarrow> check_response" where
  "check cd k subject action resource context =
     (case uid cd (er_ty subject) (er_id subject) of
        Inl e \<Rightarrow> deny (''bad subject: '' @ e)
      | Inr subject_uid \<Rightarrow>
     (case uid cd ''Action'' action of
        Inl e \<Rightarrow> deny (''bad action: '' @ e)
      | Inr action_uid \<Rightarrow>
     (case uid cd (er_ty resource) (er_id resource) of
        Inl e \<Rightarrow> deny (''bad resource: '' @ e)
      | Inr resource_uid \<Rightarrow>
      if \<not> is_object context then deny ''context must be a JSON object''
      else
     (case jget context ''now'' of
        None \<Rightarrow> deny ''context.now is required (the kernel never reads a clock)''
      | Some v \<Rightarrow>
      if \<not> (case as_u64 v of Some n \<Rightarrow> int n \<le> i64_max | None \<Rightarrow> False) then
        deny (''context.now must be a non-negative integer within Long range (epoch seconds), got '' @
              cd_show cd v)
      else
     (case cd_context cd context (k_schema k) action_uid of
        Inl e \<Rightarrow> deny (''bad context: '' @ e)
      | Inr ctx \<Rightarrow>
     (case cd_request cd subject_uid action_uid resource_uid ctx (k_schema k) of
        Inl e \<Rightarrow> deny (''bad request: '' @ e)
      | Inr request \<Rightarrow>
          (case cd_is_authorized cd request (k_policies k) (k_entities k) of
             (allow, reasons, errs) \<Rightarrow>
               \<lparr>cr_decision = allow, cr_reasons = reasons, cr_errors = errs\<rparr>)))))))"

subsection \<open>Searches\<close>

definition search_subjects ::
  "('s, 'p, 'e, 'c, 'r) cedar \<Rightarrow> ('s, 'p, 'e) kernel \<Rightarrow> string \<Rightarrow> entity_ref \<Rightarrow> json \<Rightarrow>
   entity_ref list" where
  "search_subjects cd k action resource context =
     map (\<lambda>i. \<lparr>er_ty = ''Principal'', er_id = i\<rparr>)
       (filter (\<lambda>i. cr_decision (check cd k \<lparr>er_ty = ''Principal'', er_id = i\<rparr> action resource context))
         (bm_keys (principals (k_directory k))))"

definition search_resources ::
  "('s, 'p, 'e, 'c, 'r) cedar \<Rightarrow> ('s, 'p, 'e) kernel \<Rightarrow> entity_ref \<Rightarrow> string \<Rightarrow> json \<Rightarrow>
   entity_ref list" where
  "search_resources cd k subject action context =
     map (\<lambda>i. \<lparr>er_ty = ''Resource'', er_id = i\<rparr>)
       (filter (\<lambda>i. cr_decision (check cd k subject action \<lparr>er_ty = ''Resource'', er_id = i\<rparr> context))
         (bm_keys (resources (k_directory k))))"

definition search_actions ::
  "('s, 'p, 'e, 'c, 'r) cedar \<Rightarrow> ('s, 'p, 'e) kernel \<Rightarrow> entity_ref \<Rightarrow> entity_ref \<Rightarrow> json \<Rightarrow>
   string list" where
  "search_actions cd k subject resource context =
     filter (\<lambda>action. cr_decision (check cd k subject action resource
         (fst (prune_undeclared_context k action context))))
       (bm_keys (k_context_shape k))"

section \<open>Lemmas\<close>

lemma err_map_eq_Inr [res_simps]: "err_map f m = Inr x \<longleftrightarrow> m = Inr x"
  by (cases m) (simp_all add: err_map_def)

lemma name_policies_distinct:
  "name_policies named ps = Inr qs \<Longrightarrow> distinct (map pol_id named) \<Longrightarrow> distinct (map pol_id qs)"
  by (induction named ps rule: name_policies.induct) (auto simp: Let_def split: if_splits)

lemma name_policies_names:
  "name_policies named ps = Inr qs \<Longrightarrow> qs = named @ map rename_policy ps"
  by (induction named ps rule: name_policies.induct) (auto simp: Let_def split: if_splits)

lemma name_policies_total:
  "distinct (map pol_id named @ map (\<lambda>p. pol_id (rename_policy p)) ps) \<Longrightarrow> name_policies named ps = Inr (named @ map rename_policy ps)"
  by (induction named ps rule: name_policies.induct) (auto simp: Let_def)

lemma kernel_new_Inr:
  assumes "kernel_new cd m = Inr k"
  shows "parse (md_entities m) = Inr (k_directory k) \<and> validate (k_directory k) = []"
    and "cd_schema cd (md_schema m) = Inr (k_schema k)"
    and "declared_context_shape (cd_fragment cd (md_schema m)) = Inr (k_context_shape k)"
    and "k_context_union k = context_union_of (k_context_shape k)"
    and "\<exists>ps. cd_policies cd (md_policies m) = Inr ps \<and> name_policies [] ps = Inr (k_policies k)"
    and "cd_validate cd (k_schema k) (k_policies k) = []"
    and "cd_entities cd (inject_derived (md_entities m) (k_directory k)) (k_schema k) = Inr (k_entities k)"
  using assms by (auto simp: kernel_new_def Let_def res_simps)

lemma json_wf_jget: "json_wf t \<Longrightarrow> jget t k = Some v \<Longrightarrow> json_wf v"
  by (cases t) (auto simp: jget_def list_all_iff dest!: bm_get_SomeD)

lemma shape_wf_shape_of:
  "(\<And>t. ty = Some t \<Longrightarrow> json_wf t) \<Longrightarrow> (\<And>c. common = Some c \<Longrightarrow> json_wf (JObject c)) \<Longrightarrow>
    shape_wf (shape_of ty common depth)"
proof (induction ty common depth rule: shape_of.induct)
  case (1 ty common depth)
  show ?case
  proof (cases "\<exists>t kind. ty = Some t \<and> jget_str t ''type'' = Some kind")
    case False
    then show ?thesis by (subst shape_of.simps) (auto split: option.splits)
  next
    case True
    then obtain t kind where t: "ty = Some t" "jget_str t ''type'' = Some kind" by auto
    show ?thesis
    proof (cases "kind = ''Record''")
      case True
      have "bm_wf attrs \<and> (\<forall>(k, v) \<in> set attrs. shape_wf (shape_of (Some v) common depth))"
        if a: "Option.bind (jget t ''additionalAttributes'') as_bool \<noteq> Some True"
          and "Option.bind (jget t ''attributes'') as_object = Some attrs" for attrs
      proof -
        from that(2) have "json_wf (JObject attrs)"
          using json_wf_jget [of t "''attributes''"] 1(3) t
          by (auto simp: bind_eq_Some_conv as_object_eq_Some)
        then show ?thesis using 1(1) [OF t True a that(2) _ refl] 1(4)
          by (auto simp: list_all_iff)
      qed
      then show ?thesis using t True
        by (subst shape_of.simps)
          (auto simp: bm_wf_map_val [of "\<lambda>k v. shape_of (Some v) common depth"] list_all_iff
            split: option.splits)
    next
      case False
      have "shape_wf (shape_of (Some target) common (Suc depth))"
        if n: "Option.bind (if kind = ''EntityOrCommon'' then jget_str t ''name'' else Some kind)
              (\<lambda>n. Option.bind common (\<lambda>c. bm_get c n)) = Some target" and d: "depth \<le> 4" for target
      proof -
        from n have "json_wf target" using 1(4)
          by (auto simp: bind_eq_Some_conv dest: json_wf_get simp del: json_wf.simps)
        then show ?thesis using 1(2) [OF t False refl n d] 1(4) by simp
      qed
      then show ?thesis using t False
        by (subst shape_of.simps) (auto simp: Let_def split: option.splits)
    qed
  qed
qed

lemma bm_of_list_values: "v \<in> snd ` set (bm_of_list xs) \<Longrightarrow> v \<in> snd ` set xs"
proof -
  have ins: "set (bm_insert k v m) \<subseteq> insert (k, v) (set m)" for k and v :: 'a and m
    by (induction k v m rule: bm_insert.induct) auto
  have "set (fold (\<lambda>(k, v) m. bm_insert k v m) xs m) \<subseteq> set xs \<union> set m" for m
  proof (induction xs arbitrary: m)
    case (Cons a xs)
    then show ?case using ins by (cases a) fastforce
  qed simp
  then show "v \<in> snd ` set (bm_of_list xs) \<Longrightarrow> v \<in> snd ` set xs"
    by (force simp: bm_of_list_def)
qed

lemma declared_context_shape_wf:
  assumes "declared_context_shape frag = Inr shapes" and "\<And>v. frag = Inr v \<Longrightarrow> json_wf v"
  shows "bm_wf shapes \<and> (\<forall>s \<in> snd ` set shapes. shape_wf s)"
proof -
  obtain v where v: "frag = Inr v" using assms(1)
    by (auto simp: declared_context_shape_def res_simps)
  then have wfv: "json_wf v" using assms(2) by simp
  show ?thesis
  proof (cases "jget v ''''")
    case None
    with assms(1) v show ?thesis by (auto simp: declared_context_shape_def)
  next
    case (Some root)
    have root: "json_wf root" using json_wf_jget [OF wfv Some] .
    have common: "json_wf (JObject c)" if "Option.bind (jget root ''commonTypes'') as_object = Some c" for c
      using that json_wf_jget [OF root, of "''commonTypes''"]
      by (auto simp: bind_eq_Some_conv as_object_eq_Some)
    have action: "json_wf a" if "(n, a) \<in> set (unwrap_or [] (Option.bind (jget root ''actions'') as_object))" for n a
      using that json_wf_jget [OF root, of "''actions''"]
      by (cases "Option.bind (jget root ''actions'') as_object")
        (auto simp: bind_eq_Some_conv as_object_eq_Some list_all_iff)
    have "shape_wf (shape_of (Option.bind (jget a ''appliesTo'') (\<lambda>x. jget x ''context''))
        (Option.bind (jget root ''commonTypes'') as_object) 0)"
      if "json_wf a" for a
      using that common by (intro shape_wf_shape_of) (auto simp: bind_eq_Some_conv dest: json_wf_jget)
    with assms(1) v Some action show ?thesis
      by (auto simp: declared_context_shape_def Let_def dest!: bm_of_list_values
          [unfolded image_iff, OF bexI, rotated])
  qed
qed

text \<open>A shape covers another when restricting to it loses nothing the other keeps.\<close>

definition covers :: "declared \<Rightarrow> declared \<Rightarrow> bool" where
  "covers u a \<longleftrightarrow> (\<forall>v. restrict_to a (restrict_to u v) = restrict_to a v)"

lemma covers_trans: "covers u a \<Longrightarrow> covers w u \<Longrightarrow> covers w a"
  unfolding covers_def by metis

lemma covers_refl: "covers u u"
  by (simp add: covers_def restrict_idem)

lemma covers_union: "shape_wf b \<Longrightarrow> covers (union_shape a b) a" "shape_wf b \<Longrightarrow> covers (union_shape a b) b"
  using union_covers by (simp_all add: covers_def)

lemma covers_fold:
  "\<forall>s \<in> set shapes. shape_wf s \<Longrightarrow>
    covers (fold (\<lambda>shape acc. union_shape acc shape) shapes acc) acc \<and>
    (\<forall>s \<in> set shapes. covers (fold (\<lambda>shape acc. union_shape acc shape) shapes acc) s)"
proof (induction shapes arbitrary: acc)
  case Nil
  then show ?case by (simp add: covers_refl)
next
  case (Cons s shapes)
  then show ?case
    using covers_union [of s acc] covers_trans by (auto simp: covers_refl)
qed

lemma shape_wf_Record: "shape_wf (Record m) \<longleftrightarrow> bm_wf m \<and> (\<forall>s \<in> snd ` set m. shape_wf s)"
  by (auto simp: list_all_iff)

lemma shape_wf_get: "shape_wf (Record m) \<Longrightarrow> bm_get m k = Some s \<Longrightarrow> shape_wf s"
  by (auto simp: list_all_iff dest!: bm_get_SomeD)

lemma shape_wf_union: "shape_wf a \<Longrightarrow> shape_wf b \<Longrightarrow> shape_wf (union_shape a b)"
  and shape_wf_union_into: "shape_wf (Record x) \<Longrightarrow> shape_wf (Record y) \<Longrightarrow> shape_wf (Record (union_into x y))"
proof (induction a b and x y rule: union_shape_union_into.induct)
  case (4 out key shape y)
  have "shape_wf (case bm_get out key of None \<Rightarrow> shape | Some have \<Rightarrow> union_shape have shape)"
    using 4 shape_wf_get [OF "4.prems"(1)] by (auto split: option.splits)
  with 4 show ?case by (auto simp: bm_wf_Cons list_all_bm_insert)
qed auto

lemma shape_wf_context_union:
  assumes "\<forall>s \<in> set (bm_values shapes). shape_wf s"
  shows "shape_wf (context_union_of shapes)"
proof -
  have "\<forall>s \<in> set ss. shape_wf s \<Longrightarrow> shape_wf acc \<Longrightarrow>
      shape_wf (fold (\<lambda>shape acc. union_shape acc shape) ss acc)" for ss acc
    by (induction ss arbitrary: acc) (auto simp: shape_wf_union)
  from this [OF assms, of "Record []"] show ?thesis by (simp add: context_union_of_def)
qed

lemma fst_prune_undeclared:
  "bm_get (k_context_shape k) a = Some s \<Longrightarrow>
    fst (prune_undeclared_context k a v) = fst (prune s v '''')"
  by (simp add: prune_undeclared_context_def case_prod_unfold Let_def)

lemma fst_prune_any: "fst (prune_to_any_declared k v) = fst (prune (k_context_union k) v '''')"
  by (simp add: prune_to_any_declared_def case_prod_unfold Let_def)

lemma check_pre_fail:
  assumes "\<nexists>reason. check cd k subject action resource context = deny reason"
  obtains v su au ru ctx request where "is_object context" "jget context ''now'' = Some v"
    "case as_u64 v of Some n \<Rightarrow> int n \<le> i64_max | None \<Rightarrow> False"
    "uid cd (er_ty subject) (er_id subject) = Inr su" "uid cd ''Action'' action = Inr au"
    "uid cd (er_ty resource) (er_id resource) = Inr ru"
    "cd_context cd context (k_schema k) au = Inr ctx"
    "cd_request cd su au ru ctx (k_schema k) = Inr request"
    "case cd_is_authorized cd request (k_policies k) (k_entities k) of (allow, reasons, errs) \<Rightarrow>
       check cd k subject action resource context =
         \<lparr>cr_decision = allow, cr_reasons = reasons, cr_errors = errs\<rparr>"
proof -
  have ex: "(\<exists>reason. deny e = deny reason) = True" for e by blast
  obtain su where su: "uid cd (er_ty subject) (er_id subject) = Inr su"
    using assms by (cases "uid cd (er_ty subject) (er_id subject)") (simp_all add: check_def ex)
  obtain au where au: "uid cd ''Action'' action = Inr au"
    using assms by (cases "uid cd ''Action'' action") (simp_all add: check_def su ex)
  obtain ru where ru: "uid cd (er_ty resource) (er_id resource) = Inr ru"
    using assms by (cases "uid cd (er_ty resource) (er_id resource)") (simp_all add: check_def su au ex)
  have ob: "is_object context"
  proof (rule ccontr)
    assume "\<not> is_object context"
    with assms show False by (simp add: check_def su au ru ex)
  qed
  obtain v where v: "jget context ''now'' = Some v"
    using assms by (cases "jget context ''now''") (simp_all add: check_def su au ru ob ex)
  have n: "case as_u64 v of Some n \<Rightarrow> int n \<le> i64_max | None \<Rightarrow> False"
  proof (rule ccontr)
    assume "\<not> (case as_u64 v of Some n \<Rightarrow> int n \<le> i64_max | None \<Rightarrow> False)"
    with assms show False by (simp add: check_def su au ru ob v ex)
  qed
  obtain ctx where ctx: "cd_context cd context (k_schema k) au = Inr ctx"
    using assms by (cases "cd_context cd context (k_schema k) au") (simp_all add: check_def su au ru ob v n ex)
  obtain request where req: "cd_request cd su au ru ctx (k_schema k) = Inr request"
    using assms by (cases "cd_request cd su au ru ctx (k_schema k)")
      (simp_all add: check_def su au ru ob v n ctx ex)
  have "case cd_is_authorized cd request (k_policies k) (k_entities k) of (allow, reasons, errs) \<Rightarrow>
       check cd k subject action resource context =
         \<lparr>cr_decision = allow, cr_reasons = reasons, cr_errors = errs\<rparr>"
    by (simp add: check_def su au ru ob v n ctx req split: prod.split)
  from that [OF ob v n su au ru ctx req this] show thesis .
qed

lemma distinct_refs: "distinct (map (\<lambda>i. \<lparr>er_ty = t, er_id = i\<rparr>) xs) \<longleftrightarrow> distinct xs"
  by (simp add: distinct_map inj_on_def)

section \<open>Properties\<close>

definition demo_cedar :: "(unit, unit, json, json, euid \<times> euid \<times> json) cedar" where
  "demo_cedar = \<lparr>cd_schema = (\<lambda>_. Inr ()),
     cd_fragment = (\<lambda>_. Inr (JObject [('''', JObject [(''actions'', JObject [(''Read'',
        JObject [(''appliesTo'', JObject [(''context'', JObject [
          (''attributes'', JObject [(''now'', JObject [(''type'', JString ''Long'')])]),
          (''type'', JString ''Record'')])])])])])])),
     cd_policies = (\<lambda>_. Inr [\<lparr>pol_id = ''policy0'', pol_annotation = Some ''P-read'', pol_body = ()\<rparr>]),
     cd_validate = (\<lambda>_ _. []), cd_entities = (\<lambda>e _. Inr e), cd_type_name = Inr, cd_entity_id = Inr,
     cd_context = (\<lambda>c _ _. Inr c), cd_request = (\<lambda>p a r c _. Inr (p, r, c)),
     cd_is_authorized = (\<lambda>(p, r, c) pols _. (p = (''Principal'', ''root''), map pol_id pols, [])),
     cd_show = (\<lambda>_. '''')\<rparr>"

definition demo_model :: model where
  "demo_model = \<lparr>md_schema = '''', md_policies = '''', md_entities = demo_entities\<rparr>"

definition demo_kernel :: "(unit, unit, json) kernel" where
  "demo_kernel = (case kernel_new demo_cedar demo_model of Inr k \<Rightarrow> k
     | Inl _ \<Rightarrow> \<lparr>k_schema = (), k_context_shape = [], k_context_union = Opaque, k_policies = [],
                 k_entities = JNull, k_directory = default_directory\<rparr>)"

lemma demo_loads: "kernel_new demo_cedar demo_model = Inr demo_kernel"
  by code_simp

text \<open>C29: loading is fail-closed and refuses nothing else: a kernel exists exactly over a schema that
  parsed, with the context shapes it declares and their union, the model's policies each under its
  \<open>@id\<close>, of distinct names and strictly valid against that schema, a directory that parsed from the
  model's entities and satisfies the reference conditions of a graph, and the entities the engine
  accepted against that schema after the derived attributes were injected.\<close>

theorem kernel_new_fail_closed:
  "kernel_new cd m = Inr k \<longleftrightarrow>
    cd_schema cd (md_schema m) = Inr (k_schema k) \<and>
    declared_context_shape (cd_fragment cd (md_schema m)) = Inr (k_context_shape k) \<and>
    k_context_union k = context_union_of (k_context_shape k) \<and>
    (\<exists>ps. cd_policies cd (md_policies m) = Inr ps \<and> k_policies k = map rename_policy ps) \<and>
    distinct (map pol_id (k_policies k)) \<and> cd_validate cd (k_schema k) (k_policies k) = [] \<and>
    parse (md_entities m) = Inr (k_directory k) \<and> graph_ok (k_directory k) \<and>
    cd_entities cd (inject_derived (md_entities m) (k_directory k)) (k_schema k) = Inr (k_entities k)"
  (is "?new \<longleftrightarrow> ?ok")
proof
  assume ?new
  note k = kernel_new_Inr [OF this]
  from k(5) obtain ps where ps: "cd_policies cd (md_policies m) = Inr ps" "name_policies [] ps = Inr (k_policies k)" by blast
  from k(1) have "graph_ok (k_directory k)" using parse_wf validate_Nil by blast
  with k ps name_policies_distinct [OF ps(2)] name_policies_names [OF ps(2)] show ?ok by simp
next
  assume ok: ?ok
  then obtain ps where ps: "cd_policies cd (md_policies m) = Inr ps" "k_policies k = map rename_policy ps" by blast
  have "name_policies [] ps = Inr (k_policies k)" using ok ps(2) name_policies_total [of "[]" ps] by (simp add: comp_def)
  moreover have "validate (k_directory k) = []" using ok parse_wf validate_Nil by blast
  ultimately show ?new using ok ps(1) by (cases k) (simp add: kernel_new_def Let_def res_guard_def err_map_def)
qed

text \<open>The decision is fail-closed: a response is either a refusal before evaluation (Deny,
  no reasons, one error) or the engine's own answer, and the engine is reached only with a
  context object whose \<open>now\<close> is a non-negative integer in \<open>i64\<close> range and with
  a request it built itself.\<close>

theorem check_fail_closed:
  "(\<exists>reason. check cd k subject action resource context = deny reason) \<or>
   (\<exists>n su au ru ctx request.
      is_object context \<and> jget context ''now'' = Some (JNumber (PosInt n)) \<and> n < 2 ^ 63 \<and>
      uid cd (er_ty subject) (er_id subject) = Inr su \<and> uid cd ''Action'' action = Inr au \<and>
      uid cd (er_ty resource) (er_id resource) = Inr ru \<and>
      cd_context cd context (k_schema k) au = Inr ctx \<and>
      cd_request cd su au ru ctx (k_schema k) = Inr request \<and>
      (case cd_is_authorized cd request (k_policies k) (k_entities k) of (allow, reasons, errs) \<Rightarrow>
         check cd k subject action resource context =
           \<lparr>cr_decision = allow, cr_reasons = reasons, cr_errors = errs\<rparr>))"
proof -
  have now: "\<exists>n. v = JNumber (PosInt n) \<and> n < 2 ^ 63"
    if "case as_u64 v of Some n \<Rightarrow> int n \<le> i64_max | None \<Rightarrow> False" for v
    using that by (cases v rule: json.exhaust) (auto simp: as_u64_def split: jnum.splits)
  show ?thesis
  proof (cases "\<exists>reason. check cd k subject action resource context = deny reason")
    case False
    from check_pre_fail [OF this] show ?thesis using now by metis
  qed blast
qed

text \<open>The searches return exactly what \<open>check\<close> allows: every directory principal,
  resource or declared action it allows, once, and nothing else; an action is decided over the
  context pruned for it.\<close>

theorem searches_exact:
  assumes "kernel_new cd m = Inr k"
  shows "(e \<in> set (search_subjects cd k action resource context) \<longleftrightarrow>
        er_ty e = ''Principal'' \<and> contains (k_directory k) (er_id e) \<and>
        cr_decision (check cd k e action resource context)) \<and>
    (e \<in> set (search_resources cd k subject action context) \<longleftrightarrow>
        er_ty e = ''Resource'' \<and> bm_get (resources (k_directory k)) (er_id e) \<noteq> None \<and>
        cr_decision (check cd k subject action e context)) \<and>
    (a \<in> set (search_actions cd k subject resource context) \<longleftrightarrow>
        bm_get (k_context_shape k) a \<noteq> None \<and>
        cr_decision (check cd k subject a resource (fst (prune_undeclared_context k a context)))) \<and>
    distinct (search_subjects cd k action resource context) \<and>
    distinct (search_resources cd k subject action context) \<and>
    distinct (search_actions cd k subject resource context)"
proof -
  have wf: "dir_wf (k_directory k)" using kernel_new_Inr(1) [OF assms] parse_wf by blast
  have "bm_wf (k_context_shape k)" using kernel_new_Inr(3) [OF assms]
    by (auto simp: declared_context_shape_def Let_def res_simps split: option.splits)
  then have d: "distinct (map fst (k_context_shape k))" "distinct (map fst (principals (k_directory k)))"
      "distinct (map fst (resources (k_directory k)))"
    using bm_wf_distinct dir_wf_ordered [OF wf] by blast+
  show ?thesis
    unfolding search_subjects_def search_resources_def search_actions_def distinct_refs bm_keys_def
    by (intro conjI distinct_filter d) (cases e, force simp: contains_def bm_get_None)+
qed

theorem searches_exact_witness:
  "search_subjects demo_cedar demo_kernel ''Read'' \<lparr>er_ty = ''Resource'', er_id = ''x''\<rparr>
      (JObject [(''now'', JNumber (PosInt 5))]) = [\<lparr>er_ty = ''Principal'', er_id = ''root''\<rparr>] \<and>
   contains (k_directory demo_kernel) ''root''"
proof -
  have s: "search_subjects demo_cedar demo_kernel ''Read'' \<lparr>er_ty = ''Resource'', er_id = ''x''\<rparr>
      (JObject [(''now'', JNumber (PosInt 5))]) = [\<lparr>er_ty = ''Principal'', er_id = ''root''\<rparr>]"
    by code_simp
  with searches_exact [OF demo_loads, of "\<lparr>er_ty = ''Principal'', er_id = ''root''\<rparr>" "''Read''"
      "\<lparr>er_ty = ''Resource'', er_id = ''x''\<rparr>" "JObject [(''now'', JNumber (PosInt 5))]"]
  show ?thesis by simp
qed

text \<open>The union shape an action search's record is pruned to loses nothing any action's own
  pruning keeps: pruning to it first leaves each declared action's pruned context unchanged.
  The schema's JSON form and the context are ordered maps, as \<open>serde_json\<close> builds them.\<close>

theorem prune_to_any_declared_keeps:
  assumes "kernel_new cd m = Inr k" and "\<forall>v. cd_fragment cd (md_schema m) = Inr v \<longrightarrow> json_wf v"
    and "json_wf context" and "bm_get (k_context_shape k) action \<noteq> None"
  shows "fst (prune_undeclared_context k action (fst (prune_to_any_declared k context))) =
    fst (prune_undeclared_context k action context)"
proof -
  obtain s where s: "bm_get (k_context_shape k) action = Some s" using assms(4) by auto
  have shapes: "\<forall>s \<in> set (bm_values (k_context_shape k)). shape_wf s"
    using declared_context_shape_wf [OF kernel_new_Inr(3) [OF assms(1)]] assms(2)
    by (simp add: bm_values_def)
  have mem: "s \<in> set (bm_values (k_context_shape k))"
    using bm_get_SomeD [OF s] by (force simp: bm_values_def)
  note u = kernel_new_Inr(4) [OF assms(1)]
  have wu: "shape_wf (k_context_union k)" using shape_wf_context_union [OF shapes] u by simp
  have "covers (k_context_union k) s"
    using covers_fold [OF shapes] mem by (simp add: u context_union_of_def)
  then show ?thesis
    using shapes mem wu assms(3)
    by (simp add: fst_prune_undeclared [OF s] fst_prune_any prune_restrict(1) json_wf_restrict covers_def)
qed

theorem prune_to_any_declared_keeps_witness:
  "fst (prune_undeclared_context demo_kernel ''Read'' (fst (prune_to_any_declared demo_kernel demo_context))) =
    fst (prune_undeclared_context demo_kernel ''Read'' demo_context)"
proof (rule prune_to_any_declared_keeps [OF demo_loads])
  show "\<forall>v. cd_fragment demo_cedar (md_schema demo_model) = Inr v \<longrightarrow> json_wf v"
    by (simp add: demo_cedar_def bm_wf_def)
  show "json_wf demo_context" "bm_get (k_context_shape demo_kernel) ''Read'' \<noteq> None" by code_simp+
qed

text \<open>The injected attributes are the directory's own answers: in the entities handed to the
  engine a principal's \<open>revoked\<close> is its effective revocation and its \<open>ancestors\<close> are
  exactly its transitive delegators, every other attribute of it is unchanged, and every other
  entity is untouched.\<close>

theorem inject_derived_exact:
  assumes "i < length es" and "jget (es ! i) ''attrs'' = Some (JObject attrs)"
    and "Option.bind (jget (es ! i) ''uid'') (\<lambda>u. jget_str u ''type'') = Some ty"
    and "Option.bind (jget (es ! i) ''uid'') (\<lambda>u. jget_str u ''id'') = Some ident"
  shows "\<exists>es'. inject_derived (JArray es) D = JArray es' \<and> length es' = length es \<and>
    (ty \<noteq> ''Principal'' \<longrightarrow> es' ! i = es ! i) \<and>
    (ty = ''Principal'' \<longrightarrow> (\<exists>attrs'. jget (es' ! i) ''attrs'' = Some (JObject attrs') \<and>
       bm_get attrs' ''revoked'' = Some (JBool (revoked D ident)) \<and>
       bm_get attrs' ''ancestors'' = Some (JArray (map ancestor_ref (ancestors_of D ident))) \<and>
       (\<forall>key. key \<noteq> ''revoked'' \<longrightarrow> key \<noteq> ''ancestors'' \<longrightarrow> bm_get attrs' key = bm_get attrs key) \<and>
       (\<forall>key. key \<noteq> ''attrs'' \<longrightarrow> jget (es' ! i) key = jget (es ! i) key)))"
proof -
  obtain e where e: "es ! i = JObject e" "bm_get e ''attrs'' = Some (JObject attrs)"
    using assms(2) by (cases "es ! i") (simp_all add: jget_def)
  with assms show ?thesis
    by (simp add: inject_derived_def inject_entity_def as_array_def principal_entity_def Let_def)
qed

definition demo_leaf_attrs :: jmap where
  "demo_leaf_attrs = [(''delegator'', JObject [(''id'', JString ''mid''), (''type'', JString ''Principal'')]),
     (''expiry'', JNumber (PosInt 7)), (''scopes'', JArray []), (''tenant'', JString ''acme'')]"

theorem inject_derived_exact_witness:
  "\<exists>es'. inject_derived (JArray demo_es) demo_dir = JArray es' \<and> length es' = length demo_es \<and>
    (''Principal'' \<noteq> ''Principal'' \<longrightarrow> es' ! 2 = demo_es ! 2) \<and>
    (''Principal'' = ''Principal'' \<longrightarrow> (\<exists>attrs'. jget (es' ! 2) ''attrs'' = Some (JObject attrs') \<and>
       bm_get attrs' ''revoked'' = Some (JBool (revoked demo_dir ''leaf'')) \<and>
       bm_get attrs' ''ancestors'' = Some (JArray (map ancestor_ref (ancestors_of demo_dir ''leaf''))) \<and>
       (\<forall>key. key \<noteq> ''revoked'' \<longrightarrow> key \<noteq> ''ancestors'' \<longrightarrow>
          bm_get attrs' key = bm_get demo_leaf_attrs key) \<and>
       (\<forall>key. key \<noteq> ''attrs'' \<longrightarrow> jget (es' ! 2) key = jget (demo_es ! 2) key)))"
proof (rule inject_derived_exact)
  show "2 < length demo_es" "jget (demo_es ! 2) ''attrs'' = Some (JObject demo_leaf_attrs)"
    "Option.bind (jget (demo_es ! 2) ''uid'') (\<lambda>u. jget_str u ''type'') = Some ''Principal''"
    "Option.bind (jget (demo_es ! 2) ''uid'') (\<lambda>u. jget_str u ''id'') = Some ''leaf''"
    by code_simp+
qed

end
