(* ===== verification/Policy.thy ===== *)
theory Policy
  imports Graph
begin

text \<open>
  The built-in policies of \<open>decern-kernel/model/authority.cedar\<close> and the proof suite of
  \<open>decern-proof/src/lib.rs\<close>. A policy is a condition over the attributes Cedar sees; the
  decision is Cedar's: allowed when some permit holds and no forbid does, with the determining
  policies as reasons.

  The suite's guards are certified by an SMT solver over flat attributes, leaving the closure that
  fills \<open>ancestors\<close> and \<open>revoked\<close> to the loader. The theorems here join the two: the
  principal's attributes are the ones the loader derives from a validated directory
  (\<open>principal_view\<close>), so the guarantees are about the delegation graph itself.
\<close>

section \<open>The policies\<close>

datatype action = Read | MoveMoney | AccessPII

text \<open>The attributes the policies read. An absent set attribute is an empty one, which the
  policies cannot tell apart: each \<open>has\<close> test on a set guards a \<open>contains\<close>.\<close>

record pol_principal =
  pp_id :: string
  pp_tenant :: string
  pp_expiry :: int
  pp_scopes :: "string list"
  pp_roles :: "string list"
  pp_jurisdictions :: "string list"
  pp_ancestors :: "string list"
  pp_revoked :: bool

record pol_resource =
  pr_owner :: string
  pr_tenant :: string
  pr_sensitivity :: "string option"
  pr_residency :: "string option"
  pr_required_role :: "string option"
  pr_viewers :: "string list"

record pol_context =
  pc_now :: int
  pc_human_approved :: "bool option"
  pc_consent :: "bool option"

type_synonym condition = "pol_principal \<Rightarrow> action \<Rightarrow> pol_resource \<Rightarrow> pol_context \<Rightarrow> bool"

definition owner_edge :: "pol_principal \<Rightarrow> pol_resource \<Rightarrow> bool" where
  "owner_edge p r \<longleftrightarrow> pr_owner r = pp_id p \<or> pr_owner r \<in> set (pp_ancestors p)"

definition p_read :: condition where
  "p_read p a r c \<longleftrightarrow> a = Read \<and>
     pp_tenant p = pr_tenant r \<and> pc_now c \<le> pp_expiry p \<and> ''read'' \<in> set (pp_scopes p) \<and>
     owner_edge p r"

definition p_move :: condition where
  "p_move p a r c \<longleftrightarrow> a = MoveMoney \<and>
     pp_tenant p = pr_tenant r \<and> pc_human_approved c = Some True \<and> pc_now c \<le> pp_expiry p \<and>
     ''move_money'' \<in> set (pp_scopes p) \<and> owner_edge p r"

definition p_pii :: condition where
  "p_pii p a r c \<longleftrightarrow> a = AccessPII \<and>
     pp_tenant p = pr_tenant r \<and> pc_now c \<le> pp_expiry p \<and> ''pii:read'' \<in> set (pp_scopes p) \<and>
     owner_edge p r"

definition p_rebac :: condition where
  "p_rebac p a r c \<longleftrightarrow> a = Read \<and>
     pp_tenant p = pr_tenant r \<and> pc_now c \<le> pp_expiry p \<and> ''read'' \<in> set (pp_scopes p) \<and>
     pp_id p \<in> set (pr_viewers r)"

definition f_revoked :: condition where
  "f_revoked p a r c \<longleftrightarrow> pp_revoked p"

definition f_residency :: condition where
  "f_residency p a r c \<longleftrightarrow>
     (case pr_residency r of None \<Rightarrow> False | Some j \<Rightarrow> j \<notin> set (pp_jurisdictions p))"

definition f_role :: condition where
  "f_role p a r c \<longleftrightarrow>
     (case pr_required_role r of None \<Rightarrow> False | Some role \<Rightarrow> role \<notin> set (pp_roles p))"

definition f_tenant :: condition where
  "f_tenant p a r c \<longleftrightarrow> pp_tenant p \<noteq> pr_tenant r"

definition f_decay :: condition where
  "f_decay p a r c \<longleftrightarrow> pc_now c > pp_expiry p"

definition f_money :: condition where
  "f_money p a r c \<longleftrightarrow> a = MoveMoney \<and> pc_human_approved c \<noteq> Some True"

definition f_consent :: condition where
  "f_consent p a r c \<longleftrightarrow>
     pr_sensitivity r = Some ''pii'' \<and> pr_owner r \<noteq> pp_id p \<and> pc_consent c \<noteq> Some True"

definition permits :: "(string \<times> condition) list" where
  "permits = [(''P-read'', p_read), (''P-move'', p_move), (''P-pii'', p_pii), (''P-rebac'', p_rebac)]"

definition forbids :: "(string \<times> condition) list" where
  "forbids = [(''F-revoked'', f_revoked), (''F-residency'', f_residency), (''F-role'', f_role),
     (''F-tenant'', f_tenant), (''F-decay'', f_decay), (''F-money'', f_money), (''F-consent'', f_consent)]"

definition satisfied ::
  "(string \<times> condition) list \<Rightarrow> pol_principal \<Rightarrow> action \<Rightarrow> pol_resource \<Rightarrow> pol_context \<Rightarrow> string list" where
  "satisfied ps p a r c = map fst (filter (\<lambda>(i, cond). cond p a r c) ps)"

text \<open>Cedar's rule: a satisfied forbid denies and is the reason, else the satisfied permits
  allow and are the reason, else nothing matched.\<close>

definition is_authorized ::
  "pol_principal \<Rightarrow> action \<Rightarrow> pol_resource \<Rightarrow> pol_context \<Rightarrow> bool \<times> string list" where
  "is_authorized p a r c =
     (if satisfied forbids p a r c \<noteq> [] then (False, satisfied forbids p a r c)
      else (satisfied permits p a r c \<noteq> [], satisfied permits p a r c))"

definition allowed :: condition where
  "allowed p a r c \<longleftrightarrow> fst (is_authorized p a r c)"

section \<open>The proof suite\<close>

record invariant =
  inv_name :: string
  inv_guard :: condition
  inv_only_actions :: "action list option"

definition suite :: "invariant list" where
  "suite =
    [\<lparr>inv_name = ''money-gate'',
      inv_guard = (\<lambda>p a r c. a = MoveMoney \<and> pc_human_approved c = Some True),
      inv_only_actions = Some [MoveMoney]\<rparr>,
     \<lparr>inv_name = ''isolation'',
      inv_guard = (\<lambda>p a r c. pp_tenant p = pr_tenant r), inv_only_actions = None\<rparr>,
     \<lparr>inv_name = ''decay'',
      inv_guard = (\<lambda>p a r c. pc_now c \<le> pp_expiry p), inv_only_actions = None\<rparr>,
     \<lparr>inv_name = ''attenuation-edge'',
      inv_guard = (\<lambda>p a r c. pr_owner r = pp_id p \<or> pr_owner r \<in> set (pp_ancestors p) \<or>
        pp_id p \<in> set (pr_viewers r)), inv_only_actions = None\<rparr>,
     \<lparr>inv_name = ''scope-gate'',
      inv_guard = (\<lambda>p a r c. a = Read \<and> ''read'' \<in> set (pp_scopes p) \<or>
        a = MoveMoney \<and> ''move_money'' \<in> set (pp_scopes p) \<or>
        a = AccessPII \<and> ''pii:read'' \<in> set (pp_scopes p)),
      inv_only_actions = Some [Read, MoveMoney, AccessPII]\<rparr>,
     \<lparr>inv_name = ''revocation-gate'',
      inv_guard = (\<lambda>p a r c. pp_revoked p = False), inv_only_actions = None\<rparr>,
     \<lparr>inv_name = ''residency-gate'',
      inv_guard = (\<lambda>p a r c. case pr_residency r of None \<Rightarrow> True
        | Some j \<Rightarrow> j \<in> set (pp_jurisdictions p)), inv_only_actions = None\<rparr>,
     \<lparr>inv_name = ''role-gate'',
      inv_guard = (\<lambda>p a r c. case pr_required_role r of None \<Rightarrow> True
        | Some role \<Rightarrow> role \<in> set (pp_roles p)), inv_only_actions = None\<rparr>,
     \<lparr>inv_name = ''consent-gate'',
      inv_guard = (\<lambda>p a r c. pr_sensitivity r \<noteq> Some ''pii'' \<or> pr_owner r = pp_id p \<or>
        pc_consent c = Some True), inv_only_actions = None\<rparr>]"

definition in_scope :: "invariant \<Rightarrow> action \<Rightarrow> bool" where
  "in_scope iv a = (case inv_only_actions iv of None \<Rightarrow> True | Some acts \<Rightarrow> a \<in> set acts)"

section \<open>Attributes derived at load\<close>

text \<open>What the engine sees of a directory principal: its own attributes, and the two the kernel
  injects.\<close>

definition principal_view :: "directory \<Rightarrow> principal_rec \<Rightarrow> pol_principal" where
  "principal_view D p = \<lparr>pp_id = p_id p, pp_tenant = p_tenant p, pp_expiry = p_expiry p,
     pp_scopes = p_scopes p, pp_roles = p_roles p, pp_jurisdictions = p_jurisdictions p,
     pp_ancestors = ancestors_of D (p_id p), pp_revoked = revoked D (p_id p)\<rparr>"

definition resource_view :: "resource_rec \<Rightarrow> string option \<Rightarrow> pol_resource" where
  "resource_view r required_role = \<lparr>pr_owner = r_owner r, pr_tenant = r_tenant r,
     pr_sensitivity = r_sensitivity r, pr_residency = r_residency r,
     pr_required_role = required_role, pr_viewers = r_viewers r\<rparr>"

section \<open>Lemmas\<close>

lemmas forbid_defs = f_revoked_def f_residency_def f_role_def f_tenant_def f_decay_def f_money_def f_consent_def
lemmas permit_defs = p_read_def p_move_def p_pii_def p_rebac_def owner_edge_def

lemma satisfied_Nil: "satisfied ps p a r c = [] \<longleftrightarrow> (\<forall>(i, cond) \<in> set ps. \<not> cond p a r c)"
  by (auto simp: satisfied_def filter_empty_conv)

lemma allowed_iff:
  "allowed p a r c \<longleftrightarrow> (\<forall>(i, f) \<in> set forbids. \<not> f p a r c) \<and> (\<exists>(i, f) \<in> set permits. f p a r c)"
  unfolding allowed_def is_authorized_def satisfied_Nil by auto

lemma allowed_cases:
  "allowed p a r c \<longleftrightarrow>
     \<not> f_revoked p a r c \<and> \<not> f_residency p a r c \<and> \<not> f_role p a r c \<and> \<not> f_tenant p a r c \<and>
     \<not> f_decay p a r c \<and> \<not> f_money p a r c \<and> \<not> f_consent p a r c \<and>
     (p_read p a r c \<or> p_move p a r c \<or> p_pii p a r c \<or> p_rebac p a r c)"
  unfolding allowed_iff forbids_def permits_def by auto

section \<open>Properties\<close>

definition demo_resource :: pol_resource where
  "demo_resource = \<lparr>pr_owner = ''root'', pr_tenant = ''acme'', pr_sensitivity = None,
     pr_residency = None, pr_required_role = None, pr_viewers = []\<rparr>"

definition demo_ctx :: pol_context where
  "demo_ctx = \<lparr>pc_now = 1, pc_human_approved = None, pc_consent = None\<rparr>"

definition demo_reader :: principal_rec where
  "demo_reader = \<lparr>p_id = ''mid'', p_kind = '''', p_tenant = ''acme'', p_expiry = 8,
     p_scopes = [''read''], p_delegator = Some ''root'', p_org = None, p_roles = [],
     p_jurisdictions = [], p_revoked = False\<rparr>"

definition demo_read_entities :: json where
  "demo_read_entities = JArray [demo_principal ''root'' None 9 [''read''],
     demo_principal ''mid'' (Some ''root'') 8 [''read'']]"

definition demo_read_dir :: directory where
  "demo_read_dir = (case parse demo_read_entities of Inl _ \<Rightarrow> default_directory | Inr D \<Rightarrow> D)"

lemma demo_read_facts:
  "parse demo_read_entities = Inr demo_read_dir" "validate demo_read_dir = []"
  "bm_get (principals demo_read_dir) ''mid'' = Some demo_reader"
  "allowed (principal_view demo_read_dir demo_reader) Read demo_resource demo_ctx"
  "pr_owner demo_resource \<in> set (ancestors_of demo_read_dir ''mid'')"
  "contains demo_read_dir ''root''"
  by code_simp+

text \<open>C30: the proof suite holds of the built-in policies: whatever the policies allow, every
  guard in scope for the action allows.\<close>

theorem suite_proven:
  assumes "iv \<in> set suite" and "in_scope iv a" and "allowed p a r c"
  shows "inv_guard iv p a r c"
proof -
  have "(\<forall>iv \<in> set suite. in_scope iv a \<longrightarrow> inv_guard iv p a r c)"
    using assms(3) unfolding allowed_cases suite_def
    by (auto simp: in_scope_def forbid_defs permit_defs split: option.splits)
  with assms(1,2) show ?thesis by blast
qed


theorem suite_proven_witness:
  "inv_guard (suite ! 3) (principal_view demo_read_dir demo_reader) Read demo_resource demo_ctx"
  by (rule suite_proven) (simp add: suite_def, simp add: suite_def in_scope_def, rule demo_read_facts)

lemma loaded:
  assumes "parse v = Inr D" and "validate D = []"
  shows "dir_wf D" and "graph_ok D"
  using assms parse_wf validate_Nil by auto

text \<open>C1: the guarantees hold of the delegation graph, not only of flat attributes. When a
  directory principal is allowed anything, neither it nor any transitive delegator is revoked,
  the action falls inside the window, the tenant and, on its three verbs, the scope of the
  principal and of every transitive delegator, and the principal owns the resource, has the
  owner among its transitive delegators, or is a listed viewer.\<close>

theorem allowed_within_chain:
  assumes "parse v = Inr D" and "validate D = []" and "bm_get (principals D) x = Some p"
    and "allowed (principal_view D p) a r c"
    and "q = p \<and> y = x \<or> y \<in> set (ancestors_of D x) \<and> bm_get (principals D) y = Some q"
  shows "\<not> p_revoked q \<and> pc_now c \<le> p_expiry q \<and> p_tenant q = pr_tenant r \<and>
    (a = Read \<longrightarrow> ''read'' \<in> set (p_scopes q)) \<and>
    (a = MoveMoney \<longrightarrow> ''move_money'' \<in> set (p_scopes q) \<and> pc_human_approved c = Some True) \<and>
    (a = AccessPII \<longrightarrow> ''pii:read'' \<in> set (p_scopes q)) \<and>
    (pr_owner r = x \<or> pr_owner r \<in> set (ancestors_of D x) \<or> a = Read \<and> x \<in> set (pr_viewers r))"
proof -
  note ok = loaded [OF assms(1,2)]
  have idp: "p_id p = x" using dir_wf_keyed(1) [OF ok(1) assms(3)] .
  have att: "attenuated p q"
  proof (cases "q = p")
    case False
    with assms(5) have "(x, y) \<in> (deleg.edge D)\<^sup>+" "bm_get (principals D) y = Some q"
      by (auto simp: ancestors_acyclic [OF graph_ok_acyclic [OF ok(2)]])
    with graph_ok_chain [OF ok this(1)] assms(3) show ?thesis by auto
  qed (simp add: attenuated_def)
  have "\<not> revoked D x" using assms(4) idp by (simp add: allowed_cases f_revoked_def principal_view_def)
  then have "\<not> p_revoked q" using assms(3,5)
    by (auto simp: revoked_def authored_revoked_def list_ex_iff)
  with att assms(4) show ?thesis
    by (auto simp: allowed_cases forbid_defs permit_defs principal_view_def attenuated_def idp)
qed

theorem allowed_within_chain_witness:
  "\<not> p_revoked demo_reader \<and> pc_now demo_ctx \<le> p_expiry demo_reader \<and>
    p_tenant demo_reader = pr_tenant demo_resource \<and> ''read'' \<in> set (p_scopes demo_reader) \<and>
    (pr_owner demo_resource = ''mid'' \<or> pr_owner demo_resource \<in> set (ancestors_of demo_read_dir ''mid'') \<or>
       ''mid'' \<in> set (pr_viewers demo_resource))"
  using allowed_within_chain [OF demo_read_facts(1-4), of demo_reader "''mid''"] by blast

lemma revoked_up: "(x, y) \<in> (deleg.edge D)\<^sup>+ \<Longrightarrow> revoked D y \<Longrightarrow> revoked D x"
  unfolding revoked_iff by (meson trancl_into_rtrancl rtrancl_trans)

lemma allowed_by_owner:
  assumes "allowed P a r c" and "pp_id Q = pr_owner r" and "pp_tenant P = pp_tenant Q"
    and "pp_expiry P \<le> pp_expiry Q" and "set (pp_scopes P) \<subseteq> set (pp_scopes Q)"
    and "set (pp_roles P) \<subseteq> set (pp_roles Q)"
    and "set (pp_jurisdictions P) \<subseteq> set (pp_jurisdictions Q)"
    and "pp_revoked Q \<Longrightarrow> pp_revoked P"
  shows "allowed Q a r c"
proof -
  note A = assms(1) [unfolded allowed_cases]
  from A assms(8) have "\<not> f_revoked Q a r c" by (auto simp: f_revoked_def)
  moreover from A assms have "\<not> f_residency Q a r c" by (auto simp: f_residency_def split: option.splits)
  moreover from A assms have "\<not> f_role Q a r c" by (auto simp: f_role_def split: option.splits)
  moreover from A assms have "\<not> f_tenant Q a r c" by (simp add: f_tenant_def)
  moreover from A assms have "\<not> f_decay Q a r c" by (simp add: f_decay_def)
  moreover from A have "\<not> f_money Q a r c" by (simp add: f_money_def)
  moreover from assms have "\<not> f_consent Q a r c" by (simp add: f_consent_def)
  moreover have "p_read Q a r c \<or> p_move Q a r c \<or> p_pii Q a r c"
    using A assms(2-5) unfolding permit_defs by (elim conjE disjE) auto
  ultimately show ?thesis unfolding allowed_cases by blast
qed

text \<open>A delegate never exceeds its owner: whenever the built-in policies allow a principal an
  action on a resource it reaches through the delegation chain, they allow the owner itself the
  same action on the same resource in the same context.\<close>

theorem delegate_never_exceeds_owner:
  assumes "parse v = Inr D" and "validate D = []" and "bm_get (principals D) x = Some p"
    and "allowed (principal_view D p) a r c" and "pr_owner r \<in> set (ancestors_of D x)"
  shows "\<exists>q. bm_get (principals D) (pr_owner r) = Some q \<and> allowed (principal_view D q) a r c"
proof -
  note ok = loaded [OF assms(1,2)]
  have chain: "(x, pr_owner r) \<in> (deleg.edge D)\<^sup>+"
    using assms(5) by (simp add: ancestors_acyclic [OF graph_ok_acyclic [OF ok(2)]])
  obtain q where q: "bm_get (principals D) (pr_owner r) = Some q" "attenuated p q"
    using graph_ok_chain [OF ok chain] assms(3) by auto
  have ids: "p_id p = x" "p_id q = pr_owner r"
    using dir_wf_keyed(1) [OF ok(1)] assms(3) q(1) by auto
  have "allowed (principal_view D q) a r c"
    using revoked_up [OF chain] q(2) ids
    by (intro allowed_by_owner [OF assms(4)]) (auto simp: principal_view_def attenuated_def)
  with q(1) show ?thesis by blast
qed

theorem delegate_never_exceeds_owner_witness:
  "\<exists>q. bm_get (principals demo_read_dir) (pr_owner demo_resource) = Some q \<and>
     allowed (principal_view demo_read_dir q) Read demo_resource demo_ctx"
  by (rule delegate_never_exceeds_owner [OF demo_read_facts(1-5)])

text \<open>C31: the kill switch reaches the whole subtree: once a principal is revoked, neither it nor
  any principal in its blast radius is allowed anything, on any resource in any context.\<close>

theorem revoked_subtree_denied:
  assumes "parse v = Inr D" and "validate D = []" and "contains D i"
    and "x = i \<or> x \<in> set (descendants_of D i)"
    and "bm_get (principals (revoke_principal D i)) x = Some p"
  shows "\<not> allowed (principal_view (revoke_principal D i) p) a r c"
proof -
  note ok = loaded [OF assms(1,2)]
  obtain root where root: "bm_get (principals D) i = Some root" using assms(3) by (auto simp: contains_def)
  have idp: "p_id p = x"
    using assms(5) dir_wf_keyed(1) [OF ok(1)] root
    by (auto simp: revoke_principal_def split: if_splits)
  have "(x, i) \<in> (deleg.edge D)\<^sup>*"
    using assms(4) descendants_dual [OF ok root] ancestors_acyclic [OF graph_ok_acyclic [OF ok(2)]]
    by (auto simp: trancl_into_rtrancl)
  then have "revoked (revoke_principal D i) x"
    using assms(3) by (auto simp: revoked_iff edge_revoke authored_revoke)
  then show ?thesis by (simp add: allowed_cases f_revoked_def principal_view_def idp)
qed

theorem revoked_subtree_denied_witness:
  "\<not> allowed (principal_view (revoke_principal demo_read_dir ''root'') demo_reader) Read demo_resource demo_ctx"
proof (rule revoked_subtree_denied [OF demo_read_facts(1,2,6), of "''mid''"])
  show "''mid'' = ''root'' \<or> ''mid'' \<in> set (descendants_of demo_read_dir ''root'')"
    "bm_get (principals (revoke_principal demo_read_dir ''root'')) ''mid'' = Some demo_reader"
    by code_simp+
qed

end
