(* ===== verification/Ledger_Record.thy ===== *)
theory Ledger_Record
  imports Json
begin

text \<open>
  What a ledger record holds and what a ledger signs: \<open>decern-ledger/src/record.rs\<close>,
  \<open>checkpoint.rs\<close> and \<open>error.rs\<close>.

  The cryptographic and serialization crates are the fields of the record \<open>ext\<close>, an
  argument of every operation that calls them: SHA-256, hex, base64, Ed25519, and serde's
  conversions of entries, record lines, values and commitments. What the code relies on of them is
  the predicate \<open>ext_ok\<close>: digests are 32 bytes, hex and base64 decode what they encode, a
  signature a key makes verifies under its public key, and a serialized line parses back, is one
  line and is not blank. Unforgeability is not among them, and collision freedom is a hypothesis
  of the theorems that need it, over the strings actually hashed.
\<close>

section \<open>Records\<close>

definition genesis :: string where
  "genesis = replicate 64 (CHR ''0'')"

datatype edge_type = Attenuate | Mint

datatype sponsor_source = Derived | Explicit

record party =
  pa_kind :: string
  pa_id :: string

record mission_ref =
  mr_approver :: string
  mr_s256 :: string

record decision_subject =
  ds_handle :: string
  ds_scheme :: "string option"
  ds_purpose :: "string option"

record asserted_by =
  ab_sub :: string
  ab_client_id :: string
  ab_iss :: "string option"

record challenge_record =
  ch_decision_ref :: string
  ch_decision_subject :: string
  ch_basis :: "string list"
  ch_requested_effect :: string
  ch_outcome :: string
  ch_outcome_basis :: string
  ch_evidence_digest :: "string option"

record entry =
  e_seq :: nat
  e_ts_ms :: nat
  e_subject_type :: string
  e_subject_id :: string
  e_action :: string
  e_resource_type :: string
  e_resource_id :: string
  e_context :: json
  e_decision :: bool
  e_reasons :: "string list"
  e_edge :: edge_type
  e_sponsor :: "party option"
  e_sponsor_source :: sponsor_source
  e_mission :: "mission_ref option"
  e_decision_subject :: "decision_subject option"
  e_asserted_by :: "asserted_by option"
  e_notice_required :: bool
  e_challenge :: "challenge_record option"
  e_digests :: "(string, string) bmap"

record ledger_record =
  lr_entry :: entry
  lr_prev :: string
  lr_hash :: string
  lr_sig_b64 :: string
  lr_kid :: "string option"

text \<open>The write-side and the read-side record carry the entry as its exact text.\<close>

record record_line =
  rl_entry :: string
  rl_prev :: string
  rl_hash :: string
  rl_sig_b64 :: string
  rl_kid :: "string option"

record checkpoint =
  cp_root :: string
  cp_count :: nat
  cp_ts_ms :: nat
  cp_pubkey_hex :: string
  cp_sig_b64 :: string

record tree_head =
  th_merkle_root :: string
  th_tree_size :: nat
  th_ts_ms :: nat
  th_pubkey_hex :: string
  th_sig_b64 :: string

record inclusion_proof_rec =
  ip_leaf_index :: nat
  ip_tree_size :: nat
  ip_leaf_data :: string
  ip_audit_path :: "string list"

record consistency_proof_rec =
  cpf_first_size :: nat
  cpf_second_size :: nat
  cpf_proof :: "string list"

text \<open>The segment manifest (\<open>segment.rs\<close>): the files of a segmented ledger, in order.\<close>

record segment_meta =
  sm_file :: string
  sm_start_seq :: nat
  sm_end_seq :: "nat option"
  sm_opened_ms :: nat

record manifest =
  mf_version :: nat
  mf_segments :: "segment_meta list"

section \<open>Errors\<close>

text \<open>The \<open>why\<close> of a tamper report, one constructor per message with what it formats.\<close>

datatype signer_error =
    UnparseableSignature
  | SignatureLength
  | SignatureInvalid
  | UnknownSigner string
  | SignerSucceeded string string nat

datatype (plugins del: size quickcheck_random quickcheck_exhaustive quickcheck_narrowing) why =
    UnparseableRecord string
  | UnparseableEntry string
  | SequenceBreak nat
  | PrevMismatch
  | HashMismatch
  | BadSigner signer_error
  | MissingHash
  | HashNotHex
  | IndexPastEnd
  | FirstSizeOutOfRange
  | AnchorNotTrusted
  | NotExtendsAnchor nat bool
  | HistoryRemoved nat
  | NotARecordTail string
  | BadSegmentName string
  | NoSegments
  | NotFromGenesis string nat
  | ManyActive nat
  | ActiveNotLast
  | NotContiguous string "nat option" string nat
  | SegmentMissing string
  | RecordsMissing nat nat

datatype (plugins del: size quickcheck_random quickcheck_exhaustive quickcheck_narrowing) ledger_error =
    Io string string
  | Serde string
  | Tamper nat why
  | TornTail nat "string option" string nat
  | KeySuperseded string string nat
  | SignerNotHeld string string
  | LastKeyNotHeld string string string

section \<open>Third-party code\<close>

record ext =
  x_sha256 :: "bytes \<Rightarrow> bytes"
  x_hex :: "bytes \<Rightarrow> string"
  x_unhex :: "string \<Rightarrow> bytes option"
  x_b64 :: "bytes \<Rightarrow> string"
  x_unb64 :: "string \<Rightarrow> bytes option"
  x_public :: "bytes \<Rightarrow> bytes"
  x_sign :: "bytes \<Rightarrow> bytes \<Rightarrow> bytes"
  x_verify :: "bytes \<Rightarrow> bytes \<Rightarrow> bytes \<Rightarrow> bool"
  x_entry_json :: "entry \<Rightarrow> string + string"
  x_parse_entry :: "string \<Rightarrow> string + entry"
  x_raw :: "string \<Rightarrow> string + string"
  x_record_json :: "record_line \<Rightarrow> string + string"
  x_parse_record :: "string \<Rightarrow> string + record_line"
  x_value :: "string \<Rightarrow> string + json"
  x_checkpoint_json :: "checkpoint \<Rightarrow> string + bytes"
  x_parse_checkpoint :: "bytes \<Rightarrow> string + checkpoint"
  x_manifest_json :: "manifest \<Rightarrow> string + bytes"
  x_parse_manifest :: "bytes \<Rightarrow> string + manifest"

section \<open>Hashes, commitments and their signatures\<close>

definition chain_hash :: "ext \<Rightarrow> bytes \<Rightarrow> string \<Rightarrow> bytes" where
  "chain_hash x entry_bytes prev_hex = x_sha256 x (entry_bytes @ prev_hex)"

definition unit_sep :: char where
  "unit_sep = CHR 0x1F"

definition commitment_bytes :: "string \<Rightarrow> string \<Rightarrow> nat \<Rightarrow> nat \<Rightarrow> bytes" where
  "commitment_bytes tag hex_field a b =
     tag @ unit_sep # hex_field @ unit_sep # show_nat a @ unit_sep # show_nat b"

definition checkpoint_tag :: string where
  "checkpoint_tag = ''decern-ledger-checkpoint''"

definition tree_head_tag :: string where
  "tree_head_tag = ''decern-ledger-tree-head''"

definition checkpoint_bytes :: "string \<Rightarrow> nat \<Rightarrow> nat \<Rightarrow> bytes" where
  "checkpoint_bytes root count ts_ms = commitment_bytes checkpoint_tag root count ts_ms"

definition tree_head_bytes :: "string \<Rightarrow> nat \<Rightarrow> nat \<Rightarrow> bytes" where
  "tree_head_bytes merkle_root tree_size ts_ms = commitment_bytes tree_head_tag merkle_root tree_size ts_ms"

definition key_fingerprint :: "ext \<Rightarrow> bytes \<Rightarrow> string" where
  "key_fingerprint x vk = x_hex x vk"

text \<open>Base64-decode and take exactly 64 bytes, or fail.\<close>

definition decode_sig :: "ext \<Rightarrow> string \<Rightarrow> bytes option" where
  "decode_sig x sig_b64 =
     (case x_unb64 x sig_b64 of
        None \<Rightarrow> None
      | Some b \<Rightarrow> if length b = 64 then Some b else None)"

definition verify_checkpoint_sig :: "ext \<Rightarrow> checkpoint \<Rightarrow> bytes \<Rightarrow> bool" where
  "verify_checkpoint_sig x cp pubkey =
     (case decode_sig x (cp_sig_b64 cp) of
        None \<Rightarrow> False
      | Some sig \<Rightarrow>
          x_verify x pubkey (checkpoint_bytes (cp_root cp) (cp_count cp) (cp_ts_ms cp)) sig)"

definition verify_tree_head_sig :: "ext \<Rightarrow> tree_head \<Rightarrow> bytes \<Rightarrow> bool" where
  "verify_tree_head_sig x th pubkey =
     (case decode_sig x (th_sig_b64 th) of
        None \<Rightarrow> False
      | Some sig \<Rightarrow>
          x_verify x pubkey (tree_head_bytes (th_merkle_root th) (th_tree_size th) (th_ts_ms th)) sig)"

section \<open>Commitments are unambiguous\<close>

lemma unit_sep_not_digit: "unit_sep \<notin> set (show_nat n)"
  using show_nat_digits [of unit_sep n] by (auto simp: unit_sep_def is_digit_def)

lemma unit_sep_not_tag: "unit_sep \<notin> set checkpoint_tag" "unit_sep \<notin> set tree_head_tag"
  by (simp_all add: unit_sep_def checkpoint_tag_def tree_head_tag_def)

lemma commitment_bytes_inj:
  assumes "commitment_bytes tag h a b = commitment_bytes tag' h' a' b'"
    and "unit_sep \<notin> set tag" and "unit_sep \<notin> set tag'" and "unit_sep \<notin> set h" and "unit_sep \<notin> set h'"
  shows "tag = tag' \<and> h = h' \<and> a = a' \<and> b = b'"
proof -
  have 0: "tag = tag' \<and> h @ unit_sep # show_nat a @ unit_sep # show_nat b =
      h' @ unit_sep # show_nat a' @ unit_sep # show_nat b'"
    by (rule append_sep_inj [OF assms(1) [unfolded commitment_bytes_def] assms(2,3)])
  then have 1: "h = h' \<and> show_nat a @ unit_sep # show_nat b = show_nat a' @ unit_sep # show_nat b'"
    by (intro append_sep_inj [OF _ assms(4,5)]) blast
  then have "show_nat a = show_nat a' \<and> show_nat b = show_nat b'"
    by (intro append_sep_inj [OF _ unit_sep_not_digit unit_sep_not_digit]) blast
  with 0 1 show ?thesis by (blast dest: show_nat_inj)
qed

text \<open>One signature never vouches for two things: a checkpoint's signed bytes determine its
  root, count and time, a tree head's likewise, no checkpoint's bytes equal a tree head's, and
  neither equals a 32-byte record hash. The roots are hex, which has no unit separator.\<close>

theorem commitments_domain_separated:
  assumes "unit_sep \<notin> set r" and "unit_sep \<notin> set r'"
  shows "(checkpoint_bytes r n t = checkpoint_bytes r' n' t' \<longleftrightarrow> r = r' \<and> n = n' \<and> t = t') \<and>
    (tree_head_bytes r n t = tree_head_bytes r' n' t' \<longleftrightarrow> r = r' \<and> n = n' \<and> t = t') \<and>
    checkpoint_bytes r n t \<noteq> tree_head_bytes r' n' t' \<and>
    (length hash = 32 \<and> length r = 64 \<longrightarrow>
       checkpoint_bytes r n t \<noteq> hash \<and> tree_head_bytes r n t \<noteq> hash)"
proof -
  have tags: "checkpoint_tag \<noteq> tree_head_tag"
    by (simp add: checkpoint_tag_def tree_head_tag_def)
  have len: "length (checkpoint_bytes h n t) > length h" "length (tree_head_bytes h n t) > length h" for h
    by (simp_all add: checkpoint_bytes_def tree_head_bytes_def commitment_bytes_def)
  show ?thesis
    unfolding checkpoint_bytes_def tree_head_bytes_def
  proof (intro conjI)
    show "commitment_bytes checkpoint_tag r n t = commitment_bytes checkpoint_tag r' n' t' \<longleftrightarrow>
        r = r' \<and> n = n' \<and> t = t'"
      using commitment_bytes_inj [OF _ unit_sep_not_tag(1,1) assms] by blast
    show "commitment_bytes tree_head_tag r n t = commitment_bytes tree_head_tag r' n' t' \<longleftrightarrow>
        r = r' \<and> n = n' \<and> t = t'"
      using commitment_bytes_inj [OF _ unit_sep_not_tag(2,2) assms] by blast
    show "commitment_bytes checkpoint_tag r n t \<noteq> commitment_bytes tree_head_tag r' n' t'"
      using commitment_bytes_inj [OF _ unit_sep_not_tag assms] tags by blast
    show "length hash = 32 \<and> length r = 64 \<longrightarrow>
        commitment_bytes checkpoint_tag r n t \<noteq> hash \<and>
        commitment_bytes tree_head_tag r n t \<noteq> hash"
      using len [of r] by (auto simp: checkpoint_bytes_def tree_head_bytes_def)
  qed
qed

theorem commitments_domain_separated_witness:
  "checkpoint_bytes genesis 1 2 \<noteq> tree_head_bytes genesis 1 2 \<and>
    checkpoint_bytes genesis 1 2 \<noteq> replicate 32 (CHR 0x00)"
  using commitments_domain_separated [of genesis genesis 1 2 1 2 "replicate 32 (CHR 0x00)"]
  by (simp add: genesis_def unit_sep_def)

end
