(* ===== verification/Demo_Ext.thy ===== *)
theory Demo_Ext
  imports Ledger_Record Merkle
begin

text \<open>
  A concrete instance of the third-party functions, to evaluate the ledger model on: hexadecimal
  as it is, a 32-byte truncation for the digest, a signature that is its padded message, and a
  line format of hex fields. It satisfies every law the theorems ask of \<open>ext\<close>, so their
  hypotheses can hold together.
\<close>

section \<open>Hexadecimal\<close>

definition nibble :: "nat \<Rightarrow> char" where
  "nibble n = char_of (if n < 10 then 48 + n else 87 + n)"

definition unnibble :: "char \<Rightarrow> nat option" where
  "unnibble c =
     (let n = of_char c :: nat in
      if 48 \<le> n \<and> n \<le> 57 then Some (n - 48)
      else if 97 \<le> n \<and> n \<le> 102 then Some (n - 87) else None)"

fun hex_encode :: "bytes \<Rightarrow> string" where
  "hex_encode [] = []"
| "hex_encode (b # bs) = nibble (of_char b div 16) # nibble (of_char b mod 16) # hex_encode bs"

fun hex_decode :: "string \<Rightarrow> bytes option" where
  "hex_decode [] = Some []"
| "hex_decode [_] = None"
| "hex_decode (h # l # s) =
     (case (unnibble h, unnibble l, hex_decode s) of
        (Some a, Some b, Some bs) \<Rightarrow> Some (char_of (16 * a + b) # bs)
      | _ \<Rightarrow> None)"

lemma unnibble_nibble: "n < 16 \<Longrightarrow> unnibble (nibble n) = Some n"
  by (simp add: unnibble_def nibble_def Let_def)

lemma of_char_less: "(of_char c :: nat) < 256"
  by simp

lemma hex_decode_encode [simp]: "hex_decode (hex_encode b) = Some b"
proof (induction b)
  case (Cons c b)
  have "(of_char c :: nat) div 16 < 16" using of_char_less [of c] by (simp add: less_mult_imp_div_less)
  then show ?case using Cons
    by (simp add: unnibble_nibble)
qed simp

lemma length_hex_encode [simp]: "length (hex_encode b) = 2 * length b"
  by (induction b) simp_all

definition hex_char :: "char \<Rightarrow> bool" where
  "hex_char c \<longleftrightarrow> unnibble c \<noteq> None"

lemma hex_encode_chars: "c \<in> set (hex_encode b) \<Longrightarrow> hex_char c"
proof (induction b)
  case (Cons d b)
  have "(of_char d :: nat) div 16 < 16" using of_char_less [of d] by (simp add: less_mult_imp_div_less)
  with Cons show ?case by (auto simp: hex_char_def unnibble_nibble)
qed simp

lemma hex_char_code: "hex_char c \<Longrightarrow> 48 \<le> (of_char c :: nat) \<and> (of_char c :: nat) \<le> 102"
  by (auto simp: hex_char_def unnibble_def Let_def split: if_splits)

section \<open>Lines\<close>

definition comma :: char where
  "comma = CHR '',''"

lemma comma_not_hex: "comma \<notin> set (hex_encode b)"
  using hex_encode_chars [of comma b] hex_char_code [of comma] by (auto simp: comma_def)

definition field :: "bytes \<Rightarrow> string" where
  "field b = hex_encode b @ [comma]"

text \<open>Read one field off the front.\<close>

definition take_field :: "string \<Rightarrow> (bytes \<times> string) option" where
  "take_field s =
     (let h = takeWhile (\<lambda>c. c \<noteq> comma) s; rest = drop (Suc (length h)) s
      in map_option (\<lambda>b. (b, rest)) (hex_decode h))"

lemma takeWhile_hex: "takeWhile (\<lambda>c. c \<noteq> comma) (hex_encode b @ comma # s) = hex_encode b"
  using comma_not_hex [of b] by (subst takeWhile_append2) auto

lemma take_field_field [simp]: "take_field (field b @ s) = Some (b, s)"
  by (simp add: take_field_def field_def takeWhile_hex Let_def)

definition demo_record_json :: "record_line \<Rightarrow> string + string" where
  "demo_record_json r =
     Inr (CHR ''{'' # field (rl_entry r) @ field (rl_prev r) @ field (rl_hash r) @ field (rl_sig_b64 r) @
       field (case rl_kid r of None \<Rightarrow> '''' | Some k \<Rightarrow> CHR ''k'' # k))"

definition demo_parse_record :: "string \<Rightarrow> string + record_line" where
  "demo_parse_record s =
     (case take_field (tl s) of None \<Rightarrow> Inl ''entry'' | Some (e, s1) \<Rightarrow>
     (case take_field s1 of None \<Rightarrow> Inl ''prev'' | Some (p, s2) \<Rightarrow>
     (case take_field s2 of None \<Rightarrow> Inl ''hash'' | Some (h, s3) \<Rightarrow>
     (case take_field s3 of None \<Rightarrow> Inl ''sig'' | Some (g, s4) \<Rightarrow>
     (case take_field s4 of None \<Rightarrow> Inl ''kid'' | Some (k, s5) \<Rightarrow>
        Inr \<lparr>rl_entry = e, rl_prev = p, rl_hash = h, rl_sig_b64 = g,
             rl_kid = (case k of [] \<Rightarrow> None | c # cs \<Rightarrow> Some cs)\<rparr>)))))"

lemma demo_parse_json: "demo_record_json r = Inr l \<Longrightarrow> demo_parse_record l = Inr r"
  using take_field_field [of "case rl_kid r of None \<Rightarrow> '''' | Some k \<Rightarrow> CHR ''k'' # k" "[]"]
  by (cases r) (auto simp: demo_record_json_def demo_parse_record_def split: option.splits)

text \<open>Entries carry only their sequence number, in unary.\<close>

definition demo_entry :: "nat \<Rightarrow> entry" where
  "demo_entry n = \<lparr>e_seq = n, e_ts_ms = 0, e_subject_type = '''', e_subject_id = '''', e_action = '''',
     e_resource_type = '''', e_resource_id = '''', e_context = JNull, e_decision = False,
     e_reasons = [], e_edge = Attenuate, e_sponsor = None, e_sponsor_source = Derived,
     e_mission = None, e_decision_subject = None, e_asserted_by = None, e_notice_required = False,
     e_challenge = None, e_digests = []\<rparr>"

definition demo_seg_json :: "segment_meta \<Rightarrow> string" where
  "demo_seg_json g = field (sm_file g) @ field (replicate (sm_start_seq g) (CHR ''I'')) @
     field (case sm_end_seq g of None \<Rightarrow> '''' | Some n \<Rightarrow> CHR ''e'' # replicate n (CHR ''I'')) @
     field (replicate (sm_opened_ms g) (CHR ''I''))"

definition demo_parse_seg :: "string \<Rightarrow> (segment_meta \<times> string) option" where
  "demo_parse_seg s =
     Option.bind (take_field s) (\<lambda>(f, s1).
     Option.bind (take_field s1) (\<lambda>(a, s2).
     Option.bind (take_field s2) (\<lambda>(b, s3).
     Option.bind (take_field s3) (\<lambda>(t, s4).
       Some (\<lparr>sm_file = f, sm_start_seq = length a,
         sm_end_seq = (case b of [] \<Rightarrow> None | _ # n \<Rightarrow> Some (length n)), sm_opened_ms = length t\<rparr>, s4)))))"

fun demo_parse_segs :: "nat \<Rightarrow> string \<Rightarrow> segment_meta list option" where
  "demo_parse_segs 0 s = (if s = [] then Some [] else None)"
| "demo_parse_segs (Suc n) s =
     (if s = [] then Some []
      else Option.bind (demo_parse_seg s) (\<lambda>(g, r). map_option ((#) g) (demo_parse_segs n r)))"

definition demo_manifest_json :: "manifest \<Rightarrow> string + bytes" where
  "demo_manifest_json m =
     Inr (field (replicate (mf_version m) (CHR ''I'')) @ concat (map demo_seg_json (mf_segments m)))"

definition demo_parse_manifest :: "bytes \<Rightarrow> string + manifest" where
  "demo_parse_manifest s =
     ok_or (Option.bind (take_field s) (\<lambda>(v, r).
       map_option (\<lambda>gs. \<lparr>mf_version = length v, mf_segments = gs\<rparr>) (demo_parse_segs (length r) r))) ''manifest''"

lemma demo_parse_seg: "demo_parse_seg (demo_seg_json g @ s) = Some (g, s)"
  by (cases g) (simp add: demo_parse_seg_def demo_seg_json_def split: option.splits)

lemma demo_seg_json_nonempty: "demo_seg_json g \<noteq> []"
  by (simp add: demo_seg_json_def field_def)

lemma demo_parse_segs:
  "length (concat (map demo_seg_json gs)) \<le> n \<Longrightarrow> demo_parse_segs n (concat (map demo_seg_json gs)) = Some gs"
proof (induction gs arbitrary: n)
  case Nil
  then show ?case by (cases n) simp_all
next
  case (Cons g gs)
  then have "n > 0" using demo_seg_json_nonempty [of g] by (cases n) auto
  moreover have "length (concat (map demo_seg_json gs)) \<le> n - 1"
    using Cons.prems demo_seg_json_nonempty [of g] by (cases "demo_seg_json g") auto
  ultimately show ?case using Cons.IH [of "n - 1"] demo_seg_json_nonempty [of g]
    by (cases n) (simp_all add: demo_parse_seg)
qed

lemma demo_manifest_round: "demo_manifest_json m = Inr b \<Longrightarrow> demo_parse_manifest b = Inr m"
  by (cases m) (auto simp: demo_manifest_json_def demo_parse_manifest_def demo_parse_segs)

definition pad64 :: "bytes \<Rightarrow> bytes" where
  "pad64 b = take 64 (b @ replicate 64 (CHR 0x00))"

definition demo_ext :: ext where
  "demo_ext = \<lparr>x_sha256 = pad32, x_hex = hex_encode, x_unhex = hex_decode, x_b64 = hex_encode,
     x_unb64 = hex_decode, x_public = (\<lambda>k. k), x_sign = (\<lambda>k m. pad64 m),
     x_verify = (\<lambda>k m s. s = pad64 m),
     x_entry_json = (\<lambda>e. Inr (replicate (e_seq e) (CHR ''I''))),
     x_parse_entry = (\<lambda>s. Inr (demo_entry (length s))), x_raw = Inr,
     x_record_json = demo_record_json, x_parse_record = demo_parse_record,
     x_value = (\<lambda>l. case demo_parse_record l of Inl e \<Rightarrow> Inl e
        | Inr r \<Rightarrow> Inr (JObject ((''hash'', JString (rl_hash r)) #
            (case rl_kid r of None \<Rightarrow> [] | Some k \<Rightarrow> [(''kid'', JString k)]) @ [(''sig_b64'', JString (rl_sig_b64 r))]))),
     x_checkpoint_json = (\<lambda>cp. Inr (CHR ''{'' # field (cp_root cp) @ field (replicate (cp_count cp) (CHR ''I'')) @
        field (replicate (cp_ts_ms cp) (CHR ''I'')) @ field (cp_pubkey_hex cp) @ field (cp_sig_b64 cp))),
     x_parse_checkpoint = (\<lambda>s.
       case take_field (tl s) of None \<Rightarrow> Inl '''' | Some (r, s1) \<Rightarrow>
       (case take_field s1 of None \<Rightarrow> Inl '''' | Some (c, s2) \<Rightarrow>
       (case take_field s2 of None \<Rightarrow> Inl '''' | Some (t, s3) \<Rightarrow>
       (case take_field s3 of None \<Rightarrow> Inl '''' | Some (p, s4) \<Rightarrow>
       (case take_field s4 of None \<Rightarrow> Inl '''' | Some (g, s5) \<Rightarrow>
          Inr \<lparr>cp_root = r, cp_count = length c, cp_ts_ms = length t, cp_pubkey_hex = p,
               cp_sig_b64 = g\<rparr>))))),
     x_manifest_json = demo_manifest_json, x_parse_manifest = demo_parse_manifest\<rparr>"

end
