(* ===== verification/Verify.thy ===== *)
theory Verify
  imports Ledger_Record Merkle Demo_Ext
begin

text \<open>
  Verifying a ledger from its stored lines: \<open>decern-ledger/src/verify.rs\<close>. The loop of
  \<open>verify_lines\<close> runs over the lines as an iterator of results, skips blank ones, and
  checks sequence, link, hash and, with a keyring, signature and key succession. The theorems:
  the root determines every entry (given no collision on what was hashed), a verified log's keys
  succeed one another and never return, and the proofs issued over its leaves verify.
\<close>

section \<open>Blank lines\<close>

text \<open>\<open>str::trim().is_empty()\<close> on UTF-8 bytes: every character is Unicode white space.\<close>

fun is_blank :: "string \<Rightarrow> bool" where
  "is_blank [] = True"
| "is_blank (a # s) =
     (if a \<in> {CHR 0x09, CHR 0x0A, CHR 0x0B, CHR 0x0C, CHR 0x0D, CHR '' ''} then is_blank s
      else case s of
        [] \<Rightarrow> False
      | b # s' \<Rightarrow>
          if a = CHR 0xC2 \<and> b \<in> {CHR 0x85, CHR 0xA0} then is_blank s'
          else (case s' of
            [] \<Rightarrow> False
          | c # s'' \<Rightarrow>
              if a = CHR 0xE1 \<and> b = CHR 0x9A \<and> c = CHR 0x80 \<or>
                 a = CHR 0xE2 \<and> b = CHR 0x80 \<and>
                   (CHR 0x80 \<le> c \<and> c \<le> CHR 0x8A \<or> c \<in> {CHR 0xA8, CHR 0xA9, CHR 0xAF}) \<or>
                 a = CHR 0xE2 \<and> b = CHR 0x81 \<and> c = CHR 0x9F \<or>
                 a = CHR 0xE3 \<and> b = CHR 0x80 \<and> c = CHR 0x80
              then is_blank s'' else False))"

section \<open>The code\<close>

record signer_span =
  ss_kid :: string
  ss_first_seq :: nat

record verify_report =
  vr_entries :: nat
  vr_root :: "string option"
  vr_signatures_checked :: bool
  vr_signers :: "signer_span list"

record read_window =
  w_offset :: nat
  w_end :: nat
  w_records :: "json list"

fun position :: "('a \<Rightarrow> bool) \<Rightarrow> 'a list \<Rightarrow> nat option" where
  "position P [] = None"
| "position P (x # xs) = (if P x then Some 0 else map_option Suc (position P xs))"

definition successor :: "signer_span list \<Rightarrow> string \<Rightarrow> signer_span option" where
  "successor signers kid =
     (case position (\<lambda>s. ss_kid s = kid) signers of
        None \<Rightarrow> None
      | Some at \<Rightarrow> if at + 1 < length signers then Some (signers ! (at + 1)) else None)"

definition superseded_by :: "verify_report \<Rightarrow> string \<Rightarrow> signer_span option" where
  "superseded_by report kid = successor (vr_signers report) kid"

text \<open>The first half of \<open>check_signer\<close>: the key whose signature verifies.\<close>

definition signer_of ::
  "ext \<Rightarrow> bytes list \<Rightarrow> bytes \<Rightarrow> string \<Rightarrow> string option \<Rightarrow> signer_error + string" where
  "signer_of x keys hash sig_b64 kid =
     (case x_unb64 x sig_b64 of
        None \<Rightarrow> Inl UnparseableSignature
      | Some sig \<Rightarrow>
          if length sig \<noteq> 64 then Inl SignatureLength
          else (case kid of
            Some kd \<Rightarrow>
              (case List.find (\<lambda>k. key_fingerprint x k = kd) keys of
                 Some k \<Rightarrow> if x_verify x k hash sig then Inr kd else Inl SignatureInvalid
               | None \<Rightarrow> Inl (UnknownSigner kd))
          | None \<Rightarrow>
              (case List.find (\<lambda>k. x_verify x k hash sig) keys of
                 Some k \<Rightarrow> Inr (key_fingerprint x k)
               | None \<Rightarrow> Inl SignatureInvalid)))"

text \<open>The second half: the succession rule.\<close>

definition admit_signer ::
  "signer_span list \<Rightarrow> nat \<Rightarrow> string \<Rightarrow> signer_error + signer_span list" where
  "admit_signer signers seq signer =
     (if signers \<noteq> [] \<and> ss_kid (last signers) = signer then Inr signers
      else case successor signers signer of
             Some next \<Rightarrow> Inl (SignerSucceeded signer (ss_kid next) (ss_first_seq next))
           | None \<Rightarrow> Inr (signers @ [\<lparr>ss_kid = signer, ss_first_seq = seq\<rparr>]))"

definition check_signer ::
  "ext \<Rightarrow> signer_span list \<Rightarrow> bytes list \<Rightarrow> nat \<Rightarrow> bytes \<Rightarrow> string \<Rightarrow> string option \<Rightarrow>
   signer_error + signer_span list" where
  "check_signer x signers keys seq hash sig_b64 kid =
     res_bind (signer_of x keys hash sig_b64 kid) (admit_signer signers seq)"

record vstate =
  vs_prev :: string
  vs_count :: nat
  vs_signers :: "signer_span list"
  vs_window :: "read_window option"

definition map_err :: "('e \<Rightarrow> 'f) \<Rightarrow> 'e + 'a \<Rightarrow> 'f + 'a" where
  "map_err f m = (case m of Inl e \<Rightarrow> Inl (f e) | Inr v \<Rightarrow> Inr v)"

definition collect_window ::
  "ext \<Rightarrow> nat \<Rightarrow> string \<Rightarrow> read_window option \<Rightarrow> ledger_error + read_window option" where
  "collect_window x count line sink =
     (case sink of
        None \<Rightarrow> Inr None
      | Some w \<Rightarrow>
          if w_offset w \<le> count \<and> count < w_end w
          then res_map (\<lambda>v. Some (w\<lparr>w_records := w_records w @ [v]\<rparr>)) (map_err Serde (x_value x line))
          else Inr (Some w))"

text \<open>One iteration of the loop of \<open>verify_lines\<close>, on line \<open>i\<close>.\<close>

definition verify_line ::
  "ext \<Rightarrow> bytes list \<Rightarrow> nat \<Rightarrow> vstate \<Rightarrow> string \<Rightarrow> ledger_error + vstate" where
  "verify_line x keys i st line =
     (if is_blank line then Inr st
      else
        (let count = vs_count st in
         res_bind (map_err (\<lambda>e. Tamper i (UnparseableRecord e)) (x_parse_record x line)) (\<lambda>rec.
         res_bind (map_err (\<lambda>e. Tamper count (UnparseableEntry e)) (x_parse_entry x (rl_entry rec))) (\<lambda>entry.
         res_bind (res_guard (e_seq entry = count) (Tamper count (SequenceBreak (e_seq entry)))) (\<lambda>_.
         res_bind (res_guard (rl_prev rec = vs_prev st) (Tamper count PrevMismatch)) (\<lambda>_.
         (let hash = chain_hash x (rl_entry rec) (rl_prev rec) in
         res_bind (res_guard (x_hex x hash = rl_hash rec) (Tamper count HashMismatch)) (\<lambda>_.
         res_bind (if keys \<noteq> [] then
                     map_err (\<lambda>e. Tamper count (BadSigner e))
                       (check_signer x (vs_signers st) keys count hash (rl_sig_b64 rec) (rl_kid rec))
                   else Inr (vs_signers st)) (\<lambda>signers.
         res_bind (collect_window x count line (vs_window st)) (\<lambda>window.
         Inr \<lparr>vs_prev = rl_hash rec, vs_count = count + 1, vs_signers = signers,
              vs_window = window\<rparr>))))))))))"

fun verify_loop ::
  "ext \<Rightarrow> bytes list \<Rightarrow> nat \<Rightarrow> vstate \<Rightarrow> (ledger_error + string) list \<Rightarrow> ledger_error + vstate" where
  "verify_loop x keys i st [] = Inr st"
| "verify_loop x keys i st (l # ls) =
     res_bind l (\<lambda>line. res_bind (verify_line x keys i st line) (\<lambda>st'. verify_loop x keys (Suc i) st' ls))"

definition init_vstate :: "read_window option \<Rightarrow> vstate" where
  "init_vstate sink = \<lparr>vs_prev = genesis, vs_count = 0, vs_signers = [], vs_window = sink\<rparr>"

definition report_of :: "bytes list \<Rightarrow> vstate \<Rightarrow> verify_report" where
  "report_of keys st =
     \<lparr>vr_entries = vs_count st, vr_root = (if vs_count st > 0 then Some (vs_prev st) else None),
      vr_signatures_checked = (keys \<noteq> []), vr_signers = vs_signers st\<rparr>"

text \<open>The report, and the window's contents afterwards.\<close>

definition verify_lines ::
  "ext \<Rightarrow> (ledger_error + string) list \<Rightarrow> bytes list \<Rightarrow> read_window option \<Rightarrow>
   ledger_error + (verify_report \<times> read_window option)" where
  "verify_lines x lines keys sink =
     res_map (\<lambda>st. (report_of keys st, vs_window st)) (verify_loop x keys 0 (init_vstate sink) lines)"

text \<open>\<open>verify_stored_records\<close>: the same check over a shard's stored lines.\<close>

definition verify_stored_records :: "ext \<Rightarrow> string list \<Rightarrow> bytes list \<Rightarrow> ledger_error + verify_report" where
  "verify_stored_records x records keys = res_map fst (verify_lines x (map Inr records) keys None)"

fun leaves_from_records_at :: "ext \<Rightarrow> nat \<Rightarrow> json list \<Rightarrow> ledger_error + bytes list" where
  "leaves_from_records_at x i [] = Inr []"
| "leaves_from_records_at x i (r # recs) =
     res_bind (ok_or (jget_str r ''hash'') (Tamper i MissingHash)) (\<lambda>hash_hex.
     res_bind (ok_or (x_unhex x hash_hex) (Tamper i HashNotHex)) (\<lambda>leaf.
     res_map ((#) leaf) (leaves_from_records_at x (Suc i) recs)))"

definition leaves_from_records :: "ext \<Rightarrow> json list \<Rightarrow> ledger_error + bytes list" where
  "leaves_from_records x recs = leaves_from_records_at x 0 recs"

text \<open>\<open>hash_field\<close> is serde's parse of a line into a struct with only a \<open>hash\<close>.\<close>

fun leaves_from_lines_at ::
  "ext \<Rightarrow> (string \<Rightarrow> string option) \<Rightarrow> nat \<Rightarrow> string list \<Rightarrow> ledger_error + bytes list" where
  "leaves_from_lines_at x hash_field i [] = Inr []"
| "leaves_from_lines_at x hash_field i (l # ls) =
     res_bind (ok_or (hash_field l) (Tamper i MissingHash)) (\<lambda>hash_hex.
     res_bind (ok_or (x_unhex x hash_hex) (Tamper i HashNotHex)) (\<lambda>leaf.
     res_map ((#) leaf) (leaves_from_lines_at x hash_field (Suc i) ls)))"

definition leaves_from_lines ::
  "ext \<Rightarrow> (string \<Rightarrow> string option) \<Rightarrow> string list \<Rightarrow> ledger_error + bytes list" where
  "leaves_from_lines x hash_field lines = leaves_from_lines_at x hash_field 0 lines"

definition inclusion_proof_over :: "ext \<Rightarrow> bytes list \<Rightarrow> nat \<Rightarrow> ledger_error + inclusion_proof_rec" where
  "inclusion_proof_over x leaves seq =
     res_map (\<lambda>path. \<lparr>ip_leaf_index = seq, ip_tree_size = length leaves,
         ip_leaf_data = x_hex x (leaves ! seq), ip_audit_path = map (x_hex x) path\<rparr>)
       (ok_or (inclusion_proof (x_sha256 x) leaves seq) (Tamper seq IndexPastEnd))"

definition inclusion_proofs_over ::
  "ext \<Rightarrow> bytes list \<Rightarrow> nat list \<Rightarrow> ledger_error + inclusion_proof_rec list" where
  "inclusion_proofs_over x leaves seqs = res_list (map (inclusion_proof_over x leaves) seqs)"

section \<open>The chain\<close>

lemma map_err_eq_Inr [res_simps]: "map_err f m = Inr v \<longleftrightarrow> m = Inr v"
  by (cases m) (simp_all add: map_err_def)

text \<open>The records of a log: its non-blank lines, parsed.\<close>

definition records_of :: "ext \<Rightarrow> string list \<Rightarrow> record_line list" where
  "records_of x lines =
     concat (map (\<lambda>l. if is_blank l then [] else case x_parse_record x l of Inr r \<Rightarrow> [r] | Inl _ \<Rightarrow> []) lines)"

text \<open>Records chained from a head hash at a sequence number.\<close>

fun chained :: "ext \<Rightarrow> string \<Rightarrow> nat \<Rightarrow> record_line list \<Rightarrow> bool" where
  "chained x prev n [] = True"
| "chained x prev n (r # rs) =
     (rl_prev r = prev \<and> rl_hash r = x_hex x (chain_hash x (rl_entry r) prev) \<and>
      (case x_parse_entry x (rl_entry r) of Inr e \<Rightarrow> e_seq e = n | Inl _ \<Rightarrow> False) \<and>
      chained x (rl_hash r) (Suc n) rs)"

definition head_hash :: "string \<Rightarrow> record_line list \<Rightarrow> string" where
  "head_hash prev rs = (if rs = [] then prev else rl_hash (last rs))"

lemma head_hash_Cons [simp]: "head_hash prev (r # rs) = head_hash (rl_hash r) rs"
  by (simp add: head_hash_def)

lemma head_hash_snoc [simp]: "head_hash prev (rs @ [r]) = rl_hash r"
  by (simp add: head_hash_def)

lemma head_hash_Nil [simp]: "head_hash prev [] = prev"
  by (simp add: head_hash_def)

lemma verify_loop_append:
  "verify_loop x keys i st (ls @ ms) =
     res_bind (verify_loop x keys i st ls) (\<lambda>st'. verify_loop x keys (i + length ls) st' ms)"
proof (induction ls arbitrary: i st)
  case (Cons l ls)
  then show ?case by (cases l; cases "verify_line x keys i st (projr l)") simp_all
qed simp

lemma records_of_simps [simp]:
  "records_of x [] = []"
  "records_of x (l # ls) =
     (if is_blank l then [] else case x_parse_record x l of Inr r \<Rightarrow> [r] | Inl _ \<Rightarrow> []) @ records_of x ls"
  "records_of x (ls @ ms) = records_of x ls @ records_of x ms"
  by (simp_all add: records_of_def)

lemma verify_line_Inr:
  assumes "verify_line x keys i st line = Inr st'" and "\<not> is_blank line"
  obtains r e where "x_parse_record x line = Inr r" "x_parse_entry x (rl_entry r) = Inr e"
    "e_seq e = vs_count st" "rl_prev r = vs_prev st"
    "rl_hash r = x_hex x (chain_hash x (rl_entry r) (vs_prev st))"
    "vs_prev st' = rl_hash r" "vs_count st' = Suc (vs_count st)"
    "if keys = [] then vs_signers st' = vs_signers st
     else check_signer x (vs_signers st) keys (vs_count st) (chain_hash x (rl_entry r) (vs_prev st))
       (rl_sig_b64 r) (rl_kid r) = Inr (vs_signers st')"
  using assms by (auto simp: verify_line_def Let_def res_simps split: if_splits)

lemma verify_loop_chained:
  "verify_loop x keys i st (map Inr ls) = Inr st' \<Longrightarrow>
    chained x (vs_prev st) (vs_count st) (records_of x ls) \<and>
    vs_count st' = vs_count st + length (records_of x ls) \<and>
    vs_prev st' = head_hash (vs_prev st) (records_of x ls)"
proof (induction ls arbitrary: i st)
  case (Cons l ls)
  then obtain st1 where st1: "verify_line x keys i st l = Inr st1"
      "verify_loop x keys (Suc i) st1 (map Inr ls) = Inr st'"
    by (auto simp: res_simps)
  show ?case
  proof (cases "is_blank l")
    case True
    with st1 have "st1 = st" by (simp add: verify_line_def)
    with st1 Cons.IH True show ?thesis by auto
  next
    case False
    from verify_line_Inr [OF st1(1) False] obtain r e where
      "x_parse_record x l = Inr r" "x_parse_entry x (rl_entry r) = Inr e"
      "e_seq e = vs_count st" "rl_prev r = vs_prev st"
      "rl_hash r = x_hex x (chain_hash x (rl_entry r) (vs_prev st))"
      "vs_prev st1 = rl_hash r" "vs_count st1 = Suc (vs_count st)"
      by metis
    with False Cons.IH [OF st1(2)] show ?thesis by simp
  qed
qed simp

lemma verify_lines_chained:
  assumes "verify_lines x (map Inr ls) keys sink = Inr (rep, w)"
  shows "chained x genesis 0 (records_of x ls) \<and> vr_entries rep = length (records_of x ls) \<and>
    (records_of x ls \<noteq> [] \<longrightarrow> vr_root rep = Some (head_hash genesis (records_of x ls))) \<and>
    (records_of x ls = [] \<longrightarrow> vr_root rep = None)"
proof -
  from assms obtain st where st: "verify_loop x keys 0 (init_vstate sink) (map Inr ls) = Inr st"
      "rep = report_of keys st"
    by (auto simp: verify_lines_def res_simps)
  from verify_loop_chained [OF st(1)] st(2) show ?thesis
    by (auto simp: init_vstate_def report_of_def)
qed

section \<open>Tamper evidence\<close>

definition hex_ok :: "ext \<Rightarrow> bool" where
  "hex_ok x \<longleftrightarrow> (\<forall>b. x_unhex x (x_hex x b) = Some b \<and> length (x_hex x b) = 2 * length b)"

definition sha_ok :: "ext \<Rightarrow> bool" where
  "sha_ok x \<longleftrightarrow> (\<forall>b. length (x_sha256 x b) = 32)"

text \<open>The strings the chain of a log hashes.\<close>

definition chain_inputs :: "record_line list \<Rightarrow> bytes list" where
  "chain_inputs rs = map (\<lambda>r. rl_entry r @ rl_prev r) rs"

lemma x_hex_inj: "hex_ok x \<Longrightarrow> x_hex x a = x_hex x b \<longleftrightarrow> a = b"
  unfolding hex_ok_def by (metis option.inject)

lemma length_hash:
  "hex_ok x \<Longrightarrow> sha_ok x \<Longrightarrow> length (x_hex x (chain_hash x e p)) = 64"
  by (simp add: hex_ok_def sha_ok_def chain_hash_def)

lemma chained_append:
  "chained x prev n (rs @ [r]) \<longleftrightarrow>
     chained x prev n rs \<and> rl_prev r = head_hash prev rs \<and>
     rl_hash r = x_hex x (chain_hash x (rl_entry r) (head_hash prev rs)) \<and>
     (case x_parse_entry x (rl_entry r) of Inr e \<Rightarrow> e_seq e = n + length rs | Inl _ \<Rightarrow> False)"
  by (induction rs arbitrary: prev n) (auto split: sum.splits)

text \<open>The links alone, without the sequence numbers.\<close>

fun linked :: "ext \<Rightarrow> string \<Rightarrow> record_line list \<Rightarrow> bool" where
  "linked x prev [] = True"
| "linked x prev (r # rs) =
     (rl_prev r = prev \<and> rl_hash r = x_hex x (chain_hash x (rl_entry r) prev) \<and> linked x (rl_hash r) rs)"

lemma linked_append:
  "linked x prev (rs @ [r]) \<longleftrightarrow>
     linked x prev rs \<and> rl_prev r = head_hash prev rs \<and>
     rl_hash r = x_hex x (chain_hash x (rl_entry r) (head_hash prev rs))"
  by (induction rs arbitrary: prev) auto

lemma chained_linked: "chained x prev n rs \<Longrightarrow> linked x prev rs"
  by (induction rs arbitrary: prev n) auto

lemma length_head_hash:
  assumes "hex_ok x" and "sha_ok x" and "linked x genesis rs"
  shows "length (head_hash genesis rs) = 64"
proof (cases rs rule: rev_cases)
  case Nil
  then show ?thesis by (simp add: genesis_def)
next
  case (snoc ys r)
  with assms(3) have "rl_hash r = x_hex x (chain_hash x (rl_entry r) (head_hash genesis ys))"
    by (simp add: linked_append)
  with snoc show ?thesis by (simp add: length_hash [OF assms(1,2)])
qed

lemma linked_determined:
  assumes "hex_ok x" and "sha_ok x" and "linked x genesis rs" and "linked x genesis ss"
    and "length rs = length ss" and "head_hash genesis rs = head_hash genesis ss"
    and "inj_on (x_sha256 x) S" and "set (chain_inputs rs) \<subseteq> S" and "set (chain_inputs ss) \<subseteq> S"
  shows "map (\<lambda>r. (rl_entry r, rl_prev r, rl_hash r)) rs = map (\<lambda>r. (rl_entry r, rl_prev r, rl_hash r)) ss"
  using assms(3-)
proof (induction rs arbitrary: ss rule: rev_induct)
  case Nil
  then show ?case by simp
next
  case (snoc r rs)
  from snoc.prems(3) obtain ss' s where ss: "ss = ss' @ [s]" "length ss' = length rs"
    by (cases ss rule: rev_cases) auto
  from snoc.prems(1,2) ss have c:
    "linked x genesis rs" "linked x genesis ss'"
    "rl_prev r = head_hash genesis rs" "rl_prev s = head_hash genesis ss'"
    "rl_hash r = x_hex x (chain_hash x (rl_entry r) (rl_prev r))"
    "rl_hash s = x_hex x (chain_hash x (rl_entry s) (rl_prev s))"
    by (simp_all add: linked_append)
  from snoc.prems(4) ss have h: "rl_hash r = rl_hash s" by simp
  with c have "x_sha256 x (rl_entry r @ rl_prev r) = x_sha256 x (rl_entry s @ rl_prev s)"
    by (simp add: x_hex_inj [OF assms(1)] chain_hash_def)
  then have "rl_entry r @ rl_prev r = rl_entry s @ rl_prev s"
    using snoc.prems(5-7) ss by (auto simp: chain_inputs_def dest: inj_onD)
  moreover have "length (rl_prev r) = length (rl_prev s)"
    using length_head_hash [OF assms(1,2)] c by simp
  ultimately have e: "rl_entry r = rl_entry s" "rl_prev r = rl_prev s" by simp_all
  then have "map (\<lambda>r. (rl_entry r, rl_prev r, rl_hash r)) rs = map (\<lambda>r. (rl_entry r, rl_prev r, rl_hash r)) ss'"
    using snoc.IH [OF c(1,2)] ss c snoc.prems by (simp add: chain_inputs_def)
  with e h ss show ?case by simp
qed

lemma chain_determined:
  assumes "hex_ok x" and "sha_ok x" and "chained x genesis 0 rs" and "chained x genesis 0 ss"
    and "length rs = length ss" and "head_hash genesis rs = head_hash genesis ss"
    and "inj_on (x_sha256 x) S" and "set (chain_inputs rs) \<subseteq> S" and "set (chain_inputs ss) \<subseteq> S"
  shows "map (\<lambda>r. (rl_entry r, rl_prev r, rl_hash r)) rs = map (\<lambda>r. (rl_entry r, rl_prev r, rl_hash r)) ss"
  using linked_determined [OF assms(1,2) chained_linked [OF assms(3)] chained_linked [OF assms(4)] assms(5-)] .

section \<open>Key succession\<close>

lemma position_None: "position P xs = None \<longleftrightarrow> (\<forall>x \<in> set xs. \<not> P x)"
  by (induction xs) auto

lemma position_Some: "position P xs = Some i \<Longrightarrow> i < length xs \<and> P (xs ! i)"
  by (induction xs arbitrary: i) (auto split: if_splits)

lemma successor_None:
  "successor signers kid = None \<longleftrightarrow>
     kid \<notin> ss_kid ` set signers \<or> position (\<lambda>s. ss_kid s = kid) signers = Some (length signers - 1)"
proof (cases "position (\<lambda>s. ss_kid s = kid) signers")
  case None
  then have "kid \<notin> ss_kid ` set signers" by (auto simp: position_None)
  with None show ?thesis by (simp add: successor_def)
next
  case (Some i)
  then have "i < length signers" "ss_kid (signers ! i) = kid" by (auto dest: position_Some)
  with Some show ?thesis by (auto simp: successor_def)
qed

lemma admit_signer_Inr:
  assumes "admit_signer signers seq signer = Inr signers'"
  shows "signers' = signers \<and> signers \<noteq> [] \<and> ss_kid (last signers) = signer \<or>
    signers' = signers @ [\<lparr>ss_kid = signer, ss_first_seq = seq\<rparr>] \<and> signer \<notin> ss_kid ` set signers"
proof (cases "signers \<noteq> [] \<and> ss_kid (last signers) = signer")
  case True
  with assms show ?thesis by (simp add: admit_signer_def)
next
  case False
  with assms have n: "successor signers signer = None"
      and s: "signers' = signers @ [\<lparr>ss_kid = signer, ss_first_seq = seq\<rparr>]"
    by (auto simp: admit_signer_def split: option.splits)
  have "position (\<lambda>s. ss_kid s = signer) signers \<noteq> Some (length signers - 1)"
  proof
    assume "position (\<lambda>s. ss_kid s = signer) signers = Some (length signers - 1)"
    from position_Some [OF this] have "signers \<noteq> []"
      and "ss_kid (signers ! (length signers - 1)) = signer" by auto
    then have "signers \<noteq> [] \<and> ss_kid (last signers) = signer" by (simp add: last_conv_nth)
    with False show False by simp
  qed
  with n s show ?thesis by (simp add: successor_None)
qed

lemma remdups_adj_snoc:
  "remdups_adj (xs @ [a]) = (if xs \<noteq> [] \<and> last xs = a then remdups_adj xs else remdups_adj xs @ [a])"
  by (induction xs rule: remdups_adj.induct) auto

text \<open>\<open>kids\<close> are the signers of the records read so far, in order.\<close>

definition succession :: "string list \<Rightarrow> signer_span list \<Rightarrow> bool" where
  "succession kids signers \<longleftrightarrow> map ss_kid signers = remdups_adj kids \<and> distinct (remdups_adj kids)"

lemma succession_admit:
  assumes "succession kids signers" and "admit_signer signers seq signer = Inr signers'"
  shows "succession (kids @ [signer]) signers'"
proof -
  have last: "kids \<noteq> [] \<and> last kids = signer \<longleftrightarrow> signers \<noteq> [] \<and> ss_kid (last signers) = signer"
  proof (cases "kids = []")
    case True
    with assms(1) show ?thesis by (simp add: succession_def)
  next
    case False
    from assms(1) have "map ss_kid signers = remdups_adj kids" by (simp add: succession_def)
    with False have "map ss_kid signers \<noteq> []" by simp
    then have "signers \<noteq> []" by simp
    moreover have "last (map ss_kid signers) = last kids"
      using assms(1) by (simp add: succession_def)
    ultimately show ?thesis using False by (simp add: last_map)
  qed
  from admit_signer_Inr [OF assms(2)] show ?thesis
  proof (elim disjE conjE)
    assume "signers' = signers" "signers \<noteq> []" "ss_kid (last signers) = signer"
    with last assms(1) show ?thesis by (simp add: succession_def remdups_adj_snoc)
  next
    assume s: "signers' = signers @ [\<lparr>ss_kid = signer, ss_first_seq = seq\<rparr>]"
      and new: "signer \<notin> ss_kid ` set signers"
    then have "\<not> (kids \<noteq> [] \<and> last kids = signer)" using last by auto
    moreover have "set (remdups_adj kids) = ss_kid ` set signers"
      using assms(1) by (metis list.set_map succession_def)
    ultimately show ?thesis using assms(1) s new by (simp add: succession_def remdups_adj_snoc)
  qed
qed

text \<open>A record is signed by the key with fingerprint \<open>kid\<close>.\<close>

definition signed_by :: "ext \<Rightarrow> bytes list \<Rightarrow> record_line \<Rightarrow> string \<Rightarrow> bool" where
  "signed_by x keys r kid \<longleftrightarrow>
     (\<exists>k \<in> set keys. key_fingerprint x k = kid \<and>
        (\<exists>sig. x_unb64 x (rl_sig_b64 r) = Some sig \<and> length sig = 64 \<and>
           x_verify x k (chain_hash x (rl_entry r) (rl_prev r)) sig)) \<and>
     (rl_kid r = None \<or> rl_kid r = Some kid)"

lemma signer_of_signed:
  assumes "signer_of x keys (chain_hash x (rl_entry r) (rl_prev r)) (rl_sig_b64 r) (rl_kid r) = Inr kid"
  shows "signed_by x keys r kid"
  using assms
  by (auto simp: signer_of_def signed_by_def find_Some_iff split: option.splits if_splits)

lemma verify_loop_succession:
  assumes "keys \<noteq> []"
  shows "verify_loop x keys i st (map Inr ls) = Inr st' \<Longrightarrow> succession kids (vs_signers st) \<Longrightarrow>
    \<exists>kids'. length kids' = length (records_of x ls) \<and> succession (kids @ kids') (vs_signers st') \<and>
      (\<forall>j < length kids'. signed_by x keys (records_of x ls ! j) (kids' ! j))"
proof (induction ls arbitrary: i st kids)
  case (Cons l ls)
  then obtain st1 where st1: "verify_line x keys i st l = Inr st1"
      "verify_loop x keys (Suc i) st1 (map Inr ls) = Inr st'"
    by (auto simp: res_simps)
  show ?case
  proof (cases "is_blank l")
    case True
    with st1 have "st1 = st" by (simp add: verify_line_def)
    with st1 Cons True show ?thesis by auto
  next
    case False
    from verify_line_Inr [OF st1(1) False] assms obtain r where r: "x_parse_record x l = Inr r"
      "rl_prev r = vs_prev st"
      "check_signer x (vs_signers st) keys (vs_count st) (chain_hash x (rl_entry r) (vs_prev st))
       (rl_sig_b64 r) (rl_kid r) = Inr (vs_signers st1)"
      by metis
    then obtain kid where kid: "signed_by x keys r kid"
        "admit_signer (vs_signers st) (vs_count st) kid = Inr (vs_signers st1)"
      using signer_of_signed [of x keys r] by (auto simp: check_signer_def res_simps)
    from Cons.IH [OF st1(2) succession_admit [OF Cons.prems(2) kid(2)]] obtain kids' where
      k: "length kids' = length (records_of x ls)"
      "succession ((kids @ [kid]) @ kids') (vs_signers st')"
      "\<forall>j < length kids'. signed_by x keys (records_of x ls ! j) (kids' ! j)"
      by blast
    then show ?thesis using kid(1) r False
      by (intro exI [of _ "kid # kids'"]) (auto simp: less_Suc_eq_0_disj)
  qed
qed simp

section \<open>Properties\<close>

lemma demo_hex_ok: "hex_ok demo_ext"
  by (simp add: hex_ok_def demo_ext_def)

lemma demo_sha_ok: "sha_ok demo_ext"
  by (simp add: sha_ok_def demo_ext_def length_pad32)

text \<open>The demo log's line for an entry, after a head hash.\<close>

definition demo_line :: "string \<Rightarrow> nat \<Rightarrow> string" where
  "demo_line prev n =
     (let e = replicate n (CHR ''I''); h = chain_hash demo_ext e prev
      in projr (demo_record_json \<lparr>rl_entry = e, rl_prev = prev, rl_hash = hex_encode h,
           rl_sig_b64 = hex_encode (pad64 h), rl_kid = Some (hex_encode ''k'')\<rparr>))"

definition demo_log :: "string list" where
  "demo_log = [demo_line genesis 0]"

lemma is_blank_brace [simp]: "\<not> is_blank (CHR ''{'' # s)"
  by (cases s; cases "tl s") simp_all

lemma length_pad64 [simp]: "length (pad64 b) = 64"
  by (simp add: pad64_def)

lemma demo_entry_seq [simp]: "e_seq (demo_entry n) = n"
  by (simp add: demo_entry_def)

lemma demo_ext_sel [simp]:
  "x_hex demo_ext = hex_encode" "x_unhex demo_ext = hex_decode" "x_unb64 demo_ext = hex_decode"
  "x_b64 demo_ext = hex_encode" "x_public demo_ext k = k" "x_sign demo_ext k m = pad64 m"
  "x_verify demo_ext k m s \<longleftrightarrow> s = pad64 m" "x_parse_record demo_ext = demo_parse_record"
  "x_record_json demo_ext = demo_record_json"
  "x_parse_entry demo_ext s = Inr (demo_entry (length s))" "x_sha256 demo_ext = pad32"
  by (simp_all add: demo_ext_def)

definition demo_rec :: "string \<Rightarrow> nat \<Rightarrow> record_line" where
  "demo_rec prev n =
     (let e = replicate n (CHR ''I''); h = chain_hash demo_ext e prev
      in \<lparr>rl_entry = e, rl_prev = prev, rl_hash = hex_encode h,
           rl_sig_b64 = hex_encode (pad64 h), rl_kid = Some (hex_encode ''k'')\<rparr>)"

lemma demo_line_rec: "demo_record_json (demo_rec prev n) = Inr (demo_line prev n)"
  by (simp add: demo_line_def demo_rec_def Let_def demo_record_json_def)

lemma demo_line_facts [simp]:
  "demo_parse_record (demo_line prev n) = Inr (demo_rec prev n)" "\<not> is_blank (demo_line prev n)"
  using demo_parse_json [OF demo_line_rec]
  by (simp_all add: demo_line_def Let_def demo_record_json_def del: is_blank.simps)

lemma demo_verify:
  "verify_lines demo_ext (map Inr demo_log) [''k''] None =
    Inr (\<lparr>vr_entries = 1, vr_root = Some (rl_hash (demo_rec genesis 0)),
      vr_signatures_checked = True, vr_signers = [\<lparr>ss_kid = hex_encode ''k'', ss_first_seq = 0\<rparr>]\<rparr>, None)"
  by (simp add: verify_lines_def demo_log_def init_vstate_def verify_line_def check_signer_def
      signer_of_def admit_signer_def successor_def key_fingerprint_def report_of_def demo_rec_def
      collect_window_def res_guard_def map_err_def Let_def del: hex_encode.simps)

text \<open>A blank line is skipped.\<close>

lemma demo_verify_blank:
  "verify_lines demo_ext (map Inr ('' '' # demo_log)) [''k''] None =
    verify_lines demo_ext (map Inr demo_log) [''k''] None"
  by (simp add: verify_lines_def demo_log_def verify_line_def map_err_def)

text \<open>C27: the root commits to the whole log: two logs that verify with the same number of
  records and the same root hold the same records, entry text, link and hash alike, in the same
  order, unless SHA-256 collides on two of the strings their chains hash.\<close>

theorem verified_root_determines_log:
  assumes "hex_ok x" and "sha_ok x"
    and "verify_lines x (map Inr ls) keys sink = Inr (rep, w)"
    and "verify_lines x (map Inr ls') keys' sink' = Inr (rep', w')"
    and "vr_entries rep = vr_entries rep'" and "vr_root rep = vr_root rep'"
    and "inj_on (x_sha256 x) (set (chain_inputs (records_of x ls)) \<union> set (chain_inputs (records_of x ls')))"
  shows "map (\<lambda>r. (rl_entry r, rl_prev r, rl_hash r)) (records_of x ls) =
    map (\<lambda>r. (rl_entry r, rl_prev r, rl_hash r)) (records_of x ls')"
proof -
  note v = verify_lines_chained [OF assms(3)] and v' = verify_lines_chained [OF assms(4)]
  have len: "length (records_of x ls) = length (records_of x ls')" using v v' assms(5) by simp
  moreover have "head_hash genesis (records_of x ls) = head_hash genesis (records_of x ls')"
  proof (cases "records_of x ls = []")
    case True
    with len show ?thesis by simp
  next
    case False
    with len have "records_of x ls' \<noteq> []" by auto
    with False v v' assms(6) show ?thesis by simp
  qed
  ultimately show ?thesis using chain_determined [OF assms(1,2) _ _ _ _ assms(7)] v v' by blast
qed

theorem verified_root_determines_log_witness:
  "map (\<lambda>r. (rl_entry r, rl_prev r, rl_hash r)) (records_of demo_ext demo_log) =
    map (\<lambda>r. (rl_entry r, rl_prev r, rl_hash r)) (records_of demo_ext ('' '' # demo_log))"
  by (rule verified_root_determines_log [OF demo_hex_ok demo_sha_ok demo_verify
        trans [OF demo_verify_blank demo_verify]])
    (simp_all add: demo_log_def chain_inputs_def)

text \<open>C28: keys succeed one another and never return: in a log that verifies under a keyring every
  record carries a valid signature of a key of the ring, the one its \<open>kid\<close> names when it
  names one, each key's records are contiguous, and the report lists exactly those keys in the
  order they took over.\<close>

theorem verified_keys_never_return:
  assumes "verify_lines x (map Inr ls) keys sink = Inr (rep, w)" and "keys \<noteq> []"
  shows "\<exists>kids. length kids = length (records_of x ls) \<and>
    (\<forall>j < length kids. signed_by x keys (records_of x ls ! j) (kids ! j)) \<and>
    map ss_kid (vr_signers rep) = remdups_adj kids \<and> distinct (remdups_adj kids)"
proof -
  from assms(1) obtain st where st: "verify_loop x keys 0 (init_vstate sink) (map Inr ls) = Inr st"
      "rep = report_of keys st"
    by (auto simp: verify_lines_def res_simps)
  have "succession [] (vs_signers (init_vstate sink))" by (simp add: succession_def init_vstate_def)
  from verify_loop_succession [OF assms(2) st(1) this] st(2) show ?thesis
    by (auto simp: succession_def report_of_def)
qed

theorem verified_keys_never_return_witness:
  "\<exists>kids. length kids = length (records_of demo_ext demo_log) \<and>
    (\<forall>j < length kids. signed_by demo_ext [''k''] (records_of demo_ext demo_log ! j) (kids ! j)) \<and>
    map ss_kid [\<lparr>ss_kid = hex_encode ''k'', ss_first_seq = 0\<rparr>] = remdups_adj kids \<and>
    distinct (remdups_adj kids)"
proof -
  from verified_keys_never_return [OF demo_verify] show ?thesis by simp
qed

text \<open>A page of inclusion proofs is all or nothing, in the order asked for, and every proof
  verifies: the call fails when a sequence is past the end of the log, and otherwise each proof's
  decoded path is accepted for its leaf against the root over the same leaves.\<close>

theorem inclusion_proofs_over_verify:
  assumes "hex_ok x"
  shows "((\<exists>s \<in> set seqs. length leaves \<le> s) \<longleftrightarrow> (\<exists>e. inclusion_proofs_over x leaves seqs = Inl e)) \<and>
    (\<forall>ps. inclusion_proofs_over x leaves seqs = Inr ps \<longrightarrow>
      map ip_leaf_index ps = seqs \<and>
      (\<forall>p \<in> set ps. \<exists>path. map (x_unhex x) (ip_audit_path p) = map Some path \<and>
         x_unhex x (ip_leaf_data p) = Some (leaves ! ip_leaf_index p) \<and>
         verify_inclusion (x_sha256 x) (ip_leaf_index p) (ip_tree_size p)
           (hash_leaf (x_sha256 x) (leaves ! ip_leaf_index p)) (tree_hash (x_sha256 x) leaves) path))"
proof -
  let ?f = "inclusion_proof_over x leaves"
  have one: "?f s = (if s < length leaves then Inr \<lparr>ip_leaf_index = s, ip_tree_size = length leaves,
      ip_leaf_data = x_hex x (leaves ! s),
      ip_audit_path = map (x_hex x) (inclusion_path (x_sha256 x) leaves s)\<rparr>
      else Inl (Tamper s IndexPastEnd))" for s
    by (simp add: inclusion_proof_over_def inclusion_proof_def)
  have ver: "verify_inclusion (x_sha256 x) s (length leaves) (hash_leaf (x_sha256 x) (leaves ! s))
      (tree_hash (x_sha256 x) leaves) (inclusion_path (x_sha256 x) leaves s)" if "s < length leaves" for s
    using inclusion_path_ref [OF that] that by (simp add: verify_inclusion_ref)
  have un: "map (x_unhex x) (map (x_hex x) bs) = map Some bs" for bs
    using assms by (simp add: hex_ok_def)
  have ok: "inclusion_proofs_over x leaves seqs = Inr ps \<longleftrightarrow> map ?f seqs = map Inr ps" for ps
    by (simp add: inclusion_proofs_over_def res_list_Inr)
  have "(\<exists>ps. inclusion_proofs_over x leaves seqs = Inr ps) \<longleftrightarrow> (\<forall>s \<in> set seqs. s < length leaves)"
    unfolding ok by (induction seqs) (auto simp: one Cons_eq_map_conv)
  then have 1: "(\<exists>e. inclusion_proofs_over x leaves seqs = Inl e) \<longleftrightarrow> (\<exists>s \<in> set seqs. length leaves \<le> s)"
    by (metis Inl_Inr_False obj_sumE not_le)
  have 2: "map ip_leaf_index ps = seqs \<and> (\<forall>p \<in> set ps. \<exists>path. map (x_unhex x) (ip_audit_path p) = map Some path \<and>
         x_unhex x (ip_leaf_data p) = Some (leaves ! ip_leaf_index p) \<and>
         verify_inclusion (x_sha256 x) (ip_leaf_index p) (ip_tree_size p)
           (hash_leaf (x_sha256 x) (leaves ! ip_leaf_index p)) (tree_hash (x_sha256 x) leaves) path)"
    if "map ?f seqs = map Inr ps" for ps
    using that
  proof (induction seqs arbitrary: ps)
    case (Cons s seqs)
    then obtain p ps' where ps: "ps = p # ps'" "?f s = Inr p" "map ?f seqs = map Inr ps'"
      by (cases ps) auto
    then have s: "s < length leaves" by (auto simp: one split: if_splits)
    with ps(2) have p: "p = \<lparr>ip_leaf_index = s, ip_tree_size = length leaves,
        ip_leaf_data = x_hex x (leaves ! s),
        ip_audit_path = map (x_hex x) (inclusion_path (x_sha256 x) leaves s)\<rparr>" by (simp add: one)
    have "\<exists>path. map (x_unhex x) (ip_audit_path p) = map Some path \<and>
         x_unhex x (ip_leaf_data p) = Some (leaves ! ip_leaf_index p) \<and>
         verify_inclusion (x_sha256 x) (ip_leaf_index p) (ip_tree_size p)
           (hash_leaf (x_sha256 x) (leaves ! ip_leaf_index p)) (tree_hash (x_sha256 x) leaves) path"
      using ver [OF s] un assms by (auto simp: p hex_ok_def simp del: map_map)
    with Cons.IH [OF ps(3)] ps(1) p show ?case by simp
  qed simp
  from 1 2 show ?thesis unfolding ok by blast
qed

theorem inclusion_proofs_over_verify_witness:
  "((\<exists>s \<in> set [0, 1]. length [''a'', ''b''] \<le> s) \<longleftrightarrow>
      (\<exists>e. inclusion_proofs_over demo_ext [''a'', ''b''] [0, 1] = Inl e)) \<and>
    (\<exists>ps. inclusion_proofs_over demo_ext [''a'', ''b''] [0, 1] = Inr ps \<and> map ip_leaf_index ps = [0, 1])"
  using inclusion_proofs_over_verify [OF demo_hex_ok, of "[0, 1]" "[''a'', ''b'']"]
  by (cases "inclusion_proofs_over demo_ext [''a'', ''b''] [0, 1]") auto

end
