(* ===== verification/Storage.thy ===== *)
theory Storage
  imports Ledger_Record
begin

text \<open>
  The files a ledger lives in. A disk is the contents of its files by path, its directories and
  the paths whose writer lock is held. A file operation that can fail asks the fault plan of the
  call (\<open>io\<close>) first; a failed write leaves a prefix of its bytes. Permission bits are not
  modelled: the code only ever tightens them, best effort.

  The theory has the operations of \<open>decern-ledger/src/fsync.rs\<close>, the line reader of
  \<open>segment.rs\<close> and the backward scan for a torn tail of \<open>open.rs\<close>, and relates them
  to plain list functions: the bounded chain of files reads as the lines of their concatenation, the
  chunked scan finds the last newline, and an atomic write either leaves the target or replaces it.
\<close>

section \<open>Results with state\<close>

type_synonym ('s, 'e, 'a) sres = "'s \<Rightarrow> ('e + 'a) \<times> 's"

definition s_ret :: "'a \<Rightarrow> ('s, 'e, 'a) sres" where
  "s_ret a s = (Inr a, s)"

definition s_fail :: "'e \<Rightarrow> ('s, 'e, 'a) sres" where
  "s_fail e s = (Inl e, s)"

definition s_bind :: "('s, 'e, 'a) sres \<Rightarrow> ('a \<Rightarrow> ('s, 'e, 'b) sres) \<Rightarrow> ('s, 'e, 'b) sres" where
  "s_bind m f s = (case m s of (Inl e, s') \<Rightarrow> (Inl e, s') | (Inr a, s') \<Rightarrow> f a s')"

text \<open>A read-only computation.\<close>

definition s_look :: "('s \<Rightarrow> 'e + 'a) \<Rightarrow> ('s, 'e, 'a) sres" where
  "s_look f s = (f s, s)"

definition s_err :: "('e \<Rightarrow> 'f) \<Rightarrow> ('s, 'e, 'a) sres \<Rightarrow> ('s, 'f, 'a) sres" where
  "s_err g m s = (case m s of (Inl e, s') \<Rightarrow> (Inl (g e), s') | (Inr a, s') \<Rightarrow> (Inr a, s'))"

named_theorems s_simps \<open>running stateful results\<close>

lemma s_run [s_simps]:
  "s_ret a s = (Inr a, s)" "s_fail e s = (Inl e, s)" "s_look f s = (f s, s)"
  by (simp_all add: s_ret_def s_fail_def s_look_def)

lemma s_bind_ok: "m s = (Inr a, s') \<Longrightarrow> s_bind m f s = f a s'"
  by (simp add: s_bind_def)

lemma s_bind_err: "m s = (Inl e, s') \<Longrightarrow> s_bind m f s = (Inl e, s')"
  by (simp add: s_bind_def)

lemma s_bind_eq [s_simps]:
  "s_bind m f s = (r, s'') \<longleftrightarrow>
     (\<exists>e. m s = (Inl e, s'') \<and> r = Inl e) \<or> (\<exists>a s'. m s = (Inr a, s') \<and> f a s' = (r, s''))"
  by (auto simp: s_bind_def split: prod.splits sum.splits)

lemma s_err_eq [s_simps]:
  "s_err g m s = (r, s') \<longleftrightarrow> (\<exists>e. m s = (Inl e, s') \<and> r = Inl (g e)) \<or> (\<exists>a. m s = (Inr a, s') \<and> r = Inr a)"
  by (auto simp: s_err_def split: prod.splits sum.splits)

section \<open>Disk\<close>

record disk =
  d_files :: "(string, bytes) bmap"
  d_dirs :: "string list"
  d_locks :: "string list"

datatype (plugins del: size quickcheck_random quickcheck_exhaustive quickcheck_narrowing) io_op =
    ReadFile string
  | ReadDir string
  | CreateDir string
  | CreateNew string
  | OpenWrite string
  | OpenAppend string
  | CreateTrunc string
  | WriteAll string
  | SetLen string
  | SyncAll string
  | SyncData string
  | Rename string
  | SyncDir string
  | TryLock string

record io =
  io_fault :: "io_op \<Rightarrow> string option"
  io_cut :: nat

definition no_faults :: io where
  "no_faults = \<lparr>io_fault = (\<lambda>_. None), io_cut = 0\<rparr>"

type_synonym 'a dsk = "(disk, ledger_error, 'a) sres"

definition file_at :: "disk \<Rightarrow> string \<Rightarrow> bytes option" where
  "file_at d p = bm_get (d_files d) p"

definition put_file :: "string \<Rightarrow> bytes \<Rightarrow> disk \<Rightarrow> disk" where
  "put_file p b d = d\<lparr>d_files := bm_insert p b (d_files d)\<rparr>"

definition drop_file :: "string \<Rightarrow> disk \<Rightarrow> disk" where
  "drop_file p d = d\<lparr>d_files := bm_remove p (d_files d)\<rparr>"

definition not_found :: string where
  "not_found = ''No such file or directory (os error 2)''"

definition already_exists :: string where
  "already_exists = ''File exists (os error 17)''"

text \<open>\<open>io_err\<close> at the operation, when the plan makes it fail.\<close>

definition io_step :: "io \<Rightarrow> io_op \<Rightarrow> string \<Rightarrow> unit dsk" where
  "io_step io op path d = (case io_fault io op of None \<Rightarrow> (Inr (), d) | Some e \<Rightarrow> (Inl (Io path e), d))"

definition d_upd :: "(disk \<Rightarrow> disk) \<Rightarrow> unit dsk" where
  "d_upd f d = (Inr (), f d)"

definition is_dir :: "disk \<Rightarrow> string \<Rightarrow> bool" where
  "is_dir d p \<longleftrightarrow> p \<in> set (d_dirs d)"

definition path_exists :: "disk \<Rightarrow> string \<Rightarrow> bool" where
  "path_exists d p \<longleftrightarrow> is_dir d p \<or> file_at d p \<noteq> None"

text \<open>Open a file for reading and take its bytes; \<open>None\<close> when it is not there.\<close>

definition read_opt :: "io \<Rightarrow> disk \<Rightarrow> string \<Rightarrow> ledger_error + bytes option" where
  "read_opt io d p = (case io_fault io (ReadFile p) of Some e \<Rightarrow> Inl (Io p e) | None \<Rightarrow> Inr (file_at d p))"

definition read_bytes :: "io \<Rightarrow> disk \<Rightarrow> string \<Rightarrow> ledger_error + bytes" where
  "read_bytes io d p = res_bind (read_opt io d p) (\<lambda>b. ok_or b (Io p not_found))"

lemma file_at_put [simp]: "file_at (put_file p b d) q = (if q = p then Some b else file_at d q)"
  by (simp add: file_at_def put_file_def)

lemma file_at_drop [simp]: "file_at (drop_file p d) q = (if q = p then None else file_at d q)"
  by (simp add: file_at_def drop_file_def)

lemma dirs_put [simp]: "d_dirs (put_file p b d) = d_dirs d" "d_locks (put_file p b d) = d_locks d"
  "is_dir (put_file p b d) q = is_dir d q"
  by (simp_all add: put_file_def is_dir_def)

lemma dirs_drop [simp]: "d_dirs (drop_file p d) = d_dirs d" "d_locks (drop_file p d) = d_locks d"
  "is_dir (drop_file p d) q = is_dir d q"
  by (simp_all add: drop_file_def is_dir_def)

lemma io_step_eq [s_simps]:
  "io_step io op p d = (r, d') \<longleftrightarrow>
     d' = d \<and> (case io_fault io op of None \<Rightarrow> r = Inr () | Some e \<Rightarrow> r = Inl (Io p e))"
  by (auto simp: io_step_def split: option.splits)

lemma d_upd_eq [s_simps]: "d_upd f d = (r, d') \<longleftrightarrow> r = Inr () \<and> d' = f d"
  by (auto simp: d_upd_def)

section \<open>Atomic writes\<close>

datatype atomic_write = NotLanded ledger_error | Landed ledger_error

fun atomic_err :: "atomic_write \<Rightarrow> ledger_error" where
  "atomic_err (NotLanded e) = e"
| "atomic_err (Landed e) = e"

text \<open>\<open>Path::parent\<close>, the current directory standing for an empty one.\<close>

definition parent :: "string \<Rightarrow> string" where
  "parent p =
     (let r = dropWhile (\<lambda>c. c \<noteq> CHR ''/'') (rev p)
      in if tl r = [] then (if r = [] then ''.'' else ''/'') else rev (tl r))"

definition sync_dir :: "io \<Rightarrow> string \<Rightarrow> unit dsk" where
  "sync_dir io dir = io_step io (SyncDir dir) dir"

definition write_atomic ::
  "io \<Rightarrow> string \<Rightarrow> string \<Rightarrow> bytes \<Rightarrow> (disk, atomic_write, unit) sres" where
  "write_atomic io path tmp bytes =
     s_bind (s_err NotLanded
       (s_bind (io_step io (CreateTrunc tmp) tmp) (\<lambda>_.
        s_bind (d_upd (put_file tmp (case io_fault io (WriteAll tmp) of
                  None \<Rightarrow> bytes | Some _ \<Rightarrow> take (io_cut io) bytes))) (\<lambda>_.
        s_bind (io_step io (WriteAll tmp) tmp) (\<lambda>_.
        s_bind (io_step io (SyncAll tmp) tmp) (\<lambda>_.
        s_bind (io_step io (Rename path) path) (\<lambda>_.
        d_upd (\<lambda>d. put_file path bytes (drop_file tmp d))))))))) (\<lambda>_.
     s_err Landed (sync_dir io (parent path)))"

text \<open>The target holds the old bytes or all of the new ones, and which is what the result says.\<close>

lemma write_atomic_all_or_nothing:
  assumes "write_atomic io path tmp bytes d = (r, d')" and "tmp \<noteq> path"
  shows "(case r of
      Inr _ \<Rightarrow> file_at d' path = Some bytes
    | Inl (Landed _) \<Rightarrow> file_at d' path = Some bytes
    | Inl (NotLanded _) \<Rightarrow> file_at d' path = file_at d path) \<and>
    (\<forall>q. q \<noteq> path \<longrightarrow> q \<noteq> tmp \<longrightarrow> file_at d' q = file_at d q) \<and> d_dirs d' = d_dirs d \<and> d_locks d' = d_locks d"
  using assms by (auto simp: write_atomic_def sync_dir_def s_simps split: option.splits)

section \<open>Lines\<close>

definition nl :: char where
  "nl = CHR 0x0A"

definition strip_cr :: "string \<Rightarrow> string" where
  "strip_cr l = (if l \<noteq> [] \<and> last l = CHR 0x0D then butlast l else l)"

text \<open>\<open>BufRead::lines\<close>: an unterminated last line counts, and only a terminated one loses a
  carriage return.\<close>

function read_lines :: "bytes \<Rightarrow> string list" where
  "read_lines b =
     (if b = [] then []
      else let l = takeWhile (\<lambda>c. c \<noteq> nl) b; rest = dropWhile (\<lambda>c. c \<noteq> nl) b
           in if rest = [] then [l] else strip_cr l # read_lines (tl rest))"
  by pat_completeness auto
termination
proof (relation "measure length", goal_cases)
  case (2 b l rest)
  then have "length rest \<le> length b" "rest \<noteq> []" by (simp_all add: length_dropWhile_le)
  then show ?case by (cases rest) auto
qed simp

declare read_lines.simps [simp del]

text \<open>The width of the UTF-8 sequence a byte string starts with, 0 when it starts with none.\<close>

definition cont_byte :: "nat list \<Rightarrow> nat \<Rightarrow> bool" where
  "cont_byte b i \<longleftrightarrow> i < length b \<and> 0x80 \<le> b ! i \<and> b ! i \<le> 0xBF"

definition second_byte :: "nat list \<Rightarrow> nat \<Rightarrow> nat \<Rightarrow> bool" where
  "second_byte b lo hi \<longleftrightarrow> 1 < length b \<and> lo \<le> b ! 1 \<and> b ! 1 \<le> hi"

definition utf8_width :: "nat list \<Rightarrow> nat" where
  "utf8_width b =
     (let a = hd b in
      if a < 0x80 then 1
      else if 0xC2 \<le> a \<and> a \<le> 0xDF then (if cont_byte b 1 then 2 else 0)
      else if 0xE0 \<le> a \<and> a \<le> 0xEF then
        (if second_byte b (if a = 0xE0 then 0xA0 else 0x80) (if a = 0xED then 0x9F else 0xBF) \<and> cont_byte b 2
         then 3 else 0)
      else if 0xF0 \<le> a \<and> a \<le> 0xF4 then
        (if second_byte b (if a = 0xF0 then 0x90 else 0x80) (if a = 0xF4 then 0x8F else 0xBF) \<and>
            cont_byte b 2 \<and> cont_byte b 3 then 4 else 0)
      else 0)"

function utf8_codes :: "nat list \<Rightarrow> bool" where
  "utf8_codes b =
     (if b = [] then True
      else let n = utf8_width b in if n = 0 then False else utf8_codes (drop n b))"
  by pat_completeness auto
termination
  by (relation "measure length") auto

declare utf8_codes.simps [simp del]

definition utf8_ok :: "string \<Rightarrow> bool" where
  "utf8_ok l \<longleftrightarrow> utf8_codes (map of_char l)"

definition bad_utf8 :: string where
  "bad_utf8 = ''stream did not contain valid UTF-8''"

text \<open>A file's lines as the iterator yields them: up to the first line that is not UTF-8.\<close>

fun line_results :: "string \<Rightarrow> string list \<Rightarrow> (ledger_error + string) list" where
  "line_results path [] = []"
| "line_results path (l # ls) =
     (if utf8_ok l then Inr l # line_results path ls else [Inl (Io path bad_utf8)])"

definition limited :: "nat option \<Rightarrow> bytes \<Rightarrow> bytes" where
  "limited limit b = (case limit of None \<Rightarrow> b | Some n \<Rightarrow> take n b)"

text \<open>\<open>ChainedLines\<close>: file after file, the byte limit on the last, stopping at an error.
  A limit of \<open>u64::MAX\<close> is \<open>None\<close>.\<close>

fun chained_lines_bounded ::
  "io \<Rightarrow> disk \<Rightarrow> string list \<Rightarrow> nat option \<Rightarrow> (ledger_error + string) list" where
  "chained_lines_bounded io d [] last_limit = []"
| "chained_lines_bounded io d (p # ps) last_limit =
     (case read_bytes io d p of
        Inl e \<Rightarrow> [Inl e]
      | Inr b \<Rightarrow>
          (let ls = line_results p (read_lines (limited (if ps = [] then last_limit else None) b))
           in if ls \<noteq> [] \<and> isl (last ls) then ls else ls @ chained_lines_bounded io d ps last_limit))"

definition chained_lines :: "io \<Rightarrow> disk \<Rightarrow> string list \<Rightarrow> (ledger_error + string) list" where
  "chained_lines io d paths = chained_lines_bounded io d paths None"

section \<open>The torn tail\<close>

definition scan_chunk :: nat where
  "scan_chunk = 65536"

fun rposition :: "('a \<Rightarrow> bool) \<Rightarrow> 'a list \<Rightarrow> nat option" where
  "rposition P [] = None"
| "rposition P (x # xs) =
     (case rposition P xs of Some i \<Rightarrow> Some (Suc i) | None \<Rightarrow> if P x then Some 0 else None)"

text \<open>The backward scan for the byte past the final newline, a chunk at a time.\<close>

function scan_back :: "bytes \<Rightarrow> nat \<Rightarrow> nat" where
  "scan_back b pos =
     (if pos = 0 then 0
      else
        (let read_len = min scan_chunk pos; start = pos - read_len;
             slice = take read_len (drop start b)
         in case rposition (\<lambda>c. c = nl) slice of
              Some idx \<Rightarrow> start + idx + 1
            | None \<Rightarrow> scan_back b start))"
  by pat_completeness auto
termination
  by (relation "measure snd") (auto simp: scan_chunk_def)

declare scan_back.simps [simp del]

definition scan_torn_tail :: "io \<Rightarrow> disk \<Rightarrow> string \<Rightarrow> ledger_error + (string \<times> nat) option" where
  "scan_torn_tail io d path =
     res_bind (read_opt io d path) (\<lambda>file.
       case file of
         None \<Rightarrow> Inr None
       | Some b \<Rightarrow>
           if b = [] \<or> last b = nl then Inr None
           else Inr (Some (path, scan_back b (length b))))"

section \<open>Reference readings\<close>

text \<open>Bytes that end where a line does.\<close>

definition ends_nl :: "bytes \<Rightarrow> bool" where
  "ends_nl b \<longleftrightarrow> b = [] \<or> last b = nl"

lemma ends_nl_simps [simp]: "ends_nl []" "ends_nl (b @ [nl])"
  by (simp_all add: ends_nl_def)

lemma ends_nl_append [simp]: "ends_nl a \<Longrightarrow> ends_nl b \<Longrightarrow> ends_nl (a @ b)"
  by (cases "b = []") (auto simp: ends_nl_def)

lemma read_lines_Nil [simp]: "read_lines [] = []"
  by (simp add: read_lines.simps)

lemma break_nl: "nl \<notin> set l \<Longrightarrow> takeWhile (\<lambda>c. c \<noteq> nl) (l @ nl # b) = l"
  "nl \<notin> set l \<Longrightarrow> dropWhile (\<lambda>c. c \<noteq> nl) (l @ nl # b) = nl # b"
  by (induction l) auto

lemma read_lines_line: "nl \<notin> set l \<Longrightarrow> read_lines (l @ nl # b) = strip_cr l # read_lines b"
  by (subst read_lines.simps) (simp add: break_nl)

lemma read_lines_fragment: "nl \<notin> set l \<Longrightarrow> l \<noteq> [] \<Longrightarrow> read_lines l = [l]"
  by (subst read_lines.simps) (auto simp: Let_def dropWhile_eq_Nil_conv takeWhile_eq_all_conv)

lemma ends_nl_cases:
  assumes "ends_nl b" and "b \<noteq> []"
  obtains l r where "b = l @ nl # r" "nl \<notin> set l" "ends_nl r"
proof -
  from assms have "nl \<in> set b" by (auto simp: ends_nl_def dest: last_in_set)
  then obtain l r where b: "b = l @ nl # r" "nl \<notin> set l" by (meson split_list_first)
  moreover from b assms have "ends_nl r" by (auto simp: ends_nl_def split: if_splits)
  ultimately show ?thesis using that by blast
qed

lemma read_lines_append: "ends_nl a \<Longrightarrow> read_lines (a @ b) = read_lines a @ read_lines b"
proof (induction "length a" arbitrary: a rule: less_induct)
  case less
  show ?case
  proof (cases "a = []")
    case False
    from ends_nl_cases [OF less.prems this] obtain l r where a: "a = l @ nl # r" "nl \<notin> set l" "ends_nl r"
      by blast
    with less.hyps [of r] show ?thesis by (simp add: read_lines_line)
  qed simp
qed

lemma rposition_None: "rposition P xs = None \<longleftrightarrow> (\<forall>x \<in> set xs. \<not> P x)"
  by (induction xs) (auto split: option.splits)

lemma rposition_Some:
  "rposition P xs = Some i \<Longrightarrow> i < length xs \<and> P (xs ! i) \<and> (\<forall>x \<in> set (drop (Suc i) xs). \<not> P x)"
  by (induction xs arbitrary: i) (auto split: option.splits if_splits simp: rposition_None)

text \<open>The chunked scan finds the end of the last line.\<close>

lemma scan_back_spec:
  "pos \<le> length b \<Longrightarrow> nl \<notin> set (drop pos b) \<Longrightarrow>
    scan_back b pos \<le> length b \<and> ends_nl (take (scan_back b pos) b) \<and> nl \<notin> set (drop (scan_back b pos) b)"
proof (induction b pos rule: scan_back.induct)
  case (1 b pos)
  show ?case
  proof (cases "pos = 0")
    case True
    with 1 show ?thesis by (simp add: scan_back.simps)
  next
    case False
    define n where "n = min scan_chunk pos"
    define start where "start = pos - n"
    have n: "n \<le> pos" "start + n = pos" by (simp_all add: n_def start_def)
    have split: "drop start b = take n (drop start b) @ drop pos b"
      using n by (metis append_take_drop_id drop_drop add.commute)
    show ?thesis
    proof (cases "rposition (\<lambda>c. c = nl) (take n (drop start b))")
      case None
      then have "nl \<notin> set (take n (drop start b))" by (auto simp: rposition_None)
      with 1 split have "nl \<notin> set (drop start b)" by (metis Un_iff set_append)
      with 1 False None n show ?thesis
        by (subst (1 2 3) scan_back.simps) (simp add: Let_def n_def [symmetric] start_def [symmetric])
    next
      case (Some i)
      note ri = rposition_Some [OF Some]
      then have i: "start + i < length b" "i < n" using n 1 by auto
      from ri i have at: "b ! (start + i) = nl" by simp
      have "drop (start + i + 1) b = drop (Suc i) (take n (drop start b) @ drop pos b)"
        using split by (metis drop_drop add.commute add_Suc_right Suc_eq_plus1)
      also have "\<dots> = drop (Suc i) (take n (drop start b)) @ drop (Suc i - length (take n (drop start b))) (drop pos b)"
        by simp
      finally have "nl \<notin> set (drop (start + i + 1) b)"
        using ri 1(3) by (auto dest: in_set_dropD)
      moreover have "take (start + i + 1) b = take (start + i) b @ [nl]"
        using i at by (simp add: take_Suc_conv_app_nth)
      ultimately show ?thesis using False Some i
        by (subst (1 2 3) scan_back.simps) (simp add: Let_def n_def [symmetric] start_def [symmetric])
    qed
  qed
qed

lemma split_at_last_line:
  assumes "ends_nl a" and "nl \<notin> set t" and "n \<le> length (a @ t)" and "ends_nl (take n (a @ t))"
    and "nl \<notin> set (drop n (a @ t))"
  shows "n = length a"
proof -
  have "\<not> n < length a"
  proof
    assume "n < length a"
    with assms(1) have "drop n a \<noteq> []" and "last (drop n a) = nl" by (auto simp: ends_nl_def last_drop)
    then have "nl \<in> set (drop n a)" by (metis last_in_set)
    with assms(5) show False by simp
  qed
  moreover have "\<not> n > length a"
  proof
    assume n: "n > length a"
    then have "take n (a @ t) = a @ take (n - length a) t" "take (n - length a) t \<noteq> []"
      using assms(3) by auto
    with assms(4) have "last (take (n - length a) t) = nl" by (auto simp: ends_nl_def)
    with \<open>take (n - length a) t \<noteq> []\<close> assms(2) show False by (metis in_set_takeD last_in_set)
  qed
  ultimately show ?thesis by simp
qed

lemma scan_back_tail:
  assumes "ends_nl a" and "nl \<notin> set t"
  shows "scan_back (a @ t) (length (a @ t)) = length a"
  using split_at_last_line [OF assms] scan_back_spec [of "length (a @ t)" "a @ t"] by simp

text \<open>Every byte string is whole lines followed by a fragment of one.\<close>

lemma whole_and_fragment:
  obtains a t where "b = a @ t" "ends_nl a" "nl \<notin> set t"
  using scan_back_spec [of "length b" b] that [of "take (scan_back b (length b)) b" "drop (scan_back b (length b)) b"] by simp

lemma scan_torn_tail_eq:
  assumes "io_fault io (ReadFile p) = None" and "file_at d p = Some (a @ t)" and "ends_nl a" and "nl \<notin> set t"
  shows "scan_torn_tail io d p = Inr (if t = [] then None else Some (p, length a))"
proof (cases "t = []")
  case False
  then have "last (a @ t) \<noteq> nl" using assms(4) by (metis last_appendR last_in_set)
  with False scan_back_tail [OF assms(3,4)] assms(1,2) show ?thesis
    by (simp add: scan_torn_tail_def read_opt_def)
qed (use assms in \<open>auto simp: scan_torn_tail_def read_opt_def ends_nl_def\<close>)

text \<open>The bytes a chain of files holds, and their lines.\<close>

definition contents :: "disk \<Rightarrow> string list \<Rightarrow> bytes" where
  "contents d ps = concat (map (\<lambda>p. case file_at d p of None \<Rightarrow> [] | Some b \<Rightarrow> b) ps)"

lemma contents_simps [simp]:
  "contents d [] = []"
  "contents d (p # ps) = (case file_at d p of None \<Rightarrow> [] | Some b \<Rightarrow> b) @ contents d ps"
  "contents d (ps @ qs) = contents d ps @ contents d qs"
  by (simp_all add: contents_def)

lemma line_results_Inr: "\<forall>l \<in> set ls. utf8_ok l \<Longrightarrow> line_results p ls = map Inr ls"
  by (induction ls) auto

lemma line_results_cases:
  "(\<forall>l \<in> set ls. utf8_ok l) \<and> line_results p ls = map Inr ls \<or>
   (\<exists>ms e. line_results p ls = ms @ [Inl e])"
proof (induction ls)
  case (Cons l ls)
  then show ?case
  proof
    assume "\<exists>ms e. line_results p ls = ms @ [Inl e]"
    then obtain ms e where "line_results p ls = ms @ [Inl e]" by blast
    then have "line_results p (l # ls) = (if utf8_ok l then (Inr l # ms) @ [Inl e] else [] @ [Inl (Io p bad_utf8)])"
      by simp
    then show ?thesis by metis
  qed auto
qed simp

lemma read_bytes_eq_Inr:
  "read_bytes io d p = Inr b \<longleftrightarrow> io_fault io (ReadFile p) = None \<and> file_at d p = Some b"
  by (auto simp: read_bytes_def read_opt_def res_simps split: option.splits)

definition content :: "disk \<Rightarrow> string \<Rightarrow> bytes" where
  "content d p = (case file_at d p of None \<Rightarrow> [] | Some b \<Rightarrow> b)"

definition readable :: "io \<Rightarrow> disk \<Rightarrow> string list \<Rightarrow> bool" where
  "readable io d ps \<longleftrightarrow> (\<forall>p \<in> set ps. io_fault io (ReadFile p) = None \<and> file_at d p \<noteq> None)"

text \<open>The lines of files read in turn, the last up to a limit.\<close>

fun bounded_lines :: "disk \<Rightarrow> string list \<Rightarrow> nat option \<Rightarrow> string list" where
  "bounded_lines d [] lim = []"
| "bounded_lines d (p # ps) lim =
     read_lines (limited (if ps = [] then lim else None) (content d p)) @ bounded_lines d ps lim"

definition file_lines :: "disk \<Rightarrow> string list \<Rightarrow> string list" where
  "file_lines d ps = concat (map (\<lambda>p. read_lines (content d p)) ps)"

lemma bounded_lines_snoc: "bounded_lines d (ps @ [p]) lim = file_lines d ps @ read_lines (limited lim (content d p))"
  by (induction ps) (auto simp: file_lines_def limited_def)

lemma file_lines_simps [simp]:
  "file_lines d [] = []" "file_lines d (ps @ qs) = file_lines d ps @ file_lines d qs"
  "file_lines d [p] = read_lines (content d p)"
  by (simp_all add: file_lines_def)

lemma file_lines_cong: "\<forall>p \<in> set ps. file_at d' p = file_at d p \<Longrightarrow> file_lines d' ps = file_lines d ps"
  by (induction ps) (auto simp: file_lines_def content_def)

text \<open>The reader yields no error exactly when every file is there and every line is UTF-8, and
  then it yields those lines.\<close>

lemma chained_lines_Inr_iff:
  "chained_lines_bounded io d ps lim = map Inr ls \<longleftrightarrow>
    readable io d ps \<and> ls = bounded_lines d ps lim \<and> (\<forall>l \<in> set ls. utf8_ok l)"
proof (induction ps arbitrary: ls)
  case (Cons q ps)
  show ?case
  proof (cases "read_bytes io d q")
    case (Inl e)
    then have "\<not> readable io d (q # ps)"
      using read_bytes_eq_Inr [of io d q] by (cases "file_at d q") (auto simp: readable_def)
    with Inl show ?thesis by (auto simp: Cons_eq_map_conv)
  next
    case (Inr b)
    then have rq: "io_fault io (ReadFile q) = None" "file_at d q = Some b" by (simp_all add: read_bytes_eq_Inr)
    let ?ls = "read_lines (limited (if ps = [] then lim else None) b)"
    have no_err: "ms @ [Inl e] \<noteq> map Inr ls" for ms e
    proof
      assume "ms @ [Inl e] = map Inr ls"
      then have "Inl e \<in> set (map Inr ls)" by (simp flip: \<open>ms @ [Inl e] = map Inr ls\<close>)
      then show False by auto
    qed
    from line_results_cases [of ?ls q] show ?thesis
    proof
      assume u: "(\<forall>l \<in> set ?ls. utf8_ok l) \<and> line_results q ?ls = map Inr ?ls"
      then have "\<not> (line_results q ?ls \<noteq> [] \<and> isl (last (line_results q ?ls)))"
        by (auto simp: last_map)
      with Inr u have "chained_lines_bounded io d (q # ps) lim = map Inr ?ls @ chained_lines_bounded io d ps lim"
        by (auto simp: Let_def)
      moreover have "map Inr ?ls @ ys = map Inr ls \<longleftrightarrow> (\<exists>ls'. ls = ?ls @ ls' \<and> ys = map Inr ls')"
        for ys :: "(ledger_error + string) list"
        by (auto simp: append_eq_map_conv inj_map_eq_map)
      ultimately show ?thesis using Cons.IH u rq by (auto simp: readable_def content_def)
    next
      assume "\<exists>ms e. line_results q ?ls = ms @ [Inl e]"
      then obtain ms e where me: "line_results q ?ls = ms @ [Inl e]" by blast
      then have "\<not> (\<forall>l \<in> set ?ls. utf8_ok l)"
        using line_results_Inr [of ?ls q] by (metis Inl_Inr_False in_set_conv_decomp list.set_map imageE)
      moreover have "chained_lines_bounded io d (q # ps) lim = ms @ [Inl e]"
        using Inr me by (simp add: Let_def)
      ultimately show ?thesis using no_err [of ms e] rq by (auto simp: content_def)
    qed
  qed
qed (auto simp: readable_def)

end
