(* ===== verification/Segment.thy ===== *)
theory Segment
  imports Storage Demo_Ext
begin

text \<open>
  Segmented ledgers: \<open>decern-ledger/src/segment.rs\<close>. A directory of numbered segment files and
  a manifest that names them in order, the last one active. The manifest is checked each time it
  is loaded. The theorems: a name the manifest may hold never leaves the directory, a rollover
  picks a file that does not exist, and the manifest it commits passes the load check.
\<close>

section \<open>The code\<close>

definition manifest_file :: string where
  "manifest_file = ''manifest.json''"

record rollover_policy =
  rp_max_bytes :: "nat option"
  rp_epoch_ms :: "nat option"

definition max_bytes_policy :: "nat \<Rightarrow> rollover_policy" where
  "max_bytes_policy n = \<lparr>rp_max_bytes = Some n, rp_epoch_ms = None\<rparr>"

definition epoch_ms_policy :: "nat \<Rightarrow> rollover_policy" where
  "epoch_ms_policy n = \<lparr>rp_max_bytes = None, rp_epoch_ms = Some n\<rparr>"

definition either_policy :: "nat \<Rightarrow> nat \<Rightarrow> rollover_policy" where
  "either_policy b e = \<lparr>rp_max_bytes = Some b, rp_epoch_ms = Some e\<rparr>"

definition active :: "manifest \<Rightarrow> segment_meta option" where
  "active m = List.find (\<lambda>s. sm_end_seq s = None) (mf_segments m)"

text \<open>Update the segment \<open>active_mut\<close> points at, when there is one.\<close>

fun upd_first_open :: "(segment_meta \<Rightarrow> segment_meta) \<Rightarrow> segment_meta list \<Rightarrow> segment_meta list" where
  "upd_first_open f [] = []"
| "upd_first_open f (s # ss) = (if sm_end_seq s = None then f s # ss else s # upd_first_open f ss)"

definition active_mut :: "(segment_meta \<Rightarrow> segment_meta) \<Rightarrow> manifest \<Rightarrow> manifest" where
  "active_mut f m = m\<lparr>mf_segments := upd_first_open f (mf_segments m)\<rparr>"

definition jsonl :: string where
  "jsonl = ''.jsonl''"

definition segment_filename :: "nat \<Rightarrow> string" where
  "segment_filename index = replicate (8 - length (show_nat index)) (CHR ''0'') @ show_nat index @ jsonl"

definition parse_digits :: "string \<Rightarrow> nat" where
  "parse_digits s = foldl (\<lambda>n c. 10 * n + (of_char c - 48)) 0 s"

definition strip_suffix :: "string \<Rightarrow> string \<Rightarrow> string option" where
  "strip_suffix s suf =
     (if length suf \<le> length s \<and> drop (length s - length suf) s = suf
      then Some (take (length s - length suf) s) else None)"

definition validate_segment_filename :: "string \<Rightarrow> ledger_error + nat" where
  "validate_segment_filename file =
     (case strip_suffix file jsonl of
        None \<Rightarrow> Inl (Tamper 0 (BadSegmentName file))
      | Some digits \<Rightarrow>
          if length digits \<noteq> 8 \<or> \<not> list_all is_digit digits then Inl (Tamper 0 (BadSegmentName file))
          else Inr (parse_digits digits))"

definition parse_index :: "string \<Rightarrow> nat option" where
  "parse_index filename = (case validate_segment_filename filename of Inl _ \<Rightarrow> None | Inr i \<Rightarrow> Some i)"

text \<open>The loop over adjacent pairs of \<open>validate_manifest_shape\<close>.\<close>

fun contiguous :: "segment_meta list \<Rightarrow> ledger_error + unit" where
  "contiguous (s # t # ss) =
     (if sm_end_seq s \<noteq> Some (sm_start_seq t)
      then Inl (Tamper 0 (NotContiguous (sm_file s) (sm_end_seq s) (sm_file t) (sm_start_seq t)))
      else contiguous (t # ss))"
| "contiguous _ = Inr ()"

definition validate_manifest_shape :: "manifest \<Rightarrow> ledger_error + unit" where
  "validate_manifest_shape m =
     (let segs = mf_segments m; active_count = length (filter (\<lambda>s. sm_end_seq s = None) segs) in
      if segs = [] then Inl (Tamper 0 NoSegments)
      else if sm_start_seq (hd segs) \<noteq> 0
      then Inl (Tamper 0 (NotFromGenesis (sm_file (hd segs)) (sm_start_seq (hd segs))))
      else if active_count > 1 then Inl (Tamper 0 (ManyActive active_count))
      else if active_count = 1 \<and> sm_end_seq (last segs) \<noteq> None then Inl (Tamper 0 ActiveNotLast)
      else contiguous segs)"

definition join :: "string \<Rightarrow> string \<Rightarrow> string" where
  "join dir file = dir @ CHR ''/'' # file"

text \<open>The names \<open>read_dir\<close> lists.\<close>

definition entry_name :: "string \<Rightarrow> string \<Rightarrow> string option" where
  "entry_name dir p =
     (let n = length dir + 1 in
      if take n p = dir @ ''/'' \<and> drop n p \<noteq> [] \<and> CHR ''/'' \<notin> set (drop n p) then Some (drop n p) else None)"

definition read_dir :: "io \<Rightarrow> disk \<Rightarrow> string \<Rightarrow> ledger_error + string list" where
  "read_dir io d dir =
     (case io_fault io (ReadDir dir) of
        Some e \<Rightarrow> Inl (Io dir e)
      | None \<Rightarrow> if is_dir d dir then Inr (List.map_filter (entry_name dir) (map fst (d_files d) @ d_dirs d))
                else Inl (Io dir not_found))"

definition max_index :: "io \<Rightarrow> disk \<Rightarrow> string \<Rightarrow> manifest \<Rightarrow> ledger_error + nat" where
  "max_index io d dir m =
     res_map (\<lambda>names.
         foldl max (foldl max 0 (List.map_filter (\<lambda>s. parse_index (sm_file s)) (mf_segments m)))
           (List.map_filter parse_index names))
       (read_dir io d dir)"

definition load_manifest :: "ext \<Rightarrow> io \<Rightarrow> disk \<Rightarrow> string \<Rightarrow> ledger_error + manifest option" where
  "load_manifest x io d dir =
     res_bind (read_opt io d (join dir manifest_file)) (\<lambda>file.
       case file of
         None \<Rightarrow> Inr None
       | Some b \<Rightarrow>
           (case x_parse_manifest x b of
              Inl e \<Rightarrow> Inl (Serde e)
            | Inr m \<Rightarrow>
                res_bind (res_list (map (\<lambda>s. validate_segment_filename (sm_file s)) (mf_segments m))) (\<lambda>_.
                res_bind (validate_manifest_shape m) (\<lambda>_. Inr (Some m)))))"

definition save_manifest :: "ext \<Rightarrow> io \<Rightarrow> string \<Rightarrow> manifest \<Rightarrow> (disk, atomic_write, unit) sres" where
  "save_manifest x io dir m =
     (case x_manifest_json x m of
        Inl e \<Rightarrow> s_fail (NotLanded (Serde e))
      | Inr b \<Rightarrow> write_atomic io (join dir manifest_file) (join dir ''manifest.json.tmp'') b)"

record roll_over_failed =
  rf_landed :: bool
  rf_err :: ledger_error

fun failed_of_atomic :: "atomic_write \<Rightarrow> roll_over_failed" where
  "failed_of_atomic (NotLanded e) = \<lparr>rf_landed = False, rf_err = e\<rparr>"
| "failed_of_atomic (Landed e) = \<lparr>rf_landed = True, rf_err = e\<rparr>"

definition failed_of_err :: "ledger_error \<Rightarrow> roll_over_failed" where
  "failed_of_err e = \<lparr>rf_landed = False, rf_err = e\<rparr>"

text \<open>Create a file that must not exist.\<close>

definition create_segment :: "io \<Rightarrow> string \<Rightarrow> unit dsk" where
  "create_segment io path =
     s_bind (io_step io (CreateNew path) path) (\<lambda>_.
     s_bind (s_look (\<lambda>d. res_guard (\<not> path_exists d path) (Io path already_exists))) (\<lambda>_.
     d_upd (put_file path [])))"

definition no_manifest :: string where
  "no_manifest = ''segmented ledger directory has no manifest.json''"

definition segment_paths :: "ext \<Rightarrow> io \<Rightarrow> disk \<Rightarrow> string \<Rightarrow> ledger_error + string list" where
  "segment_paths x io d dir =
     res_bind (load_manifest x io d dir) (\<lambda>m.
     res_bind (ok_or m (Io dir no_manifest)) (\<lambda>manifest.
     res_list (map (\<lambda>s.
         if path_exists d (join dir (sm_file s)) then Inr (join dir (sm_file s))
         else Inl (Tamper (sm_start_seq s) (SegmentMissing (sm_file s)))) (mf_segments manifest))))"

definition initialize :: "ext \<Rightarrow> io \<Rightarrow> string \<Rightarrow> manifest dsk" where
  "initialize x io dir =
     (let first = \<lparr>sm_file = segment_filename 1, sm_start_seq = 0, sm_end_seq = None, sm_opened_ms = 0\<rparr>;
          m = \<lparr>mf_version = 1, mf_segments = [first]\<rparr>
      in s_bind (create_segment io (join dir (sm_file first))) (\<lambda>_.
         s_bind (s_err atomic_err (save_manifest x io dir m)) (\<lambda>_. s_ret m)))"

definition max_segment_index :: nat where
  "max_segment_index = 99999999"

definition index_exhausted :: string where
  "index_exhausted = ''segment index exhausted''"

definition no_active :: string where
  "no_active = ''segmented ledger manifest has no active segment to seal''"

text \<open>\<open>checked_add\<close> cannot fail: an index has eight digits.\<close>

definition roll_over_prepared ::
  "io \<Rightarrow> string \<Rightarrow> manifest \<Rightarrow> nat \<Rightarrow> nat \<Rightarrow> (manifest \<times> string \<times> string) dsk" where
  "roll_over_prepared io dir m current_seq next_ts_ms =
     s_bind (s_look (\<lambda>d. max_index io d dir m)) (\<lambda>mx.
     (let next_index = mx + 1 in
      if next_index > max_segment_index then s_fail (Io dir index_exhausted)
      else
        (let new_filename = segment_filename next_index; new_path = join dir new_filename in
         s_bind (create_segment io new_path) (\<lambda>_.
         (case active m of
            None \<Rightarrow> s_fail (Io dir no_active)
          | Some old \<Rightarrow>
              (let sealed = active_mut (\<lambda>s. s\<lparr>sm_end_seq := Some current_seq\<rparr>) m;
                   new_manifest = sealed\<lparr>mf_segments := mf_segments sealed @
                     [\<lparr>sm_file = new_filename, sm_start_seq = current_seq, sm_end_seq = None,
                       sm_opened_ms = next_ts_ms\<rparr>]\<rparr>;
                   old_path = join dir (sm_file old)
               in s_bind (io_step io (OpenAppend old_path) old_path) (\<lambda>_.
                  s_bind (s_look (\<lambda>d. ok_or (file_at d old_path) (Io old_path not_found))) (\<lambda>_.
                  s_bind (io_step io (SyncAll old_path) old_path) (\<lambda>_.
                  s_ret (new_manifest, new_path, sm_file old))))))))))"

definition roll_over ::
  "ext \<Rightarrow> io \<Rightarrow> string \<Rightarrow> manifest \<Rightarrow> nat \<Rightarrow> nat \<Rightarrow>
   (disk, roll_over_failed, manifest \<times> string) sres" where
  "roll_over x io dir m current_seq next_ts_ms =
     s_bind (s_err failed_of_err (roll_over_prepared io dir m current_seq next_ts_ms))
       (\<lambda>(new_manifest, new_path, old_active_file).
     s_bind (s_err failed_of_atomic (save_manifest x io dir new_manifest)) (\<lambda>_.
     s_ret (new_manifest, new_path)))"

section \<open>Names\<close>

lemma parse_digits_snoc: "parse_digits (s @ [c]) = 10 * parse_digits s + (of_char c - 48)"
  by (simp add: parse_digits_def)

lemma parse_digits_zeros: "parse_digits (replicate n (CHR ''0'') @ s) = parse_digits s"
proof -
  have "foldl (\<lambda>n c. 10 * n + (of_char c - 48)) 0 (replicate n (CHR ''0'')) = (0::nat)"
    by (induction n) simp_all
  then show ?thesis by (simp add: parse_digits_def)
qed

lemma parse_digits_show: "parse_digits (show_nat n) = n"
proof (induction n rule: show_nat.induct)
  case (1 n)
  show ?case
  proof (cases "n < 10")
    case True
    then show ?thesis by (simp add: show_nat.simps [of n] parse_digits_def of_char_digit)
  next
    case False
    with 1 show ?thesis by (simp add: show_nat.simps [of n] parse_digits_snoc of_char_digit)
  qed
qed

lemma length_show_nat: "n < 10 ^ Suc k \<Longrightarrow> length (show_nat n) \<le> Suc k"
proof (induction k arbitrary: n)
  case (Suc k)
  show ?case
  proof (cases "n < 10")
    case False
    have "n div 10 < 10 ^ Suc k" using Suc.prems by (simp add: less_mult_imp_div_less)
    with Suc.IH [OF this] False show ?thesis by (simp add: show_nat.simps [of n])
  qed (simp add: show_nat.simps)
qed (simp add: show_nat.simps)

lemma segment_filename_round:
  assumes "i \<le> max_segment_index"
  shows "validate_segment_filename (segment_filename i) = Inr i"
proof -
  have "length (show_nat i) \<le> 8" using length_show_nat [of i 7] assms by (simp add: max_segment_index_def)
  moreover have "list_all is_digit (replicate n (CHR ''0'') @ show_nat i)" for n
    by (auto simp: list_all_iff show_nat_digits) (simp add: is_digit_def)
  ultimately show ?thesis
    by (simp add: validate_segment_filename_def segment_filename_def strip_suffix_def parse_digits_zeros
        parse_digits_show)
qed

text \<open>A checked name is fourteen characters with no separator among them, so joining it to the
  directory names a file in the directory.\<close>

lemma validate_segment_filename_Inr:
  assumes "validate_segment_filename f = Inr i"
  shows "length f = 14 \<and> CHR ''/'' \<notin> set f \<and> f \<noteq> manifest_file"
proof -
  from assms obtain ds where s: "strip_suffix f jsonl = Some ds" "length ds = 8" "list_all is_digit ds"
    by (auto simp: validate_segment_filename_def split: option.splits if_splits)
  then have f: "f = ds @ jsonl"
    by (auto simp: strip_suffix_def split: if_splits) (metis append_take_drop_id)
  with s(2,3) have "length f = 14" "CHR ''/'' \<notin> set f"
    by (auto simp: jsonl_def list_all_iff is_digit_def)
  then show ?thesis by (auto simp: manifest_file_def)
qed

lemma entry_name_join: "file \<noteq> [] \<Longrightarrow> CHR ''/'' \<notin> set file \<Longrightarrow> entry_name dir (join dir file) = Some file"
  by (simp add: entry_name_def join_def)

lemma join_inj [simp]: "join dir f = join dir g \<longleftrightarrow> f = g"
  by (simp add: join_def)

lemma foldl_max_ge: "(m::nat) \<le> foldl max m xs \<and> (\<forall>y \<in> set xs. y \<le> foldl max m xs)"
proof (induction xs arbitrary: m)
  case (Cons y xs)
  from Cons.IH [of "max m y"] show ?case by auto
qed simp

lemma mem_map_filter: "y \<in> set (List.map_filter f xs) \<longleftrightarrow> (\<exists>a \<in> set xs. f a = Some y)"
  by (induction xs) (auto simp: map_filter_simps split: option.splits)

lemma max_index_fresh:
  assumes "max_index io d dir m = Inr mx" and "mx < i" and "i \<le> max_segment_index"
  shows "\<not> path_exists d (join dir (segment_filename i)) \<and> segment_filename i \<notin> sm_file ` set (mf_segments m)"
proof -
  let ?f = "segment_filename i"
  have pi: "parse_index ?f = Some i" by (simp add: parse_index_def segment_filename_round assms(3))
  from assms(1) obtain names where names: "read_dir io d dir = Inr names" and
    mx: "mx = foldl max (foldl max 0 (List.map_filter (\<lambda>s. parse_index (sm_file s)) (mf_segments m)))
           (List.map_filter parse_index names)"
    by (auto simp: max_index_def res_simps)
  from validate_segment_filename_Inr [OF segment_filename_round [OF assms(3)]]
  have "entry_name dir (join dir ?f) = Some ?f" by (intro entry_name_join) auto
  moreover have "?f \<notin> set names"
  proof
    assume "?f \<in> set names"
    with pi have "i \<in> set (List.map_filter parse_index names)" by (auto simp: mem_map_filter)
    then have "i \<le> mx" unfolding mx using foldl_max_ge by blast
    with assms(2) show False by simp
  qed
  ultimately have "join dir ?f \<notin> set (map fst (d_files d) @ d_dirs d)"
    using names mem_map_filter [of ?f "entry_name dir" "map fst (d_files d) @ d_dirs d"]
    by (auto simp: read_dir_def split: option.splits if_splits)
  moreover have "file_at d p = Some b \<Longrightarrow> p \<in> set (map fst (d_files d))" for p b
    using bm_get_SomeD [of "d_files d" p b] by (force simp: file_at_def)
  ultimately have 1: "\<not> path_exists d (join dir ?f)"
    by (cases "file_at d (join dir ?f)") (auto simp: path_exists_def is_dir_def)
  have "?f \<notin> sm_file ` set (mf_segments m)"
  proof
    assume "?f \<in> sm_file ` set (mf_segments m)"
    then have "i \<in> set (List.map_filter (\<lambda>s. parse_index (sm_file s)) (mf_segments m))"
      using pi by (auto simp: mem_map_filter)
    then have "i \<le> mx" unfolding mx using foldl_max_ge by (meson le_trans)
    with assms(2) show False by simp
  qed
  with 1 show ?thesis by simp
qed

section \<open>Manifests\<close>

text \<open>A manifest that loads and can be appended to.\<close>

definition manifest_ok :: "manifest \<Rightarrow> bool" where
  "manifest_ok m \<longleftrightarrow> (\<forall>s \<in> set (mf_segments m). \<exists>i. validate_segment_filename (sm_file s) = Inr i) \<and>
     validate_manifest_shape m = Inr () \<and> active m \<noteq> None"

lemma contiguous_snoc:
  "contiguous (ss @ [s, t]) = Inr () \<longleftrightarrow> contiguous (ss @ [s]) = Inr () \<and> sm_end_seq s = Some (sm_start_seq t)"
proof (induction ss)
  case (Cons a ss)
  then show ?case by (cases ss) auto
qed auto

lemma contiguous_upd: "sm_start_seq s' = sm_start_seq s \<Longrightarrow> contiguous (ss @ [s']) = Inr () \<longleftrightarrow> contiguous (ss @ [s]) = Inr ()"
proof (induction ss)
  case (Cons a ss)
  then show ?case by (cases ss) auto
qed auto

lemma find_open: "List.find (\<lambda>s. sm_end_seq s = None) (ss @ [s]) =
    (if \<forall>t \<in> set ss. sm_end_seq t \<noteq> None then if sm_end_seq s = None then Some s else None
     else List.find (\<lambda>s. sm_end_seq s = None) ss)"
  by (induction ss) auto

lemma upd_first_open_snoc:
  "\<forall>t \<in> set ss. sm_end_seq t \<noteq> None \<Longrightarrow> sm_end_seq s = None \<Longrightarrow> upd_first_open f (ss @ [s]) = ss @ [f s]"
  by (induction ss) auto

text \<open>Shape: sealed segments from sequence 0, each handing off to the next, then the active one.\<close>

lemma manifest_ok_iff:
  "manifest_ok m \<longleftrightarrow>
    (\<forall>s \<in> set (mf_segments m). \<exists>i. validate_segment_filename (sm_file s) = Inr i) \<and>
    (\<exists>ss s. mf_segments m = ss @ [s] \<and> (\<forall>t \<in> set ss. sm_end_seq t \<noteq> None) \<and> sm_end_seq s = None \<and>
       active m = Some s \<and> sm_start_seq (hd (ss @ [s])) = 0 \<and> contiguous (ss @ [s]) = Inr ())"
proof (cases "mf_segments m" rule: rev_cases)
  case Nil
  then show ?thesis by (simp add: manifest_ok_def validate_manifest_shape_def)
next
  case (snoc ss s)
  have cnt: "length (filter (\<lambda>s. sm_end_seq s = None) ss) = 0 \<longleftrightarrow> (\<forall>t \<in> set ss. sm_end_seq t \<noteq> None)"
    by (auto simp: filter_empty_conv)
  show ?thesis
  proof (cases "\<forall>t \<in> set ss. sm_end_seq t \<noteq> None")
    case True
    with snoc show ?thesis
      by (auto simp: manifest_ok_def validate_manifest_shape_def Let_def active_def find_open
          filter_empty_conv split: if_splits)
  next
    case False
    then have "filter (\<lambda>s. sm_end_seq s = None) ss \<noteq> []" by (auto simp: filter_empty_conv)
    then obtain k where "length (filter (\<lambda>s. sm_end_seq s = None) ss) = Suc k"
      by (cases "filter (\<lambda>s. sm_end_seq s = None) ss") auto
    with snoc False show ?thesis
      by (auto simp: manifest_ok_def validate_manifest_shape_def Let_def split: if_splits)
  qed
qed

lemma manifest_ok_roll:
  assumes "manifest_ok m" and "i \<le> max_segment_index"
  shows "manifest_ok (m\<lparr>mf_segments := mf_segments (active_mut (\<lambda>s. s\<lparr>sm_end_seq := Some n\<rparr>) m) @
      [\<lparr>sm_file = segment_filename i, sm_start_seq = n, sm_end_seq = None, sm_opened_ms = t\<rparr>]\<rparr>)"
proof -
  from assms(1) obtain ss s where m: "mf_segments m = ss @ [s]" "\<forall>t \<in> set ss. sm_end_seq t \<noteq> None"
      "sm_end_seq s = None" "sm_start_seq (hd (ss @ [s])) = 0" "contiguous (ss @ [s]) = Inr ()"
      "\<forall>s \<in> set (mf_segments m). \<exists>i. validate_segment_filename (sm_file s) = Inr i"
    by (auto simp: manifest_ok_iff)
  let ?s = "s\<lparr>sm_end_seq := Some n\<rparr>"
  let ?t = "\<lparr>sm_file = segment_filename i, sm_start_seq = n, sm_end_seq = None, sm_opened_ms = t\<rparr>"
  have c: "contiguous (ss @ [?s, ?t]) = Inr ()"
    using m(5) contiguous_upd [of ?s s ss] by (simp add: contiguous_snoc)
  have h: "sm_start_seq (hd ((ss @ [?s]) @ [?t])) = 0" using m(4) by (cases ss) auto
  have seg: "mf_segments (active_mut (\<lambda>s. s\<lparr>sm_end_seq := Some n\<rparr>) m) = ss @ [?s]"
    using m upd_first_open_snoc by (simp add: active_mut_def)
  have v: "validate_segment_filename (segment_filename i) = Inr i" by (rule segment_filename_round [OF assms(2)])
  have "List.find (\<lambda>s. sm_end_seq s = None) ((ss @ [?s]) @ [?t]) = Some ?t"
    unfolding find_open using m(2) by simp
  then show ?thesis
    unfolding manifest_ok_iff seg
    using m c h v by (auto simp: active_def intro!: exI [of _ "ss @ [?s]"])
qed

definition manifest_law :: "ext \<Rightarrow> bool" where
  "manifest_law x \<longleftrightarrow> (\<forall>m b. x_manifest_json x m = Inr b \<longrightarrow> x_parse_manifest x b = Inr m)"

definition seg_files :: "string \<Rightarrow> manifest \<Rightarrow> string list" where
  "seg_files dir m = map (\<lambda>s. join dir (sm_file s)) (mf_segments m)"

lemma read_opt_no_faults [simp]: "read_opt no_faults d p = Inr (file_at d p)"
  by (simp add: read_opt_def no_faults_def)

lemma res_list_ok: "\<forall>a \<in> set as. \<exists>y. f a = Inr y \<Longrightarrow> \<exists>ys. res_list (map f as) = Inr ys"
  by (induction as) auto

lemma load_manifest_Some:
  "io_fault io (ReadFile (join dir manifest_file)) = None \<Longrightarrow> file_at d (join dir manifest_file) = Some b \<Longrightarrow>
    x_parse_manifest x b = Inr m \<Longrightarrow> manifest_ok m \<Longrightarrow> load_manifest x io d dir = Inr (Some m)"
proof -
  assume a: "io_fault io (ReadFile (join dir manifest_file)) = None" "file_at d (join dir manifest_file) = Some b"
    "x_parse_manifest x b = Inr m" "manifest_ok m"
  from a(4) have "\<exists>is. res_list (map (\<lambda>s. validate_segment_filename (sm_file s)) (mf_segments m)) = Inr is"
    by (intro res_list_ok) (simp add: manifest_ok_def)
  with a show ?thesis by (auto simp: load_manifest_def manifest_ok_def read_opt_def)
qed

lemma load_manifest_cong:
  "file_at d' (join dir manifest_file) = file_at d (join dir manifest_file) \<Longrightarrow>
    load_manifest x io d' dir = load_manifest x io d dir"
proof -
  assume "file_at d' (join dir manifest_file) = file_at d (join dir manifest_file)"
  then have "read_opt io d' (join dir manifest_file) = read_opt io d (join dir manifest_file)"
    by (cases "io_fault io (ReadFile (join dir manifest_file))") (simp_all add: read_opt_def)
  then show ?thesis by (simp add: load_manifest_def)
qed

lemma contents_cong: "\<forall>p \<in> set ps. file_at d' p = file_at d p \<Longrightarrow> contents d' ps = contents d ps"
  by (induction ps) auto

lemma join_seg_files: "join dir f \<in> set (seg_files dir m) \<longleftrightarrow> f \<in> sm_file ` set (mf_segments m)"
  by (auto simp: seg_files_def)

lemma manifest_not_segment:
  "manifest_ok m \<Longrightarrow> join dir manifest_file \<notin> set (seg_files dir m) \<and>
    join dir ''manifest.json.tmp'' \<notin> set (seg_files dir m)"
proof -
  assume ok: "manifest_ok m"
  have "f \<notin> sm_file ` set (mf_segments m)" if "length f \<noteq> 14 \<or> f = manifest_file" for f
    using ok that validate_segment_filename_Inr by (fastforce simp: manifest_ok_def)
  then show ?thesis unfolding join_seg_files by simp
qed

lemma segment_filename_not_manifest:
  assumes "i \<le> max_segment_index"
  shows "segment_filename i \<noteq> manifest_file" "segment_filename i \<noteq> ''manifest.json.tmp''"
  using validate_segment_filename_Inr [OF segment_filename_round [OF assms]] by auto

text \<open>The manifest a rollover commits.\<close>

definition rolled_manifest :: "manifest \<Rightarrow> nat \<Rightarrow> nat \<Rightarrow> nat \<Rightarrow> manifest" where
  "rolled_manifest m i current_seq ts =
     (let sealed = active_mut (\<lambda>s. s\<lparr>sm_end_seq := Some current_seq\<rparr>) m
      in sealed\<lparr>mf_segments := mf_segments sealed @
           [\<lparr>sm_file = segment_filename i, sm_start_seq = current_seq, sm_end_seq = None, sm_opened_ms = ts\<rparr>]\<rparr>)"

lemma rolled_manifest_ok: "manifest_ok m \<Longrightarrow> i \<le> max_segment_index \<Longrightarrow> manifest_ok (rolled_manifest m i n t)"
  using manifest_ok_roll by (simp add: rolled_manifest_def Let_def active_mut_def)

lemma map_file_upd: "(\<And>s. sm_file (f s) = sm_file s) \<Longrightarrow> map sm_file (upd_first_open f ss) = map sm_file ss"
  by (induction ss) auto

lemma seg_files_rolled: "seg_files dir (rolled_manifest m i n t) = seg_files dir m @ [join dir (segment_filename i)]"
proof -
  have "map (join dir) (map sm_file (upd_first_open (\<lambda>s. s\<lparr>sm_end_seq := Some n\<rparr>) (mf_segments m))) =
      map (join dir) (map sm_file (mf_segments m))"
    by (subst map_file_upd) auto
  then show ?thesis
    by (simp add: seg_files_def rolled_manifest_def Let_def active_mut_def comp_def)
qed

text \<open>Preparing a rollover adds one empty file at a path that held none.\<close>

lemma roll_over_prepared_spec:
  assumes "roll_over_prepared io dir m n t d = (r, d')"
  shows "d' = d \<and> isl r \<or>
    (\<exists>i \<le> max_segment_index. let p = join dir (segment_filename i) in
       \<not> path_exists d p \<and> segment_filename i \<notin> sm_file ` set (mf_segments m) \<and> d' = put_file p [] d \<and>
       (isl r \<or> (\<exists>old. active m = Some old \<and> file_at d' (join dir (sm_file old)) \<noteq> None \<and>
           r = Inr (rolled_manifest m i n t, p, sm_file old))))"
proof (cases "max_index io d dir m")
  case (Inl e)
  with assms show ?thesis by (auto simp: roll_over_prepared_def s_simps)
next
  case (Inr mx)
  show ?thesis
  proof (cases "mx + 1 > max_segment_index")
    case True
    with Inr assms show ?thesis by (auto simp: roll_over_prepared_def s_simps)
  next
    case False
    let ?i = "mx + 1" let ?p = "join dir (segment_filename ?i)"
    from False have le: "?i \<le> max_segment_index" by simp
    have fresh: "\<not> path_exists d ?p \<and> segment_filename ?i \<notin> sm_file ` set (mf_segments m)"
      using max_index_fresh [OF Inr _ le] by simp
    show ?thesis
    proof (cases "io_fault io (CreateNew ?p)")
      case (Some e)
      with Inr False assms show ?thesis
        by (auto simp: roll_over_prepared_def s_simps create_segment_def Let_def)
    next
      case None
      then have cr: "create_segment io ?p d = (Inr (), put_file ?p [] d)"
        using fresh by (simp add: create_segment_def s_simps)
      have "d' = put_file ?p [] d \<and> (isl r \<or> (\<exists>old. active m = Some old \<and>
          file_at d' (join dir (sm_file old)) \<noteq> None \<and> r = Inr (rolled_manifest m ?i n t, ?p, sm_file old)))"
        using Inr False assms cr
        by (auto simp: roll_over_prepared_def s_simps Let_def rolled_manifest_def res_simps
            split: option.splits)
      with fresh le show ?thesis by (intro disjI2 exI [of _ ?i]) (unfold Let_def, blast)
    qed
  qed
qed


lemma save_manifest_spec:
  assumes "save_manifest x io dir m d = (r, d')" and "manifest_law x" and "manifest_ok m"
  shows "(case r of
      Inl (NotLanded _) \<Rightarrow> file_at d' (join dir manifest_file) = file_at d (join dir manifest_file)
    | _ \<Rightarrow> load_manifest x no_faults d' dir = Inr (Some m)) \<and>
    (\<forall>q. q \<noteq> join dir manifest_file \<longrightarrow> q \<noteq> join dir ''manifest.json.tmp'' \<longrightarrow> file_at d' q = file_at d q) \<and>
    d_dirs d' = d_dirs d \<and> d_locks d' = d_locks d"
proof (cases "x_manifest_json x m")
  case (Inl e)
  with assms(1) show ?thesis by (auto simp: save_manifest_def s_simps)
next
  case (Inr b)
  have ne: "join dir ''manifest.json.tmp'' \<noteq> join dir manifest_file" by (simp add: manifest_file_def)
  have wr: "write_atomic io (join dir manifest_file) (join dir ''manifest.json.tmp'') b d = (r, d')"
    using assms(1) Inr by (simp add: save_manifest_def)
  have ld: "load_manifest x no_faults d' dir = Inr (Some m)" if "file_at d' (join dir manifest_file) = Some b"
    using load_manifest_Some [OF _ that, of no_faults x m] assms(2,3) Inr
    by (simp add: manifest_law_def no_faults_def)
  show ?thesis using write_atomic_all_or_nothing [OF wr ne] ld
    by (auto split: sum.splits atomic_write.splits)
qed

text \<open>Every outcome of a rollover: the segments named before keep their bytes, and the manifest is
  the old one, or the old one's segments and a new empty file.\<close>

lemma roll_over_spec:
  assumes "manifest_law x" and "manifest_ok m" and "load_manifest x no_faults d dir = Inr (Some m0)"
    and "roll_over x io dir m n t d = (r, d')" and "manifest_ok m0"
  shows "\<exists>m'. load_manifest x no_faults d' dir = Inr (Some m') \<and> manifest_ok m' \<and>
    (\<forall>q \<in> set (seg_files dir m). file_at d' q = file_at d q) \<and>
    (m' = m0 \<or> (\<exists>p. \<not> path_exists d p \<and> file_at d' p = Some [] \<and> seg_files dir m' = seg_files dir m @ [p])) \<and>
    (case r of
       Inr (m'', p) \<Rightarrow> m'' = m' \<and> \<not> path_exists d p \<and> file_at d' p = Some [] \<and>
         seg_files dir m' = seg_files dir m @ [p]
     | Inl f \<Rightarrow> if rf_landed f then \<exists>p. \<not> path_exists d p \<and> file_at d' p = Some [] \<and>
           seg_files dir m' = seg_files dir m @ [p] else m' = m0)"
proof -
  let ?mf = "join dir manifest_file" and ?tmp = "join dir ''manifest.json.tmp''"
  note mnot = manifest_not_segment [OF assms(2), of dir]
  obtain r1 d1 where prep: "roll_over_prepared io dir m n t d = (r1, d1)" by force
  from roll_over_prepared_spec [OF prep] show ?thesis
  proof (elim disjE)
    assume "d1 = d \<and> isl r1"
    with prep assms show ?thesis by (auto simp: roll_over_def s_simps failed_of_err_def isl_def)
  next
    assume "\<exists>i \<le> max_segment_index. let p = join dir (segment_filename i) in
       \<not> path_exists d p \<and> segment_filename i \<notin> sm_file ` set (mf_segments m) \<and> d1 = put_file p [] d \<and>
       (isl r1 \<or> (\<exists>old. active m = Some old \<and> file_at d1 (join dir (sm_file old)) \<noteq> None \<and>
           r1 = Inr (rolled_manifest m i n t, p, sm_file old)))"
    then obtain i where i1: "i \<le> max_segment_index" and A: "let p = join dir (segment_filename i) in
       \<not> path_exists d p \<and> segment_filename i \<notin> sm_file ` set (mf_segments m) \<and> d1 = put_file p [] d \<and>
       (isl r1 \<or> (\<exists>old. active m = Some old \<and> file_at d1 (join dir (sm_file old)) \<noteq> None \<and>
           r1 = Inr (rolled_manifest m i n t, p, sm_file old)))" by blast
    define p where "p = join dir (segment_filename i)"
    note B = A [unfolded Let_def, folded p_def]
    have i: "i \<le> max_segment_index" "p = join dir (segment_filename i)" "\<not> path_exists d p"
        "segment_filename i \<notin> sm_file ` set (mf_segments m)" "d1 = put_file p [] d"
      using i1 B by (simp_all add: p_def)
    have r1: "isl r1 \<or> (\<exists>old. r1 = Inr (rolled_manifest m i n t, p, old))" using B by blast
    have pn: "p \<noteq> ?mf" "p \<noteq> ?tmp" using segment_filename_not_manifest [OF i(1)] i(2) by auto
    have pseg: "p \<notin> set (seg_files dir m)" using i(2,4) by (simp add: join_seg_files)
    have l1: "load_manifest x no_faults d1 dir = Inr (Some m0)"
      using assms(3) pn i(5) load_manifest_cong [of d1 dir d x no_faults] by simp
    have c1: "\<forall>q \<in> set (seg_files dir m). file_at d1 q = file_at d q" using pseg i(5) by auto
    show ?thesis
    proof (cases "isl r1")
      case True
      with prep assms l1 c1 show ?thesis by (auto simp: roll_over_def s_simps failed_of_err_def isl_def)
    next
      case False
      let ?m = "rolled_manifest m i n t"
      note okm = rolled_manifest_ok [OF assms(2) i(1), of n t]
      from False r1 prep obtain old where prep': "roll_over_prepared io dir m n t d = (Inr (?m, p, old), d1)"
        by auto
      obtain r2 d2 where save: "save_manifest x io dir ?m d1 = (r2, d2)" by force
      note sp = save_manifest_spec [OF save assms(1) okm]
      have d2: "d2 = d'" and rr: "r = (case r2 of Inl a \<Rightarrow> Inl (failed_of_atomic a) | Inr _ \<Rightarrow> Inr (?m, p))"
        using assms(4) prep' save by (auto simp: roll_over_def s_simps)
      have keep: "file_at d' q = file_at d1 q" if "q \<in> set (seg_files dir m @ [p])" for q
      proof -
        have "q \<noteq> ?mf \<and> q \<noteq> ?tmp" using that mnot pn by auto
        then show ?thesis using sp d2 by blast
      qed
      then have c2: "\<forall>q \<in> set (seg_files dir m). file_at d' q = file_at d q" using c1 by simp
      have p2: "file_at d' p = Some []" using keep i(5) by simp
      have sf: "seg_files dir ?m = seg_files dir m @ [p]" using seg_files_rolled i(2) by simp
      show ?thesis
      proof (cases "\<exists>e. r2 = Inl (NotLanded e)")
        case True
        then have "load_manifest x no_faults d' dir = Inr (Some m0)"
          using sp l1 d2 load_manifest_cong [of d' dir d1 x no_faults] by auto
        with True c2 assms(5) rr show ?thesis by auto
      next
        case False
        then have "load_manifest x no_faults d' dir = Inr (Some ?m)"
          using sp d2 by (auto split: sum.splits atomic_write.splits)
        with False c2 okm rr p2 sf i(3) show ?thesis
          by (auto split: sum.splits) (metis atomic_write.exhaust failed_of_atomic.simps(2) roll_over_failed.select_convs(1))
      qed
    qed
  qed
qed

section \<open>Properties\<close>

text \<open>A rollover never loses a byte and never bricks the ledger: whatever fails, and whether it
  fails before or after the manifest's rename, the directory's manifest still loads and the
  segments it names hold exactly the bytes they held. On success, or when the failure came after the
  rename, the manifest is the one with the old segment sealed and a new one, at a path where
  nothing was, active; otherwise it is the old one.\<close>

theorem roll_over_atomic:
  assumes "manifest_law x" and "manifest_ok m" and "load_manifest x no_faults d dir = Inr (Some m)"
    and "roll_over x io dir m n t d = (r, d')"
  shows "\<exists>m'. load_manifest x no_faults d' dir = Inr (Some m') \<and> manifest_ok m' \<and>
    contents d' (seg_files dir m') = contents d (seg_files dir m) \<and>
    (case r of
       Inr (m'', p) \<Rightarrow> m'' = m' \<and> \<not> path_exists d p \<and> file_at d' p = Some [] \<and>
         seg_files dir m' = seg_files dir m @ [p]
     | Inl f \<Rightarrow> if rf_landed f then \<exists>p. \<not> path_exists d p \<and> seg_files dir m' = seg_files dir m @ [p]
               else m' = m)"
proof -
  from roll_over_spec [OF assms assms(2)] obtain m' where m': "load_manifest x no_faults d' dir = Inr (Some m')" "manifest_ok m'"
    "\<forall>q \<in> set (seg_files dir m). file_at d' q = file_at d q"
    "m' = m \<or> (\<exists>p. \<not> path_exists d p \<and> file_at d' p = Some [] \<and> seg_files dir m' = seg_files dir m @ [p])"
    "case r of
       Inr (m'', p) \<Rightarrow> m'' = m' \<and> \<not> path_exists d p \<and> file_at d' p = Some [] \<and>
         seg_files dir m' = seg_files dir m @ [p]
     | Inl f \<Rightarrow> if rf_landed f then \<exists>p. \<not> path_exists d p \<and> file_at d' p = Some [] \<and>
           seg_files dir m' = seg_files dir m @ [p] else m' = m" by blast
  have "contents d' (seg_files dir m) = contents d (seg_files dir m)" using m'(3) by (rule contents_cong)
  with m' show ?thesis by (intro exI [of _ m']) (auto split: sum.splits if_splits)
qed

lemma demo_manifest_law: "manifest_law demo_ext"
  by (simp add: manifest_law_def demo_ext_def demo_manifest_round)

definition demo_manifest :: manifest where
  "demo_manifest = \<lparr>mf_version = 1, mf_segments = [\<lparr>sm_file = segment_filename 1, sm_start_seq = 0,
     sm_end_seq = None, sm_opened_ms = 0\<rparr>]\<rparr>"

definition demo_disk :: disk where
  "demo_disk = put_file (join ''d'' manifest_file) (projr (demo_manifest_json demo_manifest))
     (put_file (join ''d'' (segment_filename 1)) [nl] \<lparr>d_files = [], d_dirs = [''d''], d_locks = []\<rparr>)"

lemma demo_manifest_ok: "manifest_ok demo_manifest"
  using segment_filename_round [of 1]
  by (simp add: manifest_ok_def demo_manifest_def validate_manifest_shape_def active_def max_segment_index_def)

lemma demo_load: "load_manifest demo_ext no_faults demo_disk ''d'' = Inr (Some demo_manifest)"
  by (rule load_manifest_Some [OF _ _ _ demo_manifest_ok, where b = "projr (demo_manifest_json demo_manifest)"])
    (simp_all add: no_faults_def demo_disk_def demo_ext_def demo_manifest_round demo_manifest_json_def
      manifest_file_def)

theorem roll_over_atomic_witness:
  "\<exists>m'. load_manifest demo_ext no_faults
        (snd (roll_over demo_ext no_faults ''d'' demo_manifest 1 5 demo_disk)) ''d'' = Inr (Some m') \<and>
      contents (snd (roll_over demo_ext no_faults ''d'' demo_manifest 1 5 demo_disk)) (seg_files ''d'' m') =
      contents demo_disk (seg_files ''d'' demo_manifest)"
proof -
  obtain r d' where r: "roll_over demo_ext no_faults ''d'' demo_manifest 1 5 demo_disk = (r, d')" by force
  from roll_over_atomic [OF demo_manifest_law demo_manifest_ok demo_load r] r show ?thesis by auto
qed

end
