(* ===== verification/Open.thy ===== *)
theory Open
  imports Segment Verify
begin

text \<open>
  Where a ledger's bytes live and how it is opened: \<open>decern-ledger/src/open.rs\<close>, the path-taking
  functions of \<open>verify.rs\<close> and \<open>anchor.rs\<close>. Opening verifies the whole log, consults
  the anchor before it writes anything, refuses a key another has followed, and only then cuts off
  the fragment a crash left.
\<close>

section \<open>Locations\<close>

datatype location = Single string | Segmented string

definition detect :: "disk \<Rightarrow> string \<Rightarrow> location" where
  "detect d path = (if is_dir d path then Segmented path else Single path)"

fun resolved_paths :: "ext \<Rightarrow> io \<Rightarrow> disk \<Rightarrow> location \<Rightarrow> ledger_error + string list" where
  "resolved_paths x io d (Single p) = Inr [p]"
| "resolved_paths x io d (Segmented dir) = segment_paths x io d dir"

definition lines_of :: "ext \<Rightarrow> io \<Rightarrow> disk \<Rightarrow> location \<Rightarrow> ledger_error + (ledger_error + string) list" where
  "lines_of x io d loc = res_map (chained_lines io d) (resolved_paths x io d loc)"

text \<open>The prefix's lines, and the fragment after the last newline as its path and offset.\<close>

definition prefix_lines ::
  "ext \<Rightarrow> io \<Rightarrow> disk \<Rightarrow> location \<Rightarrow>
   ledger_error + ((ledger_error + string) list \<times> (string \<times> nat) option)" where
  "prefix_lines x io d loc =
     res_bind (resolved_paths x io d loc) (\<lambda>paths.
     res_bind (if paths = [] then Inr None else scan_torn_tail io d (last paths)) (\<lambda>torn.
     Inr (chained_lines_bounded io d paths (map_option snd torn), torn)))"

section \<open>Verification by path\<close>

definition verify_prefix ::
  "ext \<Rightarrow> io \<Rightarrow> disk \<Rightarrow> location \<Rightarrow> bytes list \<Rightarrow> read_window option \<Rightarrow>
   ledger_error + (verify_report \<times> read_window option \<times> (string \<times> nat) option)" where
  "verify_prefix x io d loc keys sink =
     res_bind (prefix_lines x io d loc) (\<lambda>(ls, torn).
     res_map (\<lambda>(rep, w). (rep, w, torn)) (verify_lines x ls keys sink))"

definition verify_inner ::
  "ext \<Rightarrow> io \<Rightarrow> disk \<Rightarrow> location \<Rightarrow> bytes list \<Rightarrow> read_window option \<Rightarrow>
   ledger_error + (verify_report \<times> read_window option)" where
  "verify_inner x io d loc keys sink =
     res_bind (verify_prefix x io d loc keys sink) (\<lambda>(rep, w, torn).
       case torn of
         None \<Rightarrow> Inr (rep, w)
       | Some (p, off) \<Rightarrow> Inl (TornTail (vr_entries rep) (vr_root rep) p off))"

definition keys_of :: "bytes option \<Rightarrow> bytes list" where
  "keys_of pubkey = (case pubkey of None \<Rightarrow> [] | Some k \<Rightarrow> [k])"

definition verify :: "ext \<Rightarrow> io \<Rightarrow> disk \<Rightarrow> string \<Rightarrow> bytes option \<Rightarrow> ledger_error + verify_report" where
  "verify x io d path pubkey = res_map fst (verify_inner x io d (detect d path) (keys_of pubkey) None)"

definition verify_with_keys ::
  "ext \<Rightarrow> io \<Rightarrow> disk \<Rightarrow> string \<Rightarrow> bytes list \<Rightarrow> ledger_error + verify_report" where
  "verify_with_keys x io d path keys = res_map fst (verify_inner x io d (detect d path) keys None)"

text \<open>\<open>usize::saturating_add\<close> at 64 bits bounds the window's end.\<close>

definition window_at :: "nat \<Rightarrow> nat \<Rightarrow> read_window" where
  "window_at offset limit = \<lparr>w_offset = offset, w_end = sat_add64 offset limit, w_records = []\<rparr>"

definition window_records :: "verify_report \<times> read_window option \<Rightarrow> verify_report \<times> json list" where
  "window_records = (\<lambda>(rep, w). (rep, case w of None \<Rightarrow> [] | Some w \<Rightarrow> w_records w))"

definition read_verified ::
  "ext \<Rightarrow> io \<Rightarrow> disk \<Rightarrow> string \<Rightarrow> bytes option \<Rightarrow> nat \<Rightarrow> nat \<Rightarrow> ledger_error + (verify_report \<times> json list)" where
  "read_verified x io d path pubkey offset limit =
     res_map window_records
       (verify_inner x io d (detect d path) (keys_of pubkey) (Some (window_at offset limit)))"

definition read_verified_with_keys ::
  "ext \<Rightarrow> io \<Rightarrow> disk \<Rightarrow> string \<Rightarrow> bytes list \<Rightarrow> nat \<Rightarrow> nat \<Rightarrow> ledger_error + (verify_report \<times> json list)" where
  "read_verified_with_keys x io d path keys offset limit =
     res_map window_records (verify_inner x io d (detect d path) keys (Some (window_at offset limit)))"

definition merkle_leaves_at :: "ext \<Rightarrow> io \<Rightarrow> disk \<Rightarrow> string \<Rightarrow> bytes option \<Rightarrow> ledger_error + bytes list" where
  "merkle_leaves_at x io d path pubkey =
     res_bind (read_verified x io d path pubkey 0 u64_max) (\<lambda>(_, recs). leaves_from_records x recs)"

definition merkle_leaves_with_keys ::
  "ext \<Rightarrow> io \<Rightarrow> disk \<Rightarrow> string \<Rightarrow> bytes list \<Rightarrow> ledger_error + bytes list" where
  "merkle_leaves_with_keys x io d path keys =
     res_bind (read_verified_with_keys x io d path keys 0 u64_max) (\<lambda>(_, recs). leaves_from_records x recs)"

section \<open>Anchors\<close>

text \<open>The loop of \<open>root_at_count\<close>.\<close>

fun root_loop ::
  "ext \<Rightarrow> nat \<Rightarrow> string \<Rightarrow> nat \<Rightarrow> (ledger_error + string) list \<Rightarrow> ledger_error + string option" where
  "root_loop x count prev seen [] = Inr None"
| "root_loop x count prev seen (l # ls) =
     res_bind l (\<lambda>line.
       if is_blank line then root_loop x count prev seen ls
       else
         res_bind (map_err (\<lambda>e. Tamper seen (UnparseableRecord e)) (x_parse_record x line)) (\<lambda>rec.
         res_bind (res_guard (rl_prev rec = prev) (Tamper seen PrevMismatch)) (\<lambda>_.
         res_bind (res_guard (x_hex x (chain_hash x (rl_entry rec) (rl_prev rec)) = rl_hash rec)
                     (Tamper seen HashMismatch)) (\<lambda>_.
         if seen + 1 = count then Inr (Some (rl_hash rec))
         else root_loop x count (rl_hash rec) (seen + 1) ls))))"

definition root_at_count :: "ext \<Rightarrow> io \<Rightarrow> disk \<Rightarrow> location \<Rightarrow> nat \<Rightarrow> ledger_error + string option" where
  "root_at_count x io d loc count =
     (if count = 0 then Inr (Some genesis)
      else res_bind (prefix_lines x io d loc) (\<lambda>(ls, _). root_loop x count genesis 0 ls))"

definition ledger_extends_checkpoint_at ::
  "ext \<Rightarrow> io \<Rightarrow> disk \<Rightarrow> location \<Rightarrow> checkpoint \<Rightarrow> ledger_error + bool" where
  "ledger_extends_checkpoint_at x io d loc cp =
     res_map (\<lambda>root. root = Some (cp_root cp)) (root_at_count x io d loc (cp_count cp))"

definition ledger_extends_checkpoint ::
  "ext \<Rightarrow> io \<Rightarrow> disk \<Rightarrow> string \<Rightarrow> checkpoint \<Rightarrow> ledger_error + bool" where
  "ledger_extends_checkpoint x io d path cp = ledger_extends_checkpoint_at x io d (detect d path) cp"

text \<open>\<open>Path::with_extension\<close> on a path with a file name.\<close>

definition with_extension :: "string \<Rightarrow> string \<Rightarrow> string" where
  "with_extension p e =
     (let name = rev (takeWhile (\<lambda>c. c \<noteq> CHR ''/'') (rev p)); dir = take (length p - length name) p;
          back = dropWhile (\<lambda>c. c \<noteq> CHR ''.'') (rev name);
          stem = (if tl back = [] then name else rev (tl back))
      in dir @ stem @ CHR ''.'' # e)"

definition save_anchor :: "ext \<Rightarrow> io \<Rightarrow> string \<Rightarrow> checkpoint \<Rightarrow> unit dsk" where
  "save_anchor x io anchor_path cp =
     (case x_checkpoint_json x cp of
        Inl e \<Rightarrow> s_fail (Serde e)
      | Inr b \<Rightarrow> s_err atomic_err (write_atomic io anchor_path (with_extension anchor_path ''anchor-tmp'') b))"

definition load_anchor :: "ext \<Rightarrow> io \<Rightarrow> disk \<Rightarrow> string \<Rightarrow> ledger_error + checkpoint option" where
  "load_anchor x io d anchor_path =
     res_bind (read_opt io d anchor_path) (\<lambda>file.
       case file of
         None \<Rightarrow> Inr None
       | Some b \<Rightarrow> (case x_parse_checkpoint x b of Inl e \<Rightarrow> Inl (Serde e) | Inr cp \<Rightarrow> Inr (Some cp)))"

definition trusted_anchor ::
  "ext \<Rightarrow> io \<Rightarrow> disk \<Rightarrow> string \<Rightarrow> bytes list \<Rightarrow> ledger_error + checkpoint option" where
  "trusted_anchor x io d anchor_path verifiers =
     res_bind (load_anchor x io d anchor_path) (\<lambda>a.
       case a of
         None \<Rightarrow> Inr None
       | Some cp \<Rightarrow>
           if list_ex (verify_checkpoint_sig x cp) verifiers then Inr (Some cp)
           else Inl (Tamper (cp_count cp) AnchorNotTrusted))"

definition refuse_removed_history ::
  "ext \<Rightarrow> io \<Rightarrow> disk \<Rightarrow> string option \<Rightarrow> bytes list \<Rightarrow> ledger_error + unit" where
  "refuse_removed_history x io d anchor verifiers =
     (case anchor of
        None \<Rightarrow> Inr ()
      | Some p \<Rightarrow>
          res_bind (trusted_anchor x io d p verifiers) (\<lambda>a.
            case a of
              None \<Rightarrow> Inr ()
            | Some cp \<Rightarrow> res_guard (cp_count cp = 0) (Tamper (cp_count cp) (HistoryRemoved (cp_count cp)))))"

section \<open>Opening\<close>

definition begins_a_record :: "io \<Rightarrow> disk \<Rightarrow> string \<Rightarrow> nat \<Rightarrow> ledger_error + bool" where
  "begins_a_record io d path offset =
     res_map (\<lambda>b. offset < length b \<and> b ! offset = CHR ''{'') (read_bytes io d path)"

definition heal_torn_tail :: "io \<Rightarrow> string \<Rightarrow> nat \<Rightarrow> unit dsk" where
  "heal_torn_tail io path offset =
     s_bind (io_step io (OpenWrite path) path) (\<lambda>_.
     s_bind (s_look (\<lambda>d. ok_or (file_at d path) (Io path not_found))) (\<lambda>b.
     s_bind (io_step io (SetLen path) path) (\<lambda>_.
     s_bind (d_upd (put_file path (take offset b))) (\<lambda>_.
     io_step io (SyncAll path) path))))"

text \<open>The anchor's part of \<open>resolve_open_head\<close>.\<close>

definition check_anchor ::
  "ext \<Rightarrow> io \<Rightarrow> disk \<Rightarrow> location \<Rightarrow> bytes list \<Rightarrow> string option \<Rightarrow> bool \<Rightarrow> ledger_error + unit" where
  "check_anchor x io d loc verifiers anchor torn =
     (case anchor of
        None \<Rightarrow> Inr ()
      | Some p \<Rightarrow>
          res_bind (trusted_anchor x io d p verifiers) (\<lambda>a.
            case a of
              None \<Rightarrow> Inr ()
            | Some cp \<Rightarrow>
                res_bind (ledger_extends_checkpoint_at x io d loc cp) (\<lambda>ok.
                res_guard ok (Tamper (cp_count cp) (NotExtendsAnchor (cp_count cp) torn)))))"

definition resolve_open_head ::
  "ext \<Rightarrow> io \<Rightarrow> location \<Rightarrow> bytes list \<Rightarrow> bytes \<Rightarrow> string option \<Rightarrow> verify_report dsk" where
  "resolve_open_head x io loc verifiers signer anchor =
     s_bind (s_look (\<lambda>d. verify_prefix x io d loc verifiers None)) (\<lambda>(report, _, torn).
     s_bind (s_look (\<lambda>d. check_anchor x io d loc verifiers anchor (torn \<noteq> None))) (\<lambda>_.
     (let kid = key_fingerprint x signer in
      case superseded_by report kid of
        Some next \<Rightarrow> s_fail (KeySuperseded kid (ss_kid next) (ss_first_seq next))
      | None \<Rightarrow>
          (case torn of
             None \<Rightarrow> s_ret report
           | Some (p, off) \<Rightarrow>
               s_bind (s_look (\<lambda>d. begins_a_record io d p off)) (\<lambda>ok.
               if ok then s_bind (heal_torn_tail io p off) (\<lambda>_. s_ret report)
               else s_fail (Tamper (vr_entries report) (NotARecordTail p)))))))"

text \<open>Create the file a ledger appends to, when it is not there.\<close>

definition open_append_owner_only :: "io \<Rightarrow> string \<Rightarrow> unit dsk" where
  "open_append_owner_only io path =
     s_bind (io_step io (OpenAppend path) path) (\<lambda>_.
     d_upd (\<lambda>d. if file_at d path = None then put_file path [] d else d))"

definition writer_locked :: string where
  "writer_locked = ''another process has this ledger open for writing''"

text \<open>On Unix: the ledger file itself, created when absent, and its lock.\<close>

definition writer_lock_file :: "io \<Rightarrow> string \<Rightarrow> unit dsk" where
  "writer_lock_file io path d =
     (if path_exists d path then io_step io (ReadFile path) path d
      else s_bind (io_step io (CreateNew path) path) (\<lambda>_. d_upd (put_file path [])) d)"

definition lock_single_writer :: "io \<Rightarrow> string \<Rightarrow> unit dsk" where
  "lock_single_writer io path =
     s_bind (writer_lock_file io path) (\<lambda>_.
     s_bind (io_step io (TryLock path) path) (\<lambda>_.
     s_bind (s_look (\<lambda>d. res_guard (path \<notin> set (d_locks d)) (Io path writer_locked))) (\<lambda>_.
     d_upd (\<lambda>d. d\<lparr>d_locks := path # d_locks d\<rparr>))))"

section \<open>Prefixes\<close>

lemma verify_loop_all_Inr: "verify_loop x keys i st rs = Inr st' \<Longrightarrow> \<exists>ls. rs = map Inr ls"
proof (induction rs arbitrary: i st)
  case (Cons r rs)
  then obtain l where "r = Inr l" by (auto simp: res_simps)
  moreover from Cons obtain ls where "rs = map Inr ls" by (auto simp: res_simps)
  ultimately have "r # rs = map Inr (l # ls)" by simp
  then show ?case by (rule exI)
qed simp

lemma verify_lines_all_Inr: "verify_lines x rs keys sink = Inr r \<Longrightarrow> \<exists>ls. rs = map Inr ls"
  by (auto simp: verify_lines_def res_simps dest: verify_loop_all_Inr)

lemma load_manifest_SomeD:
  "load_manifest x io d dir = Inr (Some m) \<Longrightarrow> mf_segments m \<noteq> [] \<and> validate_manifest_shape m = Inr () \<and>
    (\<forall>s \<in> set (mf_segments m). \<exists>i. validate_segment_filename (sm_file s) = Inr i)"
proof -
  assume "load_manifest x io d dir = Inr (Some m)"
  then obtain b m' where "x_parse_manifest x b = Inr m'" and
    "res_bind (res_list (map (\<lambda>s. validate_segment_filename (sm_file s)) (mf_segments m'))) (\<lambda>_.
       res_bind (validate_manifest_shape m') (\<lambda>_. Inr (Some m'))) = Inr (Some m)"
    unfolding load_manifest_def res_bind_eq_Inr [of "read_opt _ _ _"]
    by (elim exE conjE) (case_tac xa, simp, case_tac "x_parse_manifest x a", simp_all)
  then have v: "validate_manifest_shape m = Inr ()"
    "\<exists>is. res_list (map (\<lambda>s. validate_segment_filename (sm_file s)) (mf_segments m)) = Inr is"
    by (auto simp: res_simps)
  then have "\<forall>s \<in> set (mf_segments m). \<exists>i. validate_segment_filename (sm_file s) = Inr i"
    unfolding res_list_Inr by (metis (no_types, lifting) imageE list.set_map image_eqI)
  with v show ?thesis by (auto simp: validate_manifest_shape_def Let_def)
qed

lemma segment_paths_eq:
  "segment_paths x io d dir = Inr ps \<longleftrightarrow>
    (\<exists>m. load_manifest x io d dir = Inr (Some m) \<and> ps = seg_files dir m \<and> (\<forall>p \<in> set ps. path_exists d p))"
proof -
  let ?f = "\<lambda>s. if path_exists d (join dir (sm_file s)) then Inr (join dir (sm_file s))
         else Inl (Tamper (sm_start_seq s) (SegmentMissing (sm_file s)))"
  have "map ?f ss = map Inr ps \<longleftrightarrow> ps = map (\<lambda>s. join dir (sm_file s)) ss \<and> (\<forall>p \<in> set ps. path_exists d p)"
    for ss
    by (induction ss arbitrary: ps) (auto simp: Cons_eq_map_conv split: if_splits)
  then show ?thesis by (auto simp: segment_paths_def res_simps res_list_Inr seg_files_def)
qed

lemma resolved_paths_nonempty: "resolved_paths x io d loc = Inr ps \<Longrightarrow> ps \<noteq> []"
  by (cases loc) (auto simp: segment_paths_eq seg_files_def dest: load_manifest_SomeD)

lemma prefix_lines_eq:
  assumes "resolved_paths x io d loc = Inr (ps @ [p])" and "readable io d (ps @ [p])"
    and "file_at d p = Some (a @ t)" and "ends_nl a" and "nl \<notin> set t"
    and "\<forall>l \<in> set (file_lines d ps @ read_lines a). utf8_ok l"
  shows "prefix_lines x io d loc =
    Inr (map Inr (file_lines d ps @ read_lines a), if t = [] then None else Some (p, length a))"
proof -
  let ?torn = "if t = [] then None else Some (p, length a)"
  from assms(2) have "io_fault io (ReadFile p) = None" by (simp add: readable_def)
  from scan_torn_tail_eq [OF this assms(3-5)] have s: "scan_torn_tail io d p = Inr ?torn" .
  have "bounded_lines d (ps @ [p]) (map_option snd ?torn) = file_lines d ps @ read_lines a"
    using assms(3) by (simp add: bounded_lines_snoc content_def limited_def)
  with chained_lines_Inr_iff [of io d "ps @ [p]" "map_option snd ?torn" "file_lines d ps @ read_lines a"] assms
  have "chained_lines_bounded io d (ps @ [p]) (map_option snd ?torn) = map Inr (file_lines d ps @ read_lines a)"
    by simp
  with assms(1) s show ?thesis by (simp add: prefix_lines_def)
qed

text \<open>Verifying a prefix reads the whole lines of the last file and sets the fragment apart.\<close>

lemma verify_prefix_iff:
  "verify_prefix x io d loc keys sink = Inr (rep, w, torn) \<longleftrightarrow>
    (\<exists>ps p a t. resolved_paths x io d loc = Inr (ps @ [p]) \<and> readable io d (ps @ [p]) \<and>
      file_at d p = Some (a @ t) \<and> ends_nl a \<and> nl \<notin> set t \<and>
      torn = (if t = [] then None else Some (p, length a)) \<and>
      (\<forall>l \<in> set (file_lines d ps @ read_lines a). utf8_ok l) \<and>
      verify_lines x (map Inr (file_lines d ps @ read_lines a)) keys sink = Inr (rep, w))" (is "?L \<longleftrightarrow> ?R")
proof
  assume ?L
  then obtain paths ls where r: "resolved_paths x io d loc = Inr paths"
      "scan_torn_tail io d (last paths) = Inr torn"
      "chained_lines_bounded io d paths (map_option snd torn) = ls"
      "verify_lines x ls keys sink = Inr (rep, w)"
    using resolved_paths_nonempty
    by (fastforce simp: verify_prefix_def prefix_lines_def res_simps split: if_splits)
  obtain ps p where paths: "paths = ps @ [p]" using resolved_paths_nonempty [OF r(1)] by (metis rev_exhaust)
  from r(4) obtain us where "ls = map Inr us" by (auto dest: verify_lines_all_Inr)
  with r(3) paths have c: "readable io d (ps @ [p])" "us = bounded_lines d (ps @ [p]) (map_option snd torn)"
      "\<forall>l \<in> set us. utf8_ok l" "chained_lines_bounded io d paths (map_option snd torn) = map Inr us"
    using chained_lines_Inr_iff [of io d paths "map_option snd torn" us] by auto
  then obtain b where b: "file_at d p = Some b" "io_fault io (ReadFile p) = None" by (auto simp: readable_def)
  obtain a t where at: "b = a @ t" "ends_nl a" "nl \<notin> set t" by (rule whole_and_fragment)
  have torn: "torn = (if t = [] then None else Some (p, length a))"
    using scan_torn_tail_eq [OF b(2) b(1) [unfolded at(1)] at(2,3)] r(2) paths by simp
  then have us: "us = file_lines d ps @ read_lines a"
    using c(2) b(1) at(1) by (simp add: bounded_lines_snoc content_def limited_def)
  have "verify_lines x (map Inr us) keys sink = Inr (rep, w)" using r(3,4) c(4) by simp
  with c(1,3) r(1) paths b at torn us show ?R
    by (intro exI [of _ ps] exI [of _ p] exI [of _ a] exI [of _ t]) simp
next
  assume ?R
  then obtain ps p a t where h: "resolved_paths x io d loc = Inr (ps @ [p])" "readable io d (ps @ [p])"
      "file_at d p = Some (a @ t)" "ends_nl a" "nl \<notin> set t" "torn = (if t = [] then None else Some (p, length a))"
      "\<forall>l \<in> set (file_lines d ps @ read_lines a). utf8_ok l"
      "verify_lines x (map Inr (file_lines d ps @ read_lines a)) keys sink = Inr (rep, w)"
    by blast
  with prefix_lines_eq [OF h(1-5,7)] show ?L by (simp add: verify_prefix_def)
qed

lemma verify_inner_iff:
  "verify_inner x io d loc keys sink = Inr (rep, w) \<longleftrightarrow> verify_prefix x io d loc keys sink = Inr (rep, w, None)"
  by (auto simp: verify_inner_def res_simps split: option.splits)

section \<open>Checkpoints over a verified log\<close>

lemma verify_lines_chain:
  assumes "verify_lines x (map Inr ls) keys sink = Inr (rep, w)"
  shows "chained x genesis 0 (records_of x ls)" "vr_entries rep = length (records_of x ls)"
    "unwrap_or genesis (vr_root rep) = head_hash genesis (records_of x ls)"
  using verify_lines_chained [OF assms] by (cases "records_of x ls = []"; simp)+

lemma verify_loop_parses:
  "verify_loop x keys i st (map Inr ls) = Inr st' \<Longrightarrow> l \<in> set ls \<Longrightarrow> \<not> is_blank l \<Longrightarrow> \<exists>r. x_parse_record x l = Inr r"
proof (induction ls arbitrary: i st)
  case (Cons k ls)
  then obtain st1 where st1: "verify_line x keys i st k = Inr st1"
      "verify_loop x keys (Suc i) st1 (map Inr ls) = Inr st'"
    by (auto simp: res_simps)
  with Cons show ?case by (auto elim!: verify_line_Inr)
qed simp

lemma root_loop_chained:
  assumes "\<And>l. l \<in> set ls \<Longrightarrow> \<not> is_blank l \<Longrightarrow> \<exists>r. x_parse_record x l = Inr r"
    and "chained x prev seen (records_of x ls)" and "seen < count"
  shows "root_loop x count prev seen (map Inr ls) =
    Inr (if count \<le> seen + length (records_of x ls)
         then Some (head_hash prev (take (count - seen) (records_of x ls))) else None)"
  using assms
proof (induction ls arbitrary: prev seen)
  case (Cons l ls)
  show ?case
  proof (cases "is_blank l")
    case True
    with Cons show ?thesis by simp
  next
    case False
    with Cons.prems(1) obtain r where r: "x_parse_record x l = Inr r" by auto
    with Cons.prems(2) False have c: "rl_prev r = prev" "rl_hash r = x_hex x (chain_hash x (rl_entry r) prev)"
        "chained x (rl_hash r) (Suc seen) (records_of x ls)"
      by auto
    have step: "root_loop x count prev seen (map Inr (l # ls)) =
        (if Suc seen = count then Inr (Some (rl_hash r)) else root_loop x count (rl_hash r) (Suc seen) (map Inr ls))"
      using False r c by (simp add: map_err_def)
    have tk: "take (count - seen) (r # rs) = r # take (count - Suc seen) rs" for rs
      using Cons.prems(3) by (metis Suc_diff_Suc take_Suc_Cons)
    show ?thesis
    proof (cases "Suc seen = count")
      case True
      with step False r show ?thesis by (simp add: tk)
    next
      case False
      then have "Suc seen < count" using Cons.prems(3) by simp
      from Cons.IH [OF _ c(3) this] Cons.prems(1) step False \<open>\<not> is_blank l\<close> r show ?thesis
        by (simp add: tk)
    qed
  qed
qed simp

text \<open>On a log whose prefix verifies, the re-derived root is the head after \<open>count\<close>
  records, or none when there are fewer.\<close>

lemma root_at_count_verified:
  assumes "prefix_lines x io d loc = Inr (map Inr ls, torn)"
    and "verify_lines x (map Inr ls) keys sink = Inr (rep, w)"
  shows "root_at_count x io d loc n =
    Inr (if n \<le> length (records_of x ls) then Some (head_hash genesis (take n (records_of x ls))) else None)"
proof (cases "n = 0")
  case False
  from assms(2) obtain st where st: "verify_loop x keys 0 (init_vstate sink) (map Inr ls) = Inr st"
    by (auto simp: verify_lines_def res_simps)
  have "root_loop x n genesis 0 (map Inr ls) =
    Inr (if n \<le> 0 + length (records_of x ls) then Some (head_hash genesis (take (n - 0) (records_of x ls))) else None)"
    using root_loop_chained [OF verify_loop_parses [OF st] verify_lines_chain(1) [OF assms(2)]] False by blast
  with False assms(1) show ?thesis by (simp add: root_at_count_def)
qed (simp add: root_at_count_def)

lemma verify_prefix_lines:
  "verify_prefix x io d loc keys sink = Inr (rep, w, torn) \<Longrightarrow>
    \<exists>ls. prefix_lines x io d loc = Inr (map Inr ls, torn) \<and> verify_lines x (map Inr ls) keys sink = Inr (rep, w)"
  by (auto simp: verify_prefix_def res_simps dest: verify_lines_all_Inr)

section \<open>What an open does to the disk\<close>

lemma resolve_open_head_spec:
  assumes "resolve_open_head x io loc verifiers signer anchor d = (r, d')"
  shows "(case r of
      Inr rep \<Rightarrow> \<exists>w torn. verify_prefix x io d loc verifiers None = Inr (rep, w, torn) \<and>
        check_anchor x io d loc verifiers anchor (torn \<noteq> None) = Inr () \<and>
        superseded_by rep (key_fingerprint x signer) = None \<and>
        (case torn of None \<Rightarrow> d' = d
         | Some (p, off) \<Rightarrow> begins_a_record io d p off = Inr True \<and>
             (\<exists>b. file_at d p = Some b \<and> d' = put_file p (take off b) d))
    | Inl (Io q e) \<Rightarrow> d' = d \<or> (\<exists>rep w off b. verify_prefix x io d loc verifiers None = Inr (rep, w, Some (q, off)) \<and>
        check_anchor x io d loc verifiers anchor True = Inr () \<and>
        begins_a_record io d q off = Inr True \<and> file_at d q = Some b \<and> d' = put_file q (take off b) d)
    | Inl _ \<Rightarrow> d' = d)"
proof (cases "verify_prefix x io d loc verifiers None")
  case (Inl e)
  with assms show ?thesis by (auto simp: resolve_open_head_def s_simps split: ledger_error.splits)
next
  case (Inr v)
  then obtain rep w torn where v: "verify_prefix x io d loc verifiers None = Inr (rep, w, torn)" by (cases v) auto
  show ?thesis
  proof (cases "check_anchor x io d loc verifiers anchor (torn \<noteq> None)")
    case (Inl e)
    with v assms show ?thesis by (auto simp: resolve_open_head_def s_simps split: ledger_error.splits)
  next
    case (Inr u)
    then have c: "check_anchor x io d loc verifiers anchor (torn \<noteq> None) = Inr ()" by simp
    show ?thesis
    proof (cases "superseded_by rep (key_fingerprint x signer)")
      case (Some n)
      with v c assms show ?thesis by (auto simp: resolve_open_head_def s_simps Let_def)
    next
      case None
      show ?thesis
      proof (cases torn)
        case None': None
        with None v c assms show ?thesis by (auto simp: resolve_open_head_def s_simps Let_def)
      next
        case (Some po)
        obtain p off where po: "po = (p, off)" by force
        show ?thesis
        proof (cases "begins_a_record io d p off")
          case (Inl e)
          with Some None po v c assms show ?thesis
            by (auto simp: resolve_open_head_def s_simps Let_def split: ledger_error.splits)
        next
          case (Inr ok)
          have heal: "(case hr of Inr _ \<Rightarrow> True | Inl (Io q e) \<Rightarrow> q = p | Inl _ \<Rightarrow> False) \<and>
              (d'' = d \<and> isl hr \<or> (\<exists>b. file_at d p = Some b \<and> d'' = put_file p (take off b) d))"
            if "heal_torn_tail io p off d = (hr, d'')" for hr d''
            using that by (auto simp: heal_torn_tail_def s_simps res_simps ok_or_def split: option.splits)
          obtain hr d'' where h: "heal_torn_tail io p off d = (hr, d'')" by force
          show ?thesis
          proof (cases ok)
            case True
            with Inr Some None po v c assms h heal [OF h] show ?thesis
              by (cases hr) (auto simp: resolve_open_head_def s_simps Let_def split: ledger_error.splits)
          next
            case False
            with Inr Some None po v c assms show ?thesis
              by (auto simp: resolve_open_head_def s_simps Let_def)
          qed
        qed
      qed
    qed
  qed
qed

lemma path_exists_put [simp]: "path_exists (put_file p b d) q \<longleftrightarrow> path_exists d q \<or> q = p"
  by (auto simp: path_exists_def)

definition manifest_path :: "location \<Rightarrow> string option" where
  "manifest_path loc = (case loc of Single _ \<Rightarrow> None | Segmented dir \<Rightarrow> Some (join dir manifest_file))"

lemma resolved_paths_put:
  assumes "path_exists d p" and "manifest_path loc \<noteq> Some p"
  shows "resolved_paths x io (put_file p b d) loc = resolved_paths x io d loc"
proof (cases loc)
  case (Segmented dir)
  then have "load_manifest x io (put_file p b d) dir = load_manifest x io d dir"
    using assms(2) by (intro load_manifest_cong) (simp add: manifest_path_def)
  moreover have "path_exists (put_file p b d) q = path_exists d q" for q using assms(1) by auto
  ultimately show ?thesis using Segmented by (simp add: segment_paths_def)
qed simp

lemma resolved_not_manifest:
  assumes "resolved_paths x io d loc = Inr ps" and "p \<in> set ps"
  shows "manifest_path loc \<noteq> Some p"
proof (cases loc)
  case (Segmented dir)
  with assms obtain m s where m: "load_manifest x io d dir = Inr (Some m)" "s \<in> set (mf_segments m)"
      "p = join dir (sm_file s)"
    by (auto simp: segment_paths_eq seg_files_def)
  with load_manifest_SomeD [OF m(1)] validate_segment_filename_Inr have "sm_file s \<noteq> manifest_file" by blast
  with m Segmented show ?thesis by (simp add: manifest_path_def)
qed (simp add: manifest_path_def)

lemma readable_put: "readable io d ps \<Longrightarrow> readable io (put_file p b d) ps"
  by (simp add: readable_def)

lemma file_at_path_exists: "file_at d p = Some b \<Longrightarrow> path_exists d p"
  by (simp add: path_exists_def)

text \<open>Rewriting the last file keeps every other line.\<close>

lemma verify_prefix_rewrite:
  assumes "resolved_paths x io d loc = Inr (ps @ [p])" and "readable io d (ps @ [p])" and "p \<notin> set ps"
    and "ends_nl a" and "nl \<notin> set t" and "\<forall>l \<in> set (file_lines d ps @ read_lines a). utf8_ok l"
    and "verify_lines x (map Inr (file_lines d ps @ read_lines a)) keys sink = Inr (rep, w)"
  shows "verify_prefix x io (put_file p (a @ t) d) loc keys sink =
    Inr (rep, w, if t = [] then None else Some (p, length a))"
proof -
  have ex: "path_exists d p" using assms(2) by (auto simp: readable_def path_exists_def)
  have "resolved_paths x io (put_file p (a @ t) d) loc = Inr (ps @ [p])"
    using resolved_paths_put [OF ex resolved_not_manifest [OF assms(1)]] assms(1) by simp
  moreover have "file_lines (put_file p (a @ t) d) ps = file_lines d ps"
    using assms(3) by (intro file_lines_cong) auto
  ultimately show ?thesis
    using assms readable_put [OF assms(2)] unfolding verify_prefix_iff
    by (intro exI [of _ ps] exI [of _ p] exI [of _ a] exI [of _ t]) simp
qed

lemma chained_prefix: "chained x prev n (rs @ ss) \<Longrightarrow> chained x prev n rs"
  by (induction rs arbitrary: prev n) auto

section \<open>Properties\<close>

text \<open>Opening a ledger writes at most one thing: the last file without the bytes after its last
  newline, and only once the whole lines before them verified, the anchor, when there is one,
  was still covered, and those bytes began a record. A refusal other than an I/O error of that
  write leaves the disk as it was.\<close>

theorem open_writes_only_a_torn_tail:
  assumes "resolve_open_head x io loc verifiers signer anchor d = (r, d')"
  shows "(d' = d \<or>
    (\<exists>ps p a t rep w. resolved_paths x io d loc = Inr (ps @ [p]) \<and> file_at d p = Some (a @ t) \<and>
      ends_nl a \<and> nl \<notin> set t \<and> t \<noteq> [] \<and> hd t = CHR ''{'' \<and>
      verify_lines x (map Inr (file_lines d ps @ read_lines a)) verifiers None = Inr (rep, w) \<and>
      check_anchor x io d loc verifiers anchor True = Inr () \<and> d' = put_file p a d)) \<and>
    (\<forall>e. r = Inl e \<and> d' \<noteq> d \<longrightarrow> (\<exists>q m. e = Io q m))"
proof -
  have torn: "\<exists>ps p a t rep w. resolved_paths x io d loc = Inr (ps @ [p]) \<and> file_at d p = Some (a @ t) \<and>
      ends_nl a \<and> nl \<notin> set t \<and> t \<noteq> [] \<and> hd t = CHR ''{'' \<and>
      verify_lines x (map Inr (file_lines d ps @ read_lines a)) verifiers None = Inr (rep, w) \<and>
      check_anchor x io d loc verifiers anchor True = Inr () \<and> d' = put_file p a d"
    if v: "verify_prefix x io d loc verifiers None = Inr (rep, w, Some (q, off))"
      and c: "check_anchor x io d loc verifiers anchor True = Inr ()"
      and b: "begins_a_record io d q off = Inr True" "file_at d q = Some bs" "d' = put_file q (take off bs) d"
    for rep w q off bs
  proof -
    from v obtain ps p a t where h: "resolved_paths x io d loc = Inr (ps @ [p])"
        "file_at d p = Some (a @ t)" "ends_nl a" "nl \<notin> set t"
        "Some (q, off) = (if t = [] then None else Some (p, length a))"
        "verify_lines x (map Inr (file_lines d ps @ read_lines a)) verifiers None = Inr (rep, w)"
      unfolding verify_prefix_iff by blast
    then have t: "t \<noteq> []" "q = p" "off = length a" by (auto split: if_splits)
    with b(1) h(2) have "hd t = CHR ''{''"
      by (auto simp: begins_a_record_def res_simps read_bytes_eq_Inr nth_append hd_conv_nth)
    with h t b c show ?thesis
      by - (rule exI [of _ ps], rule exI [of _ p], rule exI [of _ a], rule exI [of _ t], rule exI [of _ rep],
        rule exI [of _ w], auto)
  qed
  from resolve_open_head_spec [OF assms] show ?thesis
  proof (cases r)
    case (Inl e)
    with resolve_open_head_spec [OF assms] torn show ?thesis by (cases e) auto
  next
    case (Inr rep)
    with resolve_open_head_spec [OF assms] obtain w tn where
      "verify_prefix x io d loc verifiers None = Inr (rep, w, tn)"
      "check_anchor x io d loc verifiers anchor (tn \<noteq> None) = Inr ()"
      "case tn of None \<Rightarrow> d' = d
         | Some (p, off) \<Rightarrow> begins_a_record io d p off = Inr True \<and>
             (\<exists>b. file_at d p = Some b \<and> d' = put_file p (take off b) d)"
      by auto
    with torn Inr show ?thesis by (cases tn) auto
  qed
qed

text \<open>C20: an anchored open pins history: when it succeeds, a ledger key signed the anchor, the log
  still has at least as many records as the anchor counted, and the first that many are the
  records of any log that verified with the anchor's count and root, unless SHA-256 collides
  on what the two chains hash. So a log cut or rewritten below its anchor never opens.\<close>

theorem anchored_open_pins_history:
  assumes "hex_ok x" and "sha_ok x"
    and "resolve_open_head x io loc verifiers signer (Some anchor) d = (Inr rep, d')"
    and "load_anchor x io d anchor = Inr (Some cp)"
    and "prefix_lines x io d loc = Inr (map Inr ls, torn)"
    and "verify_lines x (map Inr old) keys sink = Inr (rep0, w0)"
    and "cp_count cp = vr_entries rep0" and "cp_root cp = unwrap_or genesis (vr_root rep0)"
    and "inj_on (x_sha256 x) (set (chain_inputs (records_of x ls)) \<union> set (chain_inputs (records_of x old)))"
  shows "list_ex (verify_checkpoint_sig x cp) verifiers \<and> cp_count cp \<le> vr_entries rep \<and>
    map (\<lambda>r. (rl_entry r, rl_prev r, rl_hash r)) (take (cp_count cp) (records_of x ls)) =
    map (\<lambda>r. (rl_entry r, rl_prev r, rl_hash r)) (records_of x old)"
proof -
  let ?n = "cp_count cp" and ?rs = "records_of x ls"
  from resolve_open_head_spec [OF assms(3)] obtain w tn where
    v: "verify_prefix x io d loc verifiers None = Inr (rep, w, tn)" and
    c: "check_anchor x io d loc verifiers (Some anchor) (tn \<noteq> None) = Inr ()" by auto
  from verify_prefix_lines [OF v] assms(5) have
    vl: "verify_lines x (map Inr ls) verifiers None = Inr (rep, w)" by (auto simp: inj_map_eq_map)
  note ch = verify_lines_chain [OF vl] and ch0 = verify_lines_chain [OF assms(6)]
  from c assms(4) have sig: "list_ex (verify_checkpoint_sig x cp) verifiers"
    and ext: "ledger_extends_checkpoint_at x io d loc cp = Inr True"
    by (auto simp: check_anchor_def trusted_anchor_def res_simps split: if_splits)
  from ext root_at_count_verified [OF assms(5) vl, of ?n]
  have n: "?n \<le> length ?rs" and root: "head_hash genesis (take ?n ?rs) = cp_root cp"
    by (auto simp: ledger_extends_checkpoint_at_def split: if_splits)
  have "chained x genesis 0 (take ?n ?rs @ drop ?n ?rs)" using ch(1) by simp
  then have chn: "chained x genesis 0 (take ?n ?rs)" by (rule chained_prefix)
  have sub: "set (chain_inputs (take ?n ?rs)) \<subseteq> set (chain_inputs ?rs)"
    by (auto simp: chain_inputs_def dest: in_set_takeD)
  have "map (\<lambda>r. (rl_entry r, rl_prev r, rl_hash r)) (take ?n ?rs) =
      map (\<lambda>r. (rl_entry r, rl_prev r, rl_hash r)) (records_of x old)"
    using sub n root assms(7,8) ch0
    by (intro chain_determined [OF assms(1,2) chn ch0(1) _ _ assms(9)]) auto
  with sig n ch(2) show ?thesis by simp
qed


section \<open>A ledger file with a torn tail and an anchor\<close>

lemma utf8_ascii: "\<forall>c \<in> set l. (of_char c :: nat) < 128 \<Longrightarrow> utf8_ok l"
  unfolding utf8_ok_def
proof (induction l)
  case (Cons c l)
  then show ?case by (subst utf8_codes.simps) (simp add: utf8_width_def)
qed (simp add: utf8_codes.simps)

lemma field_chars: "c \<in> set (field b) \<Longrightarrow> 44 \<le> (of_char c :: nat) \<and> (of_char c :: nat) \<le> 102"
  using hex_char_code [of c] hex_encode_chars [of c b] by (auto simp: field_def comma_def)

lemma last_field: "field b \<noteq> []" "last (field b) = comma"
  by (simp_all add: field_def)

lemma demo_record_line:
  assumes "demo_record_json r = Inr l"
  shows "nl \<notin> set l \<and> l \<noteq> [] \<and> hd l = CHR ''{'' \<and> last l \<noteq> CHR 0x0D \<and> utf8_ok l"
proof -
  have chars: "44 \<le> (of_char c :: nat) \<and> (of_char c :: nat) < 128" if "c \<in> set l" for c
    using assms that by (auto simp: demo_record_json_def dest!: field_chars)
  moreover have "last l = comma" using assms by (auto simp: demo_record_json_def last_field)
  moreover have "l \<noteq> []" "hd l = CHR ''{''" using assms by (auto simp: demo_record_json_def)
  ultimately show ?thesis
    using utf8_ascii [of l] chars [of nl] by (auto simp: nl_def comma_def)
qed

definition demo_cp :: checkpoint where
  "demo_cp = \<lparr>cp_root = rl_hash (demo_rec genesis 0), cp_count = 1, cp_ts_ms = 0, cp_pubkey_hex = hex_encode ''k'',
     cp_sig_b64 = hex_encode (pad64 (checkpoint_bytes (rl_hash (demo_rec genesis 0)) 1 0))\<rparr>"

definition demo_ledger_disk :: disk where
  "demo_ledger_disk = put_file ''a'' (projr (x_checkpoint_json demo_ext demo_cp))
     (put_file ''l'' (demo_line genesis 0 @ nl # ''{'') \<lparr>d_files = [], d_dirs = [], d_locks = []\<rparr>)"

lemma demo_checkpoint_round: "x_checkpoint_json demo_ext cp = Inr b \<Longrightarrow> x_parse_checkpoint demo_ext b = Inr cp"
  using take_field_field [of "cp_sig_b64 cp" "[]"] by (cases cp) (auto simp: demo_ext_def)

lemma demo_checkpoint_json: "\<exists>b. x_checkpoint_json demo_ext cp = Inr b"
  by (simp add: demo_ext_def)

lemma demo_load_anchor: "load_anchor demo_ext no_faults demo_ledger_disk ''a'' = Inr (Some demo_cp)"
proof -
  obtain b where b: "x_checkpoint_json demo_ext demo_cp = Inr b" using demo_checkpoint_json by blast
  then show ?thesis using demo_checkpoint_round [OF b] by (simp add: load_anchor_def demo_ledger_disk_def)
qed

lemma demo_line_line: "nl \<notin> set (demo_line p n)" "strip_cr (demo_line p n) = demo_line p n" "utf8_ok (demo_line p n)"
  using demo_record_line [OF demo_line_rec [of p n]] by (simp_all add: strip_cr_def)

lemma demo_prefix: "verify_prefix demo_ext no_faults demo_ledger_disk (Single ''l'') [''k''] None =
  Inr (\<lparr>vr_entries = 1, vr_root = Some (rl_hash (demo_rec genesis 0)), vr_signatures_checked = True,
    vr_signers = [\<lparr>ss_kid = hex_encode ''k'', ss_first_seq = 0\<rparr>]\<rparr>, None, Some (''l'', length (demo_line genesis 0) + 1))"
proof -
  have "read_lines (demo_line genesis 0 @ [nl]) = demo_log"
    by (simp add: read_lines_line demo_line_line demo_log_def)
  moreover have "nl \<notin> set ''{''" by (simp add: nl_def)
  ultimately show ?thesis
    using demo_verify demo_line_line
    unfolding verify_prefix_iff
    by (intro exI [of _ "[]"] exI [of _ "''l''"] exI [of _ "demo_line genesis 0 @ [nl]"] exI [of _ "''{''"])
      (simp add: readable_def no_faults_def demo_ledger_disk_def demo_log_def)
qed

lemma demo_prefix_lines: "prefix_lines demo_ext no_faults demo_ledger_disk (Single ''l'') =
  Inr (map Inr demo_log, Some (''l'', length (demo_line genesis 0) + 1))"
proof -
  have "read_lines (demo_line genesis 0 @ [nl]) = demo_log"
    by (simp add: read_lines_line demo_line_line demo_log_def)
  moreover have "scan_torn_tail no_faults demo_ledger_disk ''l'' = Inr (Some (''l'', length (demo_line genesis 0 @ [nl])))"
    using scan_torn_tail_eq [of no_faults "''l''" demo_ledger_disk "demo_line genesis 0 @ [nl]" "''{''"]
    by (simp add: no_faults_def demo_ledger_disk_def) (simp add: nl_def)
  moreover have "chained_lines_bounded no_faults demo_ledger_disk [''l''] (Some (length (demo_line genesis 0 @ [nl]))) =
      map Inr demo_log"
    using calculation(1) demo_line_line unfolding chained_lines_Inr_iff
    by (simp add: readable_def no_faults_def demo_ledger_disk_def demo_log_def content_def limited_def)
  ultimately show ?thesis by (simp add: prefix_lines_def del: chained_lines_bounded.simps)
qed

lemma demo_open:
  "\<exists>rep. resolve_open_head demo_ext no_faults (Single ''l'') [''k''] ''k'' (Some ''a'') demo_ledger_disk =
     (Inr rep, put_file ''l'' (demo_line genesis 0 @ [nl]) demo_ledger_disk) \<and> vr_entries rep = 1"
proof -
  obtain rep where v: "verify_lines demo_ext (map Inr demo_log) [''k''] None = Inr (rep, None)"
    and p: "verify_prefix demo_ext no_faults demo_ledger_disk (Single ''l'') [''k''] None =
      Inr (rep, None, Some (''l'', length (demo_line genesis 0) + 1))"
    and s: "superseded_by rep (hex_encode ''k'') = None" and e: "vr_entries rep = 1"
    using demo_verify demo_prefix by (auto simp: superseded_by_def successor_def simp del: hex_encode.simps)
  have "records_of demo_ext demo_log = [demo_rec genesis 0]" by (simp add: demo_log_def)
  then have "root_at_count demo_ext no_faults demo_ledger_disk (Single ''l'') (cp_count demo_cp) = Inr (Some (cp_root demo_cp))"
    using root_at_count_verified [OF demo_prefix_lines v] by (simp add: demo_cp_def)
  moreover have "verify_checkpoint_sig demo_ext demo_cp ''k''"
    by (simp add: verify_checkpoint_sig_def decode_sig_def demo_cp_def del: hex_encode.simps)
  ultimately have c: "check_anchor demo_ext no_faults demo_ledger_disk (Single ''l'') [''k''] (Some ''a'') True = Inr ()"
    using demo_load_anchor
    by (simp add: check_anchor_def trusted_anchor_def ledger_extends_checkpoint_at_def)
  have b: "begins_a_record no_faults demo_ledger_disk ''l'' (length (demo_line genesis 0) + 1) = Inr True"
    by (simp add: begins_a_record_def read_bytes_def demo_ledger_disk_def nth_append)
  have "resolve_open_head demo_ext no_faults (Single ''l'') [''k''] ''k'' (Some ''a'') demo_ledger_disk =
     (Inr rep, put_file ''l'' (demo_line genesis 0 @ [nl]) demo_ledger_disk)"
    using p s c b
    by (auto simp: resolve_open_head_def s_simps heal_torn_tail_def key_fingerprint_def no_faults_def
        demo_ledger_disk_def simp del: hex_encode.simps)
  with e show ?thesis by blast
qed

theorem open_writes_only_a_torn_tail_witness:
  "\<exists>r d'. resolve_open_head demo_ext no_faults (Single ''l'') [''k''] ''k'' (Some ''a'') demo_ledger_disk = (r, d') \<and>
    (d' = demo_ledger_disk \<or> (\<exists>a t. file_at demo_ledger_disk ''l'' = Some (a @ t) \<and> ends_nl a \<and>
       hd t = CHR ''{'' \<and> d' = put_file ''l'' a demo_ledger_disk))"
proof -
  obtain rep where o: "resolve_open_head demo_ext no_faults (Single ''l'') [''k''] ''k'' (Some ''a'') demo_ledger_disk =
     (Inr rep, put_file ''l'' (demo_line genesis 0 @ [nl]) demo_ledger_disk)" using demo_open by blast
  from open_writes_only_a_torn_tail [OF o] o show ?thesis by auto
qed

theorem anchored_open_pins_history_witness:
  "1 \<le> (1 :: nat) \<and> map (\<lambda>r. (rl_entry r, rl_prev r, rl_hash r)) (take (cp_count demo_cp) (records_of demo_ext demo_log)) =
    map (\<lambda>r. (rl_entry r, rl_prev r, rl_hash r)) (records_of demo_ext demo_log)"
proof -
  obtain rep where o: "resolve_open_head demo_ext no_faults (Single ''l'') [''k''] ''k'' (Some ''a'') demo_ledger_disk =
     (Inr rep, put_file ''l'' (demo_line genesis 0 @ [nl]) demo_ledger_disk)" using demo_open by blast
  from anchored_open_pins_history [OF demo_hex_ok demo_sha_ok o demo_load_anchor demo_prefix_lines demo_verify]
  show ?thesis by (simp add: demo_cp_def demo_log_def chain_inputs_def)
qed

end
