(* ===== verification/Ledger.thy ===== *)
theory Ledger
  imports Open
begin

text \<open>
  The append-only writer: \<open>decern-ledger/src/ledger.rs\<close>. A ledger is its location, key, head
  and keyring, and for a segmented one the manifest; the disk it writes is threaded through every
  operation, whose outcome may be an error that leaves both changed. The invariant ties the two:
  the log on disk verifies under the keyring, to exactly the head, count and signers the ledger
  holds. The theorems: every open establishes it, append and rotate keep it, and after a failed
  write the ledger refuses everything until a reopen, which finds the records before it.
\<close>

section \<open>The code\<close>

record rollover_state =
  rs_policy :: rollover_policy
  rs_manifest :: manifest

record ledger =
  l_location :: location
  l_active_path :: string
  l_key :: bytes
  l_last_hash :: string
  l_next_seq :: nat
  l_verifiers :: "bytes list"
  l_signers :: "signer_span list"
  l_sync :: bool
  l_rollover :: "rollover_state option"
  l_failed :: bool

definition add_verifier :: "bytes list \<Rightarrow> bytes \<Rightarrow> bytes list" where
  "add_verifier verifiers k = (if k \<in> set verifiers then verifiers else verifiers @ [k])"

definition use_segmented :: string where
  "use_segmented = ''this path is a segmented ledger directory''"

definition open_single_inner ::
  "ext \<Rightarrow> io \<Rightarrow> string \<Rightarrow> bytes \<Rightarrow> bytes list \<Rightarrow> string option \<Rightarrow> ledger dsk" where
  "open_single_inner x io path key retired anchor =
     s_bind (s_look (\<lambda>d. res_guard (\<not> is_dir d path) (Io path use_segmented))) (\<lambda>_.
     s_bind (lock_single_writer io path) (\<lambda>_.
     (let current = x_public x key; verifiers = add_verifier retired current; loc = Single path in
      s_bind (\<lambda>d. if path_exists d path
               then s_bind (resolve_open_head x io loc verifiers current anchor) (\<lambda>report.
                    s_ret (unwrap_or genesis (vr_root report), vr_entries report, vr_signers report)) d
               else s_bind (s_look (\<lambda>d. refuse_removed_history x io d anchor verifiers)) (\<lambda>_.
                    s_ret (genesis, 0, [])) d) (\<lambda>(last_hash, next_seq, signers).
      s_bind (open_append_owner_only io path) (\<lambda>_.
      s_ret \<lparr>l_location = loc, l_active_path = path, l_key = key, l_last_hash = last_hash,
        l_next_seq = next_seq, l_verifiers = verifiers, l_signers = signers, l_sync = False,
        l_rollover = None, l_failed = False\<rparr>)))))"

definition open_with_verifiers :: "ext \<Rightarrow> io \<Rightarrow> string \<Rightarrow> bytes \<Rightarrow> bytes list \<Rightarrow> ledger dsk" where
  "open_with_verifiers x io path key retired = open_single_inner x io path key retired None"

definition ledger_open :: "ext \<Rightarrow> io \<Rightarrow> string \<Rightarrow> bytes \<Rightarrow> ledger dsk" where
  "ledger_open x io path key = open_with_verifiers x io path key []"

definition open_anchored :: "ext \<Rightarrow> io \<Rightarrow> string \<Rightarrow> bytes \<Rightarrow> bytes list \<Rightarrow> string \<Rightarrow> ledger dsk" where
  "open_anchored x io path key retired anchor_path =
     open_single_inner x io path key retired (Some anchor_path)"

definition create_dir_all :: "io \<Rightarrow> string \<Rightarrow> unit dsk" where
  "create_dir_all io dir =
     s_bind (io_step io (CreateDir dir) dir) (\<lambda>_.
     s_bind (s_look (\<lambda>d. res_guard (is_dir d dir \<or> file_at d dir = None) (Io dir already_exists))) (\<lambda>_.
     d_upd (\<lambda>d. if is_dir d dir then d else d\<lparr>d_dirs := dir # d_dirs d\<rparr>)))"

definition no_unsealed :: string where
  "no_unsealed = ''segmented ledger manifest has no active (unsealed) segment''"

definition open_segmented_inner ::
  "ext \<Rightarrow> io \<Rightarrow> string \<Rightarrow> bytes \<Rightarrow> bytes list \<Rightarrow> rollover_policy \<Rightarrow> string option \<Rightarrow> ledger dsk" where
  "open_segmented_inner x io dir key retired policy anchor =
     (let current = x_public x key; verifiers = add_verifier retired current; loc = Segmented dir in
      s_bind (create_dir_all io dir) (\<lambda>_.
      s_bind (s_look (\<lambda>d. load_manifest x io d dir)) (\<lambda>found.
      s_bind (case found of Some m \<Rightarrow> s_ret m | None \<Rightarrow> initialize x io dir) (\<lambda>m.
      (case active m of
         None \<Rightarrow> s_fail (Io dir no_unsealed)
       | Some seg \<Rightarrow>
           (let active_path = join dir (sm_file seg) in
            s_bind (resolve_open_head x io loc verifiers current anchor) (\<lambda>report.
            s_bind (open_append_owner_only io active_path) (\<lambda>_.
            s_ret \<lparr>l_location = loc, l_active_path = active_path, l_key = key,
              l_last_hash = unwrap_or genesis (vr_root report), l_next_seq = vr_entries report,
              l_verifiers = verifiers, l_signers = vr_signers report, l_sync = False,
              l_rollover = Some \<lparr>rs_policy = policy, rs_manifest = m\<rparr>, l_failed = False\<rparr>))))))))"

definition open_segmented ::
  "ext \<Rightarrow> io \<Rightarrow> string \<Rightarrow> bytes \<Rightarrow> bytes list \<Rightarrow> rollover_policy \<Rightarrow> ledger dsk" where
  "open_segmented x io dir key retired policy = open_segmented_inner x io dir key retired policy None"

definition open_segmented_anchored ::
  "ext \<Rightarrow> io \<Rightarrow> string \<Rightarrow> bytes \<Rightarrow> bytes list \<Rightarrow> rollover_policy \<Rightarrow> string \<Rightarrow> ledger dsk" where
  "open_segmented_anchored x io dir key retired policy anchor_path =
     open_segmented_inner x io dir key retired policy (Some anchor_path)"

text \<open>Dropping the ledger releases its lock.\<close>

definition ledger_drop :: "ledger \<Rightarrow> disk \<Rightarrow> disk" where
  "ledger_drop L d =
     (case l_location L of
        Single p \<Rightarrow> d\<lparr>d_locks := removeAll p (d_locks d)\<rparr>
      | Segmented _ \<Rightarrow> d)"

definition rotate :: "ext \<Rightarrow> bytes \<Rightarrow> ledger \<Rightarrow> ledger_error + ledger" where
  "rotate x new_key L =
     (let current = x_public x new_key; kid = key_fingerprint x current in
      case successor (l_signers L) kid of
        Some next \<Rightarrow> Inl (KeySuperseded kid (ss_kid next) (ss_first_seq next))
      | None \<Rightarrow> Inr (L\<lparr>l_verifiers := add_verifier (l_verifiers L) current, l_key := new_key\<rparr>))"

definition verifier_fingerprints :: "ext \<Rightarrow> ledger \<Rightarrow> string list" where
  "verifier_fingerprints x L = map (key_fingerprint x) (l_verifiers L)"

definition has_failed :: "ledger \<Rightarrow> bool" where
  "has_failed L = l_failed L"

definition set_sync :: "bool \<Rightarrow> ledger \<Rightarrow> ledger" where
  "set_sync s L = L\<lparr>l_sync := s\<rparr>"

definition should_roll_over :: "rollover_state \<Rightarrow> nat \<Rightarrow> nat \<Rightarrow> nat \<Rightarrow> bool" where
  "should_roll_over st current_seq current_bytes next_ts_ms =
     (case active (rs_manifest st) of
        Some s \<Rightarrow>
          if sm_start_seq s = current_seq then False
          else (case rp_max_bytes (rs_policy st) of None \<Rightarrow> False | Some mx \<Rightarrow> current_bytes \<ge> mx) \<or>
               (case rp_epoch_ms (rs_policy st) of None \<Rightarrow> False
                | Some ep \<Rightarrow> ep > 0 \<and> next_ts_ms div ep \<noteq> sm_opened_ms s div ep)
      | None \<Rightarrow> (case rp_max_bytes (rs_policy st) of None \<Rightarrow> False | Some mx \<Rightarrow> current_bytes \<ge> mx))"

definition earlier_failure :: string where
  "earlier_failure = ''an earlier write to this ledger failed after it may have reached disk''"

definition failed_err :: "ledger \<Rightarrow> ledger_error" where
  "failed_err L = Io (l_active_path L) earlier_failure"

text \<open>Operations on the disk and the ledger together.\<close>

type_synonym 'a led = "(disk \<times> ledger, ledger_error, 'a) sres"

definition on_disk :: "(disk, 'e, 'a) sres \<Rightarrow> (disk \<times> ledger, 'e, 'a) sres" where
  "on_disk m = (\<lambda>(d, L). case m d of (r, d') \<Rightarrow> (r, (d', L)))"

definition on_ledger :: "(ledger \<Rightarrow> ledger) \<Rightarrow> (disk \<times> ledger, 'e, unit) sres" where
  "on_ledger f = (\<lambda>(d, L). (Inr (), (d, f L)))"

definition not_segmented :: string where
  "not_segmented = ''internal error: roll_over called on a non-segmented ledger''"

definition ledger_roll_over :: "ext \<Rightarrow> io \<Rightarrow> nat \<Rightarrow> unit led" where
  "ledger_roll_over x io next_ts_ms = (\<lambda>(d, L).
     case (l_location L, l_rollover L) of
       (Segmented dir, Some st) \<Rightarrow>
         (case roll_over x io dir (rs_manifest st) (l_next_seq L) next_ts_ms d of
            (Inl f, d') \<Rightarrow> (Inl (rf_err f), (d', if rf_landed f then L\<lparr>l_failed := True\<rparr> else L))
          | (Inr (m', new_path), d') \<Rightarrow>
              (case io_fault io (OpenAppend new_path) of
                 Some e \<Rightarrow> (Inl (Io new_path e), (d', L\<lparr>l_failed := True\<rparr>))
               | None \<Rightarrow> (Inr (), (d', L\<lparr>l_active_path := new_path, l_rollover := Some (st\<lparr>rs_manifest := m'\<rparr>)\<rparr>))))
     | _ \<Rightarrow> (Inl (Io (l_active_path L) not_segmented), (d, L)))"

text \<open>The bytes of a failed write that reached the file; a failed sync comes after all of them.\<close>

definition write_line :: "io \<Rightarrow> string \<Rightarrow> unit led" where
  "write_line io line = (\<lambda>(d, L).
     let p = l_active_path L; old = content d p in
     case io_fault io (WriteAll p) of
       Some e \<Rightarrow> (Inl (Io p e), (put_file p (old @ take (io_cut io) line) d, L\<lparr>l_failed := True\<rparr>))
     | None \<Rightarrow>
         (let d' = put_file p (old @ line) d in
          case (if l_sync L then io_fault io (SyncData p) else None) of
            Some e \<Rightarrow> (Inl (Io p e), (d', L\<lparr>l_failed := True\<rparr>))
          | None \<Rightarrow> (Inr (), (d', L))))"

text \<open>The rollover step of \<open>append\<close>.\<close>

definition maybe_roll_over :: "ext \<Rightarrow> io \<Rightarrow> nat \<Rightarrow> unit led" where
  "maybe_roll_over x io ts_ms = (\<lambda>(d, L).
     case l_rollover L of
       None \<Rightarrow> (Inr (), (d, L))
     | Some st \<Rightarrow>
         if should_roll_over st (l_next_seq L) (length (content d (l_active_path L))) ts_ms
         then ledger_roll_over x io ts_ms (d, L) else (Inr (), (d, L)))"

text \<open>The rebase of an empty active segment's opening time.\<close>

definition rebase_opened :: "ext \<Rightarrow> io \<Rightarrow> nat \<Rightarrow> unit led" where
  "rebase_opened x io ts_ms = (\<lambda>(d, L).
     case l_rollover L of
       None \<Rightarrow> (Inr (), (d, L))
     | Some st \<Rightarrow>
         (case active (rs_manifest st) of
            None \<Rightarrow> (Inr (), (d, L))
          | Some s \<Rightarrow>
              if sm_start_seq s = l_next_seq L \<and> sm_opened_ms s \<noteq> ts_ms then
                (let rebased = active_mut (\<lambda>s. s\<lparr>sm_opened_ms := ts_ms\<rparr>) (rs_manifest st) in
                 s_bind (case l_location L of
                     Segmented dir \<Rightarrow> on_disk (s_err atomic_err (save_manifest x io dir rebased))
                   | Single _ \<Rightarrow> s_ret ()) (\<lambda>_.
                 on_ledger (\<lambda>L. L\<lparr>l_rollover := Some (st\<lparr>rs_manifest := rebased\<rparr>)\<rparr>)) (d, L))
              else (Inr (), (d, L))))"

text \<open>The record an entry becomes and its line.\<close>

definition make_record :: "ext \<Rightarrow> ledger \<Rightarrow> entry \<Rightarrow> ledger_error + (ledger_record \<times> string)" where
  "make_record x L e =
     (let entry = e\<lparr>e_seq := l_next_seq L\<rparr>; kid = key_fingerprint x (x_public x (l_key L)) in
      res_bind (map_err Serde (x_entry_json x entry)) (\<lambda>entry_json.
      (let hash = chain_hash x entry_json (l_last_hash L); hash_hex = x_hex x hash;
           sig_b64 = x_b64 x (x_sign x (l_key L) hash) in
       res_bind (map_err Serde (x_raw x entry_json)) (\<lambda>raw_entry.
       res_bind (map_err Serde (x_record_json x \<lparr>rl_entry = raw_entry, rl_prev = l_last_hash L,
           rl_hash = hash_hex, rl_sig_b64 = sig_b64, rl_kid = Some kid\<rparr>)) (\<lambda>line.
       Inr (\<lparr>lr_entry = entry, lr_prev = l_last_hash L, lr_hash = hash_hex, lr_sig_b64 = sig_b64,
             lr_kid = Some kid\<rparr>, line))))))"

definition add_signer :: "signer_span list \<Rightarrow> string \<Rightarrow> nat \<Rightarrow> signer_span list" where
  "add_signer signers kid seq =
     (if signers = [] \<or> ss_kid (last signers) \<noteq> kid
      then signers @ [\<lparr>ss_kid = kid, ss_first_seq = seq\<rparr>] else signers)"

definition ledger_append :: "ext \<Rightarrow> io \<Rightarrow> entry \<Rightarrow> ledger_record led" where
  "ledger_append x io e =
     s_bind (s_look (\<lambda>(d, L). res_guard (\<not> l_failed L) (failed_err L))) (\<lambda>_.
     s_bind (maybe_roll_over x io (e_ts_ms e)) (\<lambda>_.
     s_bind (rebase_opened x io (e_ts_ms e)) (\<lambda>_.
     s_bind (s_look (\<lambda>(d, L). make_record x L e)) (\<lambda>(rec, line).
     s_bind (write_line io (line @ [nl])) (\<lambda>_.
     s_bind (on_ledger (\<lambda>L. L\<lparr>
         l_signers := add_signer (l_signers L) (key_fingerprint x (x_public x (l_key L))) (l_next_seq L),
         l_last_hash := lr_hash rec, l_next_seq := l_next_seq L + 1\<rparr>)) (\<lambda>_.
     s_ret rec))))))"

text \<open>The loop of \<open>append_all\<close>: each entry with the fault plan of its own write.\<close>

fun append_loop ::
  "ext \<Rightarrow> (io \<times> entry) list \<Rightarrow> disk \<times> ledger \<Rightarrow> ledger_record list \<times> ledger_error option \<times> (disk \<times> ledger)" where
  "append_loop x [] s = ([], None, s)"
| "append_loop x ((io, e) # es) s =
     (case ledger_append x io e s of
        (Inl err, s') \<Rightarrow> ([], Some err, s')
      | (Inr rec, s') \<Rightarrow> (case append_loop x es s' of (recs, err, s'') \<Rightarrow> (rec # recs, err, s'')))"

definition append_all :: "ext \<Rightarrow> (io \<times> entry) list \<Rightarrow> io \<Rightarrow> ledger_record list led" where
  "append_all x es io = (\<lambda>(d, L).
     let sync = l_sync L in
     case append_loop x es (d, L\<lparr>l_sync := False\<rparr>) of
       (recs, outcome, (d', L')) \<Rightarrow>
         (let L2 = L'\<lparr>l_sync := sync\<rparr>; p = l_active_path L2 in
          case (if sync then io_fault io (SyncData p) else None) of
            Some e \<Rightarrow> (Inl (Io p e), (d', L2\<lparr>l_failed := True\<rparr>))
          | None \<Rightarrow> (case outcome of Some err \<Rightarrow> (Inl err, (d', L2)) | None \<Rightarrow> (Inr recs, (d', L2)))))"

definition self_verify :: "ext \<Rightarrow> io \<Rightarrow> disk \<Rightarrow> ledger \<Rightarrow> ledger_error + verify_report" where
  "self_verify x io d L = res_map fst (verify_inner x io d (l_location L) (l_verifiers L) None)"

definition pubkey_hex :: "ext \<Rightarrow> ledger \<Rightarrow> string" where
  "pubkey_hex x L = x_hex x (x_public x (l_key L))"

text \<open>The non-blank lines, the reader's first error ending them.\<close>

fun collect_lines :: "(ledger_error + string) list \<Rightarrow> ledger_error + string list" where
  "collect_lines [] = Inr []"
| "collect_lines (l # ls) =
     res_bind l (\<lambda>line. if is_blank line then collect_lines ls else res_map ((#) line) (collect_lines ls))"

definition raw_records :: "ext \<Rightarrow> io \<Rightarrow> disk \<Rightarrow> ledger \<Rightarrow> ledger_error + string list" where
  "raw_records x io d L = res_bind (lines_of x io d (l_location L)) collect_lines"

record prefix =
  px_location :: location
  px_count :: nat

definition ledger_prefix :: "ledger \<Rightarrow> prefix" where
  "ledger_prefix L = \<lparr>px_location = l_location L, px_count = l_next_seq L\<rparr>"

text \<open>Up to \<open>limit\<close> non-blank lines, parsed by \<open>f\<close>; the check of the limit comes before
  the line is looked at.\<close>

fun take_lines ::
  "(string \<Rightarrow> ledger_error + 'a) \<Rightarrow> nat \<Rightarrow> (ledger_error + string) list \<Rightarrow> ledger_error + 'a list" where
  "take_lines f limit [] = Inr []"
| "take_lines f limit (l # ls) =
     (if limit = 0 then Inr []
      else res_bind l (\<lambda>line.
        if is_blank line then take_lines f limit ls
        else res_bind (f line) (\<lambda>v. res_map ((#) v) (take_lines f (limit - 1) ls))))"

definition prefix_lines_at :: "ext \<Rightarrow> io \<Rightarrow> disk \<Rightarrow> prefix \<Rightarrow> ledger_error + string list" where
  "prefix_lines_at x io d px =
     res_bind (prefix_lines x io d (px_location px)) (\<lambda>(ls, _).
     res_bind (take_lines Inr (px_count px) ls) (\<lambda>out.
     res_bind (res_guard (length out \<ge> px_count px) (Tamper (length out) (RecordsMissing (length out) (px_count px))))
       (\<lambda>_. Inr out)))"

definition read_records ::
  "ext \<Rightarrow> io \<Rightarrow> disk \<Rightarrow> ledger \<Rightarrow> nat \<Rightarrow> nat \<Rightarrow> ledger_error + json list" where
  "read_records x io d L offset limit =
     res_bind (lines_of x io d (l_location L)) (\<lambda>ls.
     take_lines (\<lambda>line. map_err Serde (x_value x line)) limit (drop offset ls))"

definition read_raw_records ::
  "ext \<Rightarrow> io \<Rightarrow> disk \<Rightarrow> ledger \<Rightarrow> nat \<Rightarrow> nat \<Rightarrow> ledger_error + string list" where
  "read_raw_records x io d L offset limit =
     res_bind (lines_of x io d (l_location L)) (\<lambda>ls.
     take_lines (\<lambda>line. map_err Serde (x_raw x line)) limit (drop offset ls))"

section \<open>What the code relies on\<close>

definition sig_law :: "ext \<Rightarrow> bool" where
  "sig_law x \<longleftrightarrow> (\<forall>b. x_unb64 x (x_b64 x b) = Some b) \<and>
     (\<forall>k m. length (x_sign x k m) = 64 \<and> x_verify x (x_public x k) m (x_sign x k m))"

text \<open>An entry's text parses back to its sequence number and is a raw value as it stands; a
  record's line parses back, is one line of UTF-8 and begins like a record.\<close>

definition record_law :: "ext \<Rightarrow> bool" where
  "record_law x \<longleftrightarrow>
     (\<forall>e s. x_entry_json x e = Inr s \<longrightarrow> (\<exists>e'. x_parse_entry x s = Inr e' \<and> e_seq e' = e_seq e)) \<and>
     (\<forall>e s s'. x_entry_json x e = Inr s \<longrightarrow> x_raw x s = Inr s' \<longrightarrow> s' = s) \<and>
     (\<forall>r l. x_raw x (rl_entry r) = Inr (rl_entry r) \<longrightarrow> x_record_json x r = Inr l \<longrightarrow>
        x_parse_record x l = Inr r \<and> nl \<notin> set l \<and> l \<noteq> [] \<and> hd l = CHR ''{'' \<and> last l \<noteq> CHR 0x0D \<and> utf8_ok l)"

definition ext_ok :: "ext \<Rightarrow> bool" where
  "ext_ok x \<longleftrightarrow> hex_ok x \<and> sha_ok x \<and> sig_law x \<and> record_law x \<and> manifest_law x"

section \<open>Verification of a longer log\<close>

lemma add_signer_admit:
  "successor signers kid = None \<Longrightarrow> admit_signer signers seq kid = Inr (add_signer signers kid seq)"
  by (auto simp: admit_signer_def add_signer_def)

lemma position_append:
  "position P (xs @ ys) = (case position P xs of Some i \<Rightarrow> Some i | None \<Rightarrow> map_option ((+) (length xs)) (position P ys))"
proof (induction xs)
  case Nil
  show ?case by (cases "position P ys") simp_all
next
  case (Cons v xs)
  then show ?case by (cases "position P ys") (auto split: option.splits)
qed

lemma successor_add_signer:
  assumes "successor signers kid = None"
  shows "successor (add_signer signers kid seq) kid = None"
proof (cases "signers = [] \<or> ss_kid (last signers) \<noteq> kid")
  case True
  have "position (\<lambda>s. ss_kid s = kid) signers \<noteq> Some (length signers - 1)"
  proof
    assume "position (\<lambda>s. ss_kid s = kid) signers = Some (length signers - 1)"
    from position_Some [OF this] have "signers \<noteq> []" "ss_kid (signers ! (length signers - 1)) = kid" by auto
    with True show False by (simp add: last_conv_nth)
  qed
  with assms have "kid \<notin> ss_kid ` set signers" by (auto simp: successor_None)
  then have "position (\<lambda>s. ss_kid s = kid) signers = None" by (auto simp: position_None)
  with True show ?thesis by (simp add: add_signer_def successor_def position_append)
qed (use assms in \<open>simp add: add_signer_def\<close>)

lemma find_append: "List.find P (xs @ ys) = (case List.find P xs of None \<Rightarrow> List.find P ys | Some v \<Rightarrow> Some v)"
  by (induction xs) auto

lemma signer_of_more_keys: "signer_of x keys hash sig kid = Inr s \<Longrightarrow> signer_of x (keys @ ks) hash sig kid = Inr s"
  by (auto simp: signer_of_def find_append split: option.splits if_splits)

lemma verify_line_more_keys:
  "keys \<noteq> [] \<Longrightarrow> verify_line x keys i st l = Inr st' \<Longrightarrow> verify_line x (keys @ ks) i st l = Inr st'"
  by (auto simp: verify_line_def Let_def res_simps check_signer_def signer_of_more_keys split: if_splits)

lemma verify_loop_more_keys:
  "keys \<noteq> [] \<Longrightarrow> verify_loop x keys i st ls = Inr st' \<Longrightarrow> verify_loop x (keys @ ks) i st ls = Inr st'"
proof (induction ls arbitrary: i st)
  case (Cons l ls)
  then obtain k st1 where "l = Inr k" "verify_line x keys i st k = Inr st1"
      "verify_loop x keys (Suc i) st1 ls = Inr st'"
    by (auto simp: res_simps)
  with Cons verify_line_more_keys [of keys x i st k st1 ks] show ?case by simp
qed simp

lemma verify_lines_more_keys:
  "keys \<noteq> [] \<Longrightarrow> verify_lines x ls keys sink = Inr rw \<Longrightarrow> verify_lines x ls (keys @ ks) sink = Inr rw"
  by (auto simp: verify_lines_def res_simps report_of_def dest: verify_loop_more_keys)

lemma verify_lines_snoc:
  assumes "verify_lines x (map Inr ls) keys None = Inr (rep, None)" and "\<not> is_blank l"
    and "x_parse_record x l = Inr r" and "x_parse_entry x (rl_entry r) = Inr e" and "e_seq e = vr_entries rep"
    and "rl_prev r = unwrap_or genesis (vr_root rep)"
    and "rl_hash r = x_hex x (chain_hash x (rl_entry r) (rl_prev r))" and "keys \<noteq> []"
    and "check_signer x (vr_signers rep) keys (vr_entries rep) (chain_hash x (rl_entry r) (rl_prev r))
      (rl_sig_b64 r) (rl_kid r) = Inr signers"
  shows "verify_lines x (map Inr (ls @ [l])) keys None =
    Inr (\<lparr>vr_entries = vr_entries rep + 1, vr_root = Some (rl_hash r), vr_signatures_checked = True,
          vr_signers = signers\<rparr>, None)"
proof -
  from assms(1) obtain st where st: "verify_loop x keys 0 (init_vstate None) (map Inr ls) = Inr st"
      "rep = report_of keys st" "vs_window st = None"
    by (auto simp: verify_lines_def res_simps)
  from verify_lines_chain(2,3) [OF assms(1)] verify_loop_chained [OF st(1)] st(2)
  have c: "vr_entries rep = vs_count st" "unwrap_or genesis (vr_root rep) = vs_prev st" "vr_signers rep = vs_signers st"
    by (auto simp: report_of_def init_vstate_def)
  have "verify_line x keys (length ls) st l =
      Inr \<lparr>vs_prev = rl_hash r, vs_count = vs_count st + 1, vs_signers = signers, vs_window = None\<rparr>"
    using assms(2-) c st(3) by (simp add: verify_line_def map_err_def collect_window_def)
  with st c assms(8) show ?thesis
    by (simp add: verify_lines_def verify_loop_append report_of_def)
qed

lemma hex_find:
  assumes "hex_ok x" and "k \<in> set keys"
  shows "List.find (\<lambda>k'. key_fingerprint x k' = key_fingerprint x k) keys = Some k"
  using assms(2) by (induction keys) (auto simp: key_fingerprint_def x_hex_inj [OF assms(1)])

text \<open>The line of a log that holds an entry: its record is the entry's exact text.\<close>

definition carries :: "ext \<Rightarrow> string \<Rightarrow> entry \<Rightarrow> bool" where
  "carries x line e \<longleftrightarrow> (\<exists>r. x_parse_record x line = Inr r \<and> x_entry_json x e = Inr (rl_entry r))"

lemma make_record_carries:
  assumes "ext_ok x" and "make_record x L e = Inr (rec, line)"
  shows "carries x line (lr_entry rec) \<and> lr_entry rec = e\<lparr>e_seq := l_next_seq L\<rparr>"
proof -
  from assms(2) obtain s s' h g k where s: "x_entry_json x (e\<lparr>e_seq := l_next_seq L\<rparr>) = Inr s" "x_raw x s = Inr s'"
    and r: "x_record_json x \<lparr>rl_entry = s', rl_prev = l_last_hash L, rl_hash = h, rl_sig_b64 = g, rl_kid = k\<rparr> = Inr line"
      "lr_entry rec = e\<lparr>e_seq := l_next_seq L\<rparr>"
    by (auto simp: make_record_def Let_def res_simps)
  let ?r = "\<lparr>rl_entry = s', rl_prev = l_last_hash L, rl_hash = h, rl_sig_b64 = g, rl_kid = k\<rparr>"
  have laws: "record_law x" using assms(1) by (simp add: ext_ok_def)
  then have "s' = s" using s unfolding record_law_def by blast
  with s have "x_raw x (rl_entry ?r) = Inr (rl_entry ?r)" by simp
  with laws r(1) have "x_parse_record x line = Inr ?r" unfolding record_law_def by blast
  with s r(2) \<open>s' = s\<close> show ?thesis by (simp add: carries_def)
qed

text \<open>A record as the ledger makes it verifies after the log it was made on.\<close>

lemma make_record_verifies:
  assumes "ext_ok x" and "make_record x L e = Inr (rec, line)"
    and "verify_lines x (map Inr ls) (l_verifiers L) None = Inr (rep, None)"
    and "vr_entries rep = l_next_seq L" and "unwrap_or genesis (vr_root rep) = l_last_hash L"
    and "vr_signers rep = l_signers L" and "x_public x (l_key L) \<in> set (l_verifiers L)"
    and "successor (l_signers L) (key_fingerprint x (x_public x (l_key L))) = None"
  shows "verify_lines x (map Inr (ls @ [line])) (l_verifiers L) None =
    Inr (\<lparr>vr_entries = l_next_seq L + 1, vr_root = Some (lr_hash rec), vr_signatures_checked = True,
      vr_signers = add_signer (l_signers L) (key_fingerprint x (x_public x (l_key L))) (l_next_seq L)\<rparr>, None) \<and>
    nl \<notin> set line \<and> hd line = CHR ''{'' \<and> line \<noteq> [] \<and> strip_cr line = line \<and> utf8_ok line \<and>
    lr_entry rec = e\<lparr>e_seq := l_next_seq L\<rparr> \<and> lr_prev rec = l_last_hash L"
proof -
  let ?kid = "key_fingerprint x (x_public x (l_key L))"
  from assms(2) obtain s s' where s: "x_entry_json x (e\<lparr>e_seq := l_next_seq L\<rparr>) = Inr s" "x_raw x s = Inr s'"
    and rec: "lr_hash rec = x_hex x (chain_hash x s (l_last_hash L))" "lr_entry rec = e\<lparr>e_seq := l_next_seq L\<rparr>"
      "lr_prev rec = l_last_hash L"
    and j: "x_record_json x \<lparr>rl_entry = s', rl_prev = l_last_hash L, rl_hash = lr_hash rec,
      rl_sig_b64 = x_b64 x (x_sign x (l_key L) (chain_hash x s (l_last_hash L))), rl_kid = Some ?kid\<rparr> = Inr line"
    by (auto simp: make_record_def Let_def res_simps)
  note laws = assms(1) [unfolded ext_ok_def sig_law_def record_law_def]
  have line_law: "x_raw x (rl_entry r) = Inr (rl_entry r) \<Longrightarrow> x_record_json x r = Inr l \<Longrightarrow>
      x_parse_record x l = Inr r \<and> nl \<notin> set l \<and> l \<noteq> [] \<and> hd l = CHR ''{'' \<and> last l \<noteq> CHR 0x0D \<and> utf8_ok l" for r l
    using laws by blast
  have b64: "x_unb64 x (x_b64 x b) = Some b" "length (x_sign x k m) = 64"
      "x_verify x (x_public x k) m (x_sign x k m)" and hx: "hex_ok x" for b k m
    using laws by blast+
  have ss: "s' = s" using laws s by blast
  have "\<exists>e'. x_parse_entry x s = Inr e' \<and> e_seq e' = e_seq (e\<lparr>e_seq := l_next_seq L\<rparr>)" using laws s(1) by blast
  then obtain e' where e': "x_parse_entry x s = Inr e'" "e_seq e' = l_next_seq L" by auto
  let ?r = "\<lparr>rl_entry = s, rl_prev = l_last_hash L, rl_hash = lr_hash rec,
      rl_sig_b64 = x_b64 x (x_sign x (l_key L) (chain_hash x s (l_last_hash L))), rl_kid = Some ?kid\<rparr>"
  have p: "x_parse_record x line = Inr ?r" "nl \<notin> set line" "line \<noteq> []" "hd line = CHR ''{''"
      "last line \<noteq> CHR 0x0D" "utf8_ok line"
    using line_law [of ?r line] j s(2) ss by simp_all
  then have nb: "\<not> is_blank line" by (metis is_blank_brace list.collapse)
  have "signer_of x (l_verifiers L) (chain_hash x s (l_last_hash L)) (rl_sig_b64 ?r) (Some ?kid) = Inr ?kid"
    using hex_find [OF _ assms(7)] b64 hx by (simp add: signer_of_def)
  then have cs: "check_signer x (vr_signers rep) (l_verifiers L) (vr_entries rep) (chain_hash x (rl_entry ?r) (rl_prev ?r))
      (rl_sig_b64 ?r) (rl_kid ?r) = Inr (add_signer (l_signers L) ?kid (l_next_seq L))"
    using assms(4,6,8) by (simp add: check_signer_def add_signer_admit)
  from assms(7) have ne: "l_verifiers L \<noteq> []" by auto
  from verify_lines_snoc [OF assms(3) nb p(1) _ _ _ _ ne cs] e' assms(4,5) rec p show ?thesis
    by (simp add: strip_cr_def)
qed

section \<open>The invariant\<close>

text \<open>The manifest on disk names the files the one in memory names; it may be ahead of it by the
  opening time of the active segment.\<close>

definition place_ok :: "ext \<Rightarrow> disk \<Rightarrow> ledger \<Rightarrow> bool" where
  "place_ok x d L \<longleftrightarrow>
     (case (l_location L, l_rollover L) of
        (Single p, None) \<Rightarrow> l_active_path L = p
      | (Segmented dir, Some st) \<Rightarrow>
          manifest_ok (rs_manifest st) \<and> distinct (map sm_file (mf_segments (rs_manifest st))) \<and>
          (\<exists>m. load_manifest x no_faults d dir = Inr (Some m) \<and> manifest_ok m \<and>
             map sm_file (mf_segments m) = map sm_file (mf_segments (rs_manifest st))) \<and>
          l_active_path L = join dir (sm_file (last (mf_segments (rs_manifest st))))
      | _ \<Rightarrow> False)"

definition key_ok :: "ext \<Rightarrow> ledger \<Rightarrow> bool" where
  "key_ok x L \<longleftrightarrow> x_public x (l_key L) \<in> set (l_verifiers L) \<and>
     successor (l_signers L) (key_fingerprint x (x_public x (l_key L))) = None"

definition head_of :: "ledger \<Rightarrow> verify_report \<Rightarrow> bool" where
  "head_of L rep \<longleftrightarrow> vr_entries rep = l_next_seq L \<and> unwrap_or genesis (vr_root rep) = l_last_hash L \<and>
     vr_signers rep = l_signers L"

definition ledger_inv :: "ext \<Rightarrow> disk \<Rightarrow> ledger \<Rightarrow> bool" where
  "ledger_inv x d L \<longleftrightarrow> place_ok x d L \<and> key_ok x L \<and>
     (\<exists>rep. verify_inner x no_faults d (l_location L) (l_verifiers L) None = Inr (rep, None) \<and> head_of L rep)"

text \<open>A directory whose manifest names no file twice.\<close>

definition names_ok :: "ext \<Rightarrow> disk \<Rightarrow> location \<Rightarrow> bool" where
  "names_ok x d loc \<longleftrightarrow>
     (case loc of Single _ \<Rightarrow> True
      | Segmented dir \<Rightarrow> \<exists>m. load_manifest x no_faults d dir = Inr (Some m) \<and> distinct (map sm_file (mf_segments m)))"

lemma place_names: "place_ok x d L \<Longrightarrow> names_ok x d (l_location L)"
  by (cases "l_location L") (auto simp: place_ok_def names_ok_def split: option.splits)

text \<open>The stored lines of the log behind a ledger.\<close>

definition log_lines :: "ext \<Rightarrow> disk \<Rightarrow> ledger \<Rightarrow> string list" where
  "log_lines x d L = (case prefix_lines x no_faults d (l_location L) of Inl _ \<Rightarrow> [] | Inr (ls, _) \<Rightarrow> map projr ls)"

lemma seg_files_names: "map sm_file (mf_segments m) = map sm_file (mf_segments m') \<Longrightarrow> seg_files dir m = seg_files dir m'"
proof -
  have "seg_files dir k = map (join dir) (map sm_file (mf_segments k))" for k by (simp add: seg_files_def)
  then show "map sm_file (mf_segments m) = map sm_file (mf_segments m') \<Longrightarrow> ?thesis" by metis
qed

lemma place_resolved:
  assumes "place_ok x d L" and "resolved_paths x no_faults d (l_location L) = Inr paths"
  shows "\<exists>ps. paths = ps @ [l_active_path L] \<and> l_active_path L \<notin> set ps"
proof (cases "l_location L")
  case (Single p)
  with assms show ?thesis by (auto simp: place_ok_def split: option.splits)
next
  case (Segmented dir)
  with assms(1) obtain st m where st: "l_rollover L = Some st" "manifest_ok (rs_manifest st)"
      "distinct (map sm_file (mf_segments (rs_manifest st)))" "load_manifest x no_faults d dir = Inr (Some m)"
      "map sm_file (mf_segments m) = map sm_file (mf_segments (rs_manifest st))"
      "l_active_path L = join dir (sm_file (last (mf_segments (rs_manifest st))))"
    by (auto simp: place_ok_def split: option.splits)
  from st(2) obtain ss s where ss: "mf_segments (rs_manifest st) = ss @ [s]" by (auto simp: manifest_ok_iff)
  from assms(2) Segmented st(4,5) have "paths = seg_files dir (rs_manifest st)"
    by (auto simp: segment_paths_eq intro: seg_files_names)
  with ss st(3,6) show ?thesis by (auto simp: seg_files_def)
qed

lemma verify_inner_files:
  assumes "place_ok x d L" and "verify_inner x no_faults d (l_location L) keys sink = Inr (rep, w)"
  shows "\<exists>ps a. resolved_paths x no_faults d (l_location L) = Inr (ps @ [l_active_path L]) \<and>
    l_active_path L \<notin> set ps \<and> readable no_faults d (ps @ [l_active_path L]) \<and>
    file_at d (l_active_path L) = Some a \<and> ends_nl a \<and> (\<forall>l \<in> set (file_lines d ps @ read_lines a). utf8_ok l) \<and>
    verify_lines x (map Inr (file_lines d ps @ read_lines a)) keys sink = Inr (rep, w) \<and>
    log_lines x d L = file_lines d ps @ read_lines a"
proof -
  from assms(2) obtain ps p a t where h: "resolved_paths x no_faults d (l_location L) = Inr (ps @ [p])"
      "readable no_faults d (ps @ [p])" "file_at d p = Some (a @ t)" "ends_nl a" "nl \<notin> set t"
      "None = (if t = [] then None else Some (p, length a))"
      "\<forall>l \<in> set (file_lines d ps @ read_lines a). utf8_ok l"
      "verify_lines x (map Inr (file_lines d ps @ read_lines a)) keys sink = Inr (rep, w)"
    unfolding verify_inner_iff verify_prefix_iff by blast
  then have t: "t = []" by (auto split: if_splits)
  from place_resolved [OF assms(1) h(1)] have p: "p = l_active_path L" "p \<notin> set ps" by auto
  have "log_lines x d L = file_lines d ps @ read_lines a"
    using prefix_lines_eq [OF h(1-5,7)] by (simp add: log_lines_def comp_def)
  with h t p show ?thesis by (intro exI [of _ ps] exI [of _ a]) simp
qed

lemma place_ok_put:
  assumes "place_ok x d L" and "p = l_active_path L"
  shows "place_ok x (put_file p b d) L"
proof (cases "l_location L")
  case (Segmented dir)
  with assms(1) obtain st where st: "l_rollover L = Some st" "manifest_ok (rs_manifest st)"
      "l_active_path L = join dir (sm_file (last (mf_segments (rs_manifest st))))"
    by (auto simp: place_ok_def split: option.splits)
  have "mf_segments (rs_manifest st) \<noteq> []" using st(2) by (auto simp: manifest_ok_iff)
  then have "p \<in> set (seg_files dir (rs_manifest st))" using st(3) assms(2) by (auto simp: seg_files_def)
  then have "p \<noteq> join dir manifest_file" using manifest_not_segment [OF st(2), of dir] by metis
  then have "load_manifest x no_faults (put_file p b d) dir = load_manifest x no_faults d dir"
    by (intro load_manifest_cong) simp
  with assms(1) Segmented st show ?thesis by (simp add: place_ok_def)
qed (use assms in \<open>auto simp: place_ok_def split: option.splits\<close>)

text \<open>Writing whole lines and a fragment behind a verified log.\<close>

lemma verify_prefix_extend:
  assumes "place_ok x d L" and "verify_inner x no_faults d (l_location L) keys None = Inr (rep0, None)"
    and "verify_lines x (map Inr (log_lines x d L @ ls)) keys None = Inr (rep, None)"
    and "ends_nl b" and "read_lines b = ls" and "\<forall>l \<in> set ls. utf8_ok l" and "nl \<notin> set t"
    and "d' = put_file (l_active_path L) (content d (l_active_path L) @ b @ t) d"
  shows "verify_prefix x no_faults d' (l_location L) keys None =
    Inr (rep, None, if t = [] then None else Some (l_active_path L, length (content d (l_active_path L) @ b))) \<and>
    (l_location L' = l_location L \<longrightarrow> log_lines x d' L' = log_lines x d L @ ls)"
proof -
  let ?p = "l_active_path L"
  from verify_inner_files [OF assms(1,2)] obtain ps a where
    f: "resolved_paths x no_faults d (l_location L) = Inr (ps @ [?p])" "?p \<notin> set ps"
      "readable no_faults d (ps @ [?p])" "file_at d ?p = Some a" "ends_nl a"
      "\<forall>l \<in> set (file_lines d ps @ read_lines a). utf8_ok l" "log_lines x d L = file_lines d ps @ read_lines a"
    by blast
  have c: "content d ?p = a" using f(4) by (simp add: content_def)
  have rl: "read_lines (a @ b) = read_lines a @ ls" using f(5) assms(5) by (simp add: read_lines_append)
  have vp: "verify_prefix x no_faults (put_file ?p ((a @ b) @ t) d) (l_location L) keys None =
      Inr (rep, None, if t = [] then None else Some (?p, length (a @ b)))"
    by (rule verify_prefix_rewrite [OF f(1,3,2) _ assms(7)]) (use f assms rl in auto)
  have d': "d' = put_file ?p ((a @ b) @ t) d" using assms(8) c by simp
  have "file_lines d' ps = file_lines d ps" unfolding d' using f(2) by (intro file_lines_cong) auto
  moreover have "resolved_paths x no_faults d' (l_location L) = Inr (ps @ [?p])"
    unfolding d' using resolved_paths_put [OF file_at_path_exists [OF f(4)] resolved_not_manifest [OF f(1)]] f(1) by simp
  moreover have "\<forall>l \<in> set (file_lines d' ps @ read_lines (a @ b)). utf8_ok l"
    using calculation(1) f(6) assms(6) rl by auto
  moreover have "readable no_faults d' (ps @ [?p])" "file_at d' ?p = Some ((a @ b) @ t)" "ends_nl (a @ b)"
    unfolding d' using readable_put [OF f(3)] f(5) assms(4) by auto
  ultimately have "prefix_lines x no_faults d' (l_location L) =
      Inr (map Inr (log_lines x d L @ ls), if t = [] then None else Some (?p, length (a @ b)))"
    using prefix_lines_eq [of x no_faults d' "l_location L" ps ?p "a @ b" t] f(7) assms(7) rl by simp
  then have "log_lines x d' L' = log_lines x d L @ ls" if "l_location L' = l_location L"
    using that by (simp add: log_lines_def comp_def)
  with vp d' c show ?thesis by simp
qed

section \<open>Rollover and rebase\<close>

lemma no_fault_read [simp]: "io_fault no_faults op = None"
  by (simp add: no_faults_def)

text \<open>A directory whose named segments keep their bytes, and gain at most an empty last one, holds
  the same log.\<close>

lemma verify_inner_rolled:
  assumes "load_manifest x no_faults d dir = Inr (Some m)"
    and "verify_inner x no_faults d (Segmented dir) keys None = Inr (rep, None)"
    and "load_manifest x no_faults d' dir = Inr (Some m')"
    and "\<forall>q \<in> set (seg_files dir m). file_at d' q = file_at d q"
    and "seg_files dir m' = seg_files dir m \<or>
      (\<exists>p. file_at d' p = Some [] \<and> seg_files dir m' = seg_files dir m @ [p])"
  shows "verify_inner x no_faults d' (Segmented dir) keys None = Inr (rep, None) \<and>
    prefix_lines x no_faults d' (Segmented dir) = prefix_lines x no_faults d (Segmented dir)"
proof -
  from assms(2) obtain ps p a t where h: "segment_paths x no_faults d dir = Inr (ps @ [p])"
      "readable no_faults d (ps @ [p])" "file_at d p = Some (a @ t)" "ends_nl a" "nl \<notin> set t"
      "None = (if t = [] then None else Some (p, length a))"
      "\<forall>l \<in> set (file_lines d ps @ read_lines a). utf8_ok l"
      "verify_lines x (map Inr (file_lines d ps @ read_lines a)) keys None = Inr (rep, None)"
    unfolding verify_inner_iff verify_prefix_iff by auto
  then have t: "t = []" by (auto split: if_splits)
  from h(1) assms(1) have sg: "seg_files dir m = ps @ [p]" by (auto simp: segment_paths_eq)
  have fl: "file_lines d' ps = file_lines d ps" using assms(4) sg by (intro file_lines_cong) simp
  have ca: "content d' p = a" "file_at d' p = Some a" using assms(4) sg h(3) t by (simp_all add: content_def)
  have rd: "readable no_faults d' (ps @ [p])" using assms(4) sg h(2) by (simp add: readable_def)
  then have pe: "\<forall>q \<in> set (ps @ [p]). path_exists d' q" by (simp add: readable_def path_exists_def)
  note pl0 = prefix_lines_eq [OF _ h(2-5,7), of x "Segmented dir"]
  have "\<exists>ps' p' a'. segment_paths x no_faults d' dir = Inr (ps' @ [p']) \<and> readable no_faults d' (ps' @ [p']) \<and>
      file_at d' p' = Some (a' @ []) \<and> ends_nl a' \<and> file_lines d' ps' @ read_lines a' = file_lines d ps @ read_lines a"
    using assms(5)
  proof
    assume "seg_files dir m' = seg_files dir m"
    with sg pe assms(3) have "segment_paths x no_faults d' dir = Inr (ps @ [p])" by (auto simp: segment_paths_eq)
    with rd ca fl h(4) show ?thesis by (intro exI [of _ ps] exI [of _ p] exI [of _ a]) simp
  next
    assume "\<exists>q. file_at d' q = Some [] \<and> seg_files dir m' = seg_files dir m @ [q]"
    then obtain q where q: "file_at d' q = Some []" "seg_files dir m' = (ps @ [p]) @ [q]" using sg by auto
    then have "segment_paths x no_faults d' dir = Inr ((ps @ [p]) @ [q])"
      using pe assms(3) by (auto simp: segment_paths_eq path_exists_def)
    moreover have "readable no_faults d' ((ps @ [p]) @ [q])" using rd q by (simp add: readable_def)
    ultimately show ?thesis using q(1) ca(1) fl
      by - (rule exI [of _ "ps @ [p]"], rule exI [of _ q], rule exI [of _ "[]"], simp)
  qed
  then obtain ps' p' a' where n: "resolved_paths x no_faults d' (Segmented dir) = Inr (ps' @ [p'])"
      "readable no_faults d' (ps' @ [p'])" "file_at d' p' = Some (a' @ [])" "ends_nl a'"
      "file_lines d' ps' @ read_lines a' = file_lines d ps @ read_lines a"
    by auto
  have pl: "prefix_lines x no_faults d' (Segmented dir) = Inr (map Inr (file_lines d ps @ read_lines a), None)"
    using prefix_lines_eq [OF n(1-4)] n(5) h(7) by simp
  moreover have "prefix_lines x no_faults d (Segmented dir) = Inr (map Inr (file_lines d ps @ read_lines a), None)"
    using pl0 h(1) t by simp
  ultimately show ?thesis using h(8) by (simp add: verify_inner_def verify_prefix_def)
qed

lemma place_segmented:
  "place_ok x d L \<Longrightarrow> l_rollover L = Some st \<Longrightarrow> \<exists>dir. l_location L = Segmented dir \<and> manifest_ok (rs_manifest st) \<and>
    distinct (map sm_file (mf_segments (rs_manifest st))) \<and>
    (\<exists>m. load_manifest x no_faults d dir = Inr (Some m) \<and> manifest_ok m \<and>
       map sm_file (mf_segments m) = map sm_file (mf_segments (rs_manifest st))) \<and>
    l_active_path L = join dir (sm_file (last (mf_segments (rs_manifest st))))"
  by (cases "l_location L") (auto simp: place_ok_def)

lemma seg_files_distinct: "distinct (seg_files dir m) \<longleftrightarrow> distinct (map sm_file (mf_segments m))"
proof -
  have "seg_files dir m = map (join dir) (map sm_file (mf_segments m))" by (simp add: seg_files_def)
  then show ?thesis by (simp only: distinct_map) (simp add: inj_on_def)
qed

lemma last_seg_file: "mf_segments m \<noteq> [] \<Longrightarrow> last (seg_files dir m) = join dir (sm_file (last (mf_segments m)))"
  by (simp add: seg_files_def last_map)

lemma manifest_ok_nonempty: "manifest_ok m \<Longrightarrow> mf_segments m \<noteq> []"
  by (auto simp: manifest_ok_iff)

lemma segments_exist:
  assumes "verify_inner x no_faults d (Segmented dir) keys None = Inr r"
    and "load_manifest x no_faults d dir = Inr (Some m)" and "q \<in> set (seg_files dir m)"
  shows "path_exists d q"
proof -
  obtain rep w where "r = (rep, w)" by force
  with assms(1) have "verify_inner x no_faults d (Segmented dir) keys None = Inr (rep, w)" by simp
  then have "\<exists>ps. segment_paths x no_faults d dir = Inr ps"
    unfolding verify_inner_iff verify_prefix_iff by auto
  with assms(2,3) show ?thesis by (auto simp: segment_paths_eq)
qed

text \<open>Any outcome of a rollover leaves the log, and a success the invariant.\<close>

lemma ledger_roll_over_inv:
  assumes "ext_ok x" and "ledger_inv x d L" and "l_rollover L = Some st"
    and "ledger_roll_over x io ts (d, L) = (r, (d', L'))"
  shows "verify_inner x no_faults d' (l_location L) (l_verifiers L) None =
      verify_inner x no_faults d (l_location L) (l_verifiers L) None \<and>
    log_lines x d' L = log_lines x d L \<and> names_ok x d' (l_location L) \<and>
    (isl r \<longrightarrow> L' = L\<lparr>l_failed := True\<rparr> \<or> L' = L \<and> ledger_inv x d' L) \<and>
    (r = Inr () \<longrightarrow> (\<exists>st' p. L' = L\<lparr>l_active_path := p, l_rollover := Some st'\<rparr>) \<and> ledger_inv x d' L')"
proof -
  from assms(2) obtain rep where pl: "place_ok x d L" and key: "key_ok x L" and
    v: "verify_inner x no_faults d (l_location L) (l_verifiers L) None = Inr (rep, None)" and hd: "head_of L rep"
    by (auto simp: ledger_inv_def)
  let ?m = "rs_manifest st"
  from place_segmented [OF pl assms(3)] obtain dir m0 where loc: "l_location L = Segmented dir"
    and m: "manifest_ok ?m" "distinct (map sm_file (mf_segments ?m))" "load_manifest x no_faults d dir = Inr (Some m0)"
      "manifest_ok m0" "map sm_file (mf_segments m0) = map sm_file (mf_segments ?m)" "l_active_path L = join dir (sm_file (last (mf_segments ?m)))" by blast
  have sf: "seg_files dir m0 = seg_files dir ?m" by (rule seg_files_names [OF m(5)])
  have ml: "manifest_law x" using assms(1) by (simp add: ext_ok_def)
  obtain r1 d1 where ro: "roll_over x io dir ?m (l_next_seq L) ts d = (r1, d1)" by force
  from roll_over_spec [OF ml m(1,3) ro m(4)] obtain m' where m': "load_manifest x no_faults d1 dir = Inr (Some m')"
    "manifest_ok m'" "\<forall>q \<in> set (seg_files dir ?m). file_at d1 q = file_at d q"
    "m' = m0 \<or> (\<exists>p. \<not> path_exists d p \<and> file_at d1 p = Some [] \<and> seg_files dir m' = seg_files dir ?m @ [p])"
    "case r1 of
       Inr (m'', p) \<Rightarrow> m'' = m' \<and> \<not> path_exists d p \<and> file_at d1 p = Some [] \<and>
         seg_files dir m' = seg_files dir ?m @ [p]
     | Inl f \<Rightarrow> if rf_landed f then \<exists>p. \<not> path_exists d p \<and> file_at d1 p = Some [] \<and>
           seg_files dir m' = seg_files dir ?m @ [p] else m' = m0" by blast
  have d1: "d1 = d'" using assms(4) ro loc assms(3)
    by (auto simp: ledger_roll_over_def split: sum.splits option.splits prod.splits)
  have same: "verify_inner x no_faults d' (Segmented dir) (l_verifiers L) None = Inr (rep, None) \<and>
      prefix_lines x no_faults d' (Segmented dir) = prefix_lines x no_faults d (Segmented dir)"
    using verify_inner_rolled [OF m(3) v [unfolded loc], of d' m'] m' d1 sf by auto
  then have ll: "log_lines x d' K = log_lines x d L" if "l_location K = l_location L" for K
    using loc that by (simp add: log_lines_def)
  have fails: "ledger_inv x d' L" if "m' = m0"
    using that pl key hd same loc m m' d1 assms(3) by (auto simp: ledger_inv_def place_ok_def)
  have dist: "distinct (map sm_file (mf_segments m'))"
    if "\<not> path_exists d p" "seg_files dir m' = seg_files dir ?m @ [p]" for p
  proof -
    have "p \<notin> set (seg_files dir ?m)" using that(1) segments_exist [OF v [unfolded loc] m(3)] sf by auto
    with that(2) m(2) show ?thesis using seg_files_distinct [of dir m'] seg_files_distinct [of dir ?m] by simp
  qed
  have names: "names_ok x d' (l_location L)"
    using m'(1,4) dist m(2,5) loc d1 by (auto simp: names_ok_def)
  have succ: "ledger_inv x d' (L\<lparr>l_active_path := p, l_rollover := Some (st\<lparr>rs_manifest := m'\<rparr>)\<rparr>)"
    if "\<not> path_exists d p" "seg_files dir m' = seg_files dir ?m @ [p]" for p
  proof -
    note dist [OF that]
    moreover have "p = join dir (sm_file (last (mf_segments m')))"
      using last_seg_file [OF manifest_ok_nonempty [OF m'(2)], of dir] that(2) by simp
    ultimately show ?thesis using same key hd loc m' d1
      by (auto simp: ledger_inv_def place_ok_def key_ok_def head_of_def)
  qed
  show ?thesis
  proof (cases r1)
    case (Inl f)
    with ro loc assms(3,4) have "r = Inl (rf_err f)" "L' = (if rf_landed f then L\<lparr>l_failed := True\<rparr> else L)"
      by (auto simp: ledger_roll_over_def)
    with Inl m'(5) same ll names fails v loc show ?thesis by auto
  next
    case (Inr mp)
    obtain m2 p where mp: "mp = (m2, p)" by force
    with Inr m'(5) have f: "m2 = m'" "\<not> path_exists d p" "seg_files dir m' = seg_files dir ?m @ [p]" by auto
    show ?thesis
    proof (cases "io_fault io (OpenAppend p)")
      case (Some e)
      with ro loc assms(3,4) Inr mp have "isl r" "L' = L\<lparr>l_failed := True\<rparr>"
        by (auto simp: ledger_roll_over_def)
      with same ll names v loc show ?thesis by auto
    next
      case None
      with ro loc assms(3,4) Inr mp have "r = Inr ()"
          "L' = L\<lparr>l_active_path := p, l_rollover := Some (st\<lparr>rs_manifest := m2\<rparr>)\<rparr>"
        by (auto simp: ledger_roll_over_def)
      with same ll names v loc f succ [OF f(2,3)] show ?thesis by auto
    qed
  qed
qed

lemma manifest_ok_upd_active:
  assumes "manifest_ok m" and "\<And>s. sm_file (f s) = sm_file s \<and> sm_start_seq (f s) = sm_start_seq s \<and> sm_end_seq (f s) = sm_end_seq s"
  shows "manifest_ok (active_mut f m) \<and> map sm_file (mf_segments (active_mut f m)) = map sm_file (mf_segments m)"
proof -
  from assms(1) obtain ss s where m: "mf_segments m = ss @ [s]" "\<forall>t \<in> set ss. sm_end_seq t \<noteq> None"
      "sm_end_seq s = None" "sm_start_seq (hd (ss @ [s])) = 0" "contiguous (ss @ [s]) = Inr ()"
      "\<forall>s \<in> set (mf_segments m). \<exists>i. validate_segment_filename (sm_file s) = Inr i"
    by (auto simp: manifest_ok_iff)
  have seg: "mf_segments (active_mut f m) = ss @ [f s]" using m upd_first_open_snoc by (simp add: active_mut_def)
  have "contiguous (ss @ [f s]) = Inr ()" using contiguous_upd [of "f s" s ss] assms(2) m(5) by simp
  moreover have "sm_start_seq (hd (ss @ [f s])) = 0" using m(4) assms(2) by (cases ss) auto
  moreover have "active (active_mut f m) = Some (f s)"
    using m(2,3) assms(2) [of s] by (simp add: active_def seg find_open)
  moreover have "validate_segment_filename (sm_file (f s)) = validate_segment_filename (sm_file s)"
    using assms(2) [of s] by simp
  ultimately have "manifest_ok (active_mut f m)"
    unfolding manifest_ok_iff seg using m assms(2) [of s] by (intro conjI exI [of _ ss] exI [of _ "f s"]) auto
  with seg m(1) assms(2) [of s] show ?thesis by simp
qed

lemma rebase_inv:
  assumes "ext_ok x" and "ledger_inv x d L" and "rebase_opened x io ts (d, L) = (r, (d', L'))"
  shows "ledger_inv x d' L' \<and> log_lines x d' L' = log_lines x d L \<and> (\<exists>ro. L' = L\<lparr>l_rollover := ro\<rparr>)"
proof -
  have idL: "\<exists>ro. L = L\<lparr>l_rollover := ro\<rparr>" by (rule exI [of _ "l_rollover L"]) simp
  show ?thesis
  proof (cases "(d', L') = (d, L)")
    case True
    with assms(2) idL show ?thesis by simp
  next
    case False
    with assms(3) obtain st s where st: "l_rollover L = Some st" "active (rs_manifest st) = Some s"
        "sm_start_seq s = l_next_seq L" "sm_opened_ms s \<noteq> ts"
      by (auto simp: rebase_opened_def split: option.splits if_splits)
    from assms(2) obtain rep where pl: "place_ok x d L" and key: "key_ok x L" and
      v: "verify_inner x no_faults d (l_location L) (l_verifiers L) None = Inr (rep, None)" and hd: "head_of L rep"
      by (auto simp: ledger_inv_def)
    let ?m = "rs_manifest st" and ?b = "active_mut (\<lambda>s. s\<lparr>sm_opened_ms := ts\<rparr>) (rs_manifest st)"
    from place_segmented [OF pl st(1)] obtain dir m0 where loc: "l_location L = Segmented dir"
      and m: "manifest_ok ?m" "distinct (map sm_file (mf_segments ?m))" "load_manifest x no_faults d dir = Inr (Some m0)"
        "manifest_ok m0" "map sm_file (mf_segments m0) = map sm_file (mf_segments ?m)"
        "l_active_path L = join dir (sm_file (last (mf_segments ?m)))" by blast
    have b: "manifest_ok ?b" "map sm_file (mf_segments ?b) = map sm_file (mf_segments ?m)"
      using manifest_ok_upd_active [OF m(1)] by auto
    obtain r1 d1 where sv: "save_manifest x io dir ?b d = (r1, d1)" by force
    note sp = save_manifest_spec [OF sv _ b(1)]
    have ml: "manifest_law x" using assms(1) by (simp add: ext_ok_def)
    have d1: "d1 = d'" and L': "L' = (if isl r1 then L else L\<lparr>l_rollover := Some (st\<lparr>rs_manifest := ?b\<rparr>)\<rparr>)"
      using assms(3) sv st loc
      by (auto simp: rebase_opened_def Let_def on_disk_def on_ledger_def s_bind_def s_err_def split: sum.splits)
    have keep: "\<forall>q \<in> set (seg_files dir m0). file_at d' q = file_at d q"
      using sp [OF ml] d1 manifest_not_segment [OF m(4), of dir] by metis
    have "\<exists>m'. load_manifest x no_faults d' dir = Inr (Some m') \<and> manifest_ok m' \<and>
        map sm_file (mf_segments m') = map sm_file (mf_segments ?m)"
    proof (cases "\<exists>e. r1 = Inl (NotLanded e)")
      case True
      then have "load_manifest x no_faults d' dir = Inr (Some m0)"
        using sp [OF ml] d1 m(3) load_manifest_cong [of d' dir d x no_faults] by auto
      with m show ?thesis by blast
    next
      case False
      then have "load_manifest x no_faults d' dir = Inr (Some ?b)"
        using sp [OF ml] d1 by (auto split: sum.splits atomic_write.splits)
      with b show ?thesis by blast
    qed
    then obtain m' where m': "load_manifest x no_faults d' dir = Inr (Some m')" "manifest_ok m'"
        "map sm_file (mf_segments m') = map sm_file (mf_segments ?m)" by blast
    have "seg_files dir m' = seg_files dir m0" by (rule seg_files_names) (simp add: m' m)
    then have same: "verify_inner x no_faults d' (Segmented dir) (l_verifiers L) None = Inr (rep, None) \<and>
        prefix_lines x no_faults d' (Segmented dir) = prefix_lines x no_faults d (Segmented dir)"
      using verify_inner_rolled [OF m(3) v [unfolded loc] m'(1) keep] by blast
    have lastb: "sm_file (last (mf_segments ?b)) = sm_file (last (mf_segments ?m))"
      using b(2) manifest_ok_nonempty [OF b(1)] manifest_ok_nonempty [OF m(1)] by (metis last_map)
    have db: "distinct (map sm_file (mf_segments ?b))" using b(2) m(2) by simp
    have "ledger_inv x d' L'"
    proof (cases "isl r1")
      case True
      then have "L' = L" using L' by simp
      with m m' same key hd loc st(1) show ?thesis by (auto simp: ledger_inv_def place_ok_def)
    next
      case False
      then have "L' = L\<lparr>l_rollover := Some (st\<lparr>rs_manifest := ?b\<rparr>)\<rparr>" using L' by simp
      with m m' b db lastb same key hd loc st(1) show ?thesis
        by (auto simp: ledger_inv_def place_ok_def key_ok_def head_of_def)
    qed
    moreover have "log_lines x d' L' = log_lines x d L"
      using same loc L' by (simp add: log_lines_def)
    moreover have "\<exists>ro. L' = L\<lparr>l_rollover := ro\<rparr>" using L' idL by metis
    ultimately show ?thesis by blast
  qed
qed

section \<open>Append\<close>

lemma bm_insert_twice: "bm_insert k v (bm_insert k v' m) = bm_insert k v m"
  by (induction m) auto

lemma put_file_twice [simp]: "put_file p b (put_file p c d) = put_file p b d"
  by (simp add: put_file_def bm_insert_twice)

text \<open>The steps of an append before it makes the record.\<close>

definition prepared :: "ext \<Rightarrow> io \<Rightarrow> nat \<Rightarrow> unit led" where
  "prepared x io ts = s_bind (maybe_roll_over x io ts) (\<lambda>_. rebase_opened x io ts)"

lemma log_lines_location: "l_location L' = l_location L \<Longrightarrow> log_lines x d L' = log_lines x d L"
  by (simp add: log_lines_def)

lemma prepared_inv:
  assumes "ext_ok x" and "ledger_inv x d L" and "prepared x io ts (d, L) = (r, (d', L'))"
  shows "log_lines x d' L' = log_lines x d L \<and> log_lines x d' L = log_lines x d L \<and>
    ((\<exists>p ro. L' = L\<lparr>l_active_path := p, l_rollover := ro\<rparr>) \<and> ledger_inv x d' L' \<or>
     isl r \<and> L' = L\<lparr>l_failed := True\<rparr> \<and> names_ok x d' (l_location L) \<and>
       verify_inner x no_faults d' (l_location L) (l_verifiers L) None =
       verify_inner x no_faults d (l_location L) (l_verifiers L) None)"
proof -
  obtain r1 d1 L1 where m: "maybe_roll_over x io ts (d, L) = (r1, (d1, L1))" by (metis prod.exhaust)
  have idL: "\<exists>p ro. L = L\<lparr>l_active_path := p, l_rollover := ro\<rparr>"
    by (rule exI [of _ "l_active_path L"], rule exI [of _ "l_rollover L"]) simp
  have 1: "log_lines x d1 L = log_lines x d L \<and>
    ((\<exists>p ro. L1 = L\<lparr>l_active_path := p, l_rollover := ro\<rparr>) \<and> ledger_inv x d1 L1 \<or>
     isl r1 \<and> L1 = L\<lparr>l_failed := True\<rparr> \<and> names_ok x d1 (l_location L) \<and>
       verify_inner x no_faults d1 (l_location L) (l_verifiers L) None =
       verify_inner x no_faults d (l_location L) (l_verifiers L) None)"
  proof (cases "(r1, (d1, L1)) = (Inr (), (d, L))")
    case True
    with assms(2) idL show ?thesis by simp
  next
    case False
    with m obtain st where st: "l_rollover L = Some st" and ro: "ledger_roll_over x io ts (d, L) = (r1, (d1, L1))"
      by (auto simp: maybe_roll_over_def split: option.splits if_splits)
    note ri = ledger_roll_over_inv [OF assms(1,2) st ro]
    show ?thesis
    proof (cases r1)
      case (Inl e)
      with ri have "L1 = L\<lparr>l_failed := True\<rparr> \<or> L1 = L \<and> ledger_inv x d1 L" by simp
      with ri Inl idL show ?thesis by (metis isl_def)
    next
      case (Inr u)
      with ri show ?thesis by simp blast
    qed
  qed
  show ?thesis
  proof (cases r1)
    case (Inl e)
    with m assms(3) have "r = Inl e" "d' = d1" "L' = L1" by (auto simp: prepared_def s_simps)
    moreover have "log_lines x d1 L1 = log_lines x d1 L"
      using 1 by (intro log_lines_location) (elim conjE disjE exE, simp_all)
    ultimately show ?thesis using 1 Inl by simp
  next
    case (Inr u)
    with 1 obtain p ro where L1: "L1 = L\<lparr>l_active_path := p, l_rollover := ro\<rparr>" and inv1: "ledger_inv x d1 L1" by auto
    from m assms(3) Inr have rb: "rebase_opened x io ts (d1, L1) = (r, (d', L'))" by (auto simp: prepared_def s_simps)
    from rebase_inv [OF assms(1) inv1 rb] obtain ro' where h: "ledger_inv x d' L'"
        "log_lines x d' L' = log_lines x d1 L1" "L' = L1\<lparr>l_rollover := ro'\<rparr>" by blast
    have A: "L' = L\<lparr>l_active_path := p, l_rollover := ro'\<rparr>" using h(3) L1 by simp
    have "log_lines x d1 L1 = log_lines x d1 L" "log_lines x d' L' = log_lines x d' L"
      using L1 h(3) by (intro log_lines_location; simp)+
    with h(2) 1 have "log_lines x d' L' = log_lines x d L" "log_lines x d' L = log_lines x d L" by simp_all
    with A h(1) show ?thesis by blast
  qed
qed

text \<open>What a write leaves: the whole line, or a proper part of it that begins like a record.\<close>

lemma write_line_outcome:
  assumes "write_line io (line @ [nl]) (d, L) = (r, (d', L'))" and "line \<noteq> []" and "nl \<notin> set line"
  shows "\<exists>b t. d' = put_file (l_active_path L) (content d (l_active_path L) @ b @ t) d \<and>
    (b = line @ [nl] \<and> t = [] \<or> b = [] \<and> (t = [] \<or> hd t = hd line) \<and> nl \<notin> set t) \<and>
    (r = Inr () \<and> L' = L \<and> b = line @ [nl] \<or> isl r \<and> L' = L\<lparr>l_failed := True\<rparr>)"
proof (cases "io_fault io (WriteAll (l_active_path L))")
  case (Some e)
  show ?thesis
  proof (cases "io_cut io \<le> length line")
    case True
    let ?t = "take (io_cut io) line"
    have "nl \<notin> set ?t" using assms(3) by (auto dest: in_set_takeD)
    moreover have "?t = [] \<or> hd ?t = hd line" using assms(2) by (cases "io_cut io"; cases line) auto
    ultimately show ?thesis using Some True assms(1)
      by (intro exI [of _ "[]"] exI [of _ ?t]) (auto simp: write_line_def Let_def)
  next
    case False
    then have "take (io_cut io) (line @ [nl]) = line @ [nl]" by simp
    with Some assms(1) show ?thesis
      by (intro exI [of _ "line @ [nl]"] exI [of _ "[]"]) (auto simp: write_line_def Let_def)
  qed
next
  case None
  with assms(1) show ?thesis
    by (intro exI [of _ "line @ [nl]"] exI [of _ "[]"])
      (auto simp: write_line_def Let_def split: option.splits)
qed

text \<open>A reopen after a torn write.\<close>

lemma reopen_ok:
  assumes "verify_prefix x no_faults d loc keys None = Inr (rep, w, torn)"
    and "superseded_by rep (key_fingerprint x signer) = None"
    and "\<And>p off. torn = Some (p, off) \<Longrightarrow> \<exists>b. file_at d p = Some b \<and> off < length b \<and> b ! off = CHR ''{''"
  shows "resolve_open_head x no_faults loc keys signer None d =
    (Inr rep, case torn of None \<Rightarrow> d | Some (p, off) \<Rightarrow> put_file p (take off (content d p)) d)"
proof (cases torn)
  case None
  with assms(1,2) show ?thesis
    by (simp add: resolve_open_head_def s_bind_def s_look_def s_ret_def check_anchor_def Let_def)
next
  case (Some po)
  obtain p off where po: "po = (p, off)" by force
  from assms(3) Some po obtain b where b: "file_at d p = Some b" "off < length b" "b ! off = CHR ''{''" by auto
  have "begins_a_record no_faults d p off = Inr True" using b by (simp add: begins_a_record_def read_bytes_def)
  moreover have "heal_torn_tail no_faults p off d = (Inr (), put_file p (take off b) d)"
    using b by (simp add: heal_torn_tail_def s_bind_def s_look_def io_step_def d_upd_def)
  ultimately show ?thesis using assms(1,2) Some po b
    by (simp add: resolve_open_head_def s_bind_def s_look_def s_ret_def check_anchor_def Let_def content_def)
qed

lemma ledger_append_alt:
  "ledger_append x io e =
     s_bind (s_look (\<lambda>(d, L). res_guard (\<not> l_failed L) (failed_err L))) (\<lambda>_.
     s_bind (prepared x io (e_ts_ms e)) (\<lambda>_.
     s_bind (s_look (\<lambda>(d, L). make_record x L e)) (\<lambda>(rec, line).
     s_bind (write_line io (line @ [nl])) (\<lambda>_.
     s_bind (on_ledger (\<lambda>L. L\<lparr>
         l_signers := add_signer (l_signers L) (key_fingerprint x (x_public x (l_key L))) (l_next_seq L),
         l_last_hash := lr_hash rec, l_next_seq := l_next_seq L + 1\<rparr>)) (\<lambda>_.
     s_ret rec)))))"
  by (rule ext) (auto simp: ledger_append_def prepared_def s_bind_def split: prod.splits sum.splits)

lemma ledger_append_InrD:
  assumes "ledger_append x io e (d, L) = (Inr rec, (d', L'))"
  shows "\<exists>d1 L1 line L2. prepared x io (e_ts_ms e) (d, L) = (Inr (), (d1, L1)) \<and> make_record x L1 e = Inr (rec, line) \<and>
    write_line io (line @ [nl]) (d1, L1) = (Inr (), (d', L2)) \<and>
    L' = L2\<lparr>l_signers := add_signer (l_signers L2) (key_fingerprint x (x_public x (l_key L2))) (l_next_seq L2),
      l_last_hash := lr_hash rec, l_next_seq := l_next_seq L2 + 1\<rparr>"
  using assms unfolding ledger_append_alt by (auto simp: s_simps on_ledger_def res_guard_def split: if_splits)

lemma ledger_append_InlD:
  assumes "ledger_append x io e (d, L) = (Inl err, (d', L'))" and "\<not> l_failed L"
    and "prepared x io (e_ts_ms e) (d, L) = (r1, (d1, L1))"
  shows "r1 = Inl err \<and> d' = d1 \<and> L' = L1 \<or> r1 = Inr () \<and>
    (make_record x L1 e = Inl err \<and> d' = d1 \<and> L' = L1 \<or>
     (\<exists>rec line. make_record x L1 e = Inr (rec, line) \<and> write_line io (line @ [nl]) (d1, L1) = (Inl err, (d', L'))))"
  using assms unfolding ledger_append_alt by (auto simp: s_simps on_ledger_def res_guard_def split: if_splits)

lemma place_ok_cong:
  "l_location L' = l_location L \<Longrightarrow> l_rollover L' = l_rollover L \<Longrightarrow> l_active_path L' = l_active_path L \<Longrightarrow>
    place_ok x d L' = place_ok x d L"
  by (cases "l_location L"; cases "l_rollover L") (simp_all add: place_ok_def)

lemma inv_log:
  assumes "ledger_inv x d L"
  obtains rep where "verify_inner x no_faults d (l_location L) (l_verifiers L) None = Inr (rep, None)"
    "head_of L rep" "verify_lines x (map Inr (log_lines x d L)) (l_verifiers L) None = Inr (rep, None)"
    "place_ok x d L" "key_ok x L"
proof -
  from assms obtain rep where r: "place_ok x d L" "key_ok x L" "head_of L rep"
      "verify_inner x no_faults d (l_location L) (l_verifiers L) None = Inr (rep, None)"
    by (auto simp: ledger_inv_def)
  from verify_inner_files [OF r(1,4)] have "verify_lines x (map Inr (log_lines x d L)) (l_verifiers L) None = Inr (rep, None)"
    by auto
  with r that show ?thesis by blast
qed

text \<open>The two ends of a write: the line landed, or part of it did.\<close>

lemma landed_line:
  assumes "ext_ok x" and "ledger_inv x d L" and "make_record x L e = Inr (rec, line)"
    and "d' = put_file (l_active_path L) (content d (l_active_path L) @ line @ [nl]) d"
    and "L' = L\<lparr>l_signers := add_signer (l_signers L) (key_fingerprint x (x_public x (l_key L))) (l_next_seq L),
      l_last_hash := lr_hash rec, l_next_seq := l_next_seq L + 1\<rparr>"
  shows "ledger_inv x d' L' \<and> log_lines x d' L' = log_lines x d L @ [line]"
proof -
  obtain rep where r: "verify_inner x no_faults d (l_location L) (l_verifiers L) None = Inr (rep, None)"
      "head_of L rep" "verify_lines x (map Inr (log_lines x d L)) (l_verifiers L) None = Inr (rep, None)"
      "place_ok x d L" "key_ok x L"
    using assms(2) by (rule inv_log)
  note hd = r(2) [unfolded head_of_def] and k = r(5) [unfolded key_ok_def]
  from make_record_verifies [OF assms(1,3) r(3)] hd k have
    v: "verify_lines x (map Inr (log_lines x d L @ [line])) (l_verifiers L) None =
      Inr (\<lparr>vr_entries = l_next_seq L + 1, vr_root = Some (lr_hash rec), vr_signatures_checked = True,
        vr_signers = add_signer (l_signers L) (key_fingerprint x (x_public x (l_key L))) (l_next_seq L)\<rparr>, None)"
    and l: "nl \<notin> set line" "strip_cr line = line" "utf8_ok line" by auto
  have rl: "read_lines (line @ [nl]) = [line]" using l by (simp add: read_lines_line)
  from verify_prefix_extend [OF r(4,1) v _ rl, of "[]" d' L'] l assms(4) assms(5)
  have "verify_inner x no_faults d' (l_location L) (l_verifiers L) None =
      Inr (\<lparr>vr_entries = l_next_seq L + 1, vr_root = Some (lr_hash rec), vr_signatures_checked = True,
        vr_signers = add_signer (l_signers L) (key_fingerprint x (x_public x (l_key L))) (l_next_seq L)\<rparr>, None)"
    and ll: "log_lines x d' L' = log_lines x d L @ [line]"
    by (simp_all add: verify_inner_iff)
  moreover have "place_ok x d' L'"
    using place_ok_put [OF r(4) refl] assms(4,5) place_ok_cong [of L' L] by simp
  moreover have "key_ok x L'" using k successor_add_signer assms(5) by (simp add: key_ok_def)
  ultimately show ?thesis using assms(5) by (simp add: ledger_inv_def head_of_def)
qed

lemma torn_write_reopens:
  assumes "ext_ok x" and "ledger_inv x d L" and "nl \<notin> set t" and "t = [] \<or> hd t = CHR ''{''"
    and "d' = put_file (l_active_path L) (content d (l_active_path L) @ t) d"
  shows "\<exists>rep d''. resolve_open_head x no_faults (l_location L) (l_verifiers L) (x_public x (l_key L)) None d' = (Inr rep, d'') \<and>
    verify_inner x no_faults d'' (l_location L) (l_verifiers L) None = Inr (rep, None) \<and> head_of L rep \<and>
    log_lines x d'' L = log_lines x d L"
proof -
  let ?p = "l_active_path L" and ?c = "content d (l_active_path L)"
  obtain rep where r: "verify_inner x no_faults d (l_location L) (l_verifiers L) None = Inr (rep, None)"
      "head_of L rep" "verify_lines x (map Inr (log_lines x d L)) (l_verifiers L) None = Inr (rep, None)"
      "place_ok x d L" "key_ok x L"
    using assms(2) by (rule inv_log)
  have v: "verify_lines x (map Inr (log_lines x d L @ [])) (l_verifiers L) None = Inr (rep, None)" using r(3) by simp
  have vp: "verify_prefix x no_faults d' (l_location L) (l_verifiers L) None =
      Inr (rep, None, if t = [] then None else Some (?p, length ?c))"
    using verify_prefix_extend [OF r(4,1) v, of "[]" t d' L] assms(3,5) by simp
  define d'' where "d'' = put_file ?p ?c d"
  have clean: "verify_prefix x no_faults d'' (l_location L) (l_verifiers L) None = Inr (rep, None, None) \<and>
      log_lines x d'' L = log_lines x d L"
    using verify_prefix_extend [OF r(4,1) v, of "[]" "[]" d'' L] by (simp add: d''_def)
  have sup: "superseded_by rep (key_fingerprint x (x_public x (l_key L))) = None"
    using r(2,5) by (simp add: superseded_by_def head_of_def key_ok_def)
  have "resolve_open_head x no_faults (l_location L) (l_verifiers L) (x_public x (l_key L)) None d' = (Inr rep, d'')"
  proof (cases "t = []")
    case True
    have "d' = d''" using True assms(5) d''_def by simp
    with reopen_ok [OF vp sup] True show ?thesis by simp
  next
    case False
    then have "((?c @ t) ! length ?c) = CHR ''{''" using assms(4) by (simp add: nth_append hd_conv_nth)
    with reopen_ok [OF vp sup] False assms(5) show ?thesis
      by (simp add: d''_def content_def)
  qed
  with clean r(2) show ?thesis by (auto simp: verify_inner_iff)
qed

section \<open>Appending\<close>

lemma append_extends_log_core:
  assumes "ext_ok x" and "ledger_inv x d L" and "ledger_append x io e (d, L) = (Inr rec, (d', L'))"
  shows "ledger_inv x d' L' \<and> l_next_seq L' = l_next_seq L + 1 \<and> l_last_hash L' = lr_hash rec \<and>
    lr_entry rec = e\<lparr>e_seq := l_next_seq L\<rparr> \<and> lr_prev rec = l_last_hash L \<and>
    (\<exists>line. log_lines x d' L' = log_lines x d L @ [line] \<and> carries x line (lr_entry rec)) \<and>
    l_location L' = l_location L \<and> l_verifiers L' = l_verifiers L \<and> l_failed L' = l_failed L"
proof -
  from ledger_append_InrD [OF assms(3)] obtain d1 L1 line L2 where
    s: "prepared x io (e_ts_ms e) (d, L) = (Inr (), (d1, L1))"
      "make_record x L1 e = Inr (rec, line)" "write_line io (line @ [nl]) (d1, L1) = (Inr (), (d', L2))" "d' = d'"
      "L' = L2\<lparr>l_signers := add_signer (l_signers L2) (key_fingerprint x (x_public x (l_key L2))) (l_next_seq L2),
                      l_last_hash := lr_hash rec, l_next_seq := l_next_seq L2 + 1\<rparr>"
    by blast
  from prepared_inv [OF assms(1,2) s(1)] obtain p ro where
    L1: "L1 = L\<lparr>l_active_path := p, l_rollover := ro\<rparr>" and inv1: "ledger_inv x d1 L1" and
    ll: "log_lines x d1 L1 = log_lines x d L" by auto
  obtain rep where r: "head_of L1 rep" "verify_lines x (map Inr (log_lines x d1 L1)) (l_verifiers L1) None = Inr (rep, None)"
      "key_ok x L1" using inv1 by (rule inv_log)
  from make_record_verifies [OF assms(1) s(2) r(2)] r(1,3) have
    l: "nl \<notin> set line" "line \<noteq> []" "lr_entry rec = e\<lparr>e_seq := l_next_seq L1\<rparr>" "lr_prev rec = l_last_hash L1"
    by (auto simp: head_of_def key_ok_def)
  from write_line_outcome [OF s(3) l(2,1)] have w: "L2 = L1"
      "d' = put_file (l_active_path L1) (content d1 (l_active_path L1) @ line @ [nl]) d1" by auto
  from landed_line [OF assms(1) inv1 s(2) w(2)] s(4,5) w(1) ll
  have "ledger_inv x d' L' \<and> log_lines x d' L' = log_lines x d L @ [line]" by simp
  with s(5) w(1) L1 l make_record_carries [OF assms(1) s(2)] show ?thesis by auto
qed

lemma failed_append_core:
  assumes "ext_ok x" and "ledger_inv x d L" and "\<not> l_failed L"
    and "ledger_append x io e (d, L) = (Inl err, (d', L'))"
  shows "(\<not> l_failed L' \<longrightarrow> ledger_inv x d' L' \<and> log_lines x d' L' = log_lines x d L) \<and>
    (l_failed L' \<longrightarrow> (\<exists>rep d''.
       resolve_open_head x no_faults (l_location L) (l_verifiers L) (x_public x (l_key L)) None d' = (Inr rep, d'') \<and>
       verify_inner x no_faults d'' (l_location L) (l_verifiers L) None = Inr (rep, None) \<and>
       (log_lines x d'' L = log_lines x d L \<and> head_of L rep \<or>
        (\<exists>line. log_lines x d'' L = log_lines x d L @ [line] \<and> carries x line (e\<lparr>e_seq := l_next_seq L\<rparr>)) \<and>
        vr_entries rep = l_next_seq L + 1))) \<and>
    (l_failed L' \<longrightarrow> names_ok x d' (l_location L)) \<and>
    l_location L' = l_location L \<and> l_verifiers L' = l_verifiers L \<and> l_key L' = l_key L"
proof -
  obtain r1 d1 L1 where pr: "prepared x io (e_ts_ms e) (d, L) = (r1, (d1, L1))" by (metis prod.exhaust)
  note pi = prepared_inv [OF assms(1,2) pr]
  from pi show ?thesis
  proof (elim conjE disjE exE)
    fix p ro assume L1: "L1 = L\<lparr>l_active_path := p, l_rollover := ro\<rparr>" and inv1: "ledger_inv x d1 L1"
      and ll: "log_lines x d1 L1 = log_lines x d L" "log_lines x d1 L = log_lines x d L"
    have nf: "\<not> l_failed L1" using assms(3) L1 by simp
    show ?thesis
    proof (cases "d' = d1 \<and> L' = L1")
      case True
      with inv1 ll nf L1 show ?thesis by simp
    next
      case False
      with ledger_append_InlD [OF assms(4,3) pr] obtain rec line where mk: "make_record x L1 e = Inr (rec, line)"
          and w: "write_line io (line @ [nl]) (d1, L1) = (Inl err, (d', L'))" by blast
      obtain rep where r: "head_of L1 rep" "verify_lines x (map Inr (log_lines x d1 L1)) (l_verifiers L1) None = Inr (rep, None)"
          "key_ok x L1" using inv1 by (rule inv_log)
      from make_record_verifies [OF assms(1) mk r(2)] r(1,3) have
        l: "nl \<notin> set line" "line \<noteq> []" "hd line = CHR ''{''" by (auto simp: head_of_def key_ok_def)
      from write_line_outcome [OF w l(2,1)] obtain b t where
        d': "d' = put_file (l_active_path L1) (content d1 (l_active_path L1) @ b @ t) d1"
        and bt: "b = line @ [nl] \<and> t = [] \<or> b = [] \<and> (t = [] \<or> hd t = hd line) \<and> nl \<notin> set t"
        and L': "L' = L1\<lparr>l_failed := True\<rparr>" by auto
      from bt show ?thesis
      proof
        assume "b = line @ [nl] \<and> t = []"
        then have d2: "d' = put_file (l_active_path L1) (content d1 (l_active_path L1) @ line @ [nl]) d1" using d' by simp
        define L2 where "L2 = L1\<lparr>l_signers := add_signer (l_signers L1) (key_fingerprint x (x_public x (l_key L1))) (l_next_seq L1),
          l_last_hash := lr_hash rec, l_next_seq := l_next_seq L1 + 1\<rparr>"
        from landed_line [OF assms(1) inv1 mk d2 L2_def] have i2: "ledger_inv x d' L2" "log_lines x d' L2 = log_lines x d1 L1 @ [line]"
          by auto
        have pt: "place_ok x d' L2" using i2(1) by (simp add: ledger_inv_def)
        have "\<exists>a. file_at d' (l_active_path L2) = Some a"
          using d2 by (simp add: L2_def)
        then have same: "put_file (l_active_path L2) (content d' (l_active_path L2) @ []) d' = d'"
          using d2 by (simp add: L2_def content_def)
        from torn_write_reopens [OF assms(1) i2(1), of "[]" d'] same
        obtain rep2 d'' where ro: "resolve_open_head x no_faults (l_location L2) (l_verifiers L2) (x_public x (l_key L2)) None d' = (Inr rep2, d'')"
            "verify_inner x no_faults d'' (l_location L2) (l_verifiers L2) None = Inr (rep2, None)" "head_of L2 rep2"
            "log_lines x d'' L2 = log_lines x d' L2" by auto
        have "log_lines x d'' L = log_lines x d'' L2" by (rule log_lines_location) (simp add: L2_def L1)
        have "carries x line (e\<lparr>e_seq := l_next_seq L\<rparr>)" using make_record_carries [OF assms(1) mk] L1 by fastforce
        with \<open>log_lines x d'' L = log_lines x d'' L2\<close> ro i2(2) ll L' place_names [OF pt] show ?thesis by (auto simp: L2_def L1 head_of_def)
      next
        assume "b = [] \<and> (t = [] \<or> hd t = hd line) \<and> nl \<notin> set t"
        with d' l(3) have t: "nl \<notin> set t" "t = [] \<or> hd t = CHR ''{''"
          "d' = put_file (l_active_path L1) (content d1 (l_active_path L1) @ t) d1" by auto
        from torn_write_reopens [OF assms(1) inv1 t] obtain rep2 d'' where
          ro: "resolve_open_head x no_faults (l_location L1) (l_verifiers L1) (x_public x (l_key L1)) None d' = (Inr rep2, d'')"
            "verify_inner x no_faults d'' (l_location L1) (l_verifiers L1) None = Inr (rep2, None)" "head_of L1 rep2"
            "log_lines x d'' L1 = log_lines x d1 L1" by auto
        have "log_lines x d'' L = log_lines x d'' L1" by (rule log_lines_location) (simp add: L1)
        moreover have "names_ok x d' (l_location L1)"
          using place_names [OF place_ok_put [OF _ refl], of x d1 L1] inv1 t(3) by (simp add: ledger_inv_def)
        ultimately show ?thesis using ro ll L' by (auto simp: L1 head_of_def)
      qed
    qed
  next
    assume a: "isl r1" "L1 = L\<lparr>l_failed := True\<rparr>" "names_ok x d1 (l_location L)"
      "verify_inner x no_faults d1 (l_location L) (l_verifiers L) None =
       verify_inner x no_faults d (l_location L) (l_verifiers L) None" "log_lines x d1 L = log_lines x d L"
    then have d: "d' = d1" "L' = L1" using ledger_append_InlD [OF assms(4,3) pr] by auto
    obtain rep where r: "verify_inner x no_faults d (l_location L) (l_verifiers L) None = Inr (rep, None)"
      "head_of L rep" "key_ok x L" using assms(2) by (rule inv_log)
    then have "superseded_by rep (key_fingerprint x (x_public x (l_key L))) = None"
      by (simp add: superseded_by_def head_of_def key_ok_def)
    moreover have "verify_prefix x no_faults d1 (l_location L) (l_verifiers L) None = Inr (rep, None, None)"
      using r(1) a(4) by (simp flip: verify_inner_iff)
    ultimately have "resolve_open_head x no_faults (l_location L) (l_verifiers L) (x_public x (l_key L)) None d1 = (Inr rep, d1)"
      using reopen_ok [of x d1 "l_location L" "l_verifiers L" rep None None] by simp
    with d a r show ?thesis by auto
  qed
qed

section \<open>Opening\<close>

lemma verify_loop_no_window:
  "verify_loop x keys i st ls = Inr st' \<Longrightarrow> vs_window st = None \<Longrightarrow> vs_window st' = None"
proof (induction ls arbitrary: i st)
  case (Cons l ls)
  then obtain k st1 where k: "l = Inr k" "verify_line x keys i st k = Inr st1"
      "verify_loop x keys (Suc i) st1 ls = Inr st'"
    by (auto simp: res_simps)
  with Cons.prems(2) have "vs_window st1 = None"
    by (auto simp: verify_line_def Let_def res_simps collect_window_def split: if_splits)
  with Cons.IH k(3) show ?case by blast
qed simp

lemma verify_prefix_no_window: "verify_prefix x io d loc keys None = Inr (rep, w, torn) \<Longrightarrow> w = None"
  by (auto simp: verify_prefix_def verify_lines_def res_simps init_vstate_def dest!: verify_loop_no_window)

lemma load_manifest_any_io: "load_manifest x io d dir = Inr m \<Longrightarrow> load_manifest x no_faults d dir = Inr m"
proof -
  assume l: "load_manifest x io d dir = Inr m"
  then have "read_opt io d (join dir manifest_file) = read_opt no_faults d (join dir manifest_file)"
    by (auto simp: load_manifest_def read_opt_def res_simps split: option.splits)
  with l show ?thesis by (simp add: load_manifest_def)
qed

lemma resolved_any_io: "resolved_paths x io d loc = Inr ps \<Longrightarrow> resolved_paths x no_faults d loc = Inr ps"
  by (cases loc) (auto simp: segment_paths_eq dest: load_manifest_any_io)

lemma readable_any_io: "readable io d ps \<Longrightarrow> readable no_faults d ps"
  by (simp add: readable_def)

text \<open>An open that succeeds leaves a log without a fragment, which verifies as it reported.\<close>

lemma resolve_open_head_clean:
  assumes "resolve_open_head x io loc verifiers signer anchor d = (Inr rep, d')"
    and "\<And>ps p. resolved_paths x no_faults d loc = Inr (ps @ [p]) \<Longrightarrow> p \<notin> set ps"
  shows "verify_inner x no_faults d' loc verifiers None = Inr (rep, None) \<and>
    superseded_by rep (key_fingerprint x signer) = None \<and>
    (d' = d \<or> (\<exists>p a t. file_at d p = Some (a @ t) \<and> manifest_path loc \<noteq> Some p \<and> d' = put_file p a d)) \<and>
    (\<exists>paths. resolved_paths x no_faults d' loc = Inr paths \<and> resolved_paths x no_faults d loc = Inr paths \<and>
      (\<forall>p \<in> set paths. file_at d' p \<noteq> None)) \<and>
    (\<exists>ls torn. prefix_lines x no_faults d loc = Inr (ls, torn) \<and> prefix_lines x no_faults d' loc = Inr (ls, None))"
proof -
  from resolve_open_head_spec [OF assms(1)] obtain w torn where
    v: "verify_prefix x io d loc verifiers None = Inr (rep, w, torn)" and
    s: "superseded_by rep (key_fingerprint x signer) = None" and
    h: "case torn of None \<Rightarrow> d' = d | Some (p, off) \<Rightarrow> begins_a_record io d p off = Inr True \<and>
             (\<exists>b. file_at d p = Some b \<and> d' = put_file p (take off b) d)" by auto
  have w: "w = None" using v by (rule verify_prefix_no_window)
  from v obtain ps p a t where f: "resolved_paths x io d loc = Inr (ps @ [p])" "readable io d (ps @ [p])"
      "file_at d p = Some (a @ t)" "ends_nl a" "nl \<notin> set t" "torn = (if t = [] then None else Some (p, length a))"
      "\<forall>l \<in> set (file_lines d ps @ read_lines a). utf8_ok l"
      "verify_lines x (map Inr (file_lines d ps @ read_lines a)) verifiers None = Inr (rep, None)"
    unfolding verify_prefix_iff w by blast
  note r = resolved_any_io [OF f(1)] and rd = readable_any_io [OF f(2)]
  have pn: "p \<notin> set ps" using assms(2) r by blast
  have mp: "manifest_path loc \<noteq> Some p" using resolved_not_manifest [OF r] by simp
  have d': "if t = [] then d' = d else d' = put_file p a d" using h f(3,6) by (auto split: if_splits)
  have r': "resolved_paths x no_faults d' loc = Inr (ps @ [p])"
    using d' r resolved_paths_put [OF file_at_path_exists [OF f(3)] mp] by (auto split: if_splits)
  have rd': "readable no_faults d' (ps @ [p])" using d' rd readable_put [OF rd] by (auto split: if_splits)
  have "verify_prefix x no_faults d' loc verifiers None = Inr (rep, None, None)"
  proof (cases "t = []")
    case True
    with d' f r rd show ?thesis unfolding verify_prefix_iff
      by - (rule exI [of _ ps], rule exI [of _ p], rule exI [of _ a], rule exI [of _ "[]"], simp)
  next
    case False
    with d' verify_prefix_rewrite [OF r rd pn f(4) _ f(7,8), of "[]"] show ?thesis by simp
  qed
  moreover have "d' = d \<or> (\<exists>p a t. file_at d p = Some (a @ t) \<and> manifest_path loc \<noteq> Some p \<and> d' = put_file p a d)"
    using d' f(3) mp by (auto split: if_splits)
  moreover have "\<exists>ls torn. prefix_lines x no_faults d loc = Inr (ls, torn) \<and> prefix_lines x no_faults d' loc = Inr (ls, None)"
  proof -
    have fl: "file_lines d' ps = file_lines d ps" using d' pn by (auto intro: file_lines_cong split: if_splits)
    have "file_at d' p = Some (a @ [])" using d' f(3) by (auto split: if_splits)
    from prefix_lines_eq [OF r' rd' this f(4)] fl f(7)
    have "prefix_lines x no_faults d' loc = Inr (map Inr (file_lines d ps @ read_lines a), None)" by simp
    with prefix_lines_eq [OF r rd f(3-5,7)] show ?thesis by blast
  qed
  ultimately show ?thesis using s r r' rd' by (simp add: verify_inner_iff readable_def)
qed

lemma read_cong:
  assumes "file_at d' p = file_at d p"
  shows "read_opt io d' p = read_opt io d p" "read_bytes io d' p = read_bytes io d p"
    "scan_torn_tail io d' p = scan_torn_tail io d p"
proof -
  show r: "read_opt io d' p = read_opt io d p" unfolding read_opt_def assms ..
  show "read_bytes io d' p = read_bytes io d p" unfolding read_bytes_def r ..
  show "scan_torn_tail io d' p = scan_torn_tail io d p" unfolding scan_torn_tail_def r ..
qed

lemma chained_lines_cong:
  "\<forall>p \<in> set ps. file_at d' p = file_at d p \<Longrightarrow> chained_lines_bounded io d' ps lim = chained_lines_bounded io d ps lim"
proof (induction ps)
  case (Cons p ps)
  then have "read_bytes io d' p = read_bytes io d p" "chained_lines_bounded io d' ps lim = chained_lines_bounded io d ps lim"
    using read_cong(2) [of d' p d] by simp_all
  then show ?case by (simp only: chained_lines_bounded.simps)
qed simp

lemma prefix_lines_cong:
  assumes "resolved_paths x io d' loc = Inr ps" and "resolved_paths x io d loc = Inr ps"
    and "\<forall>p \<in> set ps. file_at d' p = file_at d p"
  shows "prefix_lines x io d' loc = prefix_lines x io d loc"
proof -
  have "last ps \<in> set ps" using resolved_paths_nonempty [OF assms(1)] by simp
  then have "scan_torn_tail io d' (last ps) = scan_torn_tail io d (last ps)"
    using assms(3) by (intro read_cong(3)) simp
  with assms chained_lines_cong [OF assms(3)] show ?thesis by (simp add: prefix_lines_def)
qed

lemma add_verifier_mem [simp]: "k \<in> set (add_verifier vs k)"
  by (simp add: add_verifier_def)

lemma lock_single_writer_InrD:
  "lock_single_writer io path d = (Inr (), d') \<Longrightarrow> \<not> is_dir d path \<Longrightarrow>
    path \<notin> set (d_locks d) \<and> d_locks d' = path # d_locks d \<and> file_at d' path = Some (content d path) \<and>
    \<not> is_dir d' path \<and> path_exists d' path"
  by (auto simp: lock_single_writer_def writer_lock_file_def s_simps res_simps path_exists_def content_def
      file_at_def put_file_def is_dir_def split: if_splits option.splits)

lemma open_single_core:
  assumes "open_single_inner x io path key retired anchor d = (Inr L, d')"
  shows "ledger_inv x d' L \<and> \<not> l_failed L \<and> l_key L = key \<and> path \<notin> set (d_locks d) \<and> path \<in> set (d_locks d') \<and>
    l_location L = Single path \<and> (file_at d path \<noteq> None \<and> l_location K = Single path \<longrightarrow> log_lines x d' K = log_lines x d K)"
proof -
  let ?cur = "x_public x key" and ?vs = "add_verifier retired (x_public x key)"
  from assms obtain d1 where nd: "\<not> is_dir d path" and lk: "lock_single_writer io path d = (Inr (), d1)"
    by (auto simp: open_single_inner_def s_simps Let_def res_simps)
  note l = lock_single_writer_InrD [OF lk nd]
  with assms nd lk obtain rep d2 d3 where ro: "resolve_open_head x io (Single path) ?vs ?cur anchor d1 = (Inr rep, d2)"
    and oa: "open_append_owner_only io path d2 = (Inr (), d')" and
    L: "L = \<lparr>l_location = Single path, l_active_path = path, l_key = key, l_last_hash = unwrap_or genesis (vr_root rep),
        l_next_seq = vr_entries rep, l_verifiers = ?vs, l_signers = vr_signers rep, l_sync = False,
        l_rollover = None, l_failed = False\<rparr>"
    by (auto simp: open_single_inner_def s_simps Let_def)
  from resolve_open_head_clean [OF ro] have c: "verify_inner x no_faults d2 (Single path) ?vs None = Inr (rep, None)"
      "superseded_by rep (key_fingerprint x ?cur) = None" "file_at d2 path \<noteq> None"
      "d2 = d1 \<or> (\<exists>p a. d2 = put_file p a d1)"
      and pl: "\<exists>ls torn. prefix_lines x no_faults d1 (Single path) = Inr (ls, torn) \<and>
        prefix_lines x no_faults d2 (Single path) = Inr (ls, None)" by auto
  have ll: "log_lines x d' K = log_lines x d K" if "file_at d path \<noteq> None" "l_location K = Single path" "d' = d2"
  proof -
    have "file_at d1 path = file_at d path" using l that(1) by (auto simp: content_def)
    then have "prefix_lines x no_faults d1 (Single path) = prefix_lines x no_faults d (Single path)"
      by (intro prefix_lines_cong [where ps = "[path]"]) auto
    with pl that show ?thesis by (auto simp: log_lines_def)
  qed
  have d2: "d' = d2" using oa c(3) by (auto simp: open_append_owner_only_def s_simps)
  have "d_locks d2 = d_locks d1" using c(4) by auto
  with c d2 L l ll show ?thesis
    by (auto simp: ledger_inv_def place_ok_def key_ok_def head_of_def superseded_by_def)
qed

lemma open_segmented_core:
  assumes "ext_ok x" and "open_segmented_inner x io dir key retired policy anchor d = (Inr L, d')"
    and "\<And>m. load_manifest x no_faults d dir = Inr (Some m) \<Longrightarrow> distinct (map sm_file (mf_segments m))"
  shows "ledger_inv x d' L \<and> \<not> l_failed L \<and> l_key L = key \<and>
    l_location L = Segmented dir \<and>
    (names_ok x d (Segmented dir) \<and> l_location K = Segmented dir \<longrightarrow> log_lines x d' K = log_lines x d K)"
proof -
  let ?cur = "x_public x key" and ?vs = "add_verifier retired (x_public x key)"
  from assms(2) obtain d1 found d2 m where
    cd0: "create_dir_all io dir d = (Inr (), d1)" and ld0: "load_manifest x io d1 dir = Inr found" and
    mm0: "(case found of Some m \<Rightarrow> s_ret m | None \<Rightarrow> initialize x io dir) d1 = (Inr m, d2)" and
    rest: "(case active m of
         None \<Rightarrow> s_fail (Io dir no_unsealed)
       | Some seg \<Rightarrow>
            s_bind (resolve_open_head x io (Segmented dir) ?vs ?cur anchor) (\<lambda>report.
            s_bind (open_append_owner_only io (join dir (sm_file seg))) (\<lambda>_.
            s_ret \<lparr>l_location = Segmented dir, l_active_path = join dir (sm_file seg), l_key = key,
              l_last_hash = unwrap_or genesis (vr_root report), l_next_seq = vr_entries report,
              l_verifiers = ?vs, l_signers = vr_signers report, l_sync = False,
              l_rollover = Some \<lparr>rs_policy = policy, rs_manifest = m\<rparr>, l_failed = False\<rparr>))) d2 = (Inr L, d')"
    unfolding open_segmented_inner_def Let_def by (auto simp: s_simps)
  then obtain seg rep d3 where
    cd: "create_dir_all io dir d = (Inr (), d1)" and ld: "load_manifest x io d1 dir = Inr found" and
    mm: "(case found of Some m \<Rightarrow> s_ret m | None \<Rightarrow> initialize x io dir) d1 = (Inr m, d2)" and
    act: "active m = Some seg" and
    ro: "resolve_open_head x io (Segmented dir) ?vs ?cur anchor d2 = (Inr rep, d3)" and
    oa: "open_append_owner_only io (join dir (sm_file seg)) d3 = (Inr (), d')" and
    L: "L = \<lparr>l_location = Segmented dir, l_active_path = join dir (sm_file seg), l_key = key,
              l_last_hash = unwrap_or genesis (vr_root rep), l_next_seq = vr_entries rep,
              l_verifiers = ?vs, l_signers = vr_signers rep, l_sync = False,
              l_rollover = Some \<lparr>rs_policy = policy, rs_manifest = m\<rparr>, l_failed = False\<rparr>"
    by (cases "active m") (auto simp: s_simps)
  have f1: "file_at d1 q = file_at d q" for q using cd
    by (auto simp: create_dir_all_def s_simps file_at_def split: if_splits)
  have m: "manifest_ok m \<and> distinct (map sm_file (mf_segments m)) \<and> load_manifest x no_faults d2 dir = Inr (Some m)"
  proof (cases found)
    case (Some m0)
    with mm have "m0 = m" "d2 = d1" by (auto simp: s_simps)
    with ld Some have l: "load_manifest x no_faults d1 dir = Inr (Some m)" by (auto dest: load_manifest_any_io)
    with f1 have "load_manifest x no_faults d dir = Inr (Some m)" using load_manifest_cong [of d1 dir d x no_faults] by simp
    with assms(3) have "distinct (map sm_file (mf_segments m))" by blast
    with load_manifest_SomeD [OF l] l \<open>d2 = d1\<close> act show ?thesis by (simp add: manifest_ok_def)
  next
    case None
    let ?m1 = "\<lparr>mf_version = 1, mf_segments = [\<lparr>sm_file = segment_filename 1, sm_start_seq = 0, sm_end_seq = None, sm_opened_ms = 0\<rparr>]\<rparr>"
    from None mm obtain d4 where sv: "save_manifest x io dir ?m1 d4 = (Inr (), d2)" and m1: "m = ?m1"
      by (auto simp: initialize_def s_simps Let_def)
    have ok: "manifest_ok ?m1" using segment_filename_round [of 1]
      by (simp add: manifest_ok_def validate_manifest_shape_def active_def max_segment_index_def)
    have "manifest_law x" using assms(1) by (simp add: ext_ok_def)
    from save_manifest_spec [OF sv this ok] ok m1 show ?thesis by simp
  qed
  then obtain ss where ss: "mf_segments m = ss @ [seg]" using act by (auto simp: manifest_ok_iff)
  have "p \<notin> set ps" if "resolved_paths x no_faults d2 (Segmented dir) = Inr (ps @ [p])" for ps p
  proof -
    have "ps @ [p] = seg_files dir m" using that m by (auto simp: segment_paths_eq)
    moreover have "distinct (seg_files dir m)" using m by (simp add: seg_files_distinct)
    ultimately have "distinct (ps @ [p])" by simp
    then show ?thesis by simp
  qed
  from resolve_open_head_clean [OF ro this] have c: "verify_inner x no_faults d3 (Segmented dir) ?vs None = Inr (rep, None)"
      "superseded_by rep (key_fingerprint x ?cur) = None"
      "d3 = d2 \<or> (\<exists>p a t. file_at d2 p = Some (a @ t) \<and> manifest_path (Segmented dir) \<noteq> Some p \<and> d3 = put_file p a d2)"
      and paths: "\<exists>paths. resolved_paths x no_faults d3 (Segmented dir) = Inr paths \<and>
        resolved_paths x no_faults d2 (Segmented dir) = Inr paths \<and> (\<forall>p \<in> set paths. file_at d3 p \<noteq> None)"
      and pl: "\<exists>ls torn. prefix_lines x no_faults d2 (Segmented dir) = Inr (ls, torn) \<and>
        prefix_lines x no_faults d3 (Segmented dir) = Inr (ls, None)"
    by blast+
  have ll: "log_lines x d' K = log_lines x d K"
    if "names_ok x d (Segmented dir)" "l_location K = Segmented dir" "d' = d3"
  proof -
    have "load_manifest x no_faults d1 dir = load_manifest x no_faults d dir" using f1 by (intro load_manifest_cong)
    with that(1) ld have "found \<noteq> None" by (auto simp: names_ok_def dest: load_manifest_any_io)
    with mm have "d2 = d1" by (auto simp: s_simps)
    then have f2: "file_at d2 q = file_at d q" for q using f1 by simp
    from paths obtain qs where qs: "resolved_paths x no_faults d2 (Segmented dir) = Inr qs" "\<forall>q \<in> set qs. file_at d3 q \<noteq> None"
      by blast
    have "file_at d q \<noteq> None" if "q \<in> set qs" for q using qs(2) that c(3) f2 by (auto split: if_splits)
    moreover have "load_manifest x no_faults d2 dir = load_manifest x no_faults d dir" using f2 by (intro load_manifest_cong)
    ultimately have "resolved_paths x no_faults d (Segmented dir) = Inr qs"
      using qs(1) by (auto simp: segment_paths_eq path_exists_def)
    then have "prefix_lines x no_faults d2 (Segmented dir) = prefix_lines x no_faults d (Segmented dir)"
      using qs(1) f2 by (intro prefix_lines_cong) simp_all
    with pl that show ?thesis by (auto simp: log_lines_def)
  qed
  have "load_manifest x no_faults d3 dir = load_manifest x no_faults d2 dir"
    using c(3) by (intro load_manifest_cong) (auto simp: manifest_path_def)
  with m have ld3: "load_manifest x no_faults d3 dir = Inr (Some m)" by simp
  have "join dir (sm_file seg) \<in> set (seg_files dir m)" using ss by (simp add: seg_files_def)
  with paths ld3 have "file_at d3 (join dir (sm_file seg)) \<noteq> None" by (auto simp: segment_paths_eq)
  then have d3: "d' = d3" using oa by (auto simp: open_append_owner_only_def s_simps)
  from m c(1,2) ld3 d3 L ss ll show ?thesis
    by (auto simp: ledger_inv_def place_ok_def key_ok_def head_of_def superseded_by_def)
qed

lemma rotate_core:
  assumes "ledger_inv x d L"
  shows "((\<exists>e. rotate x k L = Inl e) \<longleftrightarrow> successor (l_signers L) (key_fingerprint x (x_public x k)) \<noteq> None) \<and>
    (\<forall>L'. rotate x k L = Inr L' \<longrightarrow> ledger_inv x d L' \<and> l_key L' = k \<and> log_lines x d L' = log_lines x d L \<and>
      l_next_seq L' = l_next_seq L \<and> l_last_hash L' = l_last_hash L)"
proof (intro conjI allI impI)
  show "(\<exists>e. rotate x k L = Inl e) \<longleftrightarrow> successor (l_signers L) (key_fingerprint x (x_public x k)) \<noteq> None"
    by (auto simp: rotate_def Let_def split: option.splits)
next
  fix L' assume "rotate x k L = Inr L'"
  then have n: "successor (l_signers L) (key_fingerprint x (x_public x k)) = None"
    and L': "L' = L\<lparr>l_verifiers := add_verifier (l_verifiers L) (x_public x k), l_key := k\<rparr>"
    by (auto simp: rotate_def Let_def split: option.splits)
  obtain rep where r: "verify_inner x no_faults d (l_location L) (l_verifiers L) None = Inr (rep, None)"
      "head_of L rep" "place_ok x d L" "key_ok x L" using assms by (rule inv_log)
  have ne: "l_verifiers L \<noteq> []" using r(4) by (auto simp: key_ok_def)
  have "verify_inner x no_faults d (l_location L) (l_verifiers L @ ks) None = Inr (rep, None)" for ks
    using r(1) verify_lines_more_keys [OF ne] unfolding verify_inner_iff
    by (auto simp: verify_prefix_def res_simps)
  then have "verify_inner x no_faults d (l_location L) (add_verifier (l_verifiers L) (x_public x k)) None = Inr (rep, None)"
    using r(1) by (simp add: add_verifier_def)
  moreover have "place_ok x d L'" using r(3) place_ok_cong [of L' L] L' by simp
  moreover have "log_lines x d L' = log_lines x d L" by (rule log_lines_location) (simp add: L')
  ultimately show "ledger_inv x d L'" "l_key L' = k" "log_lines x d L' = log_lines x d L"
      "l_next_seq L' = l_next_seq L" "l_last_hash L' = l_last_hash L"
    using n r(2) L' by (auto simp: ledger_inv_def key_ok_def head_of_def)
qed

section \<open>Properties\<close>

text \<open>C24: append is faithful: when it returns a record, the entry was stamped with the next sequence
  number and chained to the head, exactly one line was added to the log, the record of that entry, the log on disk still
  verifies under the ledger's keyring, and the head, count and signers the ledger now holds are
  the ones that verification reports.\<close>

theorem append_extends_log:
  assumes "ext_ok x" and "ledger_inv x d L" and "ledger_append x io e (d, L) = (Inr rec, (d', L'))"
  shows "ledger_inv x d' L' \<and> l_next_seq L' = l_next_seq L + 1 \<and> l_last_hash L' = lr_hash rec \<and>
    lr_entry rec = e\<lparr>e_seq := l_next_seq L\<rparr> \<and> lr_prev rec = l_last_hash L \<and>
    (\<exists>line. log_lines x d' L' = log_lines x d L @ [line] \<and> carries x line (lr_entry rec))"
  using append_extends_log_core [OF assms] by blast

text \<open>C16: a failed append never costs a record. When append fails and the ledger stays usable, the
  invariant holds and the log is what it was. When it leaves the ledger failed, because the write
  may have reached the disk in part or a rollover's manifest landed, reopening with the same key
  succeeds and finds a log that verifies, with exactly the records from before or those and
  the one being written.\<close>

theorem failed_append_recovers:
  assumes "ext_ok x" and "ledger_inv x d L" and "\<not> l_failed L"
    and "ledger_append x io e (d, L) = (Inl err, (d', L'))"
  shows "(\<not> l_failed L' \<longrightarrow> ledger_inv x d' L' \<and> log_lines x d' L' = log_lines x d L) \<and>
    (l_failed L' \<longrightarrow> (\<exists>rep d''.
       resolve_open_head x no_faults (l_location L) (l_verifiers L) (x_public x (l_key L)) None d' = (Inr rep, d'') \<and>
       verify_inner x no_faults d'' (l_location L) (l_verifiers L) None = Inr (rep, None) \<and>
       (log_lines x d'' L = log_lines x d L \<and> head_of L rep \<or>
        (\<exists>line. log_lines x d'' L = log_lines x d L @ [line] \<and> carries x line (e\<lparr>e_seq := l_next_seq L\<rparr>)) \<and> vr_entries rep = l_next_seq L + 1)))"
  using failed_append_core [OF assms] by blast

text \<open>A single-file open, anchored or not, hands back a ledger in step with the disk: the
  file it leaves verifies under the keyring, with no fragment at its end, to exactly the head,
  count and signers the ledger holds, and this handle holds the writer lock, which nobody held.\<close>

theorem open_single_establishes_invariant:
  assumes "open_single_inner x io path key retired anchor d = (Inr L, d')"
  shows "ledger_inv x d' L \<and> \<not> l_failed L \<and> l_key L = key \<and> path \<notin> set (d_locks d) \<and> path \<in> set (d_locks d')"
  using open_single_core [OF assms, of undefined] by blast

text \<open>So does a segmented open, of a new directory or of one whose manifest names no file twice.\<close>

theorem open_segmented_establishes_invariant:
  assumes "ext_ok x" and "open_segmented_inner x io dir key retired policy anchor d = (Inr L, d')"
    and "\<And>m. load_manifest x no_faults d dir = Inr (Some m) \<Longrightarrow> distinct (map sm_file (mf_segments m))"
  shows "ledger_inv x d' L \<and> \<not> l_failed L \<and> l_key L = key"
  using open_segmented_core [OF assms, of undefined] by blast

text \<open>Rotating keys keeps the invariant, the log and the head, and refuses exactly the keys another
  key has followed in the log.\<close>

theorem rotate_keeps_invariant:
  assumes "ledger_inv x d L"
  shows "((\<exists>e. rotate x k L = Inl e) \<longleftrightarrow> successor (l_signers L) (key_fingerprint x (x_public x k)) \<noteq> None) \<and>
    (\<forall>L'. rotate x k L = Inr L' \<longrightarrow> ledger_inv x d L' \<and> l_key L' = k \<and> log_lines x d L' = log_lines x d L \<and>
      l_next_seq L' = l_next_seq L \<and> l_last_hash L' = l_last_hash L)"
  using assms by (rule rotate_core)

section \<open>A ledger from an empty disk\<close>

lemma demo_sig_law: "sig_law demo_ext"
  by (simp add: sig_law_def)

lemma demo_record_law: "record_law demo_ext"
  unfolding record_law_def
proof (intro conjI allI impI)
  fix e s assume "x_entry_json demo_ext e = Inr s"
  then show "\<exists>e'. x_parse_entry demo_ext s = Inr e' \<and> e_seq e' = e_seq e" by (auto simp: demo_ext_def)
next
  fix e s s' assume "x_raw demo_ext s = Inr s'"
  then show "s' = s" by (simp add: demo_ext_def)
next
  fix r l assume "x_record_json demo_ext r = Inr l"
  then have l: "demo_record_json r = Inr l" by simp
  show "x_parse_record demo_ext l = Inr r" using demo_parse_json [OF l] by simp
  show "nl \<notin> set l" "l \<noteq> []" "hd l = CHR ''{''" "last l \<noteq> CHR 0x0D" "utf8_ok l"
    using demo_record_line [OF l] by auto
qed

lemma demo_ext_ok: "ext_ok demo_ext"
  by (simp add: ext_ok_def demo_hex_ok demo_sha_ok demo_sig_law demo_record_law demo_manifest_law)

definition empty_disk :: disk where
  "empty_disk = \<lparr>d_files = [], d_dirs = [], d_locks = []\<rparr>"

definition demo_ledger :: ledger where
  "demo_ledger = \<lparr>l_location = Single ''l'', l_active_path = ''l'', l_key = ''k'', l_last_hash = genesis,
     l_next_seq = 0, l_verifiers = [''k''], l_signers = [], l_sync = False, l_rollover = None, l_failed = False\<rparr>"

definition demo_disk1 :: disk where
  "demo_disk1 = \<lparr>d_files = [(''l'', [])], d_dirs = [], d_locks = [''l'']\<rparr>"

lemma demo_ledger_open: "open_single_inner demo_ext no_faults ''l'' ''k'' [] None empty_disk = (Inr demo_ledger, demo_disk1)"
proof -
  have "lock_single_writer no_faults ''l'' empty_disk = (Inr (), demo_disk1)"
    by (simp add: lock_single_writer_def writer_lock_file_def s_bind_def io_step_def s_look_def d_upd_def
        path_exists_def is_dir_def file_at_def put_file_def empty_disk_def demo_disk1_def)
  moreover have v: "verify_prefix demo_ext no_faults demo_disk1 (Single ''l'') [''k''] None =
      Inr (\<lparr>vr_entries = 0, vr_root = None, vr_signatures_checked = True, vr_signers = []\<rparr>, None, None)"
    by (simp add: verify_prefix_def prefix_lines_def scan_torn_tail_def read_bytes_def file_at_def
        demo_disk1_def limited_def verify_lines_def init_vstate_def report_of_def)
  moreover have "resolve_open_head demo_ext no_faults (Single ''l'') [''k''] ''k'' None demo_disk1 =
      (Inr \<lparr>vr_entries = 0, vr_root = None, vr_signatures_checked = True, vr_signers = []\<rparr>, demo_disk1)"
    using reopen_ok [OF v, of "''k''"] by (simp add: superseded_by_def successor_def)
  moreover have "open_append_owner_only no_faults ''l'' demo_disk1 = (Inr (), demo_disk1)"
    by (simp add: open_append_owner_only_def s_bind_def io_step_def d_upd_def file_at_def demo_disk1_def)
  ultimately show ?thesis
    by (simp add: open_single_inner_def s_bind_def s_look_def s_ret_def add_verifier_def demo_ledger_def Let_def
        path_exists_def file_at_def demo_disk1_def is_dir_def empty_disk_def)
qed

theorem open_single_establishes_invariant_witness:
  "ledger_inv demo_ext demo_disk1 demo_ledger \<and> ''l'' \<in> set (d_locks demo_disk1)"
  using open_single_establishes_invariant [OF demo_ledger_open] by blast

lemma demo_inv: "ledger_inv demo_ext demo_disk1 demo_ledger"
proof -
  have "verify_inner demo_ext no_faults demo_disk1 (Single ''l'') [''k''] None =
      Inr (\<lparr>vr_entries = 0, vr_root = None, vr_signatures_checked = True, vr_signers = []\<rparr>, None)"
    by (simp add: verify_inner_def verify_prefix_def prefix_lines_def scan_torn_tail_def read_bytes_def file_at_def
        demo_disk1_def limited_def verify_lines_def init_vstate_def report_of_def)
  then show ?thesis
    by (simp add: ledger_inv_def place_ok_def key_ok_def head_of_def demo_ledger_def successor_def)
qed

lemma demo_make_record: "\<exists>rec line. make_record demo_ext demo_ledger (demo_entry 7) = Inr (rec, line) \<and> line \<noteq> []"
  by (simp add: make_record_def demo_ext_def demo_record_json_def map_err_def Let_def)

lemma demo_append: "\<exists>rec d' L'. ledger_append demo_ext no_faults (demo_entry 7) (demo_disk1, demo_ledger) = (Inr rec, (d', L'))"
proof -
  obtain rec line where "make_record demo_ext demo_ledger (demo_entry 7) = Inr (rec, line)" using demo_make_record by blast
  moreover have "\<not> l_failed demo_ledger" "l_rollover demo_ledger = None" "\<not> l_sync demo_ledger"
    by (simp_all add: demo_ledger_def)
  ultimately show ?thesis
    by (simp add: ledger_append_def s_bind_def s_look_def s_ret_def maybe_roll_over_def rebase_opened_def
        write_line_def on_ledger_def Let_def)
qed

theorem append_extends_log_witness:
  "\<exists>rec d' L' line. ledger_append demo_ext no_faults (demo_entry 7) (demo_disk1, demo_ledger) = (Inr rec, (d', L')) \<and>
    ledger_inv demo_ext d' L' \<and> l_next_seq L' = 1 \<and>
    log_lines demo_ext d' L' = log_lines demo_ext demo_disk1 demo_ledger @ [line]"
proof -
  obtain rec d' L' where a: "ledger_append demo_ext no_faults (demo_entry 7) (demo_disk1, demo_ledger) = (Inr rec, (d', L'))"
    using demo_append by blast
  from append_extends_log [OF demo_ext_ok demo_inv a] a show ?thesis by (auto simp: demo_ledger_def)
qed

definition torn_io :: io where
  "torn_io = \<lparr>io_fault = (\<lambda>op. if op = WriteAll ''l'' then Some ''disk full'' else None), io_cut = 3\<rparr>"

lemma demo_torn_append: "\<exists>d'. ledger_append demo_ext torn_io (demo_entry 7) (demo_disk1, demo_ledger) =
  (Inl (Io ''l'' ''disk full''), (d', demo_ledger\<lparr>l_failed := True\<rparr>))"
proof -
  obtain rec line where "make_record demo_ext demo_ledger (demo_entry 7) = Inr (rec, line)" using demo_make_record by blast
  moreover have "\<not> l_failed demo_ledger" "l_rollover demo_ledger = None" "l_active_path demo_ledger = ''l''"
    by (simp_all add: demo_ledger_def)
  ultimately show ?thesis
    by (simp add: ledger_append_def s_bind_def s_look_def s_ret_def maybe_roll_over_def rebase_opened_def
        write_line_def on_ledger_def Let_def torn_io_def)
qed

theorem failed_append_recovers_witness:
  "\<exists>d' rep d''. ledger_append demo_ext torn_io (demo_entry 7) (demo_disk1, demo_ledger) =
      (Inl (Io ''l'' ''disk full''), (d', demo_ledger\<lparr>l_failed := True\<rparr>)) \<and>
    resolve_open_head demo_ext no_faults (Single ''l'') [''k''] ''k'' None d' = (Inr rep, d'') \<and>
    verify_inner demo_ext no_faults d'' (Single ''l'') [''k''] None = Inr (rep, None)"
proof -
  obtain d' where a: "ledger_append demo_ext torn_io (demo_entry 7) (demo_disk1, demo_ledger) =
      (Inl (Io ''l'' ''disk full''), (d', demo_ledger\<lparr>l_failed := True\<rparr>))" using demo_torn_append by blast
  have "\<not> l_failed demo_ledger" by (simp add: demo_ledger_def)
  from failed_append_recovers [OF demo_ext_ok demo_inv this a] a show ?thesis by (auto simp: demo_ledger_def)
qed

theorem rotate_keeps_invariant_witness:
  "\<exists>L'. rotate demo_ext ''j'' demo_ledger = Inr L' \<and> ledger_inv demo_ext demo_disk1 L' \<and> l_key L' = ''j''"
proof -
  have "\<exists>L'. rotate demo_ext ''j'' demo_ledger = Inr L'" by (simp add: rotate_def demo_ledger_def successor_def)
  then obtain L' where "rotate demo_ext ''j'' demo_ledger = Inr L'" by blast
  with rotate_keeps_invariant [OF demo_inv, of "''j''"] show ?thesis by blast
qed


lemma demo_seg_files: "seg_files ''d'' demo_manifest = [join ''d'' (segment_filename 1)]"
  by (simp add: seg_files_def demo_manifest_def)

lemma demo_segment_at: "file_at demo_disk (join ''d'' (segment_filename 1)) = Some [nl]"
  using segment_filename_not_manifest(1) [of 1] by (simp add: demo_disk_def max_segment_index_def)

lemma demo_open_segmented:
  "\<exists>L. open_segmented_inner demo_ext no_faults ''d'' ''k'' [] (max_bytes_policy 1) None demo_disk = (Inr L, demo_disk)"
proof -
  let ?p = "join ''d'' (segment_filename 1)"
  have "resolved_paths demo_ext no_faults demo_disk (Segmented ''d'') = Inr ([] @ [?p])"
    using demo_load demo_seg_files demo_segment_at
    by (simp add: segment_paths_eq file_at_path_exists)
  moreover have "read_lines [nl] = ['''']" using read_lines_line [of "[]" "[]"] by (simp add: strip_cr_def)
  moreover have "utf8_ok ''''" by (simp add: utf8_ascii)
  ultimately have v: "verify_prefix demo_ext no_faults demo_disk (Segmented ''d'') [''k''] None =
      Inr (\<lparr>vr_entries = 0, vr_root = None, vr_signatures_checked = True, vr_signers = []\<rparr>, None, None)"
    unfolding verify_prefix_iff using demo_segment_at
    by - (rule exI [of _ "[]"], rule exI [of _ ?p], rule exI [of _ "[nl]"], rule exI [of _ "[]"],
      simp add: readable_def ends_nl_def verify_lines_def verify_line_def init_vstate_def report_of_def)
  from reopen_ok [OF v, of "''k''"]
  have "resolve_open_head demo_ext no_faults (Segmented ''d'') [''k''] ''k'' None demo_disk =
      (Inr \<lparr>vr_entries = 0, vr_root = None, vr_signatures_checked = True, vr_signers = []\<rparr>, demo_disk)"
    by (simp add: superseded_by_def successor_def)
  moreover have "create_dir_all no_faults ''d'' demo_disk = (Inr (), demo_disk)"
    by (simp add: create_dir_all_def s_bind_def io_step_def s_look_def d_upd_def is_dir_def demo_disk_def)
  moreover have "open_append_owner_only no_faults ?p demo_disk = (Inr (), demo_disk)"
    using demo_segment_at by (simp add: open_append_owner_only_def s_bind_def io_step_def d_upd_def)
  moreover have "active demo_manifest = Some \<lparr>sm_file = segment_filename 1, sm_start_seq = 0, sm_end_seq = None, sm_opened_ms = 0\<rparr>"
    by (simp add: active_def demo_manifest_def)
  ultimately show ?thesis using demo_load
    by (simp add: open_segmented_inner_def s_bind_def s_look_def s_ret_def add_verifier_def Let_def)
qed

theorem open_segmented_establishes_invariant_witness:
  "\<exists>L. open_segmented_inner demo_ext no_faults ''d'' ''k'' [] (max_bytes_policy 1) None demo_disk = (Inr L, demo_disk) \<and>
    ledger_inv demo_ext demo_disk L"
proof -
  obtain L where L: "open_segmented_inner demo_ext no_faults ''d'' ''k'' [] (max_bytes_policy 1) None demo_disk = (Inr L, demo_disk)"
    using demo_open_segmented by blast
  have "distinct (map sm_file (mf_segments m))" if "load_manifest demo_ext no_faults demo_disk ''d'' = Inr (Some m)" for m
  proof -
    have "m = demo_manifest" using that demo_load by simp
    then show ?thesis by (simp add: demo_manifest_def)
  qed
  from open_segmented_establishes_invariant [OF demo_ext_ok L this] L show ?thesis by blast
qed

end
