(* ===== verification/Commitments.thy ===== *)
theory Commitments
  imports Ledger
begin

text \<open>
  What a ledger issues over its own records: \<open>decern-ledger/src/ledger/commitments.rs\<close>. A
  checkpoint signs the chain's head, a tree head the Merkle root over the record hashes; proofs
  are cut from the same leaves, and an anchor is a checkpoint saved beside the log. The theorems
  tie them to the log on disk: what a ledger in step with its disk issues, a third party accepts,
  and a head issued earlier is proved consistent with the log as it has grown.
\<close>

section \<open>The code\<close>

definition ledger_checkpoint :: "ext \<Rightarrow> ledger \<Rightarrow> nat \<Rightarrow> checkpoint" where
  "ledger_checkpoint x L ts_ms =
     (let root = l_last_hash L; count = l_next_seq L;
          sig = x_sign x (l_key L) (checkpoint_bytes root count ts_ms) in
      \<lparr>cp_root = root, cp_count = count, cp_ts_ms = ts_ms, cp_pubkey_hex = pubkey_hex x L,
       cp_sig_b64 = x_b64 x sig\<rparr>)"

definition merkle_leaves :: "ext \<Rightarrow> io \<Rightarrow> disk \<Rightarrow> ledger \<Rightarrow> ledger_error + bytes list" where
  "merkle_leaves x io d L =
     (let count = l_next_seq L in res_bind (read_records x io d L 0 count) (leaves_from_records x))"

definition sign_tree_head :: "ext \<Rightarrow> ledger \<Rightarrow> string \<Rightarrow> nat \<Rightarrow> nat \<Rightarrow> tree_head" where
  "sign_tree_head x L merkle_root tree_size ts_ms =
     (let sig = x_sign x (l_key L) (tree_head_bytes merkle_root tree_size ts_ms) in
      \<lparr>th_merkle_root = merkle_root, th_tree_size = tree_size, th_ts_ms = ts_ms,
       th_pubkey_hex = pubkey_hex x L, th_sig_b64 = x_b64 x sig\<rparr>)"

definition ledger_tree_head :: "ext \<Rightarrow> io \<Rightarrow> disk \<Rightarrow> ledger \<Rightarrow> nat \<Rightarrow> ledger_error + tree_head" where
  "ledger_tree_head x io d L ts_ms =
     res_bind (merkle_leaves x io d L) (\<lambda>leaves.
     (let root_hex = x_hex x (tree_hash (x_sha256 x) leaves) in
      Inr (sign_tree_head x L root_hex (length leaves) ts_ms)))"

definition ledger_inclusion_proof ::
  "ext \<Rightarrow> io \<Rightarrow> disk \<Rightarrow> ledger \<Rightarrow> nat \<Rightarrow> ledger_error + inclusion_proof_rec" where
  "ledger_inclusion_proof x io d L seq =
     res_bind (merkle_leaves x io d L) (\<lambda>leaves.
     res_bind (ok_or (inclusion_proof (x_sha256 x) leaves seq) (Tamper seq IndexPastEnd)) (\<lambda>path.
     Inr \<lparr>ip_leaf_index = seq, ip_tree_size = length leaves, ip_leaf_data = x_hex x (leaves ! seq),
          ip_audit_path = map (x_hex x) path\<rparr>))"

definition ledger_inclusion_proofs ::
  "ext \<Rightarrow> io \<Rightarrow> disk \<Rightarrow> ledger \<Rightarrow> nat list \<Rightarrow> ledger_error + inclusion_proof_rec list" where
  "ledger_inclusion_proofs x io d L seqs =
     res_bind (merkle_leaves x io d L) (\<lambda>leaves. inclusion_proofs_over x leaves seqs)"

definition ledger_consistency_proof ::
  "ext \<Rightarrow> io \<Rightarrow> disk \<Rightarrow> ledger \<Rightarrow> nat \<Rightarrow> ledger_error + consistency_proof_rec" where
  "ledger_consistency_proof x io d L first_size =
     res_bind (merkle_leaves x io d L) (\<lambda>leaves.
     res_bind (ok_or (consistency_proof (x_sha256 x) leaves first_size) (Tamper first_size FirstSizeOutOfRange)) (\<lambda>path.
     Inr \<lparr>cpf_first_size = first_size, cpf_second_size = length leaves, cpf_proof = map (x_hex x) path\<rparr>))"

definition snapshot_for_bundle ::
  "ext \<Rightarrow> io \<Rightarrow> disk \<Rightarrow> ledger \<Rightarrow> nat \<Rightarrow> ledger_error + (nat \<times> string list \<times> checkpoint \<times> tree_head)" where
  "snapshot_for_bundle x io d L ts_ms =
     (let count = l_next_seq L; root = l_last_hash L in
      res_bind (read_raw_records x io d L 0 count) (\<lambda>raw_records.
      (let cp_sig = x_sign x (l_key L) (checkpoint_bytes root count ts_ms);
           checkpoint = \<lparr>cp_root = root, cp_count = count, cp_ts_ms = ts_ms, cp_pubkey_hex = pubkey_hex x L,
             cp_sig_b64 = x_b64 x cp_sig\<rparr> in
       res_bind (res_bind (read_records x io d L 0 count) (leaves_from_records x)) (\<lambda>leaves.
       (let merkle_root = x_hex x (tree_hash (x_sha256 x) leaves); tree_size = length leaves;
            th_sig = x_sign x (l_key L) (tree_head_bytes merkle_root tree_size ts_ms);
            tree_head = \<lparr>th_merkle_root = merkle_root, th_tree_size = tree_size, th_ts_ms = ts_ms,
              th_pubkey_hex = pubkey_hex x L, th_sig_b64 = x_b64 x th_sig\<rparr> in
        Inr (count, raw_records, checkpoint, tree_head))))))"

definition seal_anchor :: "ext \<Rightarrow> io \<Rightarrow> ledger \<Rightarrow> string \<Rightarrow> nat \<Rightarrow> checkpoint dsk" where
  "seal_anchor x io L anchor_path ts_ms =
     (let cp = ledger_checkpoint x L ts_ms in
      s_bind (save_anchor x io anchor_path cp) (\<lambda>_. s_ret cp))"

definition verify_against_anchor :: "ext \<Rightarrow> io \<Rightarrow> disk \<Rightarrow> ledger \<Rightarrow> string \<Rightarrow> ledger_error + unit" where
  "verify_against_anchor x io d L anchor_path =
     res_bind (load_anchor x io d anchor_path) (\<lambda>a.
       case a of
         None \<Rightarrow> Inr ()
       | Some cp \<Rightarrow>
           res_bind (res_guard (list_ex (verify_checkpoint_sig x cp) (l_verifiers L))
                       (Tamper (cp_count cp) AnchorNotTrusted)) (\<lambda>_.
           res_bind (ledger_extends_checkpoint_at x io d (l_location L) cp) (\<lambda>ok.
           res_guard ok (Tamper (cp_count cp) (NotExtendsAnchor (cp_count cp) False)))))"

section \<open>Reading a log in step\<close>

text \<open>The lines serde reads both ways: a line that parses as a record also parses as a value, whose
  \<open>hash\<close> is the record's, and as a raw value, which is the line.\<close>

definition value_ok :: "ext \<Rightarrow> string \<Rightarrow> bool" where
  "value_ok x l \<longleftrightarrow> (\<forall>r. x_parse_record x l = Inr r \<longrightarrow> x_raw x l = Inr l \<and>
     (\<exists>v. x_value x l = Inr v \<and> jget_str v ''hash'' = Some (rl_hash r)))"

abbreviation stored :: "string list \<Rightarrow> string list" where
  "stored ls \<equiv> filter (\<lambda>l. \<not> is_blank l) ls"

lemma take_lines_all:
  assumes "\<And>l. l \<in> set (stored ls) \<Longrightarrow> f l = Inr (g l)" and "n = length (stored ls)"
  shows "take_lines f n (map Inr ls) = Inr (map g (stored ls))"
  using assms
proof (induction ls arbitrary: n)
  case (Cons l ls)
  show ?case
  proof (cases "is_blank l")
    case True
    with Cons show ?thesis by (cases "stored ls = []") (auto simp: filter_empty_conv)
  next
    case False
    with Cons.IH [of "length (stored ls)"] Cons.prems show ?thesis by simp
  qed
qed simp

lemma records_of_stored:
  assumes "\<And>l. l \<in> set (stored ls) \<Longrightarrow> x_parse_record x l = Inr (p l)"
  shows "records_of x ls = map p (stored ls)"
  using assms by (induction ls) auto

definition leaf_of :: "ext \<Rightarrow> record_line \<Rightarrow> bytes" where
  "leaf_of x r = chain_hash x (rl_entry r) (rl_prev r)"

lemma chained_hashes:
  "chained x prev n rs \<Longrightarrow> r \<in> set rs \<Longrightarrow> rl_hash r = x_hex x (leaf_of x r)"
  by (induction rs arbitrary: prev n) (auto simp: leaf_of_def)

lemma leaves_from_records_all:
  assumes "hex_ok x" and "list_all2 (\<lambda>v r. jget_str v ''hash'' = Some (x_hex x (leaf_of x r))) vs rs"
  shows "leaves_from_records_at x i vs = Inr (map (leaf_of x) rs)"
  using assms(2)
proof (induction arbitrary: i rule: list_all2_induct)
  case (Cons v vs r rs)
  then show ?case using assms(1) by (simp add: ok_or_def hex_ok_def)
qed simp

lemma inv_lines_of:
  assumes "ledger_inv x d L"
  shows "lines_of x no_faults d (l_location L) = Inr (map Inr (log_lines x d L))"
proof -
  obtain rep where r: "verify_inner x no_faults d (l_location L) (l_verifiers L) None = Inr (rep, None)" "place_ok x d L"
    using assms by (rule inv_log)
  from verify_inner_files [OF r(2,1)] obtain ps a where
    f: "resolved_paths x no_faults d (l_location L) = Inr (ps @ [l_active_path L])"
      "readable no_faults d (ps @ [l_active_path L])" "file_at d (l_active_path L) = Some a"
      "\<forall>l \<in> set (file_lines d ps @ read_lines a). utf8_ok l" "log_lines x d L = file_lines d ps @ read_lines a"
    by blast
  have "bounded_lines d (ps @ [l_active_path L]) None = log_lines x d L"
    using f(3,5) by (simp add: bounded_lines_snoc limited_def content_def)
  with f chained_lines_Inr_iff [of no_faults d "ps @ [l_active_path L]" None "log_lines x d L"]
  have "chained_lines_bounded no_faults d (ps @ [l_active_path L]) None = map Inr (log_lines x d L)" by auto
  with f(1) show ?thesis by (simp add: lines_of_def chained_lines_def)
qed

text \<open>The records of the log behind a ledger, and what reading them gives.\<close>

abbreviation log_records :: "ext \<Rightarrow> disk \<Rightarrow> ledger \<Rightarrow> record_line list" where
  "log_records x d L \<equiv> records_of x (log_lines x d L)"

lemma inv_records:
  assumes "ledger_inv x d L"
  shows "chained x genesis 0 (log_records x d L)" "length (log_records x d L) = l_next_seq L"
    "head_hash genesis (log_records x d L) = l_last_hash L"
    "\<And>l. l \<in> set (stored (log_lines x d L)) \<Longrightarrow> \<exists>r. x_parse_record x l = Inr r"
proof -
  obtain rep where r: "head_of L rep" "verify_lines x (map Inr (log_lines x d L)) (l_verifiers L) None = Inr (rep, None)"
    using assms by (rule inv_log)
  from verify_lines_chain [OF r(2)] r(1)
  show "chained x genesis 0 (log_records x d L)" "length (log_records x d L) = l_next_seq L"
    "head_hash genesis (log_records x d L) = l_last_hash L" by (auto simp: head_of_def)
  from r(2) obtain st where "verify_loop x (l_verifiers L) 0 (init_vstate None) (map Inr (log_lines x d L)) = Inr st"
    by (auto simp: verify_lines_def res_simps)
  from verify_loop_parses [OF this]
  show "\<exists>r. x_parse_record x l = Inr r" if "l \<in> set (stored (log_lines x d L))" for l using that by auto
qed

lemma inv_reads:
  assumes "ledger_inv x d L" and "\<forall>l \<in> set (log_lines x d L). value_ok x l" and "hex_ok x"
  shows "merkle_leaves x no_faults d L = Inr (map (leaf_of x) (log_records x d L))"
    "read_raw_records x no_faults d L 0 (l_next_seq L) = Inr (stored (log_lines x d L))"
proof -
  let ?ls = "stored (log_lines x d L)"
  note i = inv_records [OF assms(1)] and lo = inv_lines_of [OF assms(1)]
  have p: "x_parse_record x l = Inr (projr (x_parse_record x l))" if "l \<in> set ?ls" for l using i(4) [OF that] by auto
  then have rs: "log_records x d L = map (\<lambda>l. projr (x_parse_record x l)) ?ls" by (rule records_of_stored)
  then have n: "l_next_seq L = length ?ls" using i(2) by simp
  have v: "x_raw x l = Inr l \<and> x_value x l = Inr (projr (x_value x l)) \<and>
      jget_str (projr (x_value x l)) ''hash'' = Some (rl_hash (projr (x_parse_record x l)))" if "l \<in> set ?ls" for l
  proof -
    from i(4) [OF that] obtain r where r: "x_parse_record x l = Inr r" by blast
    moreover have "value_ok x l" using assms(2) that by simp
    ultimately obtain v where "x_raw x l = Inr l" "x_value x l = Inr v" "jget_str v ''hash'' = Some (rl_hash r)"
      by (auto simp: value_ok_def)
    with r show ?thesis by simp
  qed
  have "read_records x no_faults d L 0 (l_next_seq L) = Inr (map (\<lambda>l. projr (x_value x l)) ?ls)"
    using v n take_lines_all [of "log_lines x d L" "\<lambda>line. map_err Serde (x_value x line)" "\<lambda>l. projr (x_value x l)"]
    by (simp add: read_records_def lo map_err_eq_Inr)
  moreover have "list_all2 (\<lambda>v r. jget_str v ''hash'' = Some (x_hex x (leaf_of x r)))
      (map (\<lambda>l. projr (x_value x l)) ?ls) (log_records x d L)"
    unfolding rs list_all2_map1 list_all2_map2
  proof (rule list.rel_refl_strong)
    fix l assume l: "l \<in> set ?ls"
    then have "projr (x_parse_record x l) \<in> set (log_records x d L)" unfolding rs by auto
    from chained_hashes [OF i(1) this] conjunct2 [OF conjunct2 [OF v [OF l]]]
    show "jget_str (projr (x_value x l)) ''hash'' = Some (x_hex x (leaf_of x (projr (x_parse_record x l))))" by simp
  qed
  ultimately show "merkle_leaves x no_faults d L = Inr (map (leaf_of x) (log_records x d L))"
    using leaves_from_records_all [OF assms(3)] by (simp add: merkle_leaves_def leaves_from_records_def)
  show "read_raw_records x no_faults d L 0 (l_next_seq L) = Inr ?ls"
    using v n take_lines_all [of "log_lines x d L" "\<lambda>line. map_err Serde (x_raw x line)" id]
    by (simp add: read_raw_records_def lo map_err_def)
qed


section \<open>What a ledger issues verifies\<close>

lemma verify_checkpoint_signed:
  assumes "sig_law x"
  shows "verify_checkpoint_sig x (ledger_checkpoint x L ts) (x_public x (l_key L))"
  using assms by (simp add: verify_checkpoint_sig_def ledger_checkpoint_def decode_sig_def sig_law_def Let_def)

lemma verify_tree_head_signed:
  assumes "sig_law x"
  shows "verify_tree_head_sig x (sign_tree_head x L root n ts) (x_public x (l_key L))"
  using assms by (simp add: verify_tree_head_sig_def sign_tree_head_def decode_sig_def sig_law_def Let_def)

abbreviation log_leaves :: "ext \<Rightarrow> disk \<Rightarrow> ledger \<Rightarrow> bytes list" where
  "log_leaves x d L \<equiv> map (leaf_of x) (log_records x d L)"

lemma issued_tree_head:
  assumes "ledger_inv x d L" and "\<forall>l \<in> set (log_lines x d L). value_ok x l" and "hex_ok x"
  shows "ledger_tree_head x no_faults d L ts =
    Inr (sign_tree_head x L (x_hex x (tree_hash (x_sha256 x) (log_leaves x d L))) (l_next_seq L) ts)"
  using inv_reads [OF assms] inv_records(2) [OF assms(1)] by (simp add: ledger_tree_head_def)

text \<open>A proof's path as the verifier decodes it.\<close>

abbreviation decoded :: "ext \<Rightarrow> string list \<Rightarrow> bytes list" where
  "decoded x path \<equiv> map (\<lambda>h. the (x_unhex x h)) path"

lemma decoded_hex: "hex_ok x \<Longrightarrow> decoded x (map (x_hex x) path) = path"
  by (simp add: hex_ok_def comp_def)

text \<open>What a ledger in step with its disk issues, a third party accepts: the tree head is over
  exactly the stored records and signed under its key, every stored record has an inclusion proof
  that verifies against that root, and a sequence past the end has none.\<close>

theorem issued_inclusion_proofs_verify:
  assumes "ext_ok x" and "ledger_inv x d L" and "\<forall>l \<in> set (log_lines x d L). value_ok x l"
  shows "\<exists>th. ledger_tree_head x no_faults d L ts = Inr th \<and> th_tree_size th = l_next_seq L \<and>
    verify_tree_head_sig x th (x_public x (l_key L)) \<and>
    (\<forall>seq < l_next_seq L. \<exists>p. ledger_inclusion_proof x no_faults d L seq = Inr p \<and>
       ip_leaf_data p = rl_hash (log_records x d L ! seq) \<and>
       verify_inclusion (x_sha256 x) seq (ip_tree_size p) (hash_leaf (x_sha256 x) (the (x_unhex x (ip_leaf_data p))))
         (the (x_unhex x (th_merkle_root th))) (decoded x (ip_audit_path p))) \<and>
    (\<forall>seq \<ge> l_next_seq L. ledger_inclusion_proof x no_faults d L seq = Inl (Tamper seq IndexPastEnd))"
proof -
  from assms(1) have ok: "hex_ok x" "sig_law x" by (simp_all add: ext_ok_def)
  then have un: "x_unhex x (x_hex x b) = Some b" for b by (simp add: hex_ok_def)
  note i = inv_records [OF assms(2)] and lv = inv_reads(1) [OF assms(2,3) ok(1)]
  let ?H = "x_sha256 x" and ?d = "log_leaves x d L"
  have incl: "\<exists>p. ledger_inclusion_proof x no_faults d L seq = Inr p \<and> ip_leaf_data p = rl_hash (log_records x d L ! seq) \<and>
      verify_inclusion ?H seq (ip_tree_size p) (hash_leaf ?H (the (x_unhex x (ip_leaf_data p)))) (tree_hash ?H ?d)
        (decoded x (ip_audit_path p))" if "seq < l_next_seq L" for seq
  proof -
    have n: "seq < length ?d" using that i(2) by simp
    have h: "rl_hash (log_records x d L ! seq) = x_hex x (?d ! seq)" using chained_hashes [OF i(1)] n by simp
    show ?thesis using inclusion_path_ref [OF n, of ?H] n h i(2)
      by (simp add: ledger_inclusion_proof_def lv ok_or_def inclusion_proof_def verify_inclusion_ref un comp_def)
  qed
  have "ledger_inclusion_proof x no_faults d L seq = Inl (Tamper seq IndexPastEnd)" if "l_next_seq L \<le> seq" for seq
    using that i(2) by (simp add: ledger_inclusion_proof_def lv inclusion_proof_def ok_or_def)
  with incl issued_tree_head [OF assms(2,3) ok(1)] verify_tree_head_signed [OF ok(2)]
  show ?thesis by (simp add: sign_tree_head_def Let_def un)
qed

lemma demo_value_ok: "value_ok demo_ext l"
  by (auto simp: value_ok_def demo_ext_def jget_str_def)

theorem issued_inclusion_proofs_verify_witness:
  "\<exists>rec d' L' th p. ledger_append demo_ext no_faults (demo_entry 7) (demo_disk1, demo_ledger) = (Inr rec, (d', L')) \<and>
    ledger_tree_head demo_ext no_faults d' L' 5 = Inr th \<and> th_tree_size th = 1 \<and>
    ledger_inclusion_proof demo_ext no_faults d' L' 0 = Inr p \<and>
    verify_inclusion pad32 0 (ip_tree_size p) (hash_leaf pad32 (the (hex_decode (ip_leaf_data p))))
      (the (hex_decode (th_merkle_root th))) (map (\<lambda>h. the (hex_decode h)) (ip_audit_path p))"
proof -
  obtain rec d' L' where a: "ledger_append demo_ext no_faults (demo_entry 7) (demo_disk1, demo_ledger) = (Inr rec, (d', L'))"
    using demo_append by blast
  from append_extends_log_core [OF demo_ext_ok demo_inv a] have i: "ledger_inv demo_ext d' L'" "l_next_seq L' = 1"
    by (simp_all add: demo_ledger_def)
  have s: "x_sha256 demo_ext = pad32" by (simp add: demo_ext_def)
  from issued_inclusion_proofs_verify [OF demo_ext_ok i(1), of 5] demo_value_ok a i(2) s show ?thesis by auto
qed

end
