(* ===== verification/Ledger_Machine.thy ===== *)
theory Ledger_Machine
  imports Commitments
begin

text \<open>
  The life of a ledger as a state machine: appends, batches, rotations, seals and reopens, each
  with any fault its I/O may meet, as one step relation over the disk and the handle. The
  contract it implements is an append-only list. Rule induction gives it for every run, and with
  it that a head issued at any time is consistent with every later one, and that a sealed anchor
  still holds.
\<close>

section \<open>The contract\<close>

locale append_only =
  fixes step :: "'s \<Rightarrow> 's \<Rightarrow> bool" and ok :: "'s \<Rightarrow> bool" and log :: "'s \<Rightarrow> 'l list"
  assumes step_ok: "ok s \<Longrightarrow> step s t \<Longrightarrow> ok t"
    and step_log: "ok s \<Longrightarrow> step s t \<Longrightarrow> \<exists>new. log t = log s @ new"
begin

lemma steps_ok: "step\<^sup>*\<^sup>* s t \<Longrightarrow> ok s \<Longrightarrow> ok t"
  by (induction rule: rtranclp_induct) (auto intro: step_ok)

lemma steps_log: "step\<^sup>*\<^sup>* s t \<Longrightarrow> ok s \<Longrightarrow> \<exists>new. log t = log s @ new"
proof (induction rule: rtranclp_induct)
  case (step t u)
  moreover from step have "ok t" by (auto intro: steps_ok)
  ultimately obtain a b where "log t = log s @ a" "log u = log t @ b" using step_log [of t u] by blast
  then show ?case by simp
qed simp

end

section \<open>The steps\<close>

text \<open>The files a ledger's log is in.\<close>

definition log_files :: "ext \<Rightarrow> disk \<Rightarrow> location \<Rightarrow> string list" where
  "log_files x d loc =
     (case resolved_paths x no_faults d loc of Inr ps \<Rightarrow> ps | Inl _ \<Rightarrow> []) @
     (case manifest_path loc of Some p \<Rightarrow> [p] | None \<Rightarrow> [])"

definition anchor_tmp :: "string \<Rightarrow> string" where
  "anchor_tmp p = with_extension p ''anchor-tmp''"

inductive led_step :: "ext \<Rightarrow> disk \<times> ledger \<Rightarrow> disk \<times> ledger \<Rightarrow> bool" for x where
  append: "ledger_append x io e (d, L) = (r, s) \<Longrightarrow> led_step x (d, L) s"
| append_all: "append_all x es io (d, L) = (r, s) \<Longrightarrow> led_step x (d, L) s"
| rotate: "rotate x k L = Inr L' \<Longrightarrow> led_step x (d, L) (d, L')"
| sync: "led_step x (d, L) (d, set_sync b L)"
| seal: "seal_anchor x io L p ts d = (r, d') \<Longrightarrow> p \<notin> set (log_files x d (l_location L)) \<Longrightarrow>
    anchor_tmp p \<notin> set (log_files x d (l_location L)) \<Longrightarrow> led_step x (d, L) (d', L)"
| reopen: "l_location L = Single path \<Longrightarrow>
    open_single_inner x io path k vs a (ledger_drop L d) = (Inr L', d') \<Longrightarrow> led_step x (d, L) (d', L')"
| reopen_segmented: "l_location L = Segmented dir \<Longrightarrow>
    open_segmented_inner x io dir k vs pol a (ledger_drop L d) = (Inr L', d') \<Longrightarrow> led_step x (d, L) (d', L')"

section \<open>What every state keeps\<close>

text \<open>A log some key of the keyring can reopen.\<close>

definition log_ok :: "ext \<Rightarrow> disk \<Rightarrow> ledger \<Rightarrow> bool" where
  "log_ok x d L \<longleftrightarrow> names_ok x d (l_location L) \<and>
     (\<exists>k \<in> set (l_verifiers L). \<exists>rep d'.
        resolve_open_head x no_faults (l_location L) (l_verifiers L) k None d = (Inr rep, d'))"

definition led_ok :: "ext \<Rightarrow> disk \<times> ledger \<Rightarrow> bool" where
  "led_ok x = (\<lambda>(d, L). ext_ok x \<and> (if l_failed L then log_ok x d L else ledger_inv x d L))"

definition led_log :: "ext \<Rightarrow> disk \<times> ledger \<Rightarrow> string list" where
  "led_log x = (\<lambda>(d, L). log_lines x d L)"

lemma inv_log_ok: "ledger_inv x d L \<Longrightarrow> log_ok x d L"
proof -
  assume "ledger_inv x d L"
  then obtain rep where r: "verify_inner x no_faults d (l_location L) (l_verifiers L) None = Inr (rep, None)"
      "head_of L rep" "place_ok x d L" "key_ok x L" by (rule inv_log)
  then have "superseded_by rep (key_fingerprint x (x_public x (l_key L))) = None"
    by (simp add: superseded_by_def head_of_def key_ok_def)
  with r(1) have "resolve_open_head x no_faults (l_location L) (l_verifiers L) (x_public x (l_key L)) None d = (Inr rep, d)"
    using reopen_ok [of x d "l_location L" "l_verifiers L" rep None None] by (simp add: verify_inner_iff)
  with r(4) place_names [OF r(3)] show ?thesis by (auto simp: log_ok_def key_ok_def)
qed

lemma led_ok_log_ok: "led_ok x (d, L) \<Longrightarrow> log_ok x d L"
  by (auto simp: led_ok_def inv_log_ok split: if_splits)

lemma names_distinct:
  assumes "names_ok x d loc" and "resolved_paths x no_faults d loc = Inr (ps @ [p])"
  shows "p \<notin> set ps"
proof (cases loc)
  case (Segmented dir)
  with assms obtain m where m: "ps @ [p] = seg_files dir m" "distinct (map sm_file (mf_segments m))"
    by (auto simp: names_ok_def segment_paths_eq)
  then have "distinct (ps @ [p])" by (simp add: seg_files_distinct)
  then show ?thesis by simp
qed (use assms in simp)

text \<open>The parts of a log that reopens.\<close>

lemma log_ok_parts:
  "log_ok x d L \<longleftrightarrow> names_ok x d (l_location L) \<and>
    (\<exists>k \<in> set (l_verifiers L). \<exists>rep torn.
      verify_prefix x no_faults d (l_location L) (l_verifiers L) None = Inr (rep, None, torn) \<and>
      superseded_by rep (key_fingerprint x k) = None \<and>
      (\<forall>p off. torn = Some (p, off) \<longrightarrow> (\<exists>b. file_at d p = Some b \<and> off < length b \<and> b ! off = CHR ''{'')))"
    (is "_ \<longleftrightarrow> ?names \<and> ?parts")
proof
  assume h: "log_ok x d L"
  then obtain k rep d' where k: "k \<in> set (l_verifiers L)"
      "resolve_open_head x no_faults (l_location L) (l_verifiers L) k None d = (Inr rep, d')"
    by (auto simp: log_ok_def)
  from resolve_open_head_spec [OF k(2)] obtain w torn where
    v: "verify_prefix x no_faults d (l_location L) (l_verifiers L) None = Inr (rep, w, torn)"
      "superseded_by rep (key_fingerprint x k) = None"
      "case torn of None \<Rightarrow> d' = d | Some (p, off) \<Rightarrow> begins_a_record no_faults d p off = Inr True \<and>
             (\<exists>b. file_at d p = Some b \<and> d' = put_file p (take off b) d)" by auto
  have "w = None" using v(1) by (rule verify_prefix_no_window)
  moreover have "\<exists>b. file_at d p = Some b \<and> off < length b \<and> b ! off = CHR ''{''" if "torn = Some (p, off)" for p off
    using v(3) that by (auto simp: begins_a_record_def res_simps read_bytes_eq_Inr)
  ultimately have ?parts using v k by blast
  with h show "?names \<and> ?parts" by (simp add: log_ok_def)
next
  assume "?names \<and> ?parts"
  then show "log_ok x d L" unfolding log_ok_def using reopen_ok [of x d "l_location L" "l_verifiers L"] by blast
qed

text \<open>A disk that agrees on the log's files holds the same log.\<close>

lemma log_agree:
  assumes "log_ok x d L" and "\<forall>q \<in> set (log_files x d (l_location L)). file_at d' q = file_at d q"
  shows "resolved_paths x no_faults d' (l_location L) = resolved_paths x no_faults d (l_location L)"
    and "prefix_lines x no_faults d' (l_location L) = prefix_lines x no_faults d (l_location L)"
    and "manifest_path (l_location L) = Some (join dir manifest_file) \<Longrightarrow> load_manifest x io d' dir = load_manifest x io d dir"
proof -
  from assms(1) obtain rep torn where
    "verify_prefix x no_faults d (l_location L) (l_verifiers L) None = Inr (rep, None, torn)" by (auto simp: log_ok_parts)
  then obtain ps where ps: "resolved_paths x no_faults d (l_location L) = Inr ps" "readable no_faults d ps"
    unfolding verify_prefix_iff by blast
  have same: "\<forall>q \<in> set ps. file_at d' q = file_at d q" using assms(2) ps(1) by (simp add: log_files_def)
  show load: "load_manifest x io d' dir = load_manifest x io d dir"
    if "manifest_path (l_location L) = Some (join dir manifest_file)" for dir io
    using assms(2) that by (intro load_manifest_cong) (simp add: log_files_def)
  have "resolved_paths x no_faults d' (l_location L) = Inr ps"
  proof (cases "l_location L")
    case (Segmented dir)
    with ps same load [of dir] show ?thesis
      by (auto simp: segment_paths_eq manifest_path_def readable_def path_exists_def)
  qed (use ps(1) in simp)
  with ps(1) show "resolved_paths x no_faults d' (l_location L) = resolved_paths x no_faults d (l_location L)" by simp
  show "prefix_lines x no_faults d' (l_location L) = prefix_lines x no_faults d (l_location L)"
    by (rule prefix_lines_cong [OF \<open>resolved_paths x no_faults d' (l_location L) = Inr ps\<close> ps(1) same])
qed

lemma verify_prefix_torn:
  "verify_prefix x no_faults d loc keys None = Inr (rep, w, Some (p, off)) \<Longrightarrow>
    \<exists>ps. resolved_paths x no_faults d loc = Inr ps \<and> p \<in> set ps"
  unfolding verify_prefix_iff by (auto split: if_splits)

lemma outside_keeps:
  assumes "led_ok x (d, L)" and "\<forall>q \<in> set (log_files x d (l_location L)). file_at d' q = file_at d q"
  shows "led_ok x (d', L) \<and> log_lines x d' L = log_lines x d L"
proof -
  note lo = led_ok_log_ok [OF assms(1)]
  note ag = log_agree [OF lo assms(2)]
  have vp: "verify_prefix x no_faults d' (l_location L) keys sink = verify_prefix x no_faults d (l_location L) keys sink"
    for keys sink by (simp add: verify_prefix_def ag(2))
  have names: "names_ok x d' (l_location L)" using lo ag(3)
    by (auto simp: log_ok_def names_ok_def manifest_path_def split: location.splits)
  have ll: "log_lines x d' L = log_lines x d L" by (simp add: log_lines_def ag(2))
  have "log_ok x d' L"
  proof -
    from lo obtain k rep torn where k: "k \<in> set (l_verifiers L)"
      "verify_prefix x no_faults d (l_location L) (l_verifiers L) None = Inr (rep, None, torn)"
      "superseded_by rep (key_fingerprint x k) = None"
      "\<forall>p off. torn = Some (p, off) \<longrightarrow> (\<exists>b. file_at d p = Some b \<and> off < length b \<and> b ! off = CHR ''{'')"
      by (auto simp: log_ok_parts)
    have "\<exists>b. file_at d' p = Some b \<and> off < length b \<and> b ! off = CHR ''{''" if "torn = Some (p, off)" for p off
    proof -
      from k(2) that obtain ps where "resolved_paths x no_faults d (l_location L) = Inr ps" "p \<in> set ps"
        using verify_prefix_torn by blast
      then have "p \<in> set (log_files x d (l_location L))" by (simp add: log_files_def)
      with assms(2) k(4) that show ?thesis by simp
    qed
    with k(1-3) names vp show ?thesis unfolding log_ok_parts by auto
  qed
  moreover have "ledger_inv x d' L" if "ledger_inv x d L"
  proof -
    have "place_ok x d' L" using that ag(3)
      by (auto simp: ledger_inv_def place_ok_def manifest_path_def split: location.splits option.splits)
    with that vp show ?thesis by (simp add: ledger_inv_def verify_inner_def)
  qed
  ultimately show ?thesis using assms(1) ll by (auto simp: led_ok_def)
qed


section \<open>Each step keeps it\<close>

lemma log_ok_cong:
  "l_location L' = l_location L \<Longrightarrow> l_verifiers L' = l_verifiers L \<Longrightarrow> log_ok x d L' = log_ok x d L"
  by (simp add: log_ok_def)

lemma ledger_inv_sync [simp]: "ledger_inv x d (L\<lparr>l_sync := b\<rparr>) = ledger_inv x d L"
  using place_ok_cong [of "L\<lparr>l_sync := b\<rparr>" L x d] by (simp add: ledger_inv_def key_ok_def head_of_def)

lemma led_ok_sync [simp]: "led_ok x (d, L\<lparr>l_sync := b\<rparr>) = led_ok x (d, L)"
  by (simp add: led_ok_def log_ok_def)

lemma led_ok_fail: "led_ok x (d, L) \<Longrightarrow> led_ok x (d, L\<lparr>l_failed := True\<rparr>)"
proof -
  assume ok: "led_ok x (d, L)"
  have "log_ok x d (L\<lparr>l_failed := True\<rparr>) = log_ok x d L" by (rule log_ok_cong) simp_all
  with led_ok_log_ok [OF ok] ok show ?thesis by (simp add: led_ok_def)
qed

lemma append_ok:
  assumes "led_ok x (d, L)" and "ledger_append x io e (d, L) = (r, (d', L'))"
  shows "led_ok x (d', L') \<and> l_location L' = l_location L \<and> (\<exists>new. log_lines x d' L' = log_lines x d L @ new \<and> length new \<le> 1 \<and>
    (\<forall>line \<in> set new. carries x line (e\<lparr>e_seq := l_next_seq L\<rparr>)))"
proof (cases "l_failed L")
  case True
  then have "(d', L') = (d, L)" using assms(2) by (auto simp: ledger_append_def s_simps res_guard_def split: if_splits)
  with assms(1) show ?thesis by simp
next
  case False
  with assms(1) have e: "ext_ok x" and inv: "ledger_inv x d L" by (simp_all add: led_ok_def)
  show ?thesis
  proof (cases r)
    case (Inr rec)
    with append_extends_log_core [OF e inv, of io e rec d' L'] assms(2) False e show ?thesis
      by (auto simp: led_ok_def)
  next
    case (Inl err)
    with failed_append_core [OF e inv False, of io e err d' L'] assms(2) have
      c: "\<not> l_failed L' \<longrightarrow> ledger_inv x d' L' \<and> log_lines x d' L' = log_lines x d L"
        "l_failed L' \<longrightarrow> (\<exists>rep d''. resolve_open_head x no_faults (l_location L) (l_verifiers L) (x_public x (l_key L)) None d' = (Inr rep, d'') \<and>
         (log_lines x d'' L = log_lines x d L \<or> (\<exists>line. log_lines x d'' L = log_lines x d L @ [line] \<and> carries x line (e\<lparr>e_seq := l_next_seq L\<rparr>))))"
        "l_failed L' \<longrightarrow> names_ok x d' (l_location L)" "l_location L' = l_location L" "l_verifiers L' = l_verifiers L" by auto
    show ?thesis
    proof (cases "l_failed L'")
      case True
      with c(2) obtain rep d'' where ro: "resolve_open_head x no_faults (l_location L) (l_verifiers L) (x_public x (l_key L)) None d' = (Inr rep, d'')"
          "log_lines x d'' L = log_lines x d L \<or> (\<exists>line. log_lines x d'' L = log_lines x d L @ [line] \<and> carries x line (e\<lparr>e_seq := l_next_seq L\<rparr>))" by blast
      from ro(2) have nw: "\<exists>new. log_lines x d'' L = log_lines x d L @ new \<and> length new \<le> 1 \<and> (\<forall>line \<in> set new. carries x line (e\<lparr>e_seq := l_next_seq L\<rparr>))" by fastforce
      have "x_public x (l_key L) \<in> set (l_verifiers L)" using inv by (simp add: ledger_inv_def key_ok_def)
      with ro(1) c(3-5) True e have lo: "led_ok x (d', L')" by (auto simp: led_ok_def log_ok_def)
      have "names_ok x d' (l_location L)" using c(3) True by simp
      then have "\<exists>ls torn. prefix_lines x no_faults d' (l_location L) = Inr (ls, torn) \<and>
          prefix_lines x no_faults d'' (l_location L) = Inr (ls, None)"
        using resolve_open_head_clean [OF ro(1)] names_distinct by blast
      then have "log_lines x d' L' = log_lines x d'' L" using c(4) by (auto simp: log_lines_def)
      with lo nw c(4) show ?thesis by simp
    next
      case False
      with c e show ?thesis by (simp add: led_ok_def)
    qed
  qed
qed

lemma append_recorded:
  assumes "led_ok x (d, L)" and "ledger_append x io e (d, L) = (Inr rec, (d', L'))"
  shows "\<exists>line. log_lines x d' L' = log_lines x d L @ [line] \<and> carries x line (lr_entry rec) \<and>
    lr_entry rec = e\<lparr>e_seq := l_next_seq L\<rparr>"
proof -
  have "\<not> l_failed L" using assms(2) by (auto simp: ledger_append_def s_simps res_guard_def split: if_splits)
  with assms(1) have "ext_ok x" "ledger_inv x d L" by (simp_all add: led_ok_def)
  from append_extends_log_core [OF this assms(2)] show ?thesis by blast
qed

text \<open>A line carries an entry up to its sequence number; the lines a batch leaves carry entries of
  it, and when it is recorded, each of them in order.\<close>

definition holds_entry :: "ext \<Rightarrow> string \<Rightarrow> entry \<Rightarrow> bool" where
  "holds_entry x line e \<longleftrightarrow> (\<exists>n. carries x line (e\<lparr>e_seq := n\<rparr>))"

lemma append_loop_ok:
  "led_ok x (d, L) \<Longrightarrow> append_loop x es (d, L) = (recs, err, (d', L')) \<Longrightarrow>
    led_ok x (d', L') \<and> l_location L' = l_location L \<and> (\<exists>new. log_lines x d' L' = log_lines x d L @ new \<and>
      (\<forall>line \<in> set new. \<exists>e \<in> snd ` set es. holds_entry x line e) \<and>
      (err = None \<longrightarrow> list_all2 (\<lambda>line rec. carries x line (lr_entry rec)) new recs \<and>
        list_all2 (\<lambda>rec ie. \<exists>n. lr_entry rec = (snd ie)\<lparr>e_seq := n\<rparr>) recs es))"
proof (induction es arbitrary: d L recs)
  case (Cons ie es)
  obtain io e where ie: "ie = (io, e)" by force
  obtain r d1 L1 where a: "ledger_append x io e (d, L) = (r, (d1, L1))" by (metis prod.exhaust)
  note ok = append_ok [OF Cons.prems(1) a]
  show ?case
  proof (cases r)
    case (Inl err1)
    with Cons.prems(2) ie a have e: "(d', L') = (d1, L1)" "err = Some err1" by simp_all
    from ok obtain new where "log_lines x d1 L1 = log_lines x d L @ new" "\<forall>line \<in> set new. holds_entry x line e"
      by (auto simp: holds_entry_def)
    with ok e ie show ?thesis by auto
  next
    case (Inr rec)
    with Cons.prems(2) ie a obtain recs1 where l: "append_loop x es (d1, L1) = (recs1, err, (d', L'))" and rr: "recs = rec # recs1"
      by (auto split: prod.splits)
    from append_recorded [OF Cons.prems(1) a [unfolded Inr]] obtain line where
      line: "log_lines x d1 L1 = log_lines x d L @ [line]" "carries x line (lr_entry rec)" "lr_entry rec = e\<lparr>e_seq := l_next_seq L\<rparr>" by blast
    from Cons.IH [OF _ l] ok obtain new where i: "led_ok x (d', L')" "l_location L' = l_location L1"
      and new: "log_lines x d' L' = log_lines x d1 L1 @ new" "\<forall>line \<in> set new. \<exists>e \<in> snd ` set es. holds_entry x line e"
        "err = None \<longrightarrow> list_all2 (\<lambda>line rec. carries x line (lr_entry rec)) new recs1 \<and>
          list_all2 (\<lambda>rec ie. \<exists>n. lr_entry rec = (snd ie)\<lparr>e_seq := n\<rparr>) recs1 es" by blast
    have "holds_entry x line e" using line(2,3) by (auto simp: holds_entry_def)
    then have "\<forall>l \<in> set (line # new). \<exists>e \<in> snd ` set (ie # es). holds_entry x l e" using new(2) ie by auto
    moreover have "log_lines x d' L' = log_lines x d L @ (line # new)" using new(1) line(1) by simp
    moreover have "\<exists>n. lr_entry rec = (snd ie)\<lparr>e_seq := n\<rparr>" using line(3) ie by auto
    then have "err = None \<longrightarrow> list_all2 (\<lambda>line rec. carries x line (lr_entry rec)) (line # new) recs \<and>
        list_all2 (\<lambda>rec ie. \<exists>n. lr_entry rec = (snd ie)\<lparr>e_seq := n\<rparr>) recs (ie # es)" using new(3) line(2) rr by simp
    ultimately show ?thesis using i ok by (intro conjI exI [of _ "line # new"]) simp_all
  qed
qed simp

lemma append_all_ok:
  assumes "led_ok x (d, L)" and "append_all x es io (d, L) = (r, (d', L'))"
  shows "led_ok x (d', L') \<and> l_location L' = l_location L \<and> (\<exists>new. log_lines x d' L' = log_lines x d L @ new \<and>
      (\<forall>line \<in> set new. \<exists>e \<in> snd ` set es. holds_entry x line e) \<and>
      (\<forall>recs. r = Inr recs \<longrightarrow> list_all2 (\<lambda>line rec. carries x line (lr_entry rec)) new recs \<and>
        list_all2 (\<lambda>rec ie. \<exists>n. lr_entry rec = (snd ie)\<lparr>e_seq := n\<rparr>) recs es))"
proof -
  obtain recs err d1 L1 where a: "append_loop x es (d, L\<lparr>l_sync := False\<rparr>) = (recs, err, (d1, L1))" by (metis prod.exhaust)
  obtain new where ok: "led_ok x (d1, L1)" "l_location L1 = l_location L"
    and new: "log_lines x d1 L1 = log_lines x d L @ new" "\<forall>line \<in> set new. \<exists>e \<in> snd ` set es. holds_entry x line e"
      "err = None \<longrightarrow> list_all2 (\<lambda>line rec. carries x line (lr_entry rec)) new recs \<and>
        list_all2 (\<lambda>rec ie. \<exists>n. lr_entry rec = (snd ie)\<lparr>e_seq := n\<rparr>) recs es"
    using append_loop_ok [OF _ a] assms(1) log_lines_location [of "L\<lparr>l_sync := False\<rparr>" L x d] by auto
  from assms(2) a have s: "d' = d1" "L' = L1\<lparr>l_sync := l_sync L\<rparr> \<or> L' = L1\<lparr>l_sync := l_sync L, l_failed := True\<rparr>"
    and r: "\<And>rs. r = Inr rs \<Longrightarrow> err = None \<and> rs = recs"
    by (auto simp: append_all_def Let_def split: option.splits if_splits)
  have "led_ok x (d1, L1\<lparr>l_sync := l_sync L, l_failed := True\<rparr>)"
    using led_ok_fail [of x d1 "L1\<lparr>l_sync := l_sync L\<rparr>"] ok(1) by simp
  moreover have loc: "l_location L' = l_location L1" using s(2) by auto
  moreover have "log_lines x d1 L' = log_lines x d1 L1" by (rule log_lines_location) (rule loc)
  moreover have "\<forall>rs. r = Inr rs \<longrightarrow> list_all2 (\<lambda>line rec. carries x line (lr_entry rec)) new rs \<and>
      list_all2 (\<lambda>rec ie. \<exists>n. lr_entry rec = (snd ie)\<lparr>e_seq := n\<rparr>) rs es" using r new(3) by blast
  ultimately show ?thesis using s ok new(1,2) by auto
qed

lemma rotate_ok:
  assumes "led_ok x (d, L)" and "rotate x k L = Inr L'"
  shows "led_ok x (d, L') \<and> log_lines x d L' = log_lines x d L"
proof -
  have L': "L' = L\<lparr>l_verifiers := add_verifier (l_verifiers L) (x_public x k), l_key := k\<rparr>"
    using assms(2) by (auto simp: rotate_def Let_def split: option.splits)
  have ll: "log_lines x d L' = log_lines x d L" by (rule log_lines_location) (simp add: L')
  have "log_ok x d L'"
  proof -
    from led_ok_log_ok [OF assms(1)] obtain k1 rep torn where p: "names_ok x d (l_location L)" "k1 \<in> set (l_verifiers L)"
      "verify_prefix x no_faults d (l_location L) (l_verifiers L) None = Inr (rep, None, torn)"
      "superseded_by rep (key_fingerprint x k1) = None"
      "\<forall>p off. torn = Some (p, off) \<longrightarrow> (\<exists>b. file_at d p = Some b \<and> off < length b \<and> b ! off = CHR ''{'')"
      by (auto simp: log_ok_parts)
    have ne: "l_verifiers L \<noteq> []" using p(2) by auto
    have "verify_prefix x no_faults d (l_location L) (l_verifiers L @ ks) None = Inr (rep, None, torn)" for ks
      using p(3) verify_lines_more_keys [OF ne] by (auto simp: verify_prefix_def res_simps)
    then have "verify_prefix x no_faults d (l_location L) (l_verifiers L') None = Inr (rep, None, torn)"
      using p(3) by (simp add: L' add_verifier_def)
    moreover have "k1 \<in> set (l_verifiers L')" using p(2) by (simp add: L' add_verifier_def)
    ultimately show ?thesis using p by (auto simp: log_ok_parts L')
  qed
  moreover have "l_failed L' = l_failed L" by (simp add: L')
  ultimately show ?thesis using assms rotate_core [of x d L k] ll by (auto simp: led_ok_def split: if_splits)
qed

lemma save_anchor_outcome:
  assumes "save_anchor x io p cp d = (r, d')"
  shows "(\<forall>q. q \<noteq> p \<longrightarrow> q \<noteq> anchor_tmp p \<longrightarrow> file_at d' q = file_at d q) \<and>
    (r = Inr () \<longrightarrow> (\<exists>b. x_checkpoint_json x cp = Inr b \<and> file_at d' p = Some b))"
  using assms by (auto simp: save_anchor_def anchor_tmp_def write_atomic_def sync_dir_def s_simps split: option.splits sum.splits)

lemma seal_ok:
  assumes "led_ok x (d, L)" and "seal_anchor x io L p ts d = (r, d')"
    and "p \<notin> set (log_files x d (l_location L))" and "anchor_tmp p \<notin> set (log_files x d (l_location L))"
  shows "led_ok x (d', L) \<and> log_lines x d' L = log_lines x d L"
proof (rule outside_keeps [OF assms(1)])
  obtain r1 where "save_anchor x io p (ledger_checkpoint x L ts) d = (r1, d')"
    using assms(2) by (auto simp: seal_anchor_def Let_def s_simps)
  from save_anchor_outcome [OF this] assms(3,4)
  show "\<forall>q \<in> set (log_files x d (l_location L)). file_at d' q = file_at d q" by metis
qed


lemma log_ok_lines:
  assumes "log_ok x d L"
  shows "\<exists>rep torn. prefix_lines x no_faults d (l_location L) = Inr (map Inr (log_lines x d L), torn) \<and>
    verify_lines x (map Inr (log_lines x d L)) (l_verifiers L) None = Inr (rep, None) \<and>
    (\<exists>ps. resolved_paths x no_faults d (l_location L) = Inr ps \<and> (\<forall>p \<in> set ps. file_at d p \<noteq> None))"
proof -
  from assms obtain rep torn where
    v: "verify_prefix x no_faults d (l_location L) (l_verifiers L) None = Inr (rep, None, torn)" by (auto simp: log_ok_parts)
  from verify_prefix_lines [OF v] obtain ls where ls: "prefix_lines x no_faults d (l_location L) = Inr (map Inr ls, torn)"
      "verify_lines x (map Inr ls) (l_verifiers L) None = Inr (rep, None)" by blast
  have ll: "log_lines x d L = ls" using ls(1) by (simp add: log_lines_def comp_def)
  from v have "\<exists>ps. resolved_paths x no_faults d (l_location L) = Inr ps \<and> (\<forall>p \<in> set ps. file_at d p \<noteq> None)"
    unfolding verify_prefix_iff readable_def by auto
  with ls ll show ?thesis by blast
qed

lemma reopen_single_ok:
  assumes "led_ok x (d, L)" and "l_location L = Single path"
    and "open_single_inner x io path k vs a (ledger_drop L d) = (Inr L', d')"
  shows "led_ok x (d', L') \<and> log_lines x d' L' = log_lines x d L"
proof -
  have f: "file_at (ledger_drop L d) q = file_at d q" for q using assms(2) by (simp add: ledger_drop_def file_at_def)
  note o = open_single_core [OF assms(3), of L']
  have "file_at d path \<noteq> None" using log_ok_lines [OF led_ok_log_ok [OF assms(1)]] assms(2) by auto
  with o f have "log_lines x d' L' = log_lines x (ledger_drop L d) L'" by simp
  moreover have "prefix_lines x no_faults (ledger_drop L d) (Single path) = prefix_lines x no_faults d (Single path)"
    by (rule prefix_lines_cong [where ps = "[path]"]) (use f in auto)
  ultimately have "log_lines x d' L' = log_lines x d L" using o assms(2) by (simp add: log_lines_def)
  with o assms(1) show ?thesis by (auto simp: led_ok_def)
qed

lemma reopen_segmented_ok:
  assumes "led_ok x (d, L)" and "l_location L = Segmented dir"
    and "open_segmented_inner x io dir k vs pol a (ledger_drop L d) = (Inr L', d')"
  shows "led_ok x (d', L') \<and> log_lines x d' L' = log_lines x d L"
proof -
  have dr: "ledger_drop L d = d" using assms(2) by (simp add: ledger_drop_def)
  have n: "names_ok x d (Segmented dir)" using led_ok_log_ok [OF assms(1)] assms(2) by (simp add: log_ok_def)
  have e: "ext_ok x" using assms(1) by (simp add: led_ok_def)
  have "distinct (map sm_file (mf_segments m))" if "load_manifest x no_faults d dir = Inr (Some m)" for m
    using n that by (simp add: names_ok_def)
  from open_segmented_core [OF e assms(3) [unfolded dr] this, of L'] n
  have o: "ledger_inv x d' L'" "\<not> l_failed L'" "l_location L' = Segmented dir" "log_lines x d' L' = log_lines x d L'" by auto
  have "log_lines x d L' = log_lines x d L" by (rule log_lines_location) (simp add: o assms(2))
  with o e show ?thesis by (simp add: led_ok_def)
qed

lemma led_step_keeps:
  "led_step x s t \<Longrightarrow> led_ok x s \<Longrightarrow> led_ok x t \<and> (\<exists>new. led_log x t = led_log x s @ new)"
proof (induction rule: led_step.induct)
  case (append io e d L r s)
  then show ?case using append_ok [of x d L io e r] by (cases s) (auto simp: led_log_def)
next
  case (append_all es io d L r s)
  then show ?case using append_all_ok [of x d L es io r] by (cases s) (auto simp: led_log_def)
next
  case (rotate k L L' d)
  then show ?case using rotate_ok [of x d L k L'] by (auto simp: led_log_def)
next
  case (sync d L b)
  then show ?case using log_lines_location [of "set_sync b L" L x d] by (simp add: led_log_def set_sync_def)
next
  case (seal io L p ts d r d')
  then show ?case using seal_ok [of x d L io p ts r d'] by (auto simp: led_log_def)
next
  case (reopen L path io k vs a d L' d')
  then show ?case using reopen_single_ok [of x d L path io k vs a L' d'] by (auto simp: led_log_def)
next
  case (reopen_segmented L dir io k vs pol a d L' d')
  then show ?case using reopen_segmented_ok [of x d L dir io k vs pol a L' d'] by (auto simp: led_log_def)
qed

interpretation run: append_only "led_step x" "led_ok x" "led_log x" for x
  by unfold_locales (auto dest: led_step_keeps)

section \<open>Properties\<close>

text \<open>C13: the ledger refines an append-only list. From a ledger in step with its disk, whatever
  sequence of appends, batches, rotations, seals and reopens follows, with whatever I/O faults,
  the stored lines only ever grow at the end; the handle is then either again in step with the
  disk, or refuses every write while its log still opens under a key of its keyring.\<close>

theorem runs_are_append_only:
  assumes "ext_ok x" and "ledger_inv x d L" and "\<not> l_failed L" and "(led_step x)\<^sup>*\<^sup>* (d, L) (d', L')"
  shows "(\<exists>new. log_lines x d' L' = log_lines x d L @ new) \<and>
    (if l_failed L' then log_ok x d' L' else ledger_inv x d' L')"
proof -
  have ok: "led_ok x (d, L)" using assms(1-3) by (simp add: led_ok_def)
  from run.steps_ok [OF assms(4) ok] run.steps_log [OF assms(4) ok] show ?thesis
    by (simp add: led_ok_def led_log_def)
qed

lemma demo_led_step:
  "\<exists>d' L'. led_step demo_ext (demo_disk1, demo_ledger) (d', L') \<and> ledger_inv demo_ext d' L' \<and> \<not> l_failed L' \<and>
    l_next_seq L' = 1 \<and> l_key L' = ''k'' \<and> l_verifiers L' = [''k''] \<and> l_location L' = Single ''l''"
proof -
  obtain rec d' L' where a: "ledger_append demo_ext no_faults (demo_entry 7) (demo_disk1, demo_ledger) = (Inr rec, (d', L'))"
    using demo_append by blast
  have "l_key L' = ''k''"
    using a by (auto simp: ledger_append_def s_simps maybe_roll_over_def rebase_opened_def write_line_def on_ledger_def
        demo_ledger_def Let_def res_guard_def split: option.splits if_splits)
  with append_extends_log_core [OF demo_ext_ok demo_inv a] led_step.append [OF a] show ?thesis
    by (auto simp: demo_ledger_def)
qed

theorem runs_are_append_only_witness:
  "\<exists>d' L' new. led_step demo_ext (demo_disk1, demo_ledger) (d', L') \<and> \<not> l_failed L' \<and>
    log_lines demo_ext d' L' = log_lines demo_ext demo_disk1 demo_ledger @ new \<and> ledger_inv demo_ext d' L'"
proof -
  obtain d' L' where s: "led_step demo_ext (demo_disk1, demo_ledger) (d', L')" "\<not> l_failed L'" using demo_led_step by blast
  have "\<not> l_failed demo_ledger" by (simp add: demo_ledger_def)
  from runs_are_append_only [OF demo_ext_ok demo_inv this r_into_rtranclp [of "led_step demo_ext", OF s(1)]] s
  show ?thesis by auto
qed

text \<open>C22: heads never contradict each other: a tree head a ledger issues is proved consistent with
  the one it issues after any later run, by the consistency proof it then serves, which the
  RFC 9162 verifier accepts against the two signed roots.\<close>

theorem earlier_head_consistent:
  assumes "ext_ok x" and "ledger_inv x d L" and "\<not> l_failed L" and "(led_step x)\<^sup>*\<^sup>* (d, L) (d', L')"
    and "\<not> l_failed L'" and "\<forall>l \<in> set (log_lines x d' L'). value_ok x l" and "0 < l_next_seq L"
  shows "\<exists>th th' p. ledger_tree_head x no_faults d L ts = Inr th \<and> ledger_tree_head x no_faults d' L' ts' = Inr th' \<and>
    ledger_consistency_proof x no_faults d' L' (th_tree_size th) = Inr p \<and>
    verify_consistency (x_sha256 x) (th_tree_size th) (th_tree_size th')
      (the (x_unhex x (th_merkle_root th))) (the (x_unhex x (th_merkle_root th'))) (decoded x (cpf_proof p))"
proof -
  from assms(1) have ok: "hex_ok x" by (simp add: ext_ok_def)
  then have un: "x_unhex x (x_hex x b) = Some b" for b by (simp add: hex_ok_def)
  have led: "led_ok x (d, L)" using assms(1-3) by (simp add: led_ok_def)
  obtain new where new: "log_lines x d' L' = log_lines x d L @ new"
    using run.steps_log [OF assms(4) led] by (auto simp: led_log_def)
  have inv': "ledger_inv x d' L'" using run.steps_ok [OF assms(4) led] assms(5) by (simp add: led_ok_def)
  have v: "\<forall>l \<in> set (log_lines x d L). value_ok x l" using assms(6) new by simp
  let ?H = "x_sha256 x" and ?a = "log_leaves x d L" and ?b = "log_leaves x d' L'"
  have n: "length ?a = l_next_seq L" "length ?b = l_next_seq L'"
    using inv_records(2) [OF assms(2)] inv_records(2) [OF inv'] by simp_all
  have tk: "take (l_next_seq L) ?b = ?a" using new n(1) by simp
  have le: "l_next_seq L \<le> length ?b" using new n(1) by simp
  obtain path where path: "consistency_proof ?H ?b (l_next_seq L) = Some path"
      "verify_consistency ?H (l_next_seq L) (length ?b) (tree_hash ?H ?a) (tree_hash ?H ?b) path"
    using consistency_proof_ok [OF assms(7) le, of ?H] tk by auto
  have "ledger_consistency_proof x no_faults d' L' (l_next_seq L) =
      Inr \<lparr>cpf_first_size = l_next_seq L, cpf_second_size = length ?b, cpf_proof = map (x_hex x) path\<rparr>"
    using inv_reads(1) [OF inv' assms(6) ok] path(1) by (simp add: ledger_consistency_proof_def ok_or_def)
  with issued_tree_head [OF assms(2) v ok] issued_tree_head [OF inv' assms(6) ok] path(2) n decoded_hex [OF ok]
  show ?thesis by (simp add: sign_tree_head_def Let_def un)
qed


theorem earlier_head_consistent_witness:
  "\<exists>d L th th' p. led_step demo_ext (demo_disk1, demo_ledger) (d, L) \<and> ledger_tree_head demo_ext no_faults d L 5 = Inr th \<and>
    ledger_tree_head demo_ext no_faults d (set_sync True L) 6 = Inr th' \<and>
    ledger_consistency_proof demo_ext no_faults d (set_sync True L) (th_tree_size th) = Inr p \<and>
    verify_consistency pad32 (th_tree_size th) (th_tree_size th') (the (hex_decode (th_merkle_root th)))
      (the (hex_decode (th_merkle_root th'))) (map (\<lambda>h. the (hex_decode h)) (cpf_proof p))"
proof -
  obtain d L where s: "led_step demo_ext (demo_disk1, demo_ledger) (d, L)" "ledger_inv demo_ext d L" "\<not> l_failed L"
      "l_next_seq L = 1" using demo_led_step by blast
  have "(led_step demo_ext)\<^sup>*\<^sup>* (d, L) (d, set_sync True L)" by (rule r_into_rtranclp) (rule led_step.sync)
  moreover have "\<not> l_failed (set_sync True L)" "0 < l_next_seq L" using s by (simp_all add: set_sync_def)
  moreover have "\<forall>l \<in> set (log_lines demo_ext d (set_sync True L)). value_ok demo_ext l" by (simp add: demo_value_ok)
  ultimately show ?thesis
    using earlier_head_consistent [OF demo_ext_ok s(2,3), of d "set_sync True L" 5 6] s(1)
    by (simp add: demo_ext_def) blast
qed

text \<open>A saved checkpoint reads back.\<close>

definition checkpoint_law :: "ext \<Rightarrow> bool" where
  "checkpoint_law x \<longleftrightarrow> (\<forall>cp b. x_checkpoint_json x cp = Inr b \<longrightarrow> x_parse_checkpoint x b = Inr cp)"

text \<open>C23: an anchor never accuses an honest ledger: sealed over a ledger in step with its disk, at a
  path that is not one of the log's files, it is accepted after every later run, for as long as
  the anchor's bytes stay and the key that signed it is in the keyring.\<close>

theorem sealed_anchor_holds:
  assumes "ext_ok x" and "checkpoint_law x" and "ledger_inv x d L" and "\<not> l_failed L"
    and "seal_anchor x io L p ts d = (Inr cp, d1)"
    and "p \<notin> set (log_files x d (l_location L))" and "anchor_tmp p \<notin> set (log_files x d (l_location L))"
    and "(led_step x)\<^sup>*\<^sup>* (d1, L) (d', L')" and "file_at d' p = file_at d1 p"
    and "x_public x (l_key L) \<in> set (l_verifiers L')"
  shows "cp_count cp = l_next_seq L \<and> verify_against_anchor x no_faults d' L' p = Inr ()"
proof -
  have led: "led_ok x (d, L)" using assms(1,3,4) by (simp add: led_ok_def)
  from seal_ok [OF led assms(5-7)] have led1: "led_ok x (d1, L)" and ll: "log_lines x d1 L = log_lines x d L" by auto
  have cp: "cp = ledger_checkpoint x L ts" "save_anchor x io p cp d = (Inr (), d1)"
    using assms(5) by (auto simp: seal_anchor_def Let_def s_simps)
  from save_anchor_outcome [OF cp(2)] obtain b where b: "x_checkpoint_json x cp = Inr b" "file_at d1 p = Some b" by auto
  then have load: "load_anchor x no_faults d' p = Inr (Some cp)"
    using assms(2,9) by (simp add: load_anchor_def read_opt_def checkpoint_law_def)
  have sig: "list_ex (verify_checkpoint_sig x cp) (l_verifiers L')"
    using assms(1,10) verify_checkpoint_signed [of x L ts] cp(1) by (auto simp: list_ex_iff ext_ok_def)
  obtain new where new: "log_lines x d' L' = log_lines x d1 L @ new"
    using run.steps_log [OF assms(8) led1] by (auto simp: led_log_def)
  from log_ok_lines [OF led_ok_log_ok [OF run.steps_ok [OF assms(8) led1]]] obtain rep torn where
    r: "prefix_lines x no_faults d' (l_location L') = Inr (map Inr (log_lines x d' L'), torn)"
      "verify_lines x (map Inr (log_lines x d' L')) (l_verifiers L') None = Inr (rep, None)" by blast
  note i = inv_records [OF assms(3)]
  have "take (l_next_seq L) (records_of x (log_lines x d' L')) = log_records x d L"
    "l_next_seq L \<le> length (records_of x (log_lines x d' L'))" using new ll i(2) by simp_all
  with root_at_count_verified [OF r, of "l_next_seq L"] i(3)
  have "ledger_extends_checkpoint_at x no_faults d' (l_location L') cp = Inr True"
    using cp(1) by (simp add: ledger_extends_checkpoint_at_def ledger_checkpoint_def Let_def)
  with load sig cp(1) show ?thesis
    by (simp add: verify_against_anchor_def ledger_checkpoint_def Let_def)
qed

lemma demo_checkpoint_law: "checkpoint_law demo_ext"
  using take_field_field [where s = "[]"] by (auto simp: checkpoint_law_def demo_ext_def)

lemma demo_seal: "\<exists>cp d1. seal_anchor demo_ext no_faults demo_ledger ''a'' 5 demo_disk1 = (Inr cp, d1)"
  by (simp add: seal_anchor_def save_anchor_def demo_ext_def write_atomic_def sync_dir_def s_bind_def s_err_def
      s_ret_def io_step_def d_upd_def Let_def)

theorem sealed_anchor_holds_witness:
  "\<exists>cp d1. seal_anchor demo_ext no_faults demo_ledger ''a'' 5 demo_disk1 = (Inr cp, d1) \<and>
    verify_against_anchor demo_ext no_faults d1 (set_sync True demo_ledger) ''a'' = Inr ()"
proof -
  obtain cp d1 where s: "seal_anchor demo_ext no_faults demo_ledger ''a'' 5 demo_disk1 = (Inr cp, d1)" using demo_seal by blast
  have st: "(led_step demo_ext)\<^sup>*\<^sup>* (d1, demo_ledger) (d1, set_sync True demo_ledger)" by (rule r_into_rtranclp) (rule led_step.sync)
  have o: "''a'' \<notin> set (log_files demo_ext demo_disk1 (l_location demo_ledger))"
      "anchor_tmp ''a'' \<notin> set (log_files demo_ext demo_disk1 (l_location demo_ledger))"
    by (simp_all add: log_files_def demo_ledger_def manifest_path_def anchor_tmp_def with_extension_def Let_def)
  have "\<not> l_failed demo_ledger" "x_public demo_ext (l_key demo_ledger) \<in> set (l_verifiers (set_sync True demo_ledger))"
    by (simp_all add: demo_ledger_def set_sync_def)
  with sealed_anchor_holds [OF demo_ext_ok demo_checkpoint_law demo_inv _ s o st refl] s show ?thesis by blast
qed

end
