(* ===== verification/Bundle.thy ===== *)
theory Bundle
  imports Ledger_Machine
begin

text \<open>
  Verifying an exported evidence bundle offline, against a keyring pinned out of band:
  \<open>decern-ledger/src/bundle.rs\<close>. serde's parse of the bundle's text is a parameter. The sum
  \<open>from + n\<close> is a u64 addition, which wraps here as in a release build.
\<close>

section \<open>The code\<close>

datatype bundle_error =
    DoesNotParse string
  | HashNotRederived nat
  | PrevNotLinked nat
  | BundleHashNotHex nat
  | RecordSigner nat signer_error
  | CheckpointNotVerified
  | TreeHeadNotVerified
  | NoTreeHead
  | LastNotRoot
  | EmptyTailNotCount
  | CountMismatch
  | TreeSizeMismatch
  | MerkleRootMismatch
  | ConsistencyFailed
  | ConsistencyNeedsFullTail

record bundle_in =
  bi_format :: string
  bi_from :: nat
  bi_checkpoint :: checkpoint
  bi_tree_head :: "tree_head option"
  bi_records :: "record_line list"

record bundle_verdict =
  bv_accepted :: bool
  bv_format :: string
  bv_records :: nat
  bv_from :: nat
  bv_full_tail :: bool
  bv_chain_ok :: bool
  bv_record_sigs_ok :: bool
  bv_checkpoint_sig_ok :: bool
  bv_tree_head_present :: bool
  bv_tree_head_sig_ok :: bool
  bv_merkle_root_ok :: "bool option"
  bv_anchor_ok :: bool
  bv_consistency_ok :: "bool option"
  bv_errors :: "bundle_error list"

text \<open>The first loop: each hash re-derives, each \<open>prev\<close> is the one expected, if any, and each
  hash decodes; the leaves are those that do.\<close>

fun bundle_chain ::
  "ext \<Rightarrow> nat \<Rightarrow> string option \<Rightarrow> record_line list \<Rightarrow> bool \<times> bytes list \<times> bundle_error list" where
  "bundle_chain x i expected [] = (True, [], [])"
| "bundle_chain x i expected (r # rs) =
     (let want = x_hex x (chain_hash x (rl_entry r) (rl_prev r));
          e1 = (if want \<noteq> rl_hash r then [HashNotRederived i] else []);
          e2 = (if rl_prev r \<noteq> unwrap_or (rl_prev r) expected then [PrevNotLinked i] else []);
          (leaf, e3) = (case x_unhex x (rl_hash r) of Some b \<Rightarrow> ([b], []) | None \<Rightarrow> ([], [BundleHashNotHex i]));
          (ok, leaves, errors) = bundle_chain x (i + 1) (Some (rl_hash r)) rs
      in (e1 = [] \<and> e2 = [] \<and> e3 = [] \<and> ok, leaf @ leaves, e1 @ e2 @ e3 @ errors))"

text \<open>The second: every signature under the pinned keyring, in succession.\<close>

fun bundle_sigs ::
  "ext \<Rightarrow> bytes list \<Rightarrow> nat \<Rightarrow> nat \<Rightarrow> signer_span list \<Rightarrow> record_line list \<Rightarrow> bool \<times> bundle_error list" where
  "bundle_sigs x keys from i signers [] = (True, [])"
| "bundle_sigs x keys from i signers (r # rs) =
     (case x_unhex x (rl_hash r) of
        None \<Rightarrow> (case bundle_sigs x keys from (i + 1) signers rs of (_, es) \<Rightarrow> (False, es))
      | Some msg \<Rightarrow>
          (case check_signer x signers keys (sat_add64 from i) msg (rl_sig_b64 r) (rl_kid r) of
             Inl why \<Rightarrow> (case bundle_sigs x keys from (i + 1) signers rs of (_, es) \<Rightarrow> (False, RecordSigner i why # es))
           | Inr signers' \<Rightarrow> bundle_sigs x keys from (i + 1) signers' rs))"

definition hex_to_32 :: "ext \<Rightarrow> string \<Rightarrow> bytes option" where
  "hex_to_32 x s = (case x_unhex x s of Some b \<Rightarrow> if length b = 32 then Some b else None | None \<Rightarrow> None)"

definition tail_check :: "bundle_in \<Rightarrow> bool \<times> bundle_error list" where
  "tail_check b =
     (let from = bi_from b; n = length (bi_records b); count = cp_count (bi_checkpoint b);
          e1 = (if bi_records b \<noteq> [] then
                  if rl_hash (last (bi_records b)) = cp_root (bi_checkpoint b) then [] else [LastNotRoot]
                else if from \<noteq> count then [EmptyTailNotCount] else []);
          e2 = (if (from + n) mod 2 ^ 64 \<noteq> count then [CountMismatch] else []);
          e3 = (case bi_tree_head b of
                  Some th \<Rightarrow> if th_tree_size th \<noteq> count then [TreeSizeMismatch] else []
                | None \<Rightarrow> [])
      in (e1 = [] \<and> e2 = [] \<and> e3 = [], e1 @ e2 @ e3))"

definition consistency_check ::
  "ext \<Rightarrow> bytes list \<Rightarrow> bytes list \<Rightarrow> tree_head \<Rightarrow> tree_head \<Rightarrow> bool" where
  "consistency_check x keys leaves earlier current \<longleftrightarrow>
     list_ex (verify_tree_head_sig x earlier) keys \<and> th_tree_size earlier \<le> length leaves \<and>
     (case consistency_proof (x_sha256 x) leaves (th_tree_size earlier) of
        None \<Rightarrow> False
      | Some path \<Rightarrow>
          (case (hex_to_32 x (th_merkle_root earlier), hex_to_32 x (th_merkle_root current)) of
             (Some fr, Some sr) \<Rightarrow>
               verify_consistency (x_sha256 x) (th_tree_size earlier) (th_tree_size current) fr sr path
           | _ \<Rightarrow> False))"

definition verify_evidence_bundle ::
  "ext \<Rightarrow> (string \<Rightarrow> string + bundle_in) \<Rightarrow> string \<Rightarrow> bytes list \<Rightarrow> tree_head option \<Rightarrow> bundle_verdict" where
  "verify_evidence_bundle x parse bundle_json keys against =
     (case parse bundle_json of
        Inl e \<Rightarrow>
          \<lparr>bv_accepted = False, bv_format = [], bv_records = 0, bv_from = 0, bv_full_tail = False,
           bv_chain_ok = False, bv_record_sigs_ok = False, bv_checkpoint_sig_ok = False,
           bv_tree_head_present = False, bv_tree_head_sig_ok = False, bv_merkle_root_ok = None,
           bv_anchor_ok = False, bv_consistency_ok = None, bv_errors = [DoesNotParse e]\<rparr>
      | Inr b \<Rightarrow>
          (let from = bi_from b; full_tail = (from = 0); n = length (bi_records b);
               (chain_ok, leaves, e1) = bundle_chain x 0 (if full_tail then Some genesis else None) (bi_records b);
               (record_sigs_ok, e2) = bundle_sigs x keys from 0 [] (bi_records b);
               checkpoint_sig_ok = list_ex (verify_checkpoint_sig x (bi_checkpoint b)) keys;
               e3 = (if checkpoint_sig_ok then [] else [CheckpointNotVerified]);
               (tree_head_sig_ok, e4) = (case bi_tree_head b of
                   Some th \<Rightarrow> if list_ex (verify_tree_head_sig x th) keys then (True, []) else (False, [TreeHeadNotVerified])
                 | None \<Rightarrow> (False, [NoTreeHead]));
               (anchor_ok, e5) = tail_check b;
               (merkle_root_ok, e6) = (case (bi_tree_head b, full_tail \<and> chain_ok) of
                   (Some th, True) \<Rightarrow>
                     if x_hex x (tree_hash (x_sha256 x) leaves) = th_merkle_root th then (Some True, [])
                     else (Some False, [MerkleRootMismatch])
                 | _ \<Rightarrow> (None, []));
               (consistency_ok, e7) = (case (against, bi_tree_head b, full_tail \<and> chain_ok) of
                   (Some earlier, Some current, True) \<Rightarrow>
                     if consistency_check x keys leaves earlier current then (Some True, [])
                     else (Some False, [ConsistencyFailed])
                 | (Some _, _, False) \<Rightarrow> (Some False, [ConsistencyNeedsFullTail])
                 | _ \<Rightarrow> (None, []));
               accepted = (chain_ok \<and> record_sigs_ok \<and> checkpoint_sig_ok \<and> tree_head_sig_ok \<and> anchor_ok \<and>
                 unwrap_or True merkle_root_ok \<and> unwrap_or True consistency_ok)
           in \<lparr>bv_accepted = accepted, bv_format = bi_format b, bv_records = n, bv_from = from,
               bv_full_tail = full_tail, bv_chain_ok = chain_ok, bv_record_sigs_ok = record_sigs_ok,
               bv_checkpoint_sig_ok = checkpoint_sig_ok, bv_tree_head_present = (bi_tree_head b \<noteq> None),
               bv_tree_head_sig_ok = tree_head_sig_ok, bv_merkle_root_ok = merkle_root_ok,
               bv_anchor_ok = anchor_ok, bv_consistency_ok = consistency_ok,
               bv_errors = e1 @ e2 @ e3 @ e4 @ e5 @ e6 @ e7\<rparr>))"

section \<open>What the loops check\<close>

lemma bundle_chain_ok:
  assumes "hex_ok x"
  shows "fst (bundle_chain x i (Some prev) rs) \<longleftrightarrow> linked x prev rs"
    and "linked x prev rs \<Longrightarrow> bundle_chain x i (Some prev) rs = (True, map (leaf_of x) rs, [])"
proof -
  show "linked x prev rs \<Longrightarrow> bundle_chain x i (Some prev) rs = (True, map (leaf_of x) rs, [])"
    using assms by (induction rs arbitrary: i prev) (auto simp: hex_ok_def leaf_of_def Let_def)
  show "fst (bundle_chain x i (Some prev) rs) \<longleftrightarrow> linked x prev rs"
  proof (induction rs arbitrary: i prev)
    case (Cons r rs)
    have "x_unhex x (x_hex x (chain_hash x (rl_entry r) (rl_prev r))) \<noteq> None" using assms by (simp add: hex_ok_def)
    with Cons [of "i + 1" "rl_hash r"] show ?case
      by (cases "x_unhex x (rl_hash r)") (auto simp: Let_def split: prod.splits if_splits)
  qed simp
qed

lemma bundle_sigs_signed:
  assumes "hex_ok x" and "linked x prev rs" and "fst (bundle_sigs x keys from i signers rs)"
    and "succession kids signers"
  shows "\<exists>kids'. length kids' = length rs \<and> (\<forall>j < length rs. signed_by x keys (rs ! j) (kids' ! j)) \<and>
    distinct (remdups_adj (kids @ kids'))"
  using assms(2-)
proof (induction rs arbitrary: prev i signers kids)
  case Nil
  then show ?case by (simp add: succession_def)
next
  case (Cons r rs)
  have msg: "x_unhex x (rl_hash r) = Some (chain_hash x (rl_entry r) (rl_prev r))"
    using Cons.prems(1) assms(1) by (simp add: hex_ok_def)
  with Cons.prems(2) obtain signers' where
    s: "check_signer x signers keys (sat_add64 from i) (chain_hash x (rl_entry r) (rl_prev r)) (rl_sig_b64 r) (rl_kid r) = Inr signers'"
      "fst (bundle_sigs x keys from (i + 1) signers' rs)"
    by (auto split: sum.splits prod.splits)
  then obtain kid where k: "signer_of x keys (chain_hash x (rl_entry r) (rl_prev r)) (rl_sig_b64 r) (rl_kid r) = Inr kid"
      "admit_signer signers (sat_add64 from i) kid = Inr signers'" by (auto simp: check_signer_def res_simps)
  from succession_admit [OF Cons.prems(3) k(2)] have "succession (kids @ [kid]) signers'" .
  from Cons.IH [OF _ s(2) this] Cons.prems(1) obtain kids' where
    "length kids' = length rs" "\<forall>j < length rs. signed_by x keys (rs ! j) (kids' ! j)"
    "distinct (remdups_adj ((kids @ [kid]) @ kids'))" by auto
  with signer_of_signed [OF k(1)] show ?case
    by (intro exI [of _ "kid # kids'"]) (auto simp: nth_Cons split: nat.split)
qed


text \<open>The verdict on a full tail, with its parts.\<close>

lemma accepted_full_tail:
  assumes "hex_ok x" and "parse json = Inr b" and "bi_from b = 0"
  shows "bv_accepted (verify_evidence_bundle x parse json keys against) \<longleftrightarrow>
    linked x genesis (bi_records b) \<and> fst (bundle_sigs x keys 0 0 [] (bi_records b)) \<and>
    list_ex (verify_checkpoint_sig x (bi_checkpoint b)) keys \<and> fst (tail_check b) \<and>
    (\<exists>th. bi_tree_head b = Some th \<and> list_ex (verify_tree_head_sig x th) keys \<and>
       x_hex x (tree_hash (x_sha256 x) (map (leaf_of x) (bi_records b))) = th_merkle_root th \<and>
       (\<forall>earlier. against = Some earlier \<longrightarrow>
          consistency_check x keys (map (leaf_of x) (bi_records b)) earlier th))"
proof (cases "linked x genesis (bi_records b)")
  case True
  note ch = bundle_chain_ok(2) [OF assms(1) True, of 0]
  show ?thesis
    using assms(2,3) True ch
    by (cases "bi_tree_head b"; cases against)
      (auto simp: verify_evidence_bundle_def Let_def split: prod.splits if_splits)
next
  case False
  then have "\<not> fst (bundle_chain x 0 (Some genesis) (bi_records b))" using bundle_chain_ok(1) [OF assms(1)] by simp
  with assms(2,3) have "\<not> bv_accepted (verify_evidence_bundle x parse json keys against)"
    by (auto simp: verify_evidence_bundle_def Let_def split: prod.splits)
  with False show ?thesis by simp
qed

text \<open>C19: an accepted full bundle is the log its checkpoint was issued over: its records are, entry by
  entry and hash by hash, those of any log that verified with the checkpoint's count and root,
  unless SHA-256 collides on what the two chains hash; each is signed under a pinned key, no key
  returning once another signed after it; the checkpoint and the tree head are signed under
  pinned keys, and the tree head is over exactly these records.\<close>

theorem accepted_bundle_pins_log:
  assumes "hex_ok x" and "sha_ok x" and "parse json = Inr b" and "bi_from b = 0" and "length (bi_records b) < 2 ^ 64"
    and "bv_accepted (verify_evidence_bundle x parse json keys against)"
    and "verify_lines x (map Inr ls) ks sink = Inr (rep, w)"
    and "cp_count (bi_checkpoint b) = vr_entries rep" and "cp_root (bi_checkpoint b) = unwrap_or genesis (vr_root rep)"
    and "inj_on (x_sha256 x) (set (chain_inputs (bi_records b)) \<union> set (chain_inputs (records_of x ls)))"
  shows "map (\<lambda>r. (rl_entry r, rl_prev r, rl_hash r)) (bi_records b) =
      map (\<lambda>r. (rl_entry r, rl_prev r, rl_hash r)) (records_of x ls) \<and>
    list_ex (verify_checkpoint_sig x (bi_checkpoint b)) keys \<and>
    (\<exists>th. bi_tree_head b = Some th \<and> list_ex (verify_tree_head_sig x th) keys \<and>
       th_tree_size th = length (records_of x ls) \<and>
       th_merkle_root th = x_hex x (tree_hash (x_sha256 x) (map (leaf_of x) (records_of x ls)))) \<and>
    (\<exists>kids. length kids = length (bi_records b) \<and>
       (\<forall>j < length kids. signed_by x keys (bi_records b ! j) (kids ! j)) \<and> distinct (remdups_adj kids))"
proof -
  let ?rs = "bi_records b" and ?t = "\<lambda>r. (rl_entry r, rl_prev r, rl_hash r)"
  from assms(6) [unfolded accepted_full_tail [of x parse json b keys against, OF assms(1,3,4)]] obtain th where
    a: "linked x genesis ?rs" "fst (bundle_sigs x keys 0 0 [] ?rs)" "list_ex (verify_checkpoint_sig x (bi_checkpoint b)) keys"
      "fst (tail_check b)" "bi_tree_head b = Some th" "list_ex (verify_tree_head_sig x th) keys"
      "x_hex x (tree_hash (x_sha256 x) (map (leaf_of x) ?rs)) = th_merkle_root th" by blast
  from a(4,5) assms(4,5) have t: "cp_count (bi_checkpoint b) = length ?rs" "th_tree_size th = length ?rs"
      "?rs \<noteq> [] \<longrightarrow> rl_hash (last ?rs) = cp_root (bi_checkpoint b)"
    by (auto simp: tail_check_def Let_def split: if_splits)
  note ch = verify_lines_chain [OF assms(7)]
  have n: "length ?rs = length (records_of x ls)" using t(1) ch(2) assms(8) by simp
  then have hd: "head_hash genesis ?rs = head_hash genesis (records_of x ls)"
    using t(3) ch(3) assms(9) by (cases "?rs = []") (auto simp: head_hash_def)
  from linked_determined [OF assms(1,2) a(1) chained_linked [OF ch(1)] n hd assms(10)]
  have eq: "map ?t ?rs = map ?t (records_of x ls)" by simp
  have via: "map (leaf_of x) rs = map (\<lambda>(e, p, h). chain_hash x e p) (map ?t rs)" for rs
    by (simp add: leaf_of_def comp_def)
  have lv: "map (leaf_of x) ?rs = map (leaf_of x) (records_of x ls)"
    unfolding via [of ?rs] via [of "records_of x ls"] eq ..
  have "\<exists>kids. length kids = length ?rs \<and> (\<forall>j < length ?rs. signed_by x keys (?rs ! j) (kids ! j)) \<and>
      distinct (remdups_adj ([] @ kids))"
    by (rule bundle_sigs_signed [OF assms(1) a(1,2)]) (simp add: succession_def)
  with eq a t n lv show ?thesis by auto
qed


section \<open>Honest bundles are accepted\<close>

lemma verify_loop_sigs:
  assumes "hex_ok x" and "keys \<noteq> []" and "verify_loop x keys i st (map Inr ls) = Inr st'"
    and "vs_count st + length (records_of x ls) \<le> u64_max"
  shows "fst (bundle_sigs x keys 0 (vs_count st) (vs_signers st) (records_of x ls))"
  using assms(3,4)
proof (induction ls arbitrary: i st)
  case (Cons l ls)
  from Cons.prems(1) obtain st1 where s: "verify_line x keys i st l = Inr st1" "verify_loop x keys (Suc i) st1 (map Inr ls) = Inr st'"
    by (auto simp: res_simps)
  show ?case
  proof (cases "is_blank l")
    case True
    with s Cons show ?thesis by (simp add: verify_line_def)
  next
    case False
    with s(1) assms(2) obtain r signers where r: "x_parse_record x l = Inr r"
        "x_hex x (chain_hash x (rl_entry r) (rl_prev r)) = rl_hash r"
        "check_signer x (vs_signers st) keys (vs_count st) (chain_hash x (rl_entry r) (rl_prev r)) (rl_sig_b64 r) (rl_kid r) = Inr signers"
        "vs_count st1 = vs_count st + 1" "vs_signers st1 = signers"
      by (auto simp: verify_line_def Let_def res_simps split: if_splits)
    have "x_unhex x (rl_hash r) = Some (chain_hash x (rl_entry r) (rl_prev r))"
      using assms(1) r(2) by (metis hex_ok_def)
    moreover have "sat_add64 0 (vs_count st) = vs_count st" using Cons.prems(2) by (simp add: sat_add64_def)
    moreover have "fst (bundle_sigs x keys 0 (vs_count st1) (vs_signers st1) (records_of x ls))"
      using Cons.IH [OF s(2)] Cons.prems(2) False r by simp
    ultimately show ?thesis using False r by simp
  qed
qed simp

lemma snapshot_eq:
  assumes "ledger_inv x d L" and "\<forall>l \<in> set (log_lines x d L). value_ok x l" and "hex_ok x"
  shows "snapshot_for_bundle x no_faults d L ts =
    Inr (l_next_seq L, stored (log_lines x d L), ledger_checkpoint x L ts,
      sign_tree_head x L (x_hex x (tree_hash (x_sha256 x) (log_leaves x d L))) (l_next_seq L) ts)"
  using inv_reads [OF assms] inv_records(2) [OF assms(1)]
  by (simp add: snapshot_for_bundle_def merkle_leaves_def ledger_checkpoint_def sign_tree_head_def Let_def)

lemma records_of_stored_lines [simp]: "records_of x (stored ls) = records_of x ls"
  by (induction ls) auto

lemma honest_parts:
  assumes "ext_ok x" and "ledger_inv x d L" and "l_next_seq L \<le> u64_max"
    and "b = \<lparr>bi_format = f, bi_from = 0, bi_checkpoint = ledger_checkpoint x L ts,
      bi_tree_head = Some (sign_tree_head x L root (l_next_seq L) ts), bi_records = log_records x d L\<rparr>"
  shows "linked x genesis (bi_records b) \<and> fst (bundle_sigs x (l_verifiers L) 0 0 [] (bi_records b)) \<and>
    list_ex (verify_checkpoint_sig x (bi_checkpoint b)) (l_verifiers L) \<and> fst (tail_check b) \<and>
    list_ex (verify_tree_head_sig x (sign_tree_head x L root (l_next_seq L) ts)) (l_verifiers L)"
proof -
  from assms(1) have ok: "hex_ok x" "sig_law x" by (simp_all add: ext_ok_def)
  obtain rep where r: "verify_lines x (map Inr (log_lines x d L)) (l_verifiers L) None = Inr (rep, None)" "key_ok x L"
    using assms(2) by (rule inv_log)
  note i = inv_records [OF assms(2)]
  have k: "x_public x (l_key L) \<in> set (l_verifiers L)" using r(2) by (simp add: key_ok_def)
  then have ne: "l_verifiers L \<noteq> []" by auto
  from r(1) obtain st where "verify_loop x (l_verifiers L) 0 (init_vstate None) (map Inr (log_lines x d L)) = Inr st"
    by (auto simp: verify_lines_def res_simps)
  from verify_loop_sigs [OF ok(1) ne this] i(2) assms(3)
  have "fst (bundle_sigs x (l_verifiers L) 0 0 [] (log_records x d L))" by (simp add: init_vstate_def)
  moreover have "fst (tail_check b)"
  proof -
    have "log_records x d L \<noteq> [] \<longrightarrow> rl_hash (last (log_records x d L)) = l_last_hash L"
      using i(3) by (auto simp: head_hash_def split: if_splits)
    then show ?thesis using assms(3,4) i(2)
      by (auto simp: tail_check_def Let_def ledger_checkpoint_def sign_tree_head_def)
  qed
  moreover have "list_ex (verify_checkpoint_sig x (ledger_checkpoint x L ts)) (l_verifiers L)"
    "list_ex (verify_tree_head_sig x (sign_tree_head x L root (l_next_seq L) ts)) (l_verifiers L)"
    unfolding list_ex_iff using k verify_checkpoint_signed [OF ok(2)] verify_tree_head_signed [OF ok(2)] by blast+
  ultimately show ?thesis using chained_linked [OF i(1)] assms(4) by simp
qed

text \<open>A full bundle of a ledger in step is accepted, up to the check against an earlier head.\<close>

lemma honest_verdict:
  assumes "ext_ok x" and "ledger_inv x d L" and "l_next_seq L \<le> u64_max"
    and "th = sign_tree_head x L (x_hex x (tree_hash (x_sha256 x) (log_leaves x d L))) (l_next_seq L) ts"
    and "parse json = Inr \<lparr>bi_format = f, bi_from = 0, bi_checkpoint = ledger_checkpoint x L ts,
      bi_tree_head = Some th, bi_records = log_records x d L\<rparr>"
  shows "bv_accepted (verify_evidence_bundle x parse json (l_verifiers L) against) \<longleftrightarrow>
    (\<forall>earlier. against = Some earlier \<longrightarrow> consistency_check x (l_verifiers L) (log_leaves x d L) earlier th)"
proof -
  have ok: "hex_ok x" using assms(1) by (simp add: ext_ok_def)
  note parts = honest_parts [OF assms(1-3) refl, of f ts "x_hex x (tree_hash (x_sha256 x) (log_leaves x d L))", folded assms(4)]
  have root: "th_merkle_root th = x_hex x (tree_hash (x_sha256 x) (log_leaves x d L))"
    using assms(4) by (simp add: sign_tree_head_def Let_def)
  show ?thesis
    using accepted_full_tail [of x parse json, OF ok assms(5), of "l_verifiers L" against] parts root by simp
qed

text \<open>C21: the export path is complete: the snapshot of a ledger in step with its disk, bundled from
  genesis, is accepted offline under the ledger's keyring, also against any tree head of at least
  one record that the same ledger issued before, however it has grown, rotated or been
  reopened since.\<close>

theorem honest_bundle_accepted:
  assumes "ext_ok x" and "ledger_inv x d L" and "\<not> l_failed L" and "(led_step x)\<^sup>*\<^sup>* (d, L) (d', L')" and "\<not> l_failed L'"
    and "\<forall>l \<in> set (log_lines x d' L'). value_ok x l" and "0 < l_next_seq L" and "l_next_seq L' \<le> u64_max"
    and "ledger_tree_head x no_faults d L ts = Inr earlier" and "x_public x (l_key L) \<in> set (l_verifiers L')"
    and "snapshot_for_bundle x no_faults d' L' ts' = Inr (count, raw, cp, th)"
    and "parse json = Inr \<lparr>bi_format = f, bi_from = 0, bi_checkpoint = cp, bi_tree_head = Some th, bi_records = records_of x raw\<rparr>"
  shows "bv_accepted (verify_evidence_bundle x parse json (l_verifiers L') (Some earlier))"
proof -
  from assms(1) have ok: "hex_ok x" "sig_law x" "sha_ok x" by (simp_all add: ext_ok_def)
  have led: "led_ok x (d, L)" using assms(1-3) by (simp add: led_ok_def)
  obtain new where new: "log_lines x d' L' = log_lines x d L @ new"
    using run.steps_log [OF assms(4) led] by (auto simp: led_log_def)
  have inv': "ledger_inv x d' L'" using run.steps_ok [OF assms(4) led] assms(5) by (simp add: led_ok_def)
  have v: "\<forall>l \<in> set (log_lines x d L). value_ok x l" using assms(6) new by simp
  let ?H = "x_sha256 x" and ?a = "log_leaves x d L" and ?b = "log_leaves x d' L'"
  let ?root = "x_hex x (tree_hash ?H ?b)"
  have th: "earlier = sign_tree_head x L (x_hex x (tree_hash ?H ?a)) (l_next_seq L) ts"
    using issued_tree_head [OF assms(2) v ok(1)] assms(9) by simp
  have sn: "raw = stored (log_lines x d' L')" "cp = ledger_checkpoint x L' ts'"
      "th = sign_tree_head x L' ?root (l_next_seq L') ts'"
    using snapshot_eq [OF inv' assms(6) ok(1), of ts'] assms(11) by simp_all
  have n: "length ?a = l_next_seq L" "length ?b = l_next_seq L'"
    using inv_records(2) [OF assms(2)] inv_records(2) [OF inv'] by simp_all
  have tk: "take (l_next_seq L) ?b = ?a" and le: "l_next_seq L \<le> length ?b" using new n(1) by simp_all
  obtain path where path: "consistency_proof ?H ?b (l_next_seq L) = Some path"
      "verify_consistency ?H (l_next_seq L) (length ?b) (tree_hash ?H ?a) (tree_hash ?H ?b) path"
    using consistency_proof_ok [OF assms(7) le, of ?H] tk by auto
  have h32: "hex_to_32 x (x_hex x (tree_hash ?H e)) = Some (tree_hash ?H e)" for e
    using ok(1,3) length_tree_hash [of ?H e] by (simp add: hex_to_32_def hex_ok_def sha_ok_def)
  have es: "list_ex (verify_tree_head_sig x earlier) (l_verifiers L')"
    unfolding list_ex_iff th using assms(10) verify_tree_head_signed [OF ok(2)] by blast
  have cc: "consistency_check x (l_verifiers L') ?b earlier th"
    using es th sn(3) path le n h32 by (auto simp: consistency_check_def sign_tree_head_def Let_def)
  have "parse json = Inr \<lparr>bi_format = f, bi_from = 0, bi_checkpoint = ledger_checkpoint x L' ts',
      bi_tree_head = Some th, bi_records = log_records x d' L'\<rparr>" using assms(12) sn by simp
  from honest_verdict [of x d' L' th ts' parse json, OF assms(1) inv' assms(8) sn(3) this] cc show ?thesis by simp
qed


text \<open>No bundle is consistent with a head over the empty log, although every log extends it.\<close>

lemma empty_head_refused: "th_tree_size earlier = 0 \<Longrightarrow> \<not> consistency_check x keys leaves earlier current"
  by (simp add: consistency_check_def consistency_proof_def)

section \<open>A bundle of one record\<close>

lemma demo_bundle:
  "\<exists>d L th cp raw now. led_step demo_ext (demo_disk1, demo_ledger) (d, L) \<and> ledger_inv demo_ext d L \<and> \<not> l_failed L \<and>
    l_next_seq L = 1 \<and> l_key L = ''k'' \<and> l_verifiers L = [''k''] \<and> ledger_tree_head demo_ext no_faults d L 5 = Inr th \<and>
    snapshot_for_bundle demo_ext no_faults d L 6 = Inr (1, raw, cp, now) \<and> cp = ledger_checkpoint demo_ext L 6 \<and>
    records_of demo_ext raw = log_records demo_ext d L"
proof -
  obtain d L where s: "led_step demo_ext (demo_disk1, demo_ledger) (d, L)" "ledger_inv demo_ext d L" "\<not> l_failed L"
      "l_next_seq L = 1" "l_key L = ''k''" "l_verifiers L = [''k'']" using demo_led_step by blast
  have v: "\<forall>l \<in> set (log_lines demo_ext d L). value_ok demo_ext l" by (simp add: demo_value_ok)
  show ?thesis
    by (rule exI [of _ d], rule exI [of _ L], intro exI conjI)
      (rule s issued_tree_head [OF s(2) v demo_hex_ok] refl records_of_stored_lines
        snapshot_eq [OF s(2) v demo_hex_ok, unfolded s(4)])+
qed

theorem honest_bundle_accepted_witness:
  "\<exists>d L th cp raw now. led_step demo_ext (demo_disk1, demo_ledger) (d, L) \<and>
    ledger_tree_head demo_ext no_faults d L 5 = Inr th \<and>
    snapshot_for_bundle demo_ext no_faults d L 6 = Inr (1, raw, cp, now) \<and>
    bv_accepted (verify_evidence_bundle demo_ext (\<lambda>_. Inr \<lparr>bi_format = ''b'', bi_from = 0, bi_checkpoint = cp,
      bi_tree_head = Some now, bi_records = records_of demo_ext raw\<rparr>) ''bundle'' [''k''] (Some th))"
proof -
  obtain d L th cp raw now where s: "led_step demo_ext (demo_disk1, demo_ledger) (d, L)" "ledger_inv demo_ext d L" "\<not> l_failed L"
      "l_next_seq L = 1" "l_key L = ''k''" "l_verifiers L = [''k'']" "ledger_tree_head demo_ext no_faults d L 5 = Inr th"
      "snapshot_for_bundle demo_ext no_faults d L 6 = Inr (1, raw, cp, now)" using demo_bundle by blast
  have v: "\<forall>l \<in> set (log_lines demo_ext d L). value_ok demo_ext l" by (simp add: demo_value_ok)
  have "bv_accepted (verify_evidence_bundle demo_ext (\<lambda>_. Inr \<lparr>bi_format = ''b'', bi_from = 0, bi_checkpoint = cp,
      bi_tree_head = Some now, bi_records = records_of demo_ext raw\<rparr>) ''bundle'' (l_verifiers L) (Some th))"
    by (rule honest_bundle_accepted [OF demo_ext_ok s(2,3) rtranclp.rtrancl_refl s(3) v _ _ s(7) _ s(8)])
      (use s(4-6) in simp_all)
  with s(6) have "bv_accepted (verify_evidence_bundle demo_ext (\<lambda>_. Inr \<lparr>bi_format = ''b'', bi_from = 0, bi_checkpoint = cp,
      bi_tree_head = Some now, bi_records = records_of demo_ext raw\<rparr>) ''bundle'' [''k''] (Some th))" by simp
  with s(1,7,8) show ?thesis by blast
qed

theorem accepted_bundle_pins_log_witness:
  "\<exists>d L cp raw now. led_step demo_ext (demo_disk1, demo_ledger) (d, L) \<and>
    snapshot_for_bundle demo_ext no_faults d L 6 = Inr (1, raw, cp, now) \<and>
    map (\<lambda>r. (rl_entry r, rl_prev r, rl_hash r)) (records_of demo_ext raw) =
      map (\<lambda>r. (rl_entry r, rl_prev r, rl_hash r)) (records_of demo_ext (log_lines demo_ext d L))"
proof -
  obtain d L th cp raw now where s: "led_step demo_ext (demo_disk1, demo_ledger) (d, L)" "ledger_inv demo_ext d L" "\<not> l_failed L"
      "l_next_seq L = 1" "l_key L = ''k''" "l_verifiers L = [''k'']" "ledger_tree_head demo_ext no_faults d L 5 = Inr th"
      "snapshot_for_bundle demo_ext no_faults d L 6 = Inr (1, raw, cp, now)" "cp = ledger_checkpoint demo_ext L 6"
      "records_of demo_ext raw = log_records demo_ext d L" using demo_bundle by blast
  have v: "\<forall>l \<in> set (log_lines demo_ext d L). value_ok demo_ext l" by (simp add: demo_value_ok)
  let ?b = "\<lparr>bi_format = ''b'', bi_from = 0, bi_checkpoint = cp, bi_tree_head = Some now, bi_records = records_of demo_ext raw\<rparr>"
  have th: "now = sign_tree_head demo_ext L (x_hex demo_ext (tree_hash (x_sha256 demo_ext) (log_leaves demo_ext d L))) (l_next_seq L) 6"
    using snapshot_eq [OF s(2) v demo_hex_ok, of 6] s(8) by simp
  have small: "l_next_seq L \<le> u64_max" using s(4) by simp
  have acc: "bv_accepted (verify_evidence_bundle demo_ext (\<lambda>_. Inr ?b) ''bundle'' (l_verifiers L) None)"
    using honest_verdict [OF demo_ext_ok s(2) small th, of "\<lambda>_. Inr ?b" "''bundle''" "''b''" None] s(9,10) by simp
  obtain rep where r: "verify_lines demo_ext (map Inr (log_lines demo_ext d L)) (l_verifiers L) None = Inr (rep, None)" "head_of L rep"
    using s(2) by (rule inv_log)
  have len: "length (log_records demo_ext d L) = 1" using inv_records(2) [OF s(2)] s(4) by simp
  then obtain r1 where r1: "log_records demo_ext d L = [r1]" by (auto simp: length_Suc_conv)
  have "inj_on (x_sha256 demo_ext) (set (chain_inputs (bi_records ?b)) \<union> set (chain_inputs (log_records demo_ext d L)))"
    using s(10) r1 by (simp add: chain_inputs_def del: demo_ext_sel)
  from accepted_bundle_pins_log [OF demo_hex_ok demo_sha_ok, of "\<lambda>_. Inr ?b" "''bundle''" ?b, OF refl _ _ acc r(1) _ _ this]
  have "map (\<lambda>r. (rl_entry r, rl_prev r, rl_hash r)) (records_of demo_ext raw) =
      map (\<lambda>r. (rl_entry r, rl_prev r, rl_hash r)) (records_of demo_ext (log_lines demo_ext d L))"
    using s(9,10) r(2) len by (simp add: head_of_def ledger_checkpoint_def Let_def del: demo_ext_sel)
  with s show ?thesis by blast
qed

end
