(* ===== verification/Store.thy ===== *)
theory Store
  imports Open
begin

text \<open>
  The error type of the stores, \<open>decern-store/src/lib.rs\<close>. \<open>Invalid\<close> carries a sentence
  in the code; here it carries the case it was written for.
\<close>

datatype invalid =
    TerminatedNoRevival string
  | ExpiredRegistration string nat nat
  | Disappeared string
  | Poisoned
  | OddHex string
  | NotHex string
  | StemNotUtf8 string
  | EmptyShard
  | RecordsNoCursor string nat
  | ShortLog string nat nat
  | LogNotUtf8 string
  | LogCount string nat nat
  | NotRecordEnd string nat
  | NotOneLine
  | OrphanLog string
  | EarlierWrote string

datatype store_error = SIo string string | SSerde string | SInvalid invalid

text \<open>\<open>io\<close>: an error of the file system at a path. The operations of \<open>Storage\<close> fail in no other way.\<close>

fun io_error :: "ledger_error \<Rightarrow> store_error" where
  "io_error (Io path e) = SIo path e"
| "io_error _ = SIo [] []"

end
