(* ===== verification/Missions.thy ===== *)
theory Missions
  imports Store
begin

text \<open>
  The mission registry and the durable map under it: \<open>decern-store/src/missions.rs\<close> and
  \<open>fsio.rs\<close>. The file-backed registry keeps one cached map per handle, revalidated by the
  file's fingerprint; every handle of every process shares the file. A write holds the sidecar
  lock from its read to its rename, so it is one step, and a read, which takes no lock, is one step
  here too; the operating system chooses the new file's fingerprint, and which calls fail. serde is
  the codec.

  The contract both registries implement is a locale; its consequence is that a termination is
  final, proved once and interpreted for both.
\<close>

section \<open>Entries\<close>

record mission_entry =
  me_approver :: string
  me_expiry :: nat
  me_terminated :: bool
  me_agent :: string
  me_approved_tools :: "string list"

definition tombstone_retention :: nat where
  "tombstone_retention = 30 * 24 * 60 * 60"

definition mission_entry_retained :: "mission_entry \<Rightarrow> nat \<Rightarrow> bool" where
  "mission_entry_retained e now =
     (if me_terminated e then sat_add64 (me_expiry e) tombstone_retention > now else me_expiry e > now)"

type_synonym missions = "(string, mission_entry) bmap"

text \<open>The new map, the result, and whether the map is to be persisted.\<close>

definition mission_register ::
  "missions \<Rightarrow> string \<Rightarrow> mission_entry \<Rightarrow> nat \<Rightarrow> missions \<times> (store_error + unit) \<times> bool" where
  "mission_register m s256 entry now =
     (let m' = bm_retain (\<lambda>_ e. mission_entry_retained e now) m in
      case bm_get m' s256 of
        Some existing \<Rightarrow>
          if me_terminated existing then (m', Inl (SInvalid (TerminatedNoRevival s256)), False)
          else (m', Inr (), False)
      | None \<Rightarrow>
          if me_expiry entry \<le> now then (m', Inl (SInvalid (ExpiredRegistration s256 (me_expiry entry) now)), False)
          else (bm_insert s256 entry m', Inr (), True))"

text \<open>The operations of the trait, as a value a client is given.\<close>

record 's mission_registry =
  mr_register :: "string \<Rightarrow> mission_entry \<Rightarrow> nat \<Rightarrow> ('s, store_error, unit) sres"
  mr_status :: "string \<Rightarrow> ('s, store_error, mission_entry option) sres"
  mr_terminate :: "string \<Rightarrow> nat \<Rightarrow> ('s, store_error, unit) sres"

section \<open>In memory\<close>

record memory_missions =
  mm_map :: missions
  mm_poisoned :: bool

definition memory_register :: "string \<Rightarrow> mission_entry \<Rightarrow> nat \<Rightarrow> (memory_missions, store_error, unit) sres" where
  "memory_register s256 entry now s =
     (if mm_poisoned s then (Inl (SInvalid Poisoned), s)
      else case mission_register (mm_map s) s256 entry now of (m, r, _) \<Rightarrow> (r, s\<lparr>mm_map := m\<rparr>))"

definition memory_status :: "string \<Rightarrow> (memory_missions, store_error, mission_entry option) sres" where
  "memory_status s256 s =
     (if mm_poisoned s then (Inl (SInvalid Poisoned), s) else (Inr (bm_get (mm_map s) s256), s))"

text \<open>\<open>get_mut\<close> and the mark.\<close>

definition mark_terminated :: "string \<Rightarrow> missions \<Rightarrow> missions" where
  "mark_terminated s256 m =
     (case bm_get m s256 of Some e \<Rightarrow> bm_insert s256 (e\<lparr>me_terminated := True\<rparr>) m | None \<Rightarrow> m)"

definition memory_terminate :: "string \<Rightarrow> nat \<Rightarrow> (memory_missions, store_error, unit) sres" where
  "memory_terminate s256 now s =
     (if mm_poisoned s then (Inl (SInvalid Poisoned), s)
      else (Inr (), s\<lparr>mm_map := bm_retain (\<lambda>_ e. mission_entry_retained e now) (mark_terminated s256 (mm_map s))\<rparr>))"

definition memory_registry :: "memory_missions mission_registry" where
  "memory_registry = \<lparr>mr_register = memory_register, mr_status = memory_status, mr_terminate = memory_terminate\<rparr>"

section \<open>The coherent map\<close>

record fingerprint =
  fp_ino :: nat
  fp_size :: nat
  fp_mtime :: "int \<times> nat"

record store_file =
  sf_fp :: fingerprint
  sf_bytes :: bytes

record 'v coherent_cache =
  cc_map :: "(string, 'v) bmap"
  cc_fp :: "fingerprint option"
  cc_poisoned :: bool

datatype store_op = SCreateDir | SLockOpen | SLock | SRead | SWriteTmp | SRename | SSyncParent | SStat

text \<open>Which calls fail, and the inode and time the next written file gets.\<close>

record store_plan =
  sp_fault :: "store_op \<Rightarrow> string option"
  sp_ino :: nat
  sp_mtime :: "int \<times> nat"

record 'v codec =
  co_parse :: "bytes \<Rightarrow> string + (string, 'v) bmap"
  co_print :: "(string, 'v) bmap \<Rightarrow> string + bytes"

type_synonym 'a fil = "(store_file option, store_error, 'a) sres"

definition st_step :: "store_plan \<Rightarrow> store_op \<Rightarrow> string \<Rightarrow> unit fil" where
  "st_step pl op path f = (case sp_fault pl op of None \<Rightarrow> (Inr (), f) | Some e \<Rightarrow> (Inl (SIo path e), f))"

definition new_fp :: "store_plan \<Rightarrow> bytes \<Rightarrow> fingerprint" where
  "new_fp pl b = \<lparr>fp_ino = sp_ino pl, fp_size = length b, fp_mtime = sp_mtime pl\<rparr>"

definition atomic_write_json :: "'v codec \<Rightarrow> store_plan \<Rightarrow> string \<Rightarrow> (string, 'v) bmap \<Rightarrow> unit fil" where
  "atomic_write_json co pl path m =
     (case co_print co m of
        Inl e \<Rightarrow> s_fail (SSerde e)
      | Inr b \<Rightarrow>
          s_bind (st_step pl SWriteTmp (with_extension path ''tmp'')) (\<lambda>_.
          s_bind (st_step pl SRename path) (\<lambda>_.
          s_bind (\<lambda>_. (Inr (), Some \<lparr>sf_fp = new_fp pl b, sf_bytes = b\<rparr>)) (\<lambda>_.
          st_step pl SSyncParent (parent path)))))"

definition file_fingerprint :: "store_plan \<Rightarrow> string \<Rightarrow> fingerprint option fil" where
  "file_fingerprint pl path =
     s_bind (st_step pl SStat path) (\<lambda>_. s_look (\<lambda>f. Inr (map_option sf_fp f)))"

definition read_coherent_map :: "'v codec \<Rightarrow> store_plan \<Rightarrow> string \<Rightarrow> (string, 'v) bmap fil" where
  "read_coherent_map co pl path =
     s_bind (st_step pl SRead path) (\<lambda>_. s_look (\<lambda>f.
       case f of
         None \<Rightarrow> Inr []
       | Some sf \<Rightarrow> (case co_parse co (sf_bytes sf) of Inl e \<Rightarrow> Inl (SSerde e) | Inr m \<Rightarrow> Inr m)))"

definition with_write_lock :: "store_plan \<Rightarrow> string \<Rightarrow> 'a fil \<Rightarrow> 'a fil" where
  "with_write_lock pl path f =
     s_bind (st_step pl SLockOpen (with_extension path ''lock'')) (\<lambda>_.
     s_bind (st_step pl SLock (with_extension path ''lock'')) (\<lambda>_. f))"

definition coherent_open :: "'v codec \<Rightarrow> store_plan \<Rightarrow> string \<Rightarrow> 'v coherent_cache fil" where
  "coherent_open co pl path =
     s_bind (\<lambda>f. if f = None \<and> CHR ''/'' \<in> set path then st_step pl SCreateDir (parent path) f else (Inr (), f)) (\<lambda>_.
     with_write_lock pl path
       (s_bind (read_coherent_map co pl path) (\<lambda>m.
        s_bind (\<lambda>f. if f = None then atomic_write_json co pl path m f else (Inr (), f)) (\<lambda>_.
        s_bind (file_fingerprint pl path) (\<lambda>fp.
        s_ret \<lparr>cc_map = m, cc_fp = fp, cc_poisoned = False\<rparr>)))))"

text \<open>A handle's operation sees the file and its own cache.\<close>

type_synonym ('v, 'a) coh = "(store_file option \<times> 'v coherent_cache, store_error, 'a) sres"

definition on_file :: "'a fil \<Rightarrow> ('v, 'a) coh" where
  "on_file m = (\<lambda>(f, c). case m f of (r, f') \<Rightarrow> (r, (f', c)))"

definition on_cache :: "('v coherent_cache \<Rightarrow> (store_error + 'a) \<times> 'v coherent_cache) \<Rightarrow> ('v, 'a) coh" where
  "on_cache m = (\<lambda>(f, c). case m c of (r, c') \<Rightarrow> (r, (f, c')))"

definition lock_cache :: "('v, unit) coh" where
  "lock_cache = on_cache (\<lambda>c. (res_guard (\<not> cc_poisoned c) (SInvalid Poisoned), c))"

definition coherent_read :: "'v codec \<Rightarrow> store_plan \<Rightarrow> string \<Rightarrow> ((string, 'v) bmap \<Rightarrow> 'a) \<Rightarrow> ('v, 'a) coh" where
  "coherent_read co pl path f =
     s_bind lock_cache (\<lambda>_.
     s_bind (on_file (file_fingerprint pl path)) (\<lambda>current.
     s_bind (on_cache (\<lambda>c. (Inr (cc_fp c), c))) (\<lambda>fp.
     s_bind (if current = fp then s_ret ()
             else case current of
               Some now \<Rightarrow>
                 s_bind (on_file (read_coherent_map co pl path)) (\<lambda>m.
                 on_cache (\<lambda>c. (Inr (), c\<lparr>cc_map := m, cc_fp := Some now\<rparr>)))
             | None \<Rightarrow> s_fail (SInvalid (Disappeared path))) (\<lambda>_.
     on_cache (\<lambda>c. (Inr (f (cc_map c)), c))))))"

text \<open>\<open>f\<close> gives the new map, its result and whether to persist; its result is the caller's to unwrap.\<close>

definition coherent_write ::
  "'v codec \<Rightarrow> store_plan \<Rightarrow> string \<Rightarrow> ((string, 'v) bmap \<Rightarrow> (string, 'v) bmap \<times> 'a \<times> bool) \<Rightarrow> ('v, 'a) coh" where
  "coherent_write co pl path f =
     s_bind (on_file (with_write_lock pl path
       (s_bind (read_coherent_map co pl path) (\<lambda>m.
        case f m of (m', result, dirty) \<Rightarrow>
        s_bind (if dirty then atomic_write_json co pl path m' else s_ret ()) (\<lambda>_.
        s_bind (file_fingerprint pl path) (\<lambda>fp.
        s_ret (m', fp, result))))))) (\<lambda>(m', fp, result).
     s_bind lock_cache (\<lambda>_.
     on_cache (\<lambda>c. (Inr result, c\<lparr>cc_map := m', cc_fp := fp\<rparr>))))"

section \<open>On file\<close>

type_synonym missions_file = "store_file option \<times> (nat \<Rightarrow> mission_entry coherent_cache)"

text \<open>Handle \<open>h\<close> of those that share the file.\<close>

definition on_handle :: "nat \<Rightarrow> (mission_entry, 'a) coh \<Rightarrow> (missions_file, store_error, 'a) sres" where
  "on_handle h op = (\<lambda>(f, cs). case op (f, cs h) of (r, (f', c)) \<Rightarrow> (r, (f', cs(h := c))))"

definition file_register ::
  "mission_entry codec \<Rightarrow> store_plan \<Rightarrow> string \<Rightarrow> string \<Rightarrow> mission_entry \<Rightarrow> nat \<Rightarrow> (mission_entry, unit) coh" where
  "file_register co pl path s256 entry now =
     s_bind (coherent_write co pl path (\<lambda>m. mission_register m s256 entry now)) (\<lambda>r s. (r, s))"

definition file_status ::
  "mission_entry codec \<Rightarrow> store_plan \<Rightarrow> string \<Rightarrow> string \<Rightarrow> (mission_entry, mission_entry option) coh" where
  "file_status co pl path s256 = coherent_read co pl path (\<lambda>m. bm_get m s256)"

definition file_terminate ::
  "mission_entry codec \<Rightarrow> store_plan \<Rightarrow> string \<Rightarrow> string \<Rightarrow> nat \<Rightarrow> (mission_entry, unit) coh" where
  "file_terminate co pl path s256 now =
     coherent_write co pl path (\<lambda>m.
       let dirty = (case bm_get m s256 of Some e \<Rightarrow> \<not> me_terminated e | None \<Rightarrow> False);
           m' = (if dirty then mark_terminated s256 m else m)
       in (bm_retain (\<lambda>_ e. mission_entry_retained e now) m', (), dirty))"

definition file_registry ::
  "mission_entry codec \<Rightarrow> string \<Rightarrow> nat \<times> store_plan \<Rightarrow> missions_file mission_registry" where
  "file_registry co path = (\<lambda>(h, pl).
     \<lparr>mr_register = (\<lambda>s256 entry now. on_handle h (file_register co pl path s256 entry now)),
      mr_status = (\<lambda>s256. on_handle h (file_status co pl path s256)),
      mr_terminate = (\<lambda>s256 now. on_handle h (file_terminate co pl path s256 now))\<rparr>)"


section \<open>The contract\<close>

text \<open>A client's calls, in the order of their times; \<open>fresh\<close> is what a call needs of the operating
  system in that state.\<close>

inductive reg_step ::
  "('h \<Rightarrow> 's mission_registry) \<Rightarrow> ('h \<Rightarrow> 's \<Rightarrow> bool) \<Rightarrow> nat \<times> 's \<Rightarrow> nat \<times> 's \<Rightarrow> bool" for R fresh where
  register: "fresh h s \<Longrightarrow> t \<le> now \<Longrightarrow> mr_register (R h) k e now s = (r, s') \<Longrightarrow> reg_step R fresh (t, s) (now, s')"
| status: "fresh h s \<Longrightarrow> mr_status (R h) k s = (r, s') \<Longrightarrow> reg_step R fresh (t, s) (t, s')"
| terminate: "fresh h s \<Longrightarrow> t \<le> now \<Longrightarrow> mr_terminate (R h) k now s = (r, s') \<Longrightarrow> reg_step R fresh (t, s) (now, s')"

text \<open>A map after \<open>terminate\<close>.\<close>

definition mission_terminate :: "missions \<Rightarrow> string \<Rightarrow> nat \<Rightarrow> missions" where
  "mission_terminate m k now = bm_retain (\<lambda>_ e. mission_entry_retained e now) (mark_terminated k m)"

text \<open>Mission \<open>k\<close> of expiry \<open>E\<close> is ended at time \<open>t\<close>: its tombstone is there, or its
  time is over and only a mission that outlives it can be under its name.\<close>

definition buried :: "string \<Rightarrow> nat \<Rightarrow> nat \<Rightarrow> missions \<Rightarrow> bool" where
  "buried k E t m \<longleftrightarrow>
     (\<exists>e. bm_get m k = Some e \<and> me_terminated e \<and> me_expiry e = E) \<or>
     E \<le> t \<and> (\<forall>e. bm_get m k = Some e \<longrightarrow> E < me_expiry e)"

lemma buried_later: "buried k E t m \<Longrightarrow> t \<le> t' \<Longrightarrow> buried k E t' m"
  by (auto simp: buried_def)

lemma buried_retain:
  assumes "bm_wf m" and "buried k E t m" and "t \<le> now" and "E \<le> u64_max"
  shows "buried k E now (bm_retain (\<lambda>_ e. mission_entry_retained e now) m)"
proof -
  have "E \<le> now" if "\<not> sat_add64 E tombstone_retention > now"
    using sat_add64_ge [OF assms(4), of tombstone_retention] that by linarith
  with assms show ?thesis
    by (auto simp: buried_def bm_get_retain mission_entry_retained_def split: option.splits if_splits)
qed

lemma buried_insert:
  "buried k E t m \<Longrightarrow> bm_get m k' = None \<Longrightarrow> t < me_expiry e \<Longrightarrow> buried k E t (bm_insert k' e m)"
  by (auto simp: buried_def)

lemma buried_mark: "buried k E t m \<Longrightarrow> buried k E t (mark_terminated k' m)"
  by (auto simp: buried_def mark_terminated_def split: option.splits)

lemma wf_mark [simp]: "bm_wf m \<Longrightarrow> bm_wf (mark_terminated k m)"
  by (simp add: mark_terminated_def split: option.split)

lemma wf_register [simp]: "bm_wf m \<Longrightarrow> bm_wf (fst (mission_register m k e now))"
  by (simp add: mission_register_def Let_def split: option.split)

lemma wf_registerD: "mission_register m k e now = (m', r, d) \<Longrightarrow> bm_wf m \<Longrightarrow> bm_wf m'"
  using wf_register [of m k e now] by simp

lemma wf_terminate [simp]: "bm_wf m \<Longrightarrow> bm_wf (mission_terminate m k now)"
  by (simp add: mission_terminate_def)

lemma buried_register:
  assumes "bm_wf m" and "buried k E t m" and "t \<le> now" and "E \<le> u64_max"
  shows "buried k E now (fst (mission_register m k' e now))"
  using buried_retain [OF assms] by (auto simp: mission_register_def Let_def intro: buried_insert split: option.split)

lemma buried_terminate:
  assumes "bm_wf m" and "buried k E t m" and "t \<le> now" and "E \<le> u64_max"
  shows "buried k E now (mission_terminate m k' now)"
  unfolding mission_terminate_def using assms by (intro buried_retain buried_mark) simp_all

lemma terminate_buries:
  assumes "bm_wf m" and "bm_get m k = Some e" and "me_expiry e \<le> u64_max"
  shows "buried k (me_expiry e) now (mission_terminate m k now)"
proof -
  have "buried k (me_expiry e) 0 (mark_terminated k m)" using assms(2) by (simp add: buried_def mark_terminated_def)
  from buried_retain [OF _ this _ assms(3), of now] assms(1) show ?thesis by (simp add: mission_terminate_def)
qed

locale mission_store =
  fixes R :: "'h \<Rightarrow> 's mission_registry" and fresh :: "'h \<Rightarrow> 's \<Rightarrow> bool"
    and ok :: "'s \<Rightarrow> bool" and view :: "'s \<Rightarrow> missions"
  assumes view_wf: "ok s \<Longrightarrow> bm_wf (view s)"
    and register_law: "ok s \<Longrightarrow> fresh h s \<Longrightarrow> mr_register (R h) k e now s = (r, s') \<Longrightarrow>
      ok s' \<and> (view s' = view s \<or> view s' = fst (mission_register (view s) k e now))"
    and status_law: "ok s \<Longrightarrow> fresh h s \<Longrightarrow> mr_status (R h) k s = (q, s') \<Longrightarrow>
      ok s' \<and> view s' = view s \<and> (\<forall>e. q = Inr (Some e) \<longrightarrow> bm_get (view s) k = Some e)"
    and terminate_law: "ok s \<Longrightarrow> fresh h s \<Longrightarrow> mr_terminate (R h) k now s = (r, s') \<Longrightarrow>
      ok s' \<and> (view s' = mission_terminate (view s) k now \<or>
        view s' = view s \<and> (r = Inr () \<longrightarrow> (\<forall>e. bm_get (view s) k = Some e \<longrightarrow> me_terminated e)))"
begin

lemma step_keeps:
  assumes "reg_step R fresh (t, s) (t', s')" and "ok s" and "E \<le> u64_max"
  shows "ok s' \<and> t \<le> t' \<and> (buried k E t (view s) \<longrightarrow> buried k E t' (view s'))"
  using assms
proof (cases rule: reg_step.cases)
  case (register h k' e r)
  with register_law [OF assms(2) register(1,3)] buried_later [of k E t "view s" t']
    buried_register [OF view_wf [OF assms(2)] _ register(2) assms(3)] show ?thesis by auto
next
  case (status h k' r)
  with status_law [OF assms(2) status(2,3)] show ?thesis by auto
next
  case (terminate h k' r)
  with terminate_law [OF assms(2) terminate(1,3)] buried_later [of k E t "view s" t']
    buried_terminate [OF view_wf [OF assms(2)] _ terminate(2) assms(3)] show ?thesis by auto
qed

lemma steps_keep:
  assumes "(reg_step R fresh)\<^sup>*\<^sup>* (t, s) (t', s')" and "ok s" and "E \<le> u64_max"
  shows "ok s' \<and> (buried k E t (view s) \<longrightarrow> buried k E t' (view s'))"
  using assms(1)
proof (induction rule: rtranclp_induct2)
  case refl
  then show ?case using assms(2) by simp
next
  case (step t1 s1 t2 s2)
  then show ?case using step_keeps [OF step(2) _ assms(3)] by blast
qed

text \<open>What a call finds in a store that ended a mission, however long ago.\<close>

lemma ended_stays_ended:
  assumes "ok s" and "fresh h s" and "mr_terminate (R h) k now s = (Inr (), s1)" and "bm_get (view s) k = Some e"
    and "me_expiry e \<le> u64_max" and "(reg_step R fresh)\<^sup>*\<^sup>* (now, s1) (t, s2)"
    and "fresh h' s2" and "mr_status (R h') k s2 = (Inr (Some e'), s3)"
  shows "me_terminated e' \<or> me_expiry e < me_expiry e'"
proof -
  note tl = terminate_law [OF assms(1-3)]
  then have "buried k (me_expiry e) now (view s1)"
  proof (elim conjE disjE)
    assume "view s1 = mission_terminate (view s) k now"
    with terminate_buries [OF view_wf [OF assms(1)] assms(4,5)] show ?thesis by simp
  qed (use assms(4) in \<open>auto simp: buried_def\<close>)
  with steps_keep [OF assms(6) _ assms(5)] tl have "ok s2" "buried k (me_expiry e) t (view s2)" by auto
  with status_law [OF _ assms(7,8)] show ?thesis by (auto simp: buried_def)
qed

end


section \<open>In memory\<close>

interpretation memory: mission_store "\<lambda>_ :: unit. memory_registry" "\<lambda>_ _. True" "\<lambda>s. bm_wf (mm_map s)" mm_map
  by unfold_locales
    (auto simp: memory_registry_def memory_register_def memory_status_def memory_terminate_def mission_terminate_def
      dest: wf_registerD split: if_splits prod.splits)

section \<open>On file\<close>

definition codec_ok :: "'v codec \<Rightarrow> bool" where
  "codec_ok co \<longleftrightarrow> (\<forall>b m. co_parse co b = Inr m \<longrightarrow> bm_wf m) \<and>
     (\<forall>m b. bm_wf m \<longrightarrow> co_print co m = Inr b \<longrightarrow> co_parse co b = Inr m)"

definition within :: "('k, 'v) bmap \<Rightarrow> ('k, 'v) bmap \<Rightarrow> bool" where
  "within a b \<longleftrightarrow> (\<forall>k e. bm_get a k = Some e \<longrightarrow> bm_get b k = Some e)"

lemma coherent_write_outcome:
  assumes "coherent_write co pl path g (Some sf, c) = (r, (f', c'))" and "co_parse co (sf_bytes sf) = Inr m"
    and "g m = (m', res, dirty)"
  shows "(f' = Some sf \<and> (\<not> dirty \<or> isl r) \<or> dirty \<and> (\<exists>b. co_print co m' = Inr b \<and> f' = Some \<lparr>sf_fp = new_fp pl b, sf_bytes = b\<rparr>)) \<and>
    (isl r \<and> c' = c \<or> r = Inr res \<and> c' = c\<lparr>cc_map := m', cc_fp := map_option sf_fp f'\<rparr>)"
  using assms
  by (auto simp: coherent_write_def on_file_def on_cache_def lock_cache_def with_write_lock_def read_coherent_map_def
      atomic_write_json_def file_fingerprint_def st_step_def s_simps res_guard_def
      split: option.splits if_splits sum.splits prod.splits)

lemma coherent_read_outcome:
  assumes "coherent_read co pl path g (Some sf, c) = (r, (f', c'))" and "co_parse co (sf_bytes sf) = Inr m"
  shows "f' = Some sf \<and> (c' = c \<or> c' = c\<lparr>cc_map := m, cc_fp := Some (sf_fp sf)\<rparr>) \<and>
    (\<forall>v. r = Inr v \<longrightarrow> v = g (cc_map c') \<and> cc_fp c' = Some (sf_fp sf))"
  using assms
  by (cases c) (auto simp: coherent_read_def on_file_def on_cache_def lock_cache_def read_coherent_map_def
      file_fingerprint_def st_step_def s_simps res_guard_def split: option.splits if_splits sum.splits prod.splits)


definition file_view :: "mission_entry codec \<Rightarrow> missions_file \<Rightarrow> missions" where
  "file_view co = (\<lambda>(f, cs). case f of None \<Rightarrow> [] | Some sf \<Rightarrow> (case co_parse co (sf_bytes sf) of Inl _ \<Rightarrow> [] | Inr m \<Rightarrow> m))"

text \<open>The file parses, and a cache whose fingerprint is the file's holds nothing the file does not.\<close>

definition file_ok :: "mission_entry codec \<Rightarrow> missions_file \<Rightarrow> bool" where
  "file_ok co = (\<lambda>(f, cs). codec_ok co \<and> (\<exists>sf m. f = Some sf \<and> co_parse co (sf_bytes sf) = Inr m \<and>
     (\<forall>h. cc_fp (cs h) = Some (sf_fp sf) \<longrightarrow> within (cc_map (cs h)) m)))"

text \<open>A file renamed into place has an inode or a time no handle has cached.\<close>

definition file_fresh :: "nat \<times> store_plan \<Rightarrow> missions_file \<Rightarrow> bool" where
  "file_fresh = (\<lambda>(h, pl) (f, cs). \<forall>h' fp. cc_fp (cs h') = Some fp \<longrightarrow> fp_ino fp \<noteq> sp_ino pl \<or> fp_mtime fp \<noteq> sp_mtime pl)"

lemma fresh_new: "file_fresh (h, pl) (f, cs) \<Longrightarrow> cc_fp (cs h') \<noteq> Some (new_fp pl b)"
  unfolding file_fresh_def new_fp_def
  by (auto dest!: spec [of _ h'] spec [of _ "\<lparr>fp_ino = sp_ino pl, fp_size = length b, fp_mtime = sp_mtime pl\<rparr>"])

lemma within_refl [simp]: "within m m"
  by (simp add: within_def)

lemma within_retain: "bm_wf m \<Longrightarrow> within (bm_retain P m) m"
  by (auto simp: within_def bm_get_retain split: option.splits if_splits)

lemma file_write_keeps:
  assumes "file_ok co (f, cs)" and "file_fresh (h, pl) (f, cs)"
    and "on_handle h (coherent_write co pl path g) (f, cs) = (r, s')"
    and "\<And>m. bm_wf m \<Longrightarrow> bm_wf (fst (g m)) \<and> (\<not> snd (snd (g m)) \<longrightarrow> within (fst (g m)) m)"
  shows "file_ok co s' \<and>
    (file_view co s' = file_view co (f, cs) \<and> (\<forall>v. r = Inr v \<longrightarrow> v = fst (snd (g (file_view co (f, cs)))) \<and> \<not> snd (snd (g (file_view co (f, cs))))) \<or>
     snd (snd (g (file_view co (f, cs)))) \<and> file_view co s' = fst (g (file_view co (f, cs))) \<and>
       (\<forall>v. r = Inr v \<longrightarrow> v = fst (snd (g (file_view co (f, cs))))))"
proof -
  from assms(1) obtain sf m where f: "f = Some sf" "co_parse co (sf_bytes sf) = Inr m" "codec_ok co"
      "\<forall>h. cc_fp (cs h) = Some (sf_fp sf) \<longrightarrow> within (cc_map (cs h)) m" by (auto simp: file_ok_def)
  have v: "file_view co (f, cs) = m" using f by (simp add: file_view_def)
  have wf: "bm_wf m" using f(2,3) unfolding codec_ok_def by blast
  obtain m' res dirty where g: "g m = (m', res, dirty)" by (metis prod.exhaust)
  have gl: "bm_wf m'" "\<not> dirty \<longrightarrow> within m' m" using assms(4) [OF wf] unfolding g by simp_all
  obtain f' c' where w: "coherent_write co pl path g (Some sf, cs h) = (r, (f', c'))" "s' = (f', cs(h := c'))"
    using assms(3) f(1) by (auto simp: on_handle_def split: prod.splits)
  have parse: "co_parse co b = Inr m'" if "co_print co m' = Inr b" for b
    using f(3) gl(1) that unfolding codec_ok_def by blast
  from coherent_write_outcome [OF w(1) f(2) g] consider
      (refused) "f' = Some sf" "isl r" "c' = cs h"
    | (clean) "f' = Some sf" "\<not> dirty" "r = Inr res" "c' = (cs h)\<lparr>cc_map := m', cc_fp := map_option sf_fp f'\<rparr>"
    | (landed) b where "dirty" "co_print co m' = Inr b" "f' = Some \<lparr>sf_fp = new_fp pl b, sf_bytes = b\<rparr>" "isl r" "c' = cs h"
    | (written) b where "dirty" "co_print co m' = Inr b" "f' = Some \<lparr>sf_fp = new_fp pl b, sf_bytes = b\<rparr>" "r = Inr res"
        "c' = (cs h)\<lparr>cc_map := m', cc_fp := map_option sf_fp f'\<rparr>"
    by auto
  then show ?thesis
  proof cases
    case refused
    with f v w(2) show ?thesis by (auto simp: file_ok_def file_view_def)
  next
    case clean
    with f v w(2) gl g show ?thesis by (auto simp: file_ok_def file_view_def)
  next
    case landed
    with f(3) parse v w(2) g fresh_new [OF assms(2)] show ?thesis by (auto simp: file_ok_def file_view_def)
  next
    case written
    with f(3) parse v w(2) g fresh_new [OF assms(2)] show ?thesis by (auto simp: file_ok_def file_view_def)
  qed
qed

lemma file_read_keeps:
  assumes "file_ok co (f, cs)" and "on_handle h (coherent_read co pl path g) (f, cs) = (r, s')"
  shows "file_ok co s' \<and> file_view co s' = file_view co (f, cs) \<and>
    (\<forall>v. r = Inr v \<longrightarrow> (\<exists>m. within m (file_view co (f, cs)) \<and> v = g m))"
proof -
  from assms(1) obtain sf m where f: "f = Some sf" "co_parse co (sf_bytes sf) = Inr m" "codec_ok co"
      "\<forall>h. cc_fp (cs h) = Some (sf_fp sf) \<longrightarrow> within (cc_map (cs h)) m" by (auto simp: file_ok_def)
  have v: "file_view co (f, cs) = m" using f by (simp add: file_view_def)
  obtain f' c' where w: "coherent_read co pl path g (Some sf, cs h) = (r, (f', c'))" "s' = (f', cs(h := c'))"
    using assms(2) f(1) by (auto simp: on_handle_def split: prod.splits)
  note o = coherent_read_outcome [OF w(1) f(2)]
  then have "cc_fp c' = Some (sf_fp sf) \<longrightarrow> within (cc_map c') m" using f(4) by auto
  with o f v w(2) show ?thesis by (auto simp: file_ok_def file_view_def)
qed


interpretation durable: mission_store "file_registry co path" file_fresh "file_ok co" "file_view co" for co path
proof
  fix s assume "file_ok co s"
  then obtain sf m cs where "codec_ok co" "s = (Some sf, cs)" "co_parse co (sf_bytes sf) = Inr m"
    by (auto simp: file_ok_def split: prod.splits)
  moreover from this have "bm_wf m" unfolding codec_ok_def by blast
  ultimately show "bm_wf (file_view co s)" by (simp add: file_view_def)
next
  fix s h k e now r s' assume a: "file_ok co s" "file_fresh h s" "mr_register (file_registry co path h) k e now s = (r, s')"
  obtain h1 pl where h: "h = (h1, pl)" by force
  obtain f cs where s: "s = (f, cs)" by force
  let ?g = "\<lambda>m. mission_register m k e now"
  obtain r1 where w: "on_handle h1 (coherent_write co pl path ?g) (f, cs) = (r1, s')"
    using a(3) h s by (auto simp: file_registry_def file_register_def on_handle_def s_simps split: prod.splits)
  have "bm_wf (fst (?g m)) \<and> (\<not> snd (snd (?g m)) \<longrightarrow> within (fst (?g m)) m)" if "bm_wf m" for m
    using that within_retain by (auto simp: mission_register_def Let_def split: option.splits)
  from file_write_keeps [OF a(1,2) [unfolded s h] w this] s
  show "file_ok co s' \<and> (file_view co s' = file_view co s \<or> file_view co s' = fst (mission_register (file_view co s) k e now))"
    by blast
next
  fix s h k q s' assume a: "file_ok co s" "file_fresh h s" "mr_status (file_registry co path h) k s = (q, s')"
  obtain h1 pl where h: "h = (h1, pl)" by force
  obtain f cs where s: "s = (f, cs)" by force
  have w: "on_handle h1 (coherent_read co pl path (\<lambda>m. bm_get m k)) (f, cs) = (q, s')"
    using a(3) h s by (simp add: file_registry_def file_status_def)
  note k = file_read_keeps [OF a(1) [unfolded s] w]
  have "bm_get (file_view co s) k = Some e" if q: "q = Inr (Some e)" for e
  proof -
    from k q obtain m where "within m (file_view co (f, cs))" "Some e = bm_get m k" by blast
    then show ?thesis using s by (metis within_def)
  qed
  with k s show "file_ok co s' \<and> file_view co s' = file_view co s \<and> (\<forall>e. q = Inr (Some e) \<longrightarrow> bm_get (file_view co s) k = Some e)"
    by simp
next
  fix s h k now r s' assume a: "file_ok co s" "file_fresh h s" "mr_terminate (file_registry co path h) k now s = (r, s')"
  obtain h1 pl where h: "h = (h1, pl)" by force
  obtain f cs where s: "s = (f, cs)" by force
  let ?dirty = "\<lambda>m. case bm_get m k of Some e \<Rightarrow> \<not> me_terminated e | None \<Rightarrow> False"
  let ?g = "\<lambda>m. (bm_retain (\<lambda>_ e. mission_entry_retained e now) (if ?dirty m then mark_terminated k m else m), (), ?dirty m)"
  have w: "on_handle h1 (coherent_write co pl path ?g) (f, cs) = (r, s')"
    using a(3) h s by (simp add: file_registry_def file_terminate_def Let_def)
  have "bm_wf (fst (?g m)) \<and> (\<not> snd (snd (?g m)) \<longrightarrow> within (fst (?g m)) m)" if "bm_wf m" for m
    using that within_retain by auto
  from file_write_keeps [OF a(1,2) [unfolded s h] w this] s
  show "file_ok co s' \<and> (file_view co s' = mission_terminate (file_view co s) k now \<or>
      file_view co s' = file_view co s \<and> (r = Inr () \<longrightarrow> (\<forall>e. bm_get (file_view co s) k = Some e \<longrightarrow> me_terminated e)))"
    by (auto simp: mission_terminate_def split: option.splits)
qed


section \<open>Properties\<close>

definition demo_mission_entry :: "bool \<Rightarrow> mission_entry" where
  "demo_mission_entry ended = \<lparr>me_approver = ''alice'', me_expiry = 90, me_terminated = ended, me_agent = ''bot'', me_approved_tools = [''read'']\<rparr>"

definition demo_codec :: "mission_entry codec" where
  "demo_codec = \<lparr>
     co_parse = (\<lambda>b. if b = ''0'' then Inr [(''m'', demo_mission_entry False)] else if b = ''1'' then Inr [(''m'', demo_mission_entry True)] else Inl ''syntax''),
     co_print = (\<lambda>m. if m = [(''m'', demo_mission_entry False)] then Inr ''0'' else if m = [(''m'', demo_mission_entry True)] then Inr ''1'' else Inl ''other'')\<rparr>"

definition demo_plan :: "nat \<Rightarrow> store_plan" where
  "demo_plan ino = \<lparr>sp_fault = (\<lambda>_. None), sp_ino = ino, sp_mtime = (0, 0)\<rparr>"

definition demo_store :: missions_file where
  "demo_store = (Some \<lparr>sf_fp = new_fp (demo_plan 1) ''0'', sf_bytes = ''0''\<rparr>,
     \<lambda>_. \<lparr>cc_map = [(''m'', demo_mission_entry False)], cc_fp = Some (new_fp (demo_plan 1) ''0''), cc_poisoned = False\<rparr>)"

lemmas demo_store_simps = demo_store_def demo_plan_def demo_codec_def demo_mission_entry_def new_fp_def

lemma demo_codec_ok: "codec_ok demo_codec"
  by (auto simp: codec_ok_def demo_codec_def demo_mission_entry_def bm_wf_def split: if_splits)

lemma demo_store_ok: "file_ok demo_codec demo_store" "file_fresh (h, demo_plan 2) demo_store"
    "bm_get (file_view demo_codec demo_store) ''m'' = Some (demo_mission_entry False)"
  using demo_codec_ok by (simp_all add: file_ok_def file_fresh_def file_view_def demo_store_simps)

text \<open>The demonstration store after handle 0 has ended the mission.\<close>

definition demo_ended :: missions_file where
  "demo_ended = (Some \<lparr>sf_fp = new_fp (demo_plan 2) ''1'', sf_bytes = ''1''\<rparr>,
     (\<lambda>_. \<lparr>cc_map = [(''m'', demo_mission_entry False)], cc_fp = Some (new_fp (demo_plan 1) ''0''), cc_poisoned = False\<rparr>)
       (0 := \<lparr>cc_map = [(''m'', demo_mission_entry True)], cc_fp = Some (new_fp (demo_plan 2) ''1''), cc_poisoned = False\<rparr>))"

lemma demo_terminates:
  "mr_terminate (file_registry demo_codec ''missions.json'' (0, demo_plan 2)) ''m'' 5 demo_store = (Inr (), demo_ended)"
proof -
  have "file_terminate demo_codec (demo_plan 2) ''missions.json'' ''m'' 5 (fst demo_store, snd demo_store 0) =
      (Inr (), (fst demo_ended, snd demo_ended 0))"
    by (simp add: demo_ended_def file_terminate_def coherent_write_def on_file_def on_cache_def lock_cache_def
      with_write_lock_def read_coherent_map_def atomic_write_json_def file_fingerprint_def st_step_def s_bind_def s_ret_def s_look_def
      res_guard_def demo_store_simps mark_terminated_def mission_entry_retained_def sat_add64_def tombstone_retention_def
      bm_retain_def Let_def)
  then show ?thesis by (simp add: file_registry_def on_handle_def demo_store_def demo_ended_def)
qed

lemma demo_ended_fresh: "file_fresh (h, demo_plan 3) demo_ended"
  by (simp add: file_fresh_def demo_ended_def demo_plan_def new_fp_def)

text \<open>A termination is final for every process that shares the mission file: after a handle's \<open>terminate\<close> succeeded on a registered mission, whatever registrations, queries and terminations any handles run afterwards, with whatever failures, a later \<open>status\<close> on any handle, whatever its cache held, never answers with that mission still live: it answers with the tombstone, or with an entry that outlives it.\<close>

theorem termination_is_final:
  assumes "file_ok co s" and "file_fresh h s"
    and "mr_terminate (file_registry co path h) k now s = (Inr (), s1)"
    and "bm_get (file_view co s) k = Some e" and "me_expiry e \<le> u64_max"
    and "(reg_step (file_registry co path) file_fresh)\<^sup>*\<^sup>* (now, s1) (t, s2)"
    and "file_fresh h' s2" and "mr_status (file_registry co path h') k s2 = (Inr (Some e'), s3)"
  shows "me_terminated e' \<or> me_expiry e < me_expiry e'"
  by (rule durable.ended_stays_ended [OF assms])

theorem termination_is_final_witness:
  "(\<exists>s3. mr_status (file_registry demo_codec ''missions.json'' (1, demo_plan 3)) ''m'' demo_ended = (Inr (Some (demo_mission_entry True)), s3)) \<and>
   (me_terminated (demo_mission_entry True) \<or> me_expiry (demo_mission_entry False) < me_expiry (demo_mission_entry True))"
proof -
  let ?st = "mr_status (file_registry demo_codec ''missions.json'' (1, demo_plan 3)) ''m'' demo_ended"
  have "fst ?st = Inr (Some (demo_mission_entry True))" by code_simp
  then have s: "?st = (Inr (Some (demo_mission_entry True)), snd ?st)" by (simp add: prod_eq_iff)
  have "me_expiry (demo_mission_entry False) \<le> u64_max" by (simp add: demo_mission_entry_def)
  from termination_is_final [OF demo_store_ok(1,2) demo_terminates demo_store_ok(3) this rtranclp.rtrancl_refl demo_ended_fresh s] s
  show ?thesis by blast
qed

end
