(* ===== verification/Identity.thy ===== *)
theory Identity
  imports Missions Kernel Ledger
begin

text \<open>
  The identity layer: badges (\<open>decern-identity/src/lib.rs\<close>), token exchange
  (\<open>exchange.rs\<close>) and missions (\<open>mission.rs\<close>). A badge is a signed delegation grant;
  admitting one runs the kernel's load-time validation on the graph with the new agent in it. The
  base64url alphabet, serde and the mission blob's bytes are parameters beside those of the ledger;
  the Cedar engine is the kernel's.
\<close>

section \<open>Data\<close>

record jws_header =
  jh_alg :: string
  jh_typ :: string
  jh_kid :: string

record credential_schema =
  cs_id :: string
  cs_type :: string

record badge_subject =
  bs_id :: string
  bs_kind :: string
  bs_tenant :: string
  bs_scopes :: "string list"
  bs_delegator :: "string option"
  bs_expiry :: nat
  bs_aud :: "string option"

record badge =
  bg_context :: "string list"
  bg_id :: "string option"
  bg_types :: "string list"
  bg_issuer :: string
  bg_valid_from :: nat
  bg_valid_until :: nat
  bg_subject :: badge_subject
  bg_credential_schema :: "credential_schema list option"
  bg_mission :: "mission_ref option"

record mission =
  ms_approver :: string
  ms_agent :: string
  ms_approved_at :: nat
  ms_description :: string
  ms_approved_tools :: "string list"
  ms_capabilities :: "string list"
  ms_expiry :: nat

datatype mission_state = MActive | MTerminated

record approved_mission =
  am_mission :: mission
  am_state :: mission_state
  am_s256 :: string
  am_blob :: bytes

record exchange_request =
  xr_delegator_id :: string
  xr_sub_agent_id :: string
  xr_requested_scopes :: "string list"
  xr_requested_expiry :: nat
  xr_now :: nat
  xr_mission :: "mission_ref option"
  xr_aud :: "string option"

record exchanged =
  xd_token :: string
  xd_badge :: badge
  xd_model :: model

datatype malformed =
    NotThreeSegments | HeaderB64 | HeaderJson string | UnexpectedTyp string | SignatureB64
  | SignatureSize | PayloadB64 | PayloadJson string | NotAgentBadge | NotSerialized string

datatype subject_problem =
    OutlivesBadge nat nat
  | ExpiryTooLarge nat
  | NotAnAgent string
  | NoDelegator
  | ReservedNamespace string
  | MissionNotDelegators string string
  | DelegatorUnknown string
  | ApproverUnknown string
  | ApprovesItself string
  | ApproverRevoked string
  | ToolNotHeld string string
  | OutlivesApprover nat string nat
  | NotInFuture nat nat
  | AgentNotInTenant string string
  | MissionEnded
  | NoRegisteredApproval string
  | EndedInRegistry string
  | RegisteredApproverDiffers string string string
  | DiffersFromRegistered string

datatype identity_error =
    Malformed malformed
  | AlgRejected string
  | PubkeyMismatch
  | BadSignature
  | NotYetValid nat nat
  | Expired nat nat
  | SubjectInvalid subject_problem
  | AlreadyExists string
  | Admission "violation list"
  | EntitiesNotAnArray
  | ModelGraph "violation list"
  | ModelError kernel_error
  | Registry store_error

record id_ext =
  ix_base :: ext
  ix_b64u :: "bytes \<Rightarrow> string"
  ix_unb64u :: "string \<Rightarrow> bytes option"
  ix_header_json :: "jws_header \<Rightarrow> bytes"
  ix_parse_header :: "bytes \<Rightarrow> string + jws_header"
  ix_badge_json :: "badge \<Rightarrow> string + bytes"
  ix_parse_badge :: "bytes \<Rightarrow> string + badge"
  ix_mission_json :: "mission \<Rightarrow> string + bytes"

section \<open>Badges\<close>

definition jws_alg :: string where
  "jws_alg = ''EdDSA''"

definition jws_typ :: string where
  "jws_typ = ''vc+jwt''"

definition badge_type :: string where
  "badge_type = ''AgentBadge''"

definition key_hex :: "id_ext \<Rightarrow> bytes \<Rightarrow> string" where
  "key_hex ix key = x_hex (ix_base ix) key"

definition sign_compact :: "id_ext \<Rightarrow> string \<Rightarrow> string \<Rightarrow> bytes \<Rightarrow> bytes \<Rightarrow> string" where
  "sign_compact ix typ kid payload key =
     (let header = \<lparr>jh_alg = jws_alg, jh_typ = typ, jh_kid = kid\<rparr>;
          h64 = ix_b64u ix (ix_header_json ix header); p64 = ix_b64u ix payload;
          signing_input = h64 @ CHR ''.'' # p64; sig = x_sign (ix_base ix) key signing_input
      in signing_input @ CHR ''.'' # ix_b64u ix sig)"

definition issue :: "id_ext \<Rightarrow> badge \<Rightarrow> bytes \<Rightarrow> identity_error + string" where
  "issue ix b key =
     res_bind (map_err (\<lambda>e. Malformed (NotSerialized e)) (ix_badge_json ix b)) (\<lambda>payload.
     Inr (sign_compact ix jws_typ (key_hex ix (x_public (ix_base ix) key)) payload key))"

text \<open>\<open>str::trim\<close>: without the longest blank prefix and suffix.\<close>

fun trim_end :: "string \<Rightarrow> string" where
  "trim_end [] = []"
| "trim_end (c # s) = (if is_blank (c # s) then [] else c # trim_end s)"

definition trim_start :: "string \<Rightarrow> string" where
  "trim_start s = drop (last (filter (\<lambda>n. is_blank (take n s)) [0..<Suc (length s)])) s"

definition trim :: "string \<Rightarrow> string" where
  "trim s = trim_end (trim_start s)"

definition jws_segments :: "string \<Rightarrow> identity_error + (string \<times> string \<times> string)" where
  "jws_segments jws =
     (case split_on (CHR ''.'') (trim jws) of
        [h64, p64, s64] \<Rightarrow> Inr (h64, p64, s64)
      | _ \<Rightarrow> Inl (Malformed NotThreeSegments))"

definition jws_header_of :: "id_ext \<Rightarrow> string \<Rightarrow> identity_error + jws_header" where
  "jws_header_of ix h64 =
     res_bind (ok_or (ix_unb64u ix h64) (Malformed HeaderB64)) (\<lambda>header_bytes.
     res_bind (map_err (\<lambda>e. Malformed (HeaderJson e)) (ix_parse_header ix header_bytes)) (\<lambda>header.
     res_bind (res_guard (jh_alg header = jws_alg) (AlgRejected (jh_alg header))) (\<lambda>_.
     res_bind (res_guard (jh_typ header = jws_typ) (Malformed (UnexpectedTyp (jh_typ header)))) (\<lambda>_.
     Inr header))))"

definition badge_of :: "id_ext \<Rightarrow> string \<Rightarrow> identity_error + badge" where
  "badge_of ix p64 =
     res_bind (ok_or (ix_unb64u ix p64) (Malformed PayloadB64)) (\<lambda>payload_bytes.
     res_bind (map_err (\<lambda>e. Malformed (PayloadJson e)) (ix_parse_badge ix payload_bytes)) (\<lambda>b.
     res_bind (res_guard (badge_type \<in> set (bg_types b)) (Malformed NotAgentBadge)) (\<lambda>_.
     Inr b)))"

definition peek_unverified :: "id_ext \<Rightarrow> string \<Rightarrow> identity_error + (jws_header \<times> badge)" where
  "peek_unverified ix jws =
     res_bind (jws_segments jws) (\<lambda>(h64, p64, s64).
     res_bind (jws_header_of ix h64) (\<lambda>header.
     res_bind (badge_of ix p64) (\<lambda>b. Inr (header, b))))"

definition verify_signature :: "id_ext \<Rightarrow> string \<Rightarrow> bytes \<Rightarrow> identity_error + badge" where
  "verify_signature ix jws pinned =
     res_bind (jws_segments jws) (\<lambda>(h64, p64, s64).
     res_bind (jws_header_of ix h64) (\<lambda>header.
     res_bind (res_guard (jh_kid header = key_hex ix pinned) PubkeyMismatch) (\<lambda>_.
     res_bind (ok_or (ix_unb64u ix s64) (Malformed SignatureB64)) (\<lambda>sig.
     res_bind (res_guard (length sig = 64) (Malformed SignatureSize)) (\<lambda>_.
     res_bind (res_guard (x_verify (ix_base ix) pinned (h64 @ CHR ''.'' # p64) sig) BadSignature) (\<lambda>_.
     badge_of ix p64))))))"

definition verify_badge :: "id_ext \<Rightarrow> string \<Rightarrow> bytes \<Rightarrow> nat \<Rightarrow> identity_error + badge" where
  "verify_badge ix jws pinned now =
     res_bind (verify_signature ix jws pinned) (\<lambda>b.
     (let s = bg_subject b in
      res_bind (res_guard (bg_valid_from b \<le> now) (NotYetValid now (bg_valid_from b))) (\<lambda>_.
      res_bind (res_guard (now \<le> bg_valid_until b) (Expired now (bg_valid_until b))) (\<lambda>_.
      res_bind (res_guard (bs_expiry s \<le> bg_valid_until b) (SubjectInvalid (OutlivesBadge (bs_expiry s) (bg_valid_until b)))) (\<lambda>_.
      res_bind (res_guard (int (bs_expiry s) \<le> i64_max) (SubjectInvalid (ExpiryTooLarge (bs_expiry s)))) (\<lambda>_.
      Inr b))))))"

section \<open>Admission\<close>

definition named_principal :: "json \<Rightarrow> string \<Rightarrow> bool" where
  "named_principal u i \<longleftrightarrow> jget u ''type'' = Some (JString ''Principal'') \<and> jget u ''id'' = Some (JString i)"

text \<open>The \<open>json!\<close> literal; a serde map is ordered by key.\<close>

definition agent_entity :: "badge_subject \<Rightarrow> string \<Rightarrow> json" where
  "agent_entity s delegator =
     JObject [(''attrs'', JObject [
         (''delegator'', JObject [(''__entity'', JObject [(''id'', JString delegator), (''type'', JString ''Principal'')])]),
         (''expiry'', JNumber (PosInt (bs_expiry s))),
         (''kind'', JString (bs_kind s)),
         (''scopes'', JArray (map JString (bs_scopes s))),
         (''tenant'', JString (bs_tenant s))]),
       (''parents'', JArray []),
       (''uid'', JObject [(''id'', JString (bs_id s)), (''type'', JString ''Principal'')])]"

definition admit ::
  "('s, 'p, 'e, 'c, 'r) cedar \<Rightarrow> id_ext \<Rightarrow> model \<Rightarrow> string \<Rightarrow> bytes \<Rightarrow> nat \<Rightarrow> identity_error + (model \<times> badge)" where
  "admit cd ix model jws pinned now =
     res_bind (verify_badge ix jws pinned now) (\<lambda>b.
     (let s = bg_subject b in
      res_bind (res_guard (bs_kind s = ''Agent'') (SubjectInvalid (NotAnAgent (bs_kind s)))) (\<lambda>_.
      res_bind (ok_or (bs_delegator s) (SubjectInvalid NoDelegator)) (\<lambda>delegator.
      res_bind (ok_or (as_array (md_entities model)) EntitiesNotAnArray) (\<lambda>entities.
      res_bind (res_guard (\<not> list_ex (\<lambda>e. case jget e ''uid'' of Some u \<Rightarrow> named_principal u (bs_id s) | None \<Rightarrow> False) entities)
                  (AlreadyExists (bs_id s))) (\<lambda>_.
      (let new_model = model\<lparr>md_entities := JArray (entities @ [agent_entity s delegator])\<rparr> in
       case kernel_new cd new_model of
         Inr _ \<Rightarrow> Inr (new_model, b)
       | Inl (KGraph v) \<Rightarrow> Inl (Admission v)
       | Inl e \<Rightarrow> Inl (ModelError e))))))))"

section \<open>Exchange\<close>

definition reserved_subject_id_prefixes :: "string list" where
  "reserved_subject_id_prefixes = [''fed:'', ''id-jag:'', ''oauth:'', ''spiffe://'']"

definition starts_with :: "string \<Rightarrow> string \<Rightarrow> bool" where
  "starts_with p s \<longleftrightarrow> take (length p) s = p"

definition reserved_subject_id_prefix :: "string \<Rightarrow> string option" where
  "reserved_subject_id_prefix i = List.find (\<lambda>p. starts_with p i) reserved_subject_id_prefixes"

definition clamp_delegation :: "string list \<Rightarrow> nat \<Rightarrow> string list \<Rightarrow> nat \<Rightarrow> string list \<times> nat" where
  "clamp_delegation del_scopes del_expiry requested_scopes requested_expiry =
     (filter (\<lambda>s. s \<in> set del_scopes) requested_scopes, min requested_expiry del_expiry)"

fun find_map :: "('a \<Rightarrow> 'b option) \<Rightarrow> 'a list \<Rightarrow> 'b option" where
  "find_map f [] = None"
| "find_map f (x # xs) = (case f x of Some y \<Rightarrow> Some y | None \<Rightarrow> find_map f xs)"

definition principal_attrs :: "model \<Rightarrow> string \<Rightarrow> json option" where
  "principal_attrs model i =
     Option.bind (as_array (md_entities model)) (find_map (\<lambda>e.
       Option.bind (jget e ''uid'') (\<lambda>u. if named_principal u i then jget e ''attrs'' else None)))"

definition delegator_attrs :: "model \<Rightarrow> string \<Rightarrow> (string \<times> nat \<times> string list) option" where
  "delegator_attrs model i =
     Option.bind (principal_attrs model i) (\<lambda>attrs.
     Option.bind (jget_str attrs ''tenant'') (\<lambda>tenant.
     Option.bind (Option.bind (jget attrs ''expiry'') as_u64) (\<lambda>expiry.
     Option.bind (Option.bind (jget attrs ''scopes'') as_array) (\<lambda>scopes.
     Some (tenant, expiry, List.map_filter as_str scopes)))))"

definition exchange_badge :: "exchange_request \<Rightarrow> string \<Rightarrow> string list \<Rightarrow> nat \<Rightarrow> badge" where
  "exchange_badge req tenant scopes expiry =
     \<lparr>bg_context = [''https://www.w3.org/ns/credentials/v2''],
      bg_id = Some (''urn:decern:token:'' @ xr_sub_agent_id req),
      bg_types = [''VerifiableCredential'', badge_type], bg_issuer = ''did:decern:issuer'',
      bg_valid_from = xr_now req, bg_valid_until = expiry,
      bg_subject = \<lparr>bs_id = xr_sub_agent_id req, bs_kind = ''Agent'', bs_tenant = tenant, bs_scopes = scopes,
        bs_delegator = Some (xr_delegator_id req), bs_expiry = expiry, bs_aud = xr_aud req\<rparr>,
      bg_credential_schema = None, bg_mission = xr_mission req\<rparr>"

definition exchange ::
  "('s, 'p, 'e, 'c, 'r) cedar \<Rightarrow> id_ext \<Rightarrow> model \<Rightarrow> exchange_request \<Rightarrow> bytes \<Rightarrow> string list \<Rightarrow>
   identity_error + exchanged" where
  "exchange cd ix model req issuer_key allowed =
     res_bind (case reserved_subject_id_prefix (xr_sub_agent_id req) of
         Some p \<Rightarrow> res_guard (p \<in> set allowed) (SubjectInvalid (ReservedNamespace p))
       | None \<Rightarrow> Inr ()) (\<lambda>_.
     res_bind (case xr_mission req of
         Some m \<Rightarrow> res_guard (mr_approver m = xr_delegator_id req)
           (SubjectInvalid (MissionNotDelegators (mr_approver m) (xr_delegator_id req)))
       | None \<Rightarrow> Inr ()) (\<lambda>_.
     res_bind (ok_or (delegator_attrs model (xr_delegator_id req)) (SubjectInvalid (DelegatorUnknown (xr_delegator_id req))))
       (\<lambda>(tenant, del_expiry, del_scopes).
     (let (scopes, expiry) = clamp_delegation del_scopes del_expiry (xr_requested_scopes req) (xr_requested_expiry req);
          b = exchange_badge req tenant scopes expiry in
      res_bind (issue ix b issuer_key) (\<lambda>token.
      res_bind (admit cd ix model token (x_public (ix_base ix) issuer_key) (xr_now req)) (\<lambda>(new_model, verified).
      Inr \<lparr>xd_token = token, xd_badge = verified, xd_model = new_model\<rparr>))))))"

section \<open>Missions\<close>

text \<open>\<open>ApprovedMission::terminate\<close>: the handle flips first, whatever the registry answers.\<close>

definition end_mission ::
  "'g mission_registry option \<Rightarrow> approved_mission \<Rightarrow> nat \<Rightarrow> 'g \<Rightarrow> (identity_error + unit) \<times> 'g \<times> approved_mission" where
  "end_mission registry m now g =
     (let m' = m\<lparr>am_state := MTerminated\<rparr> in
      case registry of
        None \<Rightarrow> (Inr (), g, m')
      | Some reg \<Rightarrow>
          (case mr_terminate reg (am_s256 m) now g of
             (Inl e, g') \<Rightarrow> (Inl (Registry e), g', m')
           | (Inr _, g') \<Rightarrow> (Inr (), g', m')))"

text \<open>The checks of \<open>approve\<close> before it serializes.\<close>

definition approvable :: "model \<Rightarrow> mission \<Rightarrow> nat \<Rightarrow> identity_error + unit" where
  "approvable model m now =
     res_bind (ok_or (delegator_attrs model (ms_approver m)) (SubjectInvalid (ApproverUnknown (ms_approver m))))
       (\<lambda>(approver_tenant, expiry, scopes).
     res_bind (res_guard (ms_approver m \<noteq> ms_agent m) (SubjectInvalid (ApprovesItself (ms_approver m)))) (\<lambda>_.
     res_bind (map_err ModelGraph (parse (md_entities model))) (\<lambda>directory.
     res_bind (res_guard (\<not> revoked directory (ms_approver m)) (SubjectInvalid (ApproverRevoked (ms_approver m)))) (\<lambda>_.
     res_bind (case List.find (\<lambda>t. t \<notin> set scopes) (ms_approved_tools m) of
         Some t \<Rightarrow> Inl (SubjectInvalid (ToolNotHeld t (ms_approver m)))
       | None \<Rightarrow> Inr ()) (\<lambda>_.
     res_bind (res_guard (ms_expiry m \<le> expiry) (SubjectInvalid (OutlivesApprover (ms_expiry m) (ms_approver m) expiry))) (\<lambda>_.
     res_bind (res_guard (now < ms_expiry m) (SubjectInvalid (NotInFuture (ms_expiry m) now))) (\<lambda>_.
     res_guard (Option.bind (principal_attrs model (ms_agent m)) (\<lambda>a. jget_str a ''tenant'') = Some approver_tenant)
       (SubjectInvalid (AgentNotInTenant (ms_agent m) (ms_approver m))))))))))"

definition entry_of :: "mission \<Rightarrow> mission_entry" where
  "entry_of m = \<lparr>me_approver = ms_approver m, me_expiry = ms_expiry m, me_terminated = False,
     me_agent = ms_agent m, me_approved_tools = ms_approved_tools m\<rparr>"

definition approve ::
  "id_ext \<Rightarrow> model \<Rightarrow> mission \<Rightarrow> nat \<Rightarrow> 'g mission_registry option \<Rightarrow> ('g, identity_error, approved_mission) sres" where
  "approve ix model m now registry =
     s_bind (s_look (\<lambda>_. approvable model m now)) (\<lambda>_.
     s_bind (s_look (\<lambda>_. map_err (\<lambda>e. Malformed (NotSerialized e)) (ix_mission_json ix m))) (\<lambda>blob.
     (let s256 = ix_b64u ix (x_sha256 (ix_base ix) blob) in
      s_bind (case registry of
          Some reg \<Rightarrow> s_err Registry (mr_register reg s256 (entry_of m) now)
        | None \<Rightarrow> s_ret ()) (\<lambda>_.
      s_ret \<lparr>am_mission = m, am_state = MActive, am_s256 = s256, am_blob = blob\<rparr>))))"

text \<open>The registry's answer about a mission, when there is a registry.\<close>

definition registered :: "approved_mission \<Rightarrow> mission_entry option \<Rightarrow> identity_error + unit" where
  "registered m found =
     (case found of
        None \<Rightarrow> Inl (SubjectInvalid (NoRegisteredApproval (am_s256 m)))
      | Some entry \<Rightarrow>
          if me_terminated entry then Inl (SubjectInvalid (EndedInRegistry (am_s256 m)))
          else if me_approver entry \<noteq> ms_approver (am_mission m)
          then Inl (SubjectInvalid (RegisteredApproverDiffers (am_s256 m) (me_approver entry) (ms_approver (am_mission m))))
          else if me_approved_tools entry \<noteq> ms_approved_tools (am_mission m) \<or> me_expiry entry \<noteq> ms_expiry (am_mission m)
          then Inl (SubjectInvalid (DiffersFromRegistered (am_s256 m)))
          else Inr ())"

definition issue_under_mission ::
  "('s, 'p, 'e, 'c, 'r) cedar \<Rightarrow> id_ext \<Rightarrow> model \<Rightarrow> approved_mission \<Rightarrow> string \<Rightarrow> string list \<Rightarrow> nat \<Rightarrow> bytes \<Rightarrow>
   'g mission_registry option \<Rightarrow> ('g, identity_error, exchanged) sres" where
  "issue_under_mission cd ix model m sub_agent_id requested_scopes now issuer_key registry =
     s_bind (s_look (\<lambda>_. case reserved_subject_id_prefix sub_agent_id of
         Some p \<Rightarrow> Inl (SubjectInvalid (ReservedNamespace p)) | None \<Rightarrow> Inr ())) (\<lambda>_.
     s_bind (s_look (\<lambda>_. res_guard (am_state m = MActive) (SubjectInvalid MissionEnded))) (\<lambda>_.
     s_bind (case registry of
         Some reg \<Rightarrow> s_bind (s_err Registry (mr_status reg (am_s256 m))) (\<lambda>found. s_look (\<lambda>_. registered m found))
       | None \<Rightarrow> s_ret ()) (\<lambda>_.
     (let scoped = filter (\<lambda>s. s \<in> set (ms_approved_tools (am_mission m))) requested_scopes in
      s_look (\<lambda>_. exchange cd ix model
        \<lparr>xr_delegator_id = ms_approver (am_mission m), xr_sub_agent_id = sub_agent_id, xr_requested_scopes = scoped,
         xr_requested_expiry = ms_expiry (am_mission m), xr_now = now,
         xr_mission = Some \<lparr>mr_approver = ms_approver (am_mission m), mr_s256 = am_s256 m\<rparr>, xr_aud = None\<rparr>
        issuer_key [])))))"


section \<open>What the code relies on\<close>

definition plain :: "char \<Rightarrow> bool" where
  "plain c \<longleftrightarrow> 45 \<le> (of_char c :: nat) \<and> (of_char c :: nat) \<le> 122"

text \<open>base64url prints letters, digits, \<open>-\<close> and \<open>_\<close>, and reads back; so do serde's header and badge.\<close>

definition id_laws :: "id_ext \<Rightarrow> bool" where
  "id_laws ix \<longleftrightarrow>
     (\<forall>b. ix_unb64u ix (ix_b64u ix b) = Some b \<and> list_all (\<lambda>c. plain c \<and> c \<noteq> CHR ''.'') (ix_b64u ix b)) \<and>
     (\<forall>h. ix_parse_header ix (ix_header_json ix h) = Inr h) \<and>
     (\<forall>b p. ix_badge_json ix b = Inr p \<longrightarrow> ix_parse_badge ix p = Inr b)"

lemma not_blank_plain: "plain c \<Longrightarrow> \<not> is_blank (c # s)"
proof -
  assume "plain c"
  then have "c \<noteq> CHR 0x09" "c \<noteq> CHR 0x0A" "c \<noteq> CHR 0x0B" "c \<noteq> CHR 0x0C" "c \<noteq> CHR 0x0D" "c \<noteq> CHR '' ''"
      "c \<noteq> CHR 0xC2" "c \<noteq> CHR 0xE1" "c \<noteq> CHR 0xE2" "c \<noteq> CHR 0xE3"
    by (auto simp: plain_def)
  then show ?thesis by (simp split: list.split)
qed

lemma trim_end_plain: "list_all plain s \<Longrightarrow> trim_end s = s"
  by (induction s) (simp_all add: not_blank_plain del: is_blank.simps)

lemma trim_start_plain:
  assumes "list_all plain s"
  shows "trim_start s = s"
proof -
  have "\<not> is_blank (take n s)" if n: "n \<in> set [1..<Suc (length s)]" for n
  proof -
    from n have "0 < n" and "n \<le> length s" by auto
    then obtain c r n' where "s = c # r" "n = Suc n'" by (cases s; cases n) simp_all
    then show ?thesis using assms by (simp add: not_blank_plain del: is_blank.simps)
  qed
  then have "filter (\<lambda>n. is_blank (take n s)) [1..<Suc (length s)] = []" by (simp add: filter_empty_conv)
  then have "filter (\<lambda>n. is_blank (take n s)) [0..<Suc (length s)] = [0]"
    by (subst upt_conv_Cons) simp_all
  then show ?thesis by (simp add: trim_start_def)
qed

lemma jws_segments_signed:
  assumes "list_all (\<lambda>c. plain c \<and> c \<noteq> CHR ''.'') h" and "list_all (\<lambda>c. plain c \<and> c \<noteq> CHR ''.'') p"
    and "list_all (\<lambda>c. plain c \<and> c \<noteq> CHR ''.'') g"
  shows "jws_segments ((h @ CHR ''.'' # p) @ CHR ''.'' # g) = Inr (h, p, g)"
proof -
  have dot: "plain (CHR ''.'')" by (simp add: plain_def)
  have all: "list_all plain ((h @ CHR ''.'' # p) @ CHR ''.'' # g)" using assms dot by (auto simp: list_all_iff)
  have "CHR ''.'' \<notin> set h" "CHR ''.'' \<notin> set p" "CHR ''.'' \<notin> set g" using assms by (auto simp: list_all_iff)
  then have "split_on (CHR ''.'') ((h @ CHR ''.'' # p) @ CHR ''.'' # g) = [h, p, g]"
    by (simp add: split_on_at split_on_plain)
  then show ?thesis using all by (simp add: jws_segments_def trim_def trim_start_plain trim_end_plain)
qed

section \<open>Badges\<close>

lemma issued_badge_of:
  assumes "id_laws ix" and "issue ix b key = Inr jws" and "verify_signature ix jws pinned = Inr b'"
  shows "b' = b"
proof -
  from assms(2) obtain payload where p: "ix_badge_json ix b = Inr payload"
    "jws = sign_compact ix jws_typ (key_hex ix (x_public (ix_base ix) key)) payload key" by (auto simp: issue_def res_simps)
  have l: "list_all (\<lambda>c. plain c \<and> c \<noteq> CHR ''.'') (ix_b64u ix y)" "ix_unb64u ix (ix_b64u ix y) = Some y"
      "ix_parse_badge ix payload = Inr b" for y
    using assms(1) p(1) unfolding id_laws_def by blast+
  from assms(3) show ?thesis unfolding verify_signature_def p(2) sign_compact_def Let_def jws_segments_signed [OF l(1) l(1) l(1)]
    by (auto simp: res_simps badge_of_def l)
qed

lemma issue_verifies:
  assumes "id_laws ix" and "sig_law (ix_base ix)" and "badge_type \<in> set (bg_types b)" and "issue ix b key = Inr jws"
  shows "verify_signature ix jws (x_public (ix_base ix) key) = Inr b"
proof -
  from assms(4) obtain payload where p: "ix_badge_json ix b = Inr payload"
    "jws = sign_compact ix jws_typ (key_hex ix (x_public (ix_base ix) key)) payload key" by (auto simp: issue_def res_simps)
  have l: "list_all (\<lambda>c. plain c \<and> c \<noteq> CHR ''.'') (ix_b64u ix y)" "ix_unb64u ix (ix_b64u ix y) = Some y"
      "ix_parse_badge ix payload = Inr b" "ix_parse_header ix (ix_header_json ix h) = Inr h" for y h
    using assms(1) p(1) unfolding id_laws_def by blast+
  have s: "length (x_sign (ix_base ix) key y) = 64" "x_verify (ix_base ix) (x_public (ix_base ix) key) y (x_sign (ix_base ix) key y)" for y
    using assms(2) unfolding sig_law_def by blast+
  show ?thesis unfolding verify_signature_def p(2) sign_compact_def Let_def jws_segments_signed [OF l(1) l(1) l(1)]
    by (simp add: jws_header_of_def badge_of_def ok_or_def res_guard_def map_err_def l s assms(3))
qed

section \<open>Admission\<close>

lemma parse_entities_snoc:
  "parse_entities D i (es @ [e]) =
     (let (D1, vs) = parse_entities D i es; (D2, ws) = parse_entity D1 (i + length es) e in (D2, vs @ ws))"
  by (induction es arbitrary: D i) (auto simp: Let_def split: prod.splits)

lemma parse_snoc:
  assumes "parse (JArray (es @ [e])) = Inr D'"
  shows "\<exists>D. parse (JArray es) = Inr D \<and> parse_entity D (length es) e = (D', [])"
  using assms by (auto simp: parse_def as_array_def parse_entities_snoc Let_def split: prod.splits if_splits)

definition agent_rec :: "badge_subject \<Rightarrow> string \<Rightarrow> principal_rec" where
  "agent_rec s d = \<lparr>p_id = bs_id s, p_kind = bs_kind s, p_tenant = bs_tenant s, p_expiry = int (bs_expiry s),
     p_scopes = bs_of_list (bs_scopes s), p_delegator = Some d, p_org = None, p_roles = [], p_jurisdictions = [],
     p_revoked = False\<rparr>"

lemma map_filter_strings [simp]: "List.map_filter as_str (map JString xs) = xs"
  by (induction xs) (simp_all add: List.map_filter_simps as_str_def)

lemma parse_agent:
  assumes "parse_entity D n (agent_entity s d) = (D', [])" and "int (bs_expiry s) \<le> i64_max"
  shows "D' = D\<lparr>principals := bm_insert (bs_id s) (agent_rec s d) (principals D)\<rparr> \<and> bm_get (principals D) (bs_id s) = None"
  using assms
  by (auto simp: parse_entity_def agent_entity_def agent_rec_def parse_principal_def jget_def jget_str_def bm_get_def
      attr_entity_ref_def attr_str_def attr_set_def as_object_def as_str_def as_array_def as_i64_def Let_def
      split: if_splits)

lemma admit_load:
  "(case x of Inr _ \<Rightarrow> Inr y | Inl (KGraph v) \<Rightarrow> Inl (Admission v) | Inl e \<Rightarrow> Inl (ModelError e)) = Inr z \<longleftrightarrow>
     (\<exists>k. x = Inr k) \<and> y = z"
  by (cases x) (auto split: kernel_error.splits)

lemma as_array_Some: "as_array v = Some es \<longleftrightarrow> v = JArray es"
  by (cases v) (simp_all add: as_array_def)

lemma admit_Inr:
  assumes "admit cd ix model jws pinned now = Inr (new_model, b)"
  obtains es d k where "verify_badge ix jws pinned now = Inr b" "bs_kind (bg_subject b) = ''Agent''"
    "bs_delegator (bg_subject b) = Some d" "md_entities model = JArray es"
    "new_model = model\<lparr>md_entities := JArray (es @ [agent_entity (bg_subject b) d])\<rparr>" "kernel_new cd new_model = Inr k"
  using assms unfolding admit_def Let_def res_simps admit_load as_array_Some by (elim exE conjE) simp

text \<open>What an admitted badge adds to the graph.\<close>

lemma admitted_graph:
  assumes "admit cd ix model jws pinned now = Inr (new_model, b)"
  shows "\<exists>D d k. parse (md_entities model) = Inr D \<and> kernel_new cd new_model = Inr k \<and>
    bs_delegator (bg_subject b) = Some d \<and> bs_kind (bg_subject b) = ''Agent'' \<and>
    k_directory k = D\<lparr>principals := bm_insert (bs_id (bg_subject b)) (agent_rec (bg_subject b) d) (principals D)\<rparr> \<and>
    bm_get (principals D) (bs_id (bg_subject b)) = None \<and>
    (\<forall>a \<in> set (ancestors_of (k_directory k) (bs_id (bg_subject b))).
       \<exists>q. bm_get (principals D) a = Some q \<and> attenuated (agent_rec (bg_subject b) d) q)"
proof -
  from assms obtain es d k where a: "verify_badge ix jws pinned now = Inr b" "bs_kind (bg_subject b) = ''Agent''"
    "bs_delegator (bg_subject b) = Some d" "md_entities model = JArray es"
    "new_model = model\<lparr>md_entities := JArray (es @ [agent_entity (bg_subject b) d])\<rparr>" "kernel_new cd new_model = Inr k"
    by (rule admit_Inr)
  let ?s = "bg_subject b" and ?D' = "k_directory k"
  from kernel_new_Inr(1) [OF a(6)] a(5) have k: "parse (JArray (es @ [agent_entity ?s d])) = Inr ?D'" "validate ?D' = []" by simp_all
  from parse_snoc [OF k(1)] obtain D where D: "parse (JArray es) = Inr D" "parse_entity D (length es) (agent_entity ?s d) = (?D', [])" by blast
  from a(1) have "int (bs_expiry ?s) \<le> i64_max" by (auto simp: verify_badge_def Let_def res_simps)
  from parse_agent [OF D(2) this] have new: "?D' = D\<lparr>principals := bm_insert (bs_id ?s) (agent_rec ?s d) (principals D)\<rparr>"
    "bm_get (principals D) (bs_id ?s) = None" by simp_all
  have wf: "dir_wf ?D'" using k(1) by (rule parse_wf)
  with k(2) have ok: "graph_ok ?D'" by (simp add: validate_Nil)
  have "\<exists>q. bm_get (principals D) x = Some q \<and> attenuated (agent_rec ?s d) q" if "x \<in> set (ancestors_of ?D' (bs_id ?s))" for x
  proof -
    from that ok have e: "(bs_id ?s, x) \<in> (deleg.edge ?D')\<^sup>+" by (simp add: ancestors_acyclic graph_ok_acyclic)
    with graph_ok_acyclic [OF ok] have "x \<noteq> bs_id ?s" by (auto simp: acyclic_def)
    with graph_ok_chain [OF wf ok e] new(1) show ?thesis by auto
  qed
  moreover have "parse (md_entities model) = Inr D" using D(1) a(4) by simp
  ultimately show ?thesis using a(2,3,6) new by blast
qed

section \<open>Exchange\<close>

lemma exchange_Inr:
  assumes "exchange cd ix model req key allowed = Inr r"
  shows "\<forall>p. reserved_subject_id_prefix (xr_sub_agent_id req) = Some p \<longrightarrow> p \<in> set allowed"
    and "\<forall>m. xr_mission req = Some m \<longrightarrow> mr_approver m = xr_delegator_id req"
    and "\<exists>tenant e scopes. delegator_attrs model (xr_delegator_id req) = Some (tenant, e, scopes) \<and>
      issue ix (exchange_badge req tenant (filter (\<lambda>s. s \<in> set scopes) (xr_requested_scopes req))
       (min (xr_requested_expiry req) e)) key = Inr (xd_token r)"
    and "admit cd ix model (xd_token r) (x_public (ix_base ix) key) (xr_now req) = Inr (xd_model r, xd_badge r)"
  using assms by (auto simp: exchange_def clamp_delegation_def Let_def res_simps split: option.splits prod.splits)

lemma exchanged_badge:
  assumes "id_laws ix" and "exchange cd ix model req key allowed = Inr r"
  shows "\<exists>tenant scopes expiry. xd_badge r = exchange_badge req tenant scopes expiry \<and>
    set scopes \<subseteq> set (xr_requested_scopes req) \<and> expiry \<le> xr_requested_expiry req \<and> xr_now req \<le> expiry"
proof -
  from exchange_Inr(3) [OF assms(2)] obtain t e s where x: "issue ix (exchange_badge req t (filter (\<lambda>x. x \<in> set s) (xr_requested_scopes req))
       (min (xr_requested_expiry req) e)) key = Inr (xd_token r)"
    by blast
  from exchange_Inr(4) [OF assms(2)] have v: "verify_badge ix (xd_token r) (x_public (ix_base ix) key) (xr_now req) = Inr (xd_badge r)" by (rule admit_Inr)
  then obtain b where "verify_signature ix (xd_token r) (x_public (ix_base ix) key) = Inr b" "xd_badge r = b" "xr_now req \<le> bg_valid_until b"
    by (auto simp: verify_badge_def Let_def res_simps)
  with issued_badge_of [OF assms(1) x] show ?thesis by (force simp: exchange_badge_def)
qed

section \<open>Properties\<close>

definition demo_exchange_request :: exchange_request where
  "demo_exchange_request = \<lparr>xr_delegator_id = ''mid'', xr_sub_agent_id = ''bot'', xr_requested_scopes = [''a'', ''z''],
     xr_requested_expiry = 12, xr_now = 5, xr_mission = Some \<lparr>mr_approver = ''mid'', mr_s256 = ''m''\<rparr>, xr_aud = None\<rparr>"

definition demo_badge :: badge where
  "demo_badge = exchange_badge demo_exchange_request ''acme'' [''a''] 8"

definition demo_id :: id_ext where
  "demo_id = \<lparr>ix_base = demo_ext, ix_b64u = hex_encode, ix_unb64u = hex_decode,
     ix_header_json = (\<lambda>h. field (jh_alg h) @ field (jh_typ h) @ field (jh_kid h)),
     ix_parse_header = (\<lambda>s.
       case take_field s of None \<Rightarrow> Inl '''' | Some (a, s1) \<Rightarrow>
       (case take_field s1 of None \<Rightarrow> Inl '''' | Some (t, s2) \<Rightarrow>
       (case take_field s2 of None \<Rightarrow> Inl '''' | Some (k, _) \<Rightarrow> Inr \<lparr>jh_alg = a, jh_typ = t, jh_kid = k\<rparr>))),
     ix_badge_json = (\<lambda>b. if b = demo_badge then Inr ''b'' else Inl ''other''),
     ix_parse_badge = (\<lambda>p. if p = ''b'' then Inr demo_badge else Inl ''syntax''),
     ix_mission_json = (\<lambda>_. Inr ''m'')\<rparr>"

lemma demo_id_laws: "id_laws demo_id"
proof -
  have p: "plain c \<and> c \<noteq> CHR ''.''" if "c \<in> set (hex_encode b)" for b c
    using hex_char_code [OF hex_encode_chars [OF that]] by (auto simp: plain_def)
  have "take_field (field k) = Some (k, [])" for k using take_field_field [of k "[]"] by simp
  with p show ?thesis by (auto simp: id_laws_def demo_id_def list_all_iff split: if_splits)
qed

definition demo_token :: string where
  "demo_token = sign_compact demo_id jws_typ (key_hex demo_id ''k'') ''b'' ''k''"

definition demo_exchanged :: exchanged where
  "demo_exchanged = \<lparr>xd_token = demo_token, xd_badge = demo_badge,
     xd_model = demo_model\<lparr>md_entities := JArray (demo_es @ [agent_entity (bg_subject demo_badge) ''mid''])\<rparr>\<rparr>"

lemma demo_issue: "issue demo_id demo_badge ''k'' = Inr demo_token"
  by (simp add: issue_def demo_id_def demo_token_def demo_ext_def map_err_def)

lemma demo_verify_badge: "verify_badge demo_id demo_token ''k'' 5 = Inr demo_badge"
proof -
  have "sig_law (ix_base demo_id)" using demo_ext_ok by (simp add: demo_id_def ext_ok_def)
  moreover have "badge_type \<in> set (bg_types demo_badge)" by (simp add: demo_badge_def exchange_badge_def)
  moreover have "x_public (ix_base demo_id) ''k'' = ''k''" by (simp add: demo_id_def demo_ext_def)
  ultimately have "verify_signature demo_id demo_token ''k'' = Inr demo_badge"
    using issue_verifies [OF demo_id_laws _ _ demo_issue] by simp
  then show ?thesis by (simp add: verify_badge_def demo_badge_def exchange_badge_def demo_exchange_request_def res_guard_def)
qed

lemma demo_agent_loads: "\<exists>k. kernel_new demo_cedar (xd_model demo_exchanged) = Inr k \<and> ''root'' \<in> set (ancestors_of (k_directory k) ''bot'')"
proof -
  have "case kernel_new demo_cedar (xd_model demo_exchanged) of Inr k \<Rightarrow> ''root'' \<in> set (ancestors_of (k_directory k) ''bot'') | Inl _ \<Rightarrow> False"
    unfolding demo_exchanged_def exchanged.simps by code_simp
  then show ?thesis by (auto split: sum.splits)
qed

lemma demo_exchanges: "exchange demo_cedar demo_id demo_model demo_exchange_request ''k'' [] = Inr demo_exchanged"
proof -
  have a: "delegator_attrs demo_model ''mid'' = Some (''acme'', 8, [''a''])" "reserved_subject_id_prefix ''bot'' = None"
      "\<not> list_ex (\<lambda>e. case jget e ''uid'' of Some u \<Rightarrow> named_principal u ''bot'' | None \<Rightarrow> False) demo_es"
    by code_simp+
  have b: "bs_kind (bg_subject demo_badge) = ''Agent''" "bs_delegator (bg_subject demo_badge) = Some ''mid''"
      "bs_id (bg_subject demo_badge) = ''bot''" "as_array (md_entities demo_model) = Some demo_es"
      "exchange_badge demo_exchange_request ''acme'' [''a''] 8 = demo_badge" "x_public (ix_base demo_id) ''k'' = ''k''"
    by (simp_all add: demo_badge_def exchange_badge_def demo_exchange_request_def demo_model_def demo_entities_def as_array_def
        demo_id_def demo_ext_def)
  from demo_agent_loads obtain k where k: "kernel_new demo_cedar (xd_model demo_exchanged) = Inr k" by blast
  have "admit demo_cedar demo_id demo_model demo_token ''k'' 5 = Inr (xd_model demo_exchanged, demo_badge)"
    using a(3) [folded b(3)] b k by (simp add: admit_def Let_def demo_verify_badge res_guard_def ok_or_def demo_exchanged_def)
  moreover have "xr_delegator_id demo_exchange_request = ''mid''" "xr_sub_agent_id demo_exchange_request = ''bot''"
      "xr_now demo_exchange_request = 5" "xr_mission demo_exchange_request = Some \<lparr>mr_approver = ''mid'', mr_s256 = ''m''\<rparr>"
      "xr_requested_scopes demo_exchange_request = [''a'', ''z'']" "xr_requested_expiry demo_exchange_request = 12"
    by (simp_all add: demo_exchange_request_def)
  ultimately show ?thesis
    using a(1,2) b(5,6) by (simp add: exchange_def res_guard_def ok_or_def clamp_delegation_def demo_issue demo_exchanged_def)
qed

text \<open>C25: token exchange only ever attenuates: a successful exchange adds exactly one principal to the graph, an agent that was not there, delegated by the named delegator, with no scope that was not asked for and an expiry within the request; the extended model loads, and the new agent lies inside the tenant, expiry, scopes, roles and jurisdictions of every ancestor of its chain. A reserved subject namespace is minted only for a caller entitled to it, and a mission in the badge is the delegator's own.\<close>

theorem exchange_attenuates:
  assumes "id_laws ix" and "exchange cd ix model req key allowed = Inr r"
  shows "\<exists>D p k. parse (md_entities model) = Inr D \<and> kernel_new cd (xd_model r) = Inr k \<and>
    k_directory k = D\<lparr>principals := bm_insert (xr_sub_agent_id req) p (principals D)\<rparr> \<and>
    bm_get (principals D) (xr_sub_agent_id req) = None \<and>
    p_kind p = ''Agent'' \<and> p_delegator p = Some (xr_delegator_id req) \<and>
    set (p_scopes p) \<subseteq> set (xr_requested_scopes req) \<and> int (xr_now req) \<le> p_expiry p \<and> p_expiry p \<le> int (xr_requested_expiry req) \<and>
    (\<forall>a \<in> set (ancestors_of (k_directory k) (xr_sub_agent_id req)). \<exists>q. bm_get (principals D) a = Some q \<and> attenuated p q) \<and>
    (\<forall>x. reserved_subject_id_prefix (xr_sub_agent_id req) = Some x \<longrightarrow> x \<in> set allowed) \<and>
    (\<forall>m. bg_mission (xd_badge r) = Some m \<longrightarrow> mr_approver m = xr_delegator_id req)"
proof -
  note x = exchange_Inr [OF assms(2)]
  from exchanged_badge [OF assms] obtain t s e where b: "xd_badge r = exchange_badge req t s e"
    "set s \<subseteq> set (xr_requested_scopes req)" "e \<le> xr_requested_expiry req" "xr_now req \<le> e" by blast
  from admitted_graph [OF x(4)] obtain D d k where D: "parse (md_entities model) = Inr D" "kernel_new cd (xd_model r) = Inr k"
    "bs_delegator (bg_subject (xd_badge r)) = Some d"
    "k_directory k = D\<lparr>principals := bm_insert (bs_id (bg_subject (xd_badge r))) (agent_rec (bg_subject (xd_badge r)) d) (principals D)\<rparr>"
    "bm_get (principals D) (bs_id (bg_subject (xd_badge r))) = None"
    "\<forall>a \<in> set (ancestors_of (k_directory k) (bs_id (bg_subject (xd_badge r)))).
       \<exists>q. bm_get (principals D) a = Some q \<and> attenuated (agent_rec (bg_subject (xd_badge r)) d) q" by blast
  let ?p = "agent_rec (bg_subject (xd_badge r)) d"
  have s: "bs_id (bg_subject (xd_badge r)) = xr_sub_agent_id req" "bg_mission (xd_badge r) = xr_mission req"
    "p_kind ?p = ''Agent''" "p_delegator ?p = Some (xr_delegator_id req)" "set (p_scopes ?p) = set s" "p_expiry ?p = int e"
    using D(3) by (simp_all add: b(1) exchange_badge_def agent_rec_def)
  show ?thesis
    using D(1,2,4-6) x(1,2) b(2-4) s by (intro exI [of _ D] exI [of _ ?p] exI [of _ k]) simp
qed

theorem exchange_attenuates_witness:
  "\<exists>D p k. parse (md_entities demo_model) = Inr D \<and> kernel_new demo_cedar (xd_model demo_exchanged) = Inr k \<and>
    k_directory k = D\<lparr>principals := bm_insert ''bot'' p (principals D)\<rparr> \<and>
    p_delegator p = Some ''mid'' \<and> set (p_scopes p) \<subseteq> {''a'', ''z''} \<and> 5 \<le> p_expiry p \<and> p_expiry p \<le> 12 \<and>
    (\<exists>q. bm_get (principals D) ''root'' = Some q \<and> attenuated p q)"
proof -
  from exchange_attenuates [OF demo_id_laws demo_exchanges] obtain D p k where
    x: "parse (md_entities demo_model) = Inr D" "kernel_new demo_cedar (xd_model demo_exchanged) = Inr k"
      "k_directory k = D\<lparr>principals := bm_insert ''bot'' p (principals D)\<rparr>" "p_delegator p = Some ''mid''"
      "set (p_scopes p) \<subseteq> {''a'', ''z''}" "5 \<le> p_expiry p" "p_expiry p \<le> 12"
      "\<forall>a \<in> set (ancestors_of (k_directory k) ''bot''). \<exists>q. bm_get (principals D) a = Some q \<and> attenuated p q"
    by (auto simp: demo_exchange_request_def)
  with demo_agent_loads show ?thesis by auto
qed

text \<open>C26: a terminated mission mints no more tokens: once terminating it succeeded against the shared mission file, \<open>issue_under_mission\<close> fails in every process and at any later time, even with a copy of the mission's handle that is still active, whatever calls ran in between at times that never go back, and whether the registry answers, forgot the mission, or fails.\<close>

theorem terminated_mission_never_mints:
  assumes "file_ok co s" and "file_fresh h s" and "end_mission (Some (file_registry co path h)) m now s = (Inr (), s1, m1)"
    and "bm_get (file_view co s) (am_s256 m) = Some e" and "me_expiry e = ms_expiry (am_mission m)" and "me_expiry e \<le> u64_max"
    and "(reg_step (file_registry co path) file_fresh)\<^sup>*\<^sup>* (now, s1) (t, s2)"
    and "file_fresh h' s2" and "am_s256 m2 = am_s256 m" and "ms_expiry (am_mission m2) = ms_expiry (am_mission m)"
  shows "am_state m1 = MTerminated \<and>
    isl (fst (issue_under_mission cd ix model m2 sub scopes now' key (Some (file_registry co path h')) s2))"
proof -
  from assms(3) have trm: "mr_terminate (file_registry co path h) (am_s256 m) now s = (Inr (), s1)" "am_state m1 = MTerminated"
    by (auto simp: end_mission_def Let_def split: prod.splits sum.splits)
  obtain q s3 where st: "mr_status (file_registry co path h') (am_s256 m2) s2 = (q, s3)" by (rule prod.exhaust)
  have "isl (registered m2 found)" if "q = Inr found" for found
  proof (cases found)
    case (Some e')
    with durable.ended_stays_ended [OF assms(1,2) trm(1) assms(4,6,7,8)] st that assms(9)
    have "me_terminated e' \<or> me_expiry e < me_expiry e'" by auto
    with Some show ?thesis using assms(5,10) by (auto simp: registered_def)
  qed (simp add: registered_def)
  then show ?thesis using st trm(2)
    by (cases q) (auto simp: issue_under_mission_def s_bind_def s_look_def s_err_def split: prod.splits sum.splits option.splits)
qed

definition demo_mission :: approved_mission where
  "demo_mission = \<lparr>am_mission = \<lparr>ms_approver = ''alice'', ms_agent = ''bot'', ms_approved_at = 1, ms_description = '''',
       ms_approved_tools = [''read''], ms_capabilities = [], ms_expiry = 90\<rparr>,
     am_state = MActive, am_s256 = ''m'', am_blob = ''''\<rparr>"

theorem terminated_mission_never_mints_witness:
  "isl (fst (issue_under_mission demo_cedar demo_id demo_model demo_mission ''bot2'' [''read''] 7 ''k''
     (Some (file_registry demo_codec ''missions.json'' (1, demo_plan 3))) demo_ended))"
proof -
  have e: "end_mission (Some (file_registry demo_codec ''missions.json'' (0, demo_plan 2))) demo_mission 5 demo_store =
      (Inr (), demo_ended, demo_mission\<lparr>am_state := MTerminated\<rparr>)"
    using demo_terminates by (simp add: end_mission_def demo_mission_def)
  have "bm_get (file_view demo_codec demo_store) (am_s256 demo_mission) = Some (demo_mission_entry False)"
      "me_expiry (demo_mission_entry False) = ms_expiry (am_mission demo_mission)" "me_expiry (demo_mission_entry False) \<le> u64_max"
    using demo_store_ok(3) by (simp_all add: demo_mission_def demo_mission_entry_def)
  from terminated_mission_never_mints [OF demo_store_ok(1,2) e this rtranclp.rtrancl_refl demo_ended_fresh refl refl]
  show ?thesis by blast
qed

end
