(* ===== verification/Head_Store.thy ===== *)
theory Head_Store
  imports Store
begin

text \<open>
  The ledger head store, \<open>decern-store/src/head.rs\<close>: a cursor and the record lines of each shard,
  behind a critical section. A section runs under the shard's exclusive lock from its read to its
  last write, so it is one step of the store; the plan of a section gives each of its writes its own
  faults, so a crash after any of them is among its outcomes.

  The contract \<open>LedgerHeadStore\<close> is the locale \<open>shard_store\<close>; the memory and the file store are
  interpretations of it.
\<close>

section \<open>Data\<close>

record key_span =
  ks_kid :: string
  ks_first_seq :: nat

record shard_signers =
  sg_through :: nat
  sg_spans :: "key_span list"

record head_cursor =
  hc_next_seq :: nat
  hc_last_hash :: string
  hc_signers :: "shard_signers option"

record stored_record =
  sr_seq :: nat
  sr_record_json :: string

type_synonym shard_write = "(head_cursor \<times> string) option"

type_synonym shard_section = "head_cursor option \<Rightarrow> stored_record list \<Rightarrow> store_error + shard_write"

type_synonym seen = "head_cursor option \<times> stored_record list"

text \<open>The operations of the trait. A section that succeeds ran its callback once; the value is what
  the callback was given, from which a caller computes what the closure would have captured.\<close>

record 's head_store =
  hs_with_shard :: "string \<Rightarrow> shard_section \<Rightarrow> ('s, store_error, seen) sres"
  hs_with_shard_head :: "string \<Rightarrow> (head_cursor option \<Rightarrow> store_error + shard_write) \<Rightarrow> ('s, store_error, seen) sres"
  hs_list_shards :: "('s, store_error, string list) sres"

section \<open>In memory\<close>

record memory_shard =
  mh_cursor :: "head_cursor option"
  mh_records :: "stored_record list"
  mh_poisoned :: bool

record memory_heads =
  mhs_shards :: "(string, memory_shard) bmap"
  mhs_poisoned :: bool

definition new_memory_shard :: memory_shard where
  "new_memory_shard = \<lparr>mh_cursor = None, mh_records = [], mh_poisoned = False\<rparr>"

definition shard_lock :: "string \<Rightarrow> (memory_heads, store_error, memory_shard) sres" where
  "shard_lock shard s =
     (if mhs_poisoned s then (Inl (SInvalid Poisoned), s)
      else (let st = unwrap_or new_memory_shard (bm_get (mhs_shards s) shard)
            in (Inr st, s\<lparr>mhs_shards := bm_insert shard st (mhs_shards s)\<rparr>)))"

definition memory_with_shard :: "string \<Rightarrow> shard_section \<Rightarrow> (memory_heads, store_error, seen) sres" where
  "memory_with_shard shard f =
     s_bind (shard_lock shard) (\<lambda>st.
     s_bind (s_look (\<lambda>_. res_guard (\<not> mh_poisoned st) (SInvalid Poisoned))) (\<lambda>_.
     s_bind (s_look (\<lambda>_. f (mh_cursor st) (mh_records st))) (\<lambda>w s.
       (Inr (mh_cursor st, mh_records st),
        case w of
          None \<Rightarrow> s
        | Some (new_cursor, line) \<Rightarrow>
            s\<lparr>mhs_shards := bm_insert shard
               (st\<lparr>mh_records := mh_records st @ [\<lparr>sr_seq = hc_next_seq new_cursor - 1, sr_record_json = line\<rparr>],
                   mh_cursor := Some new_cursor\<rparr>) (mhs_shards s)\<rparr>))))"

definition memory_with_shard_head ::
  "string \<Rightarrow> (head_cursor option \<Rightarrow> store_error + shard_write) \<Rightarrow> (memory_heads, store_error, seen) sres" where
  "memory_with_shard_head shard f = memory_with_shard shard (\<lambda>cursor _. f cursor)"

definition memory_list_shards :: "(memory_heads, store_error, string list) sres" where
  "memory_list_shards s =
     (if mhs_poisoned s \<or> list_ex (\<lambda>(_, st). mh_poisoned st) (mhs_shards s) then (Inl (SInvalid Poisoned), s)
      else (Inr (map fst (filter (\<lambda>(_, st). mh_cursor st \<noteq> None) (mhs_shards s))), s))"

definition memory_store :: "memory_heads head_store" where
  "memory_store = \<lparr>hs_with_shard = memory_with_shard, hs_with_shard_head = memory_with_shard_head,
     hs_list_shards = memory_list_shards\<rparr>"

section \<open>Names of shard files\<close>

definition shard_to_hex :: "string \<Rightarrow> string" where
  "shard_to_hex shard = concat (map (\<lambda>b. [nibble (of_char b div 16), nibble (of_char b mod 16)]) shard)"

text \<open>\<open>char::to_digit(16)\<close>.\<close>

definition to_digit16 :: "char \<Rightarrow> nat option" where
  "to_digit16 c =
     (let n = of_char c :: nat in
      if 48 \<le> n \<and> n \<le> 57 then Some (n - 48)
      else if 97 \<le> n \<and> n \<le> 102 then Some (n - 87)
      else if 65 \<le> n \<and> n \<le> 70 then Some (n - 55) else None)"

fun hex_pairs :: "string \<Rightarrow> bytes option" where
  "hex_pairs (h # l # s) =
     (case (to_digit16 h, to_digit16 l) of
        (Some a, Some b) \<Rightarrow> map_option ((#) (char_of (a * 16 + b))) (hex_pairs s)
      | _ \<Rightarrow> None)"
| "hex_pairs _ = Some []"

definition shard_from_hex :: "string \<Rightarrow> store_error + string" where
  "shard_from_hex stem =
     (if odd (length stem) then Inl (SInvalid (OddHex stem))
      else case hex_pairs stem of
        None \<Rightarrow> Inl (SInvalid (NotHex stem))
      | Some b \<Rightarrow> if utf8_ok b then Inr b else Inl (SInvalid (StemNotUtf8 stem)))"

record shard_files =
  shf_shard_file :: string
  shf_head :: string
  shf_log :: string

definition shard_files_of :: "string \<Rightarrow> string \<Rightarrow> store_error + shard_files" where
  "shard_files_of root shard =
     (if shard = [] then Inl (SInvalid EmptyShard)
      else (let stem = join root (shard_to_hex shard) in
        Inr \<lparr>shf_shard_file = with_extension stem ''shard'', shf_head = with_extension stem ''head'',
             shf_log = with_extension stem ''log''\<rparr>))"

section \<open>Reading a shard\<close>

record legacy_shard =
  lg_cursor :: "head_cursor option"
  lg_records :: "stored_record list"

record file_head =
  fh_cursor :: "head_cursor option"
  fh_log_len :: nat

definition empty_head :: file_head where
  "empty_head = \<lparr>fh_cursor = None, fh_log_len = 0\<rparr>"

datatype beside = Missing | Marker | Earlier legacy_shard

text \<open>serde on the store's files; \<open>hx_moved\<close> is the printed marker.\<close>

record head_ext =
  hx_value :: "bytes \<Rightarrow> string + json"
  hx_legacy :: "bytes \<Rightarrow> string + legacy_shard"
  hx_head :: "bytes \<Rightarrow> string + file_head"
  hx_print_head :: "file_head \<Rightarrow> string + bytes"
  hx_moved :: bytes

definition read_if_present :: "io \<Rightarrow> disk \<Rightarrow> string \<Rightarrow> store_error + bytes option" where
  "read_if_present io d path = map_err io_error (read_opt io d path)"

definition is_marker :: "head_ext \<Rightarrow> bytes \<Rightarrow> bool" where
  "is_marker hx b =
     (case hx_value hx b of
        Inr v \<Rightarrow> (case jget v ''records'' of Some (JString _) \<Rightarrow> True | _ \<Rightarrow> False)
      | Inl _ \<Rightarrow> False)"

definition read_beside :: "head_ext \<Rightarrow> io \<Rightarrow> disk \<Rightarrow> string \<Rightarrow> store_error + beside" where
  "read_beside hx io d path =
     res_bind (read_if_present io d path) (\<lambda>file.
       case file of
         None \<Rightarrow> Inr Missing
       | Some b \<Rightarrow>
           if is_marker hx b then Inr Marker
           else res_bind (map_err (\<lambda>e. SSerde (''shard file '' @ path @ '': '' @ e)) (hx_legacy hx b)) (\<lambda>state.
             if lg_cursor state = None \<and> lg_records state \<noteq> []
             then Inl (SInvalid (RecordsNoCursor path (length (lg_records state))))
             else Inr (Earlier state)))"

definition read_head :: "head_ext \<Rightarrow> io \<Rightarrow> disk \<Rightarrow> string \<Rightarrow> store_error + file_head option" where
  "read_head hx io d path =
     res_bind (read_if_present io d path) (\<lambda>file.
       case file of
         None \<Rightarrow> Inr None
       | Some b \<Rightarrow> res_map Some (map_err (\<lambda>e. SSerde (''shard head '' @ path @ '': '' @ e)) (hx_head hx b)))"

text \<open>\<open>str::split_terminator\<close> on the newline.\<close>

definition split_terminator :: "string \<Rightarrow> string list" where
  "split_terminator s = (let parts = split_on nl s in if last parts = [] then butlast parts else parts)"

definition number_records :: "string list \<Rightarrow> stored_record list" where
  "number_records ls = map (\<lambda>(i, l). \<lparr>sr_seq = i, sr_record_json = l\<rparr>) (enumerate 0 ls)"

definition read_log :: "io \<Rightarrow> disk \<Rightarrow> string \<Rightarrow> file_head \<Rightarrow> store_error + stored_record list" where
  "read_log io d path head =
     res_bind (read_if_present io d path) (\<lambda>file.
     (let bytes = unwrap_or [] file; committed = fh_log_len head in
      res_bind (res_guard (committed \<le> length bytes) (SInvalid (ShortLog path (length bytes) committed))) (\<lambda>_.
      (let text = take committed bytes in
       res_bind (res_guard (utf8_ok text) (SInvalid (LogNotUtf8 path))) (\<lambda>_.
       (let records = number_records (split_terminator text);
            named = (case fh_cursor head of None \<Rightarrow> 0 | Some c \<Rightarrow> hc_next_seq c) in
        res_bind (res_guard (\<not> (committed > 0 \<and> last text \<noteq> nl \<or> length records \<noteq> named))
                    (SInvalid (LogCount path (length records) named))) (\<lambda>_.
        Inr records)))))))"

text \<open>\<open>refuse_orphan_log\<close>: the length of the log is read as the log is.\<close>

definition refuse_orphan_log :: "io \<Rightarrow> disk \<Rightarrow> shard_files \<Rightarrow> beside \<Rightarrow> store_error + unit" where
  "refuse_orphan_log io d files beside =
     (if (case beside of Earlier l \<Rightarrow> lg_cursor l \<noteq> None | _ \<Rightarrow> False) then Inr ()
      else res_bind (read_if_present io d (shf_log files)) (\<lambda>file.
        case file of
          None \<Rightarrow> Inr ()
        | Some b \<Rightarrow> res_guard (b = []) (SInvalid (OrphanLog (shf_log files)))))"

definition refuse_unless_prefix ::
  "io \<Rightarrow> disk \<Rightarrow> shard_files \<Rightarrow> file_head \<Rightarrow> legacy_shard \<Rightarrow> store_error + unit" where
  "refuse_unless_prefix io d files head old =
     res_bind (read_log io d (shf_log files) head) (\<lambda>log.
     res_guard (length (lg_records old) \<le> length log \<and>
         list_all (\<lambda>(a, b). sr_record_json a = sr_record_json b) (zip (lg_records old) log))
       (SInvalid (EarlierWrote (shf_shard_file files))))"

record loaded =
  ld_head :: "file_head option"
  ld_beside :: beside
  ld_records :: "stored_record list"

definition ld_cursor :: "loaded \<Rightarrow> head_cursor option" where
  "ld_cursor ld =
     (case (ld_head ld, ld_beside ld) of
        (Some h, _) \<Rightarrow> fh_cursor h
      | (None, Earlier l) \<Rightarrow> lg_cursor l
      | (None, _) \<Rightarrow> None)"

definition load :: "head_ext \<Rightarrow> io \<Rightarrow> disk \<Rightarrow> shard_files \<Rightarrow> bool \<Rightarrow> store_error + loaded" where
  "load hx io d files history =
     res_bind (read_beside hx io d (shf_shard_file files)) (\<lambda>beside.
     res_bind (read_head hx io d (shf_head files)) (\<lambda>head.
     res_bind
       (case head of
          Some h \<Rightarrow>
            res_bind (case beside of Earlier old \<Rightarrow> refuse_unless_prefix io d files h old | _ \<Rightarrow> Inr ()) (\<lambda>_.
            if history then read_log io d (shf_log files) h else Inr [])
        | None \<Rightarrow>
            res_bind (refuse_orphan_log io d files beside) (\<lambda>_.
            Inr (case beside of Earlier old \<Rightarrow> if history then lg_records old else [] | _ \<Rightarrow> []))) (\<lambda>records.
     Inr \<lparr>ld_head = head, ld_beside = beside, ld_records = records\<rparr>)))"

section \<open>Writing a shard\<close>

type_synonym 'a hdk = "(disk, store_error, 'a) sres"

definition h_step :: "io \<Rightarrow> io_op \<Rightarrow> string \<Rightarrow> unit hdk" where
  "h_step io op path = s_err io_error (io_step io op path)"

text \<open>\<open>atomic_write_json\<close> of printed bytes.\<close>

definition write_store :: "io \<Rightarrow> string \<Rightarrow> bytes \<Rightarrow> unit hdk" where
  "write_store io path b = s_err (\<lambda>a. io_error (atomic_err a)) (write_atomic io path (with_extension path ''tmp'') b)"

definition write_head :: "head_ext \<Rightarrow> io \<Rightarrow> string \<Rightarrow> file_head \<Rightarrow> unit hdk" where
  "write_head hx io path h = (case hx_print_head hx h of Inl e \<Rightarrow> s_fail (SSerde e) | Inr b \<Rightarrow> write_store io path b)"

definition h_upd :: "(disk \<Rightarrow> disk) \<Rightarrow> unit hdk" where
  "h_upd f d = (Inr (), f d)"

text \<open>Write at the end of a file, \<open>done\<close> bytes into the call; a plan that fails the write fails it
  once \<open>io_cut\<close> bytes are written.\<close>

definition append_bytes :: "io \<Rightarrow> string \<Rightarrow> nat \<Rightarrow> bytes \<Rightarrow> unit hdk" where
  "append_bytes io path written b d =
     (let old = unwrap_or [] (file_at d path) in
      case io_fault io (WriteAll path) of
        None \<Rightarrow> (Inr (), put_file path (old @ b) d)
      | Some e \<Rightarrow>
          if written + length b \<le> io_cut io then (Inr (), put_file path (old @ b) d)
          else (Inl (SIo path e), put_file path (old @ take (io_cut io - written) b) d))"

fun append_lines :: "io \<Rightarrow> string \<Rightarrow> nat \<Rightarrow> string list \<Rightarrow> nat hdk" where
  "append_lines io path written [] = s_ret written"
| "append_lines io path written (line # ls) =
     (if nl \<in> set line then s_fail (SInvalid NotOneLine)
      else s_bind (append_bytes io path written (line @ [nl])) (\<lambda>_.
        append_lines io path (written + length line + 1) ls))"

definition append_log :: "io \<Rightarrow> string \<Rightarrow> nat \<Rightarrow> string list \<Rightarrow> nat hdk" where
  "append_log io path committed lines =
     s_bind (h_step io (OpenWrite path) path) (\<lambda>_.
     s_bind (h_upd (\<lambda>d. if file_at d path = None then put_file path [] d else d)) (\<lambda>_.
     s_bind (h_step io (ReadFile path) path) (\<lambda>_.
     s_bind (s_look (\<lambda>d. Inr (unwrap_or [] (file_at d path)))) (\<lambda>bytes.
     s_bind (s_look (\<lambda>_. res_guard (committed \<le> length bytes) (SInvalid (ShortLog path (length bytes) committed)))) (\<lambda>_.
     s_bind (s_look (\<lambda>_. res_guard (committed = 0 \<or> bytes ! (committed - 1) = nl) (SInvalid (NotRecordEnd path committed)))) (\<lambda>_.
     s_bind (if length bytes > committed
             then s_bind (h_step io (SetLen path) path) (\<lambda>_. h_upd (put_file path (take committed bytes)))
             else s_ret ()) (\<lambda>_.
     s_bind (append_lines io path 0 lines) (\<lambda>n.
     s_bind (h_step io (SyncAll path) path) (\<lambda>_.
     s_ret (committed + n))))))))))"

text \<open>The stages of a section, each with its own plan.\<close>

type_synonym stages = "nat \<Rightarrow> io"

definition commit :: "head_ext \<Rightarrow> stages \<Rightarrow> shard_files \<Rightarrow> loaded \<Rightarrow> head_cursor \<Rightarrow> string \<Rightarrow> unit hdk" where
  "commit hx pl files ld new_cursor record_json =
     (let mark = (if ld_beside ld = Marker then s_ret () else write_store (pl 1) (shf_shard_file files) (hx_moved hx)) in
      s_bind
        (case (ld_head ld, ld_beside ld) of
           (Some h, _) \<Rightarrow> s_bind mark (\<lambda>_. s_ret (fh_log_len h, [], False))
         | (None, Earlier old) \<Rightarrow>
             if lg_cursor old \<noteq> None then s_ret (0, map sr_record_json (lg_records old), True)
             else s_bind mark (\<lambda>_. s_bind (write_head hx (pl 2) (shf_head files) empty_head) (\<lambda>_. s_ret (0, [], False)))
         | (None, _) \<Rightarrow>
             s_bind mark (\<lambda>_. s_bind (write_head hx (pl 2) (shf_head files) empty_head) (\<lambda>_. s_ret (0, [], False))))
        (\<lambda>(committed, lines, converting).
      s_bind (append_log (pl 3) (shf_log files) committed (lines @ [record_json])) (\<lambda>log_len.
      s_bind (write_head hx (pl 4) (shf_head files) \<lparr>fh_cursor = Some new_cursor, fh_log_len = log_len\<rparr>) (\<lambda>_.
      if converting then write_store (pl 5) (shf_shard_file files) (hx_moved hx) else s_ret ()))))"

definition with_shard_lock :: "io \<Rightarrow> string \<Rightarrow> 'a hdk \<Rightarrow> 'a hdk" where
  "with_shard_lock io path f =
     (let lock = with_extension path ''lock'' in
      s_bind (h_step io (OpenWrite lock) lock) (\<lambda>_.
      s_bind (h_upd (\<lambda>d. if file_at d lock = None then put_file lock [] d else d)) (\<lambda>_.
      s_bind (h_step io (TryLock lock) lock) (\<lambda>_. f))))"

definition file_section :: "head_ext \<Rightarrow> stages \<Rightarrow> string \<Rightarrow> string \<Rightarrow> bool \<Rightarrow> shard_section \<Rightarrow> seen hdk" where
  "file_section hx pl root shard history f =
     s_bind (s_look (\<lambda>_. shard_files_of root shard)) (\<lambda>files.
     with_shard_lock (pl 0) (shf_shard_file files)
       (s_bind (s_look (\<lambda>d. load hx (pl 0) d files history)) (\<lambda>ld.
        s_bind (s_look (\<lambda>_. f (ld_cursor ld) (ld_records ld))) (\<lambda>w.
        s_bind (case w of
            Some (new_cursor, record_json) \<Rightarrow> commit hx pl files ld new_cursor record_json
          | None \<Rightarrow> s_ret ()) (\<lambda>_.
        s_ret (ld_cursor ld, ld_records ld))))))"

section \<open>Listing\<close>

definition strip_suffix :: "string \<Rightarrow> string \<Rightarrow> string option" where
  "strip_suffix suf s = (if length suf \<le> length s \<and> drop (length s - length suf) s = suf then Some (take (length s - length suf) s) else None)"

definition head_listed :: "head_ext \<Rightarrow> io \<Rightarrow> disk \<Rightarrow> shard_files \<Rightarrow> store_error + bool" where
  "head_listed hx io d files =
     res_map (\<lambda>h. case h of None \<Rightarrow> False | Some fh \<Rightarrow> fh_cursor fh \<noteq> None) (read_head hx io d (shf_head files))"

datatype data_file = HeadFile | ShardFile | LogFile

definition data_file_of :: "string \<Rightarrow> (string \<times> data_file) option" where
  "data_file_of name =
     (case strip_suffix ''.head'' name of
        Some stem \<Rightarrow> Some (stem, HeadFile)
      | None \<Rightarrow>
     (case strip_suffix ''.shard'' name of
        Some stem \<Rightarrow> Some (stem, ShardFile)
      | None \<Rightarrow>
     (case strip_suffix ''.log'' name of
        Some stem \<Rightarrow> Some (stem, LogFile)
      | None \<Rightarrow> None)))"

text \<open>Whether a name lists its shard, by what the shard's files hold.\<close>

definition lists_shard :: "head_ext \<Rightarrow> io \<Rightarrow> disk \<Rightarrow> shard_files \<Rightarrow> data_file \<Rightarrow> store_error + bool" where
  "lists_shard hx io d files kind =
     (case kind of
        HeadFile \<Rightarrow> head_listed hx io d files
      | ShardFile \<Rightarrow>
          res_bind (head_listed hx io d files) (\<lambda>listed.
          if listed then Inr True
          else res_bind (read_beside hx io d (shf_shard_file files)) (\<lambda>beside.
            case beside of
              Earlier l \<Rightarrow> Inr (lg_cursor l \<noteq> None)
            | Marker \<Rightarrow> head_listed hx io d files
            | Missing \<Rightarrow> Inr False))
      | LogFile \<Rightarrow>
          if path_exists d (shf_head files) then head_listed hx io d files
          else res_bind (read_beside hx io d (shf_shard_file files)) (\<lambda>beside.
            if beside = Marker \<and> path_exists d (shf_head files) then head_listed hx io d files
            else res_bind (refuse_orphan_log io d files beside) (\<lambda>_.
              Inr (case beside of Earlier l \<Rightarrow> lg_cursor l \<noteq> None | _ \<Rightarrow> False))))"

fun list_loop :: "head_ext \<Rightarrow> io \<Rightarrow> disk \<Rightarrow> string \<Rightarrow> string list \<Rightarrow> string list \<Rightarrow> store_error + string list" where
  "list_loop hx io d root out [] = Inr out"
| "list_loop hx io d root out (name # names) =
     (case data_file_of name of
        None \<Rightarrow> list_loop hx io d root out names
      | Some (stem, kind) \<Rightarrow>
          res_bind (shard_from_hex stem) (\<lambda>shard.
          res_bind (shard_files_of root shard) (\<lambda>files.
          res_bind (lists_shard hx io d files kind) (\<lambda>listed.
          list_loop hx io d root (if listed then shard # out else out) names))))"

definition list_named :: "head_ext \<Rightarrow> io \<Rightarrow> disk \<Rightarrow> string \<Rightarrow> string list \<Rightarrow> store_error + string list" where
  "list_named hx io d root names = res_map bs_of_list (list_loop hx io d root [] names)"

definition file_list_shards :: "head_ext \<Rightarrow> io \<Rightarrow> string \<Rightarrow> string list hdk" where
  "file_list_shards hx io root =
     s_look (\<lambda>d. if \<not> is_dir d root \<and> io_fault io (ReadDir root) = None then Inr []
       else res_bind (map_err io_error (read_dir io d root)) (list_named hx io d root))"

definition file_store :: "head_ext \<Rightarrow> string \<Rightarrow> stages \<Rightarrow> disk head_store" where
  "file_store hx root pl = \<lparr>
     hs_with_shard = (\<lambda>shard f. file_section hx pl root shard True f),
     hs_with_shard_head = (\<lambda>shard f. file_section hx pl root shard False (\<lambda>cursor _. f cursor)),
     hs_list_shards = file_list_shards hx (pl 0) root\<rparr>"

end
