(* ===== verification/Head_Commit.thy ===== *)
theory Head_Commit
  imports Head_Store
begin

text \<open>
  What the head store promises. The three files of a shard are read as an abstract shard, a cursor
  and the lines it counts; a commit, whatever fails in it, leaves the shard as it was or with its
  record, in every layout a shard can be in: new, current, or kept by an earlier release. The
  contract is the locale \<open>shard_store\<close>, interpreted for both stores.
\<close>

section \<open>Lines of a log\<close>

lemma split_on_nonempty [simp]: "split_on d s \<noteq> []"
  by (cases s) (auto split: list.splits)

lemma split_on_append: "split_on d (a @ d # b) = split_on d a @ split_on d b"
proof (induction a)
  case (Cons c a)
  then show ?case by (cases "split_on d a") auto
qed simp

lemma split_terminator_Nil [simp]: "split_terminator [] = []"
  by (simp add: split_terminator_def)

lemma split_terminator_nl: "split_terminator (a @ [nl]) = split_on nl a"
  using split_on_append [of nl a "[]"] by (simp add: split_terminator_def)

lemma split_terminator_snoc:
  assumes "ends_nl a" and "nl \<notin> set l"
  shows "split_terminator (a @ l @ [nl]) = split_terminator a @ [l]"
proof (cases "a = []")
  case False
  with assms(1) obtain a' where a: "a = a' @ [nl]" unfolding ends_nl_def by (metis append_butlast_last_id)
  have "split_terminator ((a' @ nl # l) @ [nl]) = split_on nl (a' @ nl # l)" by (rule split_terminator_nl)
  with assms(2) show ?thesis by (simp add: a split_on_append split_on_plain split_terminator_nl)
qed (simp add: split_terminator_nl split_on_plain assms(2))

abbreviation log_text :: "string list \<Rightarrow> bytes" where
  "log_text ls \<equiv> concat (map (\<lambda>l. l @ [nl]) ls)"

lemma ends_nl_log_text [simp]: "ends_nl (log_text ls)"
  by (induction ls rule: rev_induct) (auto simp: ends_nl_def)

lemma split_terminator_log_text: "\<forall>l \<in> set ls. nl \<notin> set l \<Longrightarrow> split_terminator (log_text ls) = ls"
  by (induction ls rule: rev_induct) (simp_all add: split_terminator_snoc)

lemma cont_byte_append: "cont_byte a i \<Longrightarrow> cont_byte (a @ b) i"
  by (simp add: cont_byte_def nth_append)

lemma second_byte_append: "second_byte a lo hi \<Longrightarrow> second_byte (a @ b) lo hi"
  by (simp add: second_byte_def nth_append)

lemma utf8_width_append: "utf8_width a \<noteq> 0 \<Longrightarrow> a \<noteq> [] \<Longrightarrow> utf8_width (a @ b) = utf8_width a"
  unfolding utf8_width_def Let_def
  by (split if_split_asm, simp, split if_split_asm, split if_split_asm, simp add: cont_byte_append, simp,
      split if_split_asm, split if_split_asm, simp add: cont_byte_append second_byte_append, simp,
      split if_split_asm, split if_split_asm, simp add: cont_byte_append second_byte_append, simp, simp)

lemma utf8_width_le:
  assumes "a \<noteq> []"
  shows "utf8_width a \<le> length a"
proof -
  have "1 \<le> length a" using assms by (cases a) simp_all
  moreover have "cont_byte a i \<Longrightarrow> Suc i \<le> length a" for i by (simp add: cont_byte_def)
  from this [of 1] this [of 2] this [of 3] have "cont_byte a 1 \<Longrightarrow> 2 \<le> length a" "cont_byte a 2 \<Longrightarrow> 3 \<le> length a"
    "cont_byte a 3 \<Longrightarrow> 4 \<le> length a" by simp_all
  ultimately show ?thesis by (simp add: utf8_width_def Let_def)
qed

lemma utf8_codes_append: "utf8_codes a \<Longrightarrow> utf8_codes b \<Longrightarrow> utf8_codes (a @ b)"
proof (induction a rule: utf8_codes.induct)
  case (1 a)
  show ?case
  proof (cases "a = []")
    case False
    with 1(2) have w: "utf8_width a \<noteq> 0" "utf8_codes (drop (utf8_width a) a)"
      by (subst (asm) utf8_codes.simps, simp add: Let_def split: if_splits)+
    with False 1 have "utf8_codes (drop (utf8_width a) a @ b)" by simp
    with False w utf8_width_le [of a] show ?thesis
      by (subst utf8_codes.simps) (simp add: Let_def utf8_width_append)
  qed (use 1 in simp)
qed

lemma utf8_append: "utf8_ok a \<Longrightarrow> utf8_ok b \<Longrightarrow> utf8_ok (a @ b)"
  by (simp add: utf8_ok_def utf8_codes_append)

lemma utf8_Nil [simp]: "utf8_ok []"
  by (simp add: utf8_ok_def utf8_codes.simps)

lemma utf8_nl [simp]: "utf8_ok [nl]"
  by (simp add: utf8_ascii nl_def)

lemma utf8_log_text: "\<forall>l \<in> set ls. utf8_ok l \<Longrightarrow> utf8_ok (log_text ls)"
proof (induction ls)
  case (Cons l ls)
  then have "utf8_ok ((l @ [nl]) @ log_text ls)" by (intro utf8_append) simp_all
  then show ?case by simp
qed simp

lemma json_number_records [simp]: "map sr_record_json (number_records ls) = ls" "length (number_records ls) = length ls"
  by (simp_all add: number_records_def case_prod_unfold comp_def)

section \<open>Paths\<close>

lemma shard_to_hex_encode: "shard_to_hex s = hex_encode s"
  by (induction s) (simp_all add: shard_to_hex_def)

lemma hex_plain: "CHR ''/'' \<notin> set (shard_to_hex s)" "CHR ''.'' \<notin> set (shard_to_hex s)"
  using hex_encode_chars [of "CHR ''/''" s] hex_encode_chars [of "CHR ''.''" s] hex_char_code [of "CHR ''/''"]
    hex_char_code [of "CHR ''.''"] by (auto simp: shard_to_hex_encode)

lemma shard_to_hex_inj: "shard_to_hex s = shard_to_hex t \<longleftrightarrow> s = t"
  by (metis hex_decode_encode option.inject shard_to_hex_encode)

lemma shard_to_hex_Nil [simp]: "shard_to_hex s = [] \<longleftrightarrow> s = []"
  using shard_to_hex_inj [of s "[]"] by (simp add: shard_to_hex_def)

lemma file_name_of: "CHR ''/'' \<notin> set f \<Longrightarrow> rev (takeWhile (\<lambda>c. c \<noteq> CHR ''/'') (rev (join dir f))) = f"
  by (simp add: join_def takeWhile_append)

lemma with_extension_stem:
  "CHR ''/'' \<notin> set f \<Longrightarrow> CHR ''.'' \<notin> set f \<Longrightarrow> with_extension (join dir f) e = join dir (f @ CHR ''.'' # e)"
proof -
  assume f: "CHR ''/'' \<notin> set f" "CHR ''.'' \<notin> set f"
  then have "dropWhile (\<lambda>c. c \<noteq> CHR ''.'') (rev f) = []" by (auto simp: dropWhile_eq_Nil_conv)
  then show ?thesis unfolding with_extension_def Let_def file_name_of [OF f(1)] by (simp only:) (simp add: join_def)
qed

lemma with_extension_other:
  assumes "CHR ''/'' \<notin> set f" and "CHR ''.'' \<notin> set f" and "CHR ''/'' \<notin> set x" and "CHR ''.'' \<notin> set x" and "f \<noteq> []"
  shows "with_extension (join dir (f @ CHR ''.'' # x)) e = join dir (f @ CHR ''.'' # e)"
proof -
  have n: "rev (takeWhile (\<lambda>c. c \<noteq> CHR ''/'') (rev (join dir (f @ CHR ''.'' # x)))) = f @ CHR ''.'' # x"
    by (rule file_name_of) (use assms in simp)
  have "dropWhile (\<lambda>c. c \<noteq> CHR ''.'') (rev (f @ CHR ''.'' # x)) = CHR ''.'' # rev f"
    using assms(4) by (simp add: dropWhile_append)
  with assms(5) show ?thesis unfolding with_extension_def Let_def n by (simp add: join_def)
qed

text \<open>The file of a shard with an extension.\<close>

definition shard_path :: "string \<Rightarrow> string \<Rightarrow> string \<Rightarrow> string" where
  "shard_path root shard e = join root (shard_to_hex shard @ CHR ''.'' # e)"

lemma shard_path_eq:
  "shard_path root s e = shard_path root t e' \<longleftrightarrow> s = t \<and> e = e'"
  using append_sep_inj [OF _ hex_plain(2) hex_plain(2), of s e t e'] by (auto simp: shard_path_def shard_to_hex_inj)

lemma shard_files_of_Inr:
  "shard_files_of root s = Inr fs \<longleftrightarrow> s \<noteq> [] \<and>
     fs = \<lparr>shf_shard_file = shard_path root s ''shard'', shf_head = shard_path root s ''head'', shf_log = shard_path root s ''log''\<rparr>"
  by (auto simp: shard_files_of_def Let_def with_extension_stem hex_plain shard_path_def)

lemma with_extension_shard_path:
  "s \<noteq> [] \<Longrightarrow> CHR ''/'' \<notin> set x \<Longrightarrow> CHR ''.'' \<notin> set x \<Longrightarrow> with_extension (shard_path root s x) e = shard_path root s e"
  unfolding shard_path_def by (rule with_extension_other) (simp_all add: hex_plain)

section \<open>What a shard's files hold\<close>

definition head_laws :: "head_ext \<Rightarrow> bool" where
  "head_laws hx \<longleftrightarrow> is_marker hx (hx_moved hx) \<and>
     (\<forall>h b. hx_print_head hx h = Inr b \<longrightarrow> hx_head hx b = Inr h) \<and>
     (\<forall>b st. hx_legacy hx b = Inr st \<longrightarrow> (\<forall>r \<in> set (lg_records st). utf8_ok (sr_record_json r)))"

type_synonym shard_view = "head_cursor option \<times> string list"

text \<open>The three files of a shard, as the code reads them when no call fails.\<close>

definition beside_of :: "head_ext \<Rightarrow> bytes option \<Rightarrow> beside option" where
  "beside_of hx file =
     (case file of
        None \<Rightarrow> Some Missing
      | Some b \<Rightarrow> if is_marker hx b then Some Marker
          else (case hx_legacy hx b of
            Inl _ \<Rightarrow> None
          | Inr st \<Rightarrow> if lg_cursor st = None \<and> lg_records st \<noteq> [] then None else Some (Earlier st)))"

definition log_of :: "bytes option \<Rightarrow> file_head \<Rightarrow> string list option" where
  "log_of file h =
     (let b = unwrap_or [] file; text = take (fh_log_len h) b; ls = split_terminator text in
      if fh_log_len h \<le> length b \<and> utf8_ok text \<and> ends_nl text \<and>
         length ls = (case fh_cursor h of None \<Rightarrow> 0 | Some c \<Rightarrow> hc_next_seq c)
      then Some ls else None)"

definition legacy_lines :: "legacy_shard \<Rightarrow> string list" where
  "legacy_lines old = map sr_record_json (lg_records old)"

definition view_of :: "beside \<Rightarrow> file_head option \<Rightarrow> bytes option \<Rightarrow> shard_view option" where
  "view_of beside head log =
     (case head of
        Some h \<Rightarrow>
          (case log_of log h of
             None \<Rightarrow> None
           | Some ls \<Rightarrow>
               (case beside of
                  Earlier old \<Rightarrow> if take (length (legacy_lines old)) ls = legacy_lines old then Some (fh_cursor h, ls) else None
                | _ \<Rightarrow> Some (fh_cursor h, ls)))
      | None \<Rightarrow>
          (case beside of
             Earlier old \<Rightarrow>
               if lg_cursor old \<noteq> None then Some (lg_cursor old, legacy_lines old)
               else if unwrap_or [] log = [] then Some (None, []) else None
           | _ \<Rightarrow> if unwrap_or [] log = [] then Some (None, []) else None))"

lemma read_if_present_Inr: "read_if_present io d p = Inr b \<Longrightarrow> b = file_at d p"
  by (auto simp: read_if_present_def read_opt_def res_simps split: option.splits)

lemma read_if_present_ok [simp]: "read_if_present no_faults d p = Inr (file_at d p)"
  by (simp add: read_if_present_def read_opt_def no_faults_def map_err_def)

lemma read_beside_Inr: "read_beside hx io d p = Inr b \<Longrightarrow> beside_of hx (file_at d p) = Some b"
  by (auto simp: read_beside_def beside_of_def res_simps dest!: read_if_present_Inr split: option.splits if_splits)

lemma read_head_Inr: "read_head hx io d p = Inr h \<Longrightarrow>
    case file_at d p of None \<Rightarrow> h = None | Some b \<Rightarrow> \<exists>fh. hx_head hx b = Inr fh \<and> h = Some fh"
  by (auto simp: read_head_def res_simps dest!: read_if_present_Inr split: option.splits)

lemma ends_nl_text: "ends_nl t \<longleftrightarrow> \<not> (0 < length t \<and> last t \<noteq> nl)"
  by (auto simp: ends_nl_def)

lemma read_log_Inr:
  "read_log io d p h = Inr rs \<Longrightarrow> log_of (file_at d p) h = Some (map sr_record_json rs)"
  by (auto simp: read_log_def log_of_def Let_def res_simps ends_nl_text dest!: read_if_present_Inr split: if_splits)

lemma refuse_prefix_iff:
  "length old \<le> length log \<and> list_all (\<lambda>(a, b). sr_record_json a = sr_record_json b) (zip old log) \<longleftrightarrow>
     take (length old) (map sr_record_json log) = map sr_record_json old"
proof (induction old arbitrary: log)
  case (Cons a old)
  then show ?case by (cases log) auto
qed simp

lemma legacy_empty: "beside_of hx f = Some (Earlier old) \<Longrightarrow> lg_cursor old = None \<Longrightarrow> legacy_lines old = []"
  by (auto simp: beside_of_def legacy_lines_def split: option.splits if_splits sum.splits)

text \<open>What \<open>load\<close> found is what the files hold.\<close>

lemma load_cases:
  assumes "load hx io d fs history = Inr ld"
  shows "read_beside hx io d (shf_shard_file fs) = Inr (ld_beside ld) \<and> read_head hx io d (shf_head fs) = Inr (ld_head ld) \<and>
    (case ld_head ld of
       Some h \<Rightarrow>
         (\<forall>old. ld_beside ld = Earlier old \<longrightarrow> refuse_unless_prefix io d fs h old = Inr ()) \<and>
         (if history then read_log io d (shf_log fs) h = Inr (ld_records ld) else ld_records ld = [])
     | None \<Rightarrow> refuse_orphan_log io d fs (ld_beside ld) = Inr () \<and>
         ld_records ld = (case ld_beside ld of Earlier old \<Rightarrow> if history then lg_records old else [] | _ \<Rightarrow> []))"
proof -
  obtain bs hd rs where ld: "ld = \<lparr>ld_head = hd, ld_beside = bs, ld_records = rs\<rparr>" by (cases ld)
  from assms show ?thesis unfolding load_def ld
    by (cases hd; cases bs; simp add: res_simps split: if_splits) 
qed

lemma refuse_orphan_Inr:
  assumes "refuse_orphan_log io d fs bs = Inr u"
  shows "(case bs of Earlier l \<Rightarrow> lg_cursor l \<noteq> None | _ \<Rightarrow> False) \<or> unwrap_or [] (file_at d (shf_log fs)) = []"
proof (cases "case bs of Earlier l \<Rightarrow> lg_cursor l \<noteq> None | _ \<Rightarrow> False")
  case False
  with assms obtain fl where f: "read_if_present io d (shf_log fs) = Inr fl"
    "(case fl of None \<Rightarrow> Inr () | Some b \<Rightarrow> res_guard (b = []) (SInvalid (OrphanLog (shf_log fs)))) = Inr u"
    unfolding refuse_orphan_log_def by (simp only: if_False res_simps) blast
  from read_if_present_Inr [OF f(1), symmetric] f(2) have "unwrap_or [] (file_at d (shf_log fs)) = []"
    by (cases fl) (simp_all add: res_simps unwrap_or_def)
  then show ?thesis ..
qed simp

lemma load_view:
  assumes "load hx io d fs True = Inr ld"
  shows "view_of (ld_beside ld) (ld_head ld) (file_at d (shf_log fs)) = Some (ld_cursor ld, map sr_record_json (ld_records ld))"
proof -
  note c = load_cases [OF assms]
  have b: "beside_of hx (file_at d (shf_shard_file fs)) = Some (ld_beside ld)" using c read_beside_Inr by blast
  show ?thesis
  proof (cases "ld_head ld")
    case (Some fh)
    with c have log: "read_log io d (shf_log fs) fh = Inr (ld_records ld)" by simp
    have p: "take (length (lg_records old)) (map sr_record_json (ld_records ld)) = map sr_record_json (lg_records old)"
      if "ld_beside ld = Earlier old" for old
    proof -
      from c Some that have "refuse_unless_prefix io d fs fh old = Inr ()" by simp
      with log show ?thesis unfolding refuse_unless_prefix_def by (simp add: res_simps refuse_prefix_iff)
    qed
    show ?thesis using Some read_log_Inr [OF log] p
      by (cases "ld_beside ld") (simp_all add: view_of_def ld_cursor_def legacy_lines_def)
  next
    case None
    with c have "refuse_orphan_log io d fs (ld_beside ld) = Inr ()" by simp
    then have o: "(case ld_beside ld of Earlier l \<Rightarrow> lg_cursor l \<noteq> None | _ \<Rightarrow> False) \<or> unwrap_or [] (file_at d (shf_log fs)) = []"
      by (rule refuse_orphan_Inr)
    show ?thesis
    proof (cases "ld_beside ld")
      case (Earlier old)
      with o None c legacy_empty [of hx _ old] b show ?thesis
        by (auto simp: view_of_def ld_cursor_def legacy_lines_def)
    qed (use o None c in \<open>simp_all add: view_of_def ld_cursor_def\<close>)
  qed
qed

lemma view_cursor:
  "view_of (ld_beside ld) (ld_head ld) log = Some v \<Longrightarrow> fst v = ld_cursor ld"
  by (auto simp: view_of_def ld_cursor_def split: option.splits beside.splits if_splits)

section \<open>Writes\<close>

lemma write_store_outcome:
  assumes "write_store io p b d = (r, d')" and "with_extension p ''tmp'' \<noteq> p"
  shows "file_at d' p = Some b \<or> isl r \<and> file_at d' p = file_at d p"
    and "q \<noteq> p \<Longrightarrow> q \<noteq> with_extension p ''tmp'' \<Longrightarrow> file_at d' q = file_at d q"
proof -
  from assms(1) obtain r0 where w: "write_atomic io p (with_extension p ''tmp'') b d = (r0, d')" "isl r = isl r0"
    by (auto simp: write_store_def s_simps)
  note a = write_atomic_all_or_nothing [OF w(1) assms(2)]
  from a w(2) show "file_at d' p = Some b \<or> isl r \<and> file_at d' p = file_at d p"
    by (cases r0) (auto split: atomic_write.splits)
  from a show "q \<noteq> p \<Longrightarrow> q \<noteq> with_extension p ''tmp'' \<Longrightarrow> file_at d' q = file_at d q" by blast
qed

lemma write_head_outcome:
  assumes "write_head hx io p h d = (r, d')" and "with_extension p ''tmp'' \<noteq> p" and "head_laws hx"
  shows "(\<exists>b. file_at d' p = Some b \<and> hx_head hx b = Inr h) \<or> isl r \<and> file_at d' p = file_at d p"
    and "q \<noteq> p \<Longrightarrow> q \<noteq> with_extension p ''tmp'' \<Longrightarrow> file_at d' q = file_at d q"
proof -
  have law: "hx_print_head hx h = Inr b \<Longrightarrow> hx_head hx b = Inr h" for b using assms(3) unfolding head_laws_def by blast
  have c: "(\<exists>b. hx_print_head hx h = Inr b \<and> write_store io p b d = (r, d')) \<or> isl r \<and> d' = d"
    using assms(1) by (cases "hx_print_head hx h") (auto simp: write_head_def s_simps)
  show "(\<exists>b. file_at d' p = Some b \<and> hx_head hx b = Inr h) \<or> isl r \<and> file_at d' p = file_at d p"
    using c law write_store_outcome(1) [OF _ assms(2)] by blast
  show "q \<noteq> p \<Longrightarrow> q \<noteq> with_extension p ''tmp'' \<Longrightarrow> file_at d' q = file_at d q"
    using c write_store_outcome(2) [OF _ assms(2)] by blast
qed

lemma append_bytes_outcome:
  assumes "append_bytes io p w b d = (r, d')"
  shows "(\<exists>t. file_at d' p = Some (unwrap_or [] (file_at d p) @ t) \<and> (r = Inr () \<longrightarrow> t = b)) \<and> (\<forall>q. q \<noteq> p \<longrightarrow> file_at d' q = file_at d q)"
  using assms by (auto simp: append_bytes_def Let_def split: option.splits if_splits)

lemma append_lines_outcome:
  assumes "append_lines io p w ls d = (r, d')" and "file_at d p = Some a"
  shows "(\<exists>t. file_at d' p = Some (a @ t) \<and>
      (\<forall>n. r = Inr n \<longrightarrow> t = log_text ls \<and> n = w + length (log_text ls) \<and> (\<forall>l \<in> set ls. nl \<notin> set l))) \<and>
    (\<forall>q. q \<noteq> p \<longrightarrow> file_at d' q = file_at d q)"
  using assms
proof (induction ls arbitrary: w d a)
  case Nil
  then show ?case by (auto simp: s_simps)
next
  case (Cons l ls)
  show ?case
  proof (cases "nl \<in> set l")
    case True
    with Cons.prems show ?thesis by (auto simp: s_simps)
  next
    case False
    obtain r1 d1 where b: "append_bytes io p w (l @ [nl]) d = (r1, d1)" by force
    from append_bytes_outcome [OF b] Cons.prems(2) obtain t where t: "file_at d1 p = Some (a @ t)" "r1 = Inr () \<longrightarrow> t = l @ [nl]"
      "\<forall>q. q \<noteq> p \<longrightarrow> file_at d1 q = file_at d q" by auto
    show ?thesis
    proof (cases r1)
      case (Inl e)
      with Cons.prems(1) False b t show ?thesis by (auto simp: s_simps)
    next
      case (Inr u)
      with Cons.prems(1) False b have "append_lines io p (w + length l + 1) ls d1 = (r, d')" by (auto simp: s_simps)
      from Cons.IH [OF this t(1)] t Inr False show ?thesis by auto
    qed
  qed
qed

text \<open>An append keeps the committed bytes, and a successful one adds exactly its lines to them.\<close>

lemma append_log_outcome:
  assumes "append_log io p n ls d = (r, d')"
  defines "a \<equiv> unwrap_or [] (file_at d p)"
  shows "unwrap_or [] (file_at d' p) = a \<and> isl r \<or> n \<le> length a \<and> (\<exists>t. file_at d' p = Some (take n a @ t) \<and>
      (\<forall>k. r = Inr k \<longrightarrow> t = log_text ls \<and> k = n + length (log_text ls) \<and> (\<forall>l \<in> set ls. nl \<notin> set l)))"
    and "q \<noteq> p \<Longrightarrow> file_at d' q = file_at d q"
proof -
  let ?d1 = "if file_at d p = None then put_file p [] d else d"
  have a1: "file_at ?d1 p = Some a" "\<forall>q. q \<noteq> p \<longrightarrow> file_at ?d1 q = file_at d q"
    by (auto simp: a_def unwrap_or_def split: option.splits)
  have steps: "isl r \<and> (d' = d \<or> d' = ?d1) \<or> n \<le> length a \<and> (\<exists>d2 r3. file_at d2 p = Some (take n a) \<and>
      (\<forall>q. q \<noteq> p \<longrightarrow> file_at d2 q = file_at d q) \<and> append_lines io p 0 ls d2 = (r3, d') \<and>
      (\<forall>k. r = Inr k \<longrightarrow> (\<exists>m. r3 = Inr m \<and> k = n + m)))"
    (is "?refused \<or> ?wrote")
  proof (cases "io_fault io (OpenWrite p) = None \<and> io_fault io (ReadFile p) = None \<and> n \<le> length a \<and> (n = 0 \<or> a ! (n - 1) = nl) \<and>
      (length a > n \<longrightarrow> io_fault io (SetLen p) = None)")
    case False
    with assms(1) a1(1) have ?refused
      by (auto simp: append_log_def h_step_def h_upd_def s_simps res_guard_def split: option.splits if_splits)
    then show ?thesis ..
  next
    case True
    let ?d2 = "if length a > n then put_file p (take n a) ?d1 else ?d1"
    obtain r3 d3 where l: "append_lines io p 0 ls ?d2 = (r3, d3)" by force
    from True a1(1) assms(1) l have "d' = d3 \<and> (\<forall>k. r = Inr k \<longrightarrow> (\<exists>m. r3 = Inr m \<and> k = n + m))"
      by (cases r3) (auto simp: append_log_def h_step_def h_upd_def s_simps res_guard_def split: option.splits if_splits)
    moreover have "file_at ?d2 p = Some (take n a)" "\<forall>q. q \<noteq> p \<longrightarrow> file_at ?d2 q = file_at d q" using a1 True by auto
    ultimately have ?wrote using l True by blast
    then show ?thesis ..
  qed
  have outcome: "(unwrap_or [] (file_at d' p) = a \<and> isl r \<or> n \<le> length a \<and> (\<exists>t. file_at d' p = Some (take n a @ t) \<and>
      (\<forall>k. r = Inr k \<longrightarrow> t = log_text ls \<and> k = n + length (log_text ls) \<and> (\<forall>l \<in> set ls. nl \<notin> set l)))) \<and>
      (\<forall>q. q \<noteq> p \<longrightarrow> file_at d' q = file_at d q)"
    using steps
  proof
    assume "isl r \<and> (d' = d \<or> d' = ?d1)"
    with a1 show ?thesis by (auto simp: a_def)
  next
    assume w: "n \<le> length a \<and> (\<exists>d2 r3. file_at d2 p = Some (take n a) \<and> (\<forall>q. q \<noteq> p \<longrightarrow> file_at d2 q = file_at d q) \<and>
      append_lines io p 0 ls d2 = (r3, d') \<and> (\<forall>k. r = Inr k \<longrightarrow> (\<exists>m. r3 = Inr m \<and> k = n + m)))"
    then obtain d2 r3 where d2: "file_at d2 p = Some (take n a)" "\<forall>q. q \<noteq> p \<longrightarrow> file_at d2 q = file_at d q"
      "append_lines io p 0 ls d2 = (r3, d')" "\<forall>k. r = Inr k \<longrightarrow> (\<exists>m. r3 = Inr m \<and> k = n + m)" by (elim conjE exE) (rule that)
    from append_lines_outcome [OF d2(3,1)] d2(2,4) w show ?thesis by fastforce
  qed
  show "unwrap_or [] (file_at d' p) = a \<and> isl r \<or> n \<le> length a \<and> (\<exists>t. file_at d' p = Some (take n a @ t) \<and>
      (\<forall>k. r = Inr k \<longrightarrow> t = log_text ls \<and> k = n + length (log_text ls) \<and> (\<forall>l \<in> set ls. nl \<notin> set l)))"
    "q \<noteq> p \<Longrightarrow> file_at d' q = file_at d q" using outcome by blast+
qed

section \<open>Commit\<close>

definition head_file :: "head_ext \<Rightarrow> bytes option \<Rightarrow> file_head option option" where
  "head_file hx f = (case f of None \<Rightarrow> Some None | Some b \<Rightarrow> (case hx_head hx b of Inl _ \<Rightarrow> None | Inr h \<Rightarrow> Some (Some h)))"

definition disk_view :: "head_ext \<Rightarrow> disk \<Rightarrow> shard_files \<Rightarrow> shard_view option" where
  "disk_view hx d fs =
     Option.bind (beside_of hx (file_at d (shf_shard_file fs))) (\<lambda>b.
     Option.bind (head_file hx (file_at d (shf_head fs))) (\<lambda>h. view_of b h (file_at d (shf_log fs))))"

definition view_ok :: "shard_view \<Rightarrow> bool" where
  "view_ok v \<longleftrightarrow> (case fst v of None \<Rightarrow> snd v = [] | Some c \<Rightarrow> hc_next_seq c = length (snd v))"

lemma disk_view_eq:
  "beside_of hx (file_at d (shf_shard_file fs)) = Some b \<Longrightarrow> head_file hx (file_at d (shf_head fs)) = Some h \<Longrightarrow>
    disk_view hx d fs = view_of b h (file_at d (shf_log fs))"
  by (simp add: disk_view_def)

lemma disk_view_cong:
  "file_at d' (shf_shard_file fs) = file_at d (shf_shard_file fs) \<Longrightarrow> file_at d' (shf_head fs) = file_at d (shf_head fs) \<Longrightarrow>
    file_at d' (shf_log fs) = file_at d (shf_log fs) \<Longrightarrow> disk_view hx d' fs = disk_view hx d fs"
  by (simp add: disk_view_def)

lemma beside_moved: "head_laws hx \<Longrightarrow> beside_of hx (Some (hx_moved hx)) = Some Marker"
  by (simp add: beside_of_def head_laws_def)

lemma load_files:
  assumes "load hx io d fs history = Inr ld"
  shows "beside_of hx (file_at d (shf_shard_file fs)) = Some (ld_beside ld)"
    and "head_file hx (file_at d (shf_head fs)) = Some (ld_head ld)"
proof -
  note c = load_cases [OF assms]
  show "beside_of hx (file_at d (shf_shard_file fs)) = Some (ld_beside ld)" using c read_beside_Inr by blast
  from c have "read_head hx io d (shf_head fs) = Inr (ld_head ld)" by simp
  from read_head_Inr [OF this] show "head_file hx (file_at d (shf_head fs)) = Some (ld_head ld)"
    by (auto simp: head_file_def split: option.splits)
qed

lemma split_terminator_lines:
  "ends_nl t \<Longrightarrow> \<forall>l \<in> set ls. nl \<notin> set l \<Longrightarrow> split_terminator (t @ log_text ls) = split_terminator t @ ls"
proof (induction ls rule: rev_induct)
  case (snoc l ls)
  have "split_terminator ((t @ log_text ls) @ l @ [nl]) = split_terminator (t @ log_text ls) @ [l]"
    by (rule split_terminator_snoc) (use snoc.prems in simp_all)
  with snoc show ?case by simp
qed simp

text \<open>The log after an append, under the head that commits it.\<close>

lemma log_of_appended:
  assumes "ends_nl t" and "utf8_ok t" and "\<forall>l \<in> set ls. nl \<notin> set l \<and> utf8_ok l"
    and "hc_next_seq c = length (split_terminator t) + length ls"
  shows "log_of (Some (t @ log_text ls)) \<lparr>fh_cursor = Some c, fh_log_len = length t + length (log_text ls)\<rparr> =
    Some (split_terminator t @ ls)"
  using assms by (simp add: log_of_def unwrap_or_def split_terminator_lines utf8_append utf8_log_text)

lemma log_of_prefix:
  assumes "log_of log h = Some ls" and "take (fh_log_len h) (unwrap_or [] log') = take (fh_log_len h) (unwrap_or [] log)"
    and "fh_log_len h \<le> length (unwrap_or [] log')"
  shows "log_of log' h = Some ls"
  using assms by (simp add: log_of_def Let_def split: if_splits)

lemma log_of_SomeD:
  assumes "log_of log h = Some ls"
  shows "fh_log_len h \<le> length (unwrap_or [] log)" and "ends_nl (take (fh_log_len h) (unwrap_or [] log))"
    and "utf8_ok (take (fh_log_len h) (unwrap_or [] log))" and "split_terminator (take (fh_log_len h) (unwrap_or [] log)) = ls"
  using assms by (simp_all add: log_of_def Let_def split: if_splits)

text \<open>The marker replaces what is beside a head, and nothing that holds history.\<close>

lemma view_of_marked:
  assumes "view_of b h log = Some v" and "h = None \<Longrightarrow> \<forall>old. b = Earlier old \<longrightarrow> lg_cursor old = None"
  shows "view_of Marker h log = Some v"
  using assms by (auto simp: view_of_def split: option.splits beside.splits if_splits)

lemma view_of_empty_head: "view_of Marker None log = Some v \<Longrightarrow> view_of Marker (Some empty_head) log = Some v"
  by (auto simp: view_of_def log_of_def empty_head_def split: if_splits)

lemma shard_files_paths:
  assumes "shard_files_of root s = Inr fs"
  shows "shf_shard_file fs = shard_path root s ''shard''" "shf_head fs = shard_path root s ''head''"
    "shf_log fs = shard_path root s ''log''" "with_extension (shf_shard_file fs) e = shard_path root s e"
    "with_extension (shf_head fs) e = shard_path root s e"
  using assms by (auto simp: shard_files_of_Inr with_extension_shard_path)

text \<open>Everything a section on a shard writes.\<close>

definition own :: "string \<Rightarrow> string \<Rightarrow> string \<Rightarrow> bool" where
  "own root s q \<longleftrightarrow> q \<in> shard_path root s ` {''shard'', ''head'', ''log'', ''tmp'', ''lock''}"

abbreviation keeps_others :: "string \<Rightarrow> string \<Rightarrow> disk \<Rightarrow> disk \<Rightarrow> bool" where
  "keeps_others root s d d' \<equiv> \<forall>q. \<not> own root s q \<longrightarrow> file_at d' q = file_at d q"

lemma mark_outcome:
  assumes fs: "shard_files_of root s = Inr fs" and laws: "head_laws hx"
    and w: "write_store io (shf_shard_file fs) (hx_moved hx) d = (r, d')"
  shows "beside_of hx (file_at d' (shf_shard_file fs)) = Some Marker \<or>
      isl r \<and> file_at d' (shf_shard_file fs) = file_at d (shf_shard_file fs)"
    and "file_at d' (shf_head fs) = file_at d (shf_head fs)" and "file_at d' (shf_log fs) = file_at d (shf_log fs)"
    and "keeps_others root s d d'"
proof -
  note p = shard_files_paths [OF fs]
  have t: "with_extension (shf_shard_file fs) ''tmp'' \<noteq> shf_shard_file fs" unfolding p(4) by (simp add: p shard_path_eq)
  note o = write_store_outcome [OF w t]
  from o(1) beside_moved [OF laws] show "beside_of hx (file_at d' (shf_shard_file fs)) = Some Marker \<or>
      isl r \<and> file_at d' (shf_shard_file fs) = file_at d (shf_shard_file fs)" by auto
  show "file_at d' (shf_head fs) = file_at d (shf_head fs)" "file_at d' (shf_log fs) = file_at d (shf_log fs)"
    using o(2) [of "shf_head fs"] o(2) [of "shf_log fs"] unfolding p(4) by (simp_all add: p shard_path_eq)
  show "keeps_others root s d d'" using o(2) unfolding p(4) by (auto simp: own_def p)
qed

lemma head_outcome:
  assumes fs: "shard_files_of root s = Inr fs" and laws: "head_laws hx"
    and w: "write_head hx io (shf_head fs) h d = (r, d')"
  shows "head_file hx (file_at d' (shf_head fs)) = Some (Some h) \<or> isl r \<and> file_at d' (shf_head fs) = file_at d (shf_head fs)"
    and "file_at d' (shf_shard_file fs) = file_at d (shf_shard_file fs)" and "file_at d' (shf_log fs) = file_at d (shf_log fs)"
    and "keeps_others root s d d'"
proof -
  note p = shard_files_paths [OF fs]
  have t: "with_extension (shf_head fs) ''tmp'' \<noteq> shf_head fs" unfolding p(5) by (simp add: p shard_path_eq)
  note o = write_head_outcome [OF w t laws]
  from o(1) show "head_file hx (file_at d' (shf_head fs)) = Some (Some h) \<or> isl r \<and> file_at d' (shf_head fs) = file_at d (shf_head fs)"
    by (auto simp: head_file_def)
  show "file_at d' (shf_shard_file fs) = file_at d (shf_shard_file fs)" "file_at d' (shf_log fs) = file_at d (shf_log fs)"
    using o(2) [of "shf_shard_file fs"] o(2) [of "shf_log fs"] unfolding p(5) by (simp_all add: p shard_path_eq)
  show "keeps_others root s d d'" using o(2) unfolding p(5) by (auto simp: own_def p)
qed

text \<open>A shard ready for its line: under a head and the marker, or about to be converted.\<close>

definition ready :: "head_ext \<Rightarrow> disk \<Rightarrow> shard_files \<Rightarrow> nat \<Rightarrow> string list \<Rightarrow> bool \<Rightarrow> bool" where
  "ready hx d fs n ls converting \<longleftrightarrow>
     (if converting
      then n = 0 \<and> head_file hx (file_at d (shf_head fs)) = Some None \<and>
        (\<exists>old. beside_of hx (file_at d (shf_shard_file fs)) = Some (Earlier old) \<and> lg_cursor old \<noteq> None \<and> ls = legacy_lines old)
      else ls = [] \<and> beside_of hx (file_at d (shf_shard_file fs)) = Some Marker \<and>
        (\<exists>h. head_file hx (file_at d (shf_head fs)) = Some (Some h) \<and> n = fh_log_len h))"

text \<open>The first half of \<open>commit\<close>, up to the log.\<close>

definition prepare :: "head_ext \<Rightarrow> stages \<Rightarrow> shard_files \<Rightarrow> loaded \<Rightarrow> (nat \<times> string list \<times> bool) hdk" where
  "prepare hx pl fs ld =
     (let mark = (if ld_beside ld = Marker then s_ret () else write_store (pl 1) (shf_shard_file fs) (hx_moved hx)) in
      case ld_head ld of
        Some h \<Rightarrow> s_bind mark (\<lambda>_. s_ret (fh_log_len h, [], False))
      | None \<Rightarrow>
          (case ld_beside ld of
             Earlier old \<Rightarrow>
               if lg_cursor old \<noteq> None then s_ret (0, map sr_record_json (lg_records old), True)
               else s_bind mark (\<lambda>_. s_bind (write_head hx (pl 2) (shf_head fs) empty_head) (\<lambda>_. s_ret (0, [], False)))
           | _ \<Rightarrow> s_bind mark (\<lambda>_. s_bind (write_head hx (pl 2) (shf_head fs) empty_head) (\<lambda>_. s_ret (0, [], False)))))"

lemma commit_alt:
  "commit hx pl fs ld c line =
     s_bind (prepare hx pl fs ld) (\<lambda>(n, ls, converting).
     s_bind (append_log (pl 3) (shf_log fs) n (ls @ [line])) (\<lambda>log_len.
     s_bind (write_head hx (pl 4) (shf_head fs) \<lparr>fh_cursor = Some c, fh_log_len = log_len\<rparr>) (\<lambda>_.
     if converting then write_store (pl 5) (shf_shard_file fs) (hx_moved hx) else s_ret ())))"
  by (cases "ld_head ld"; cases "ld_beside ld") (simp_all add: commit_def prepare_def Let_def)

lemma mark_step:
  assumes fs: "shard_files_of root s = Inr fs" and laws: "head_laws hx"
    and b: "beside_of hx (file_at d (shf_shard_file fs)) = Some b" and h: "head_file hx (file_at d (shf_head fs)) = Some h"
    and v: "disk_view hx d fs = Some v" and free: "h = None \<Longrightarrow> \<forall>old. b = Earlier old \<longrightarrow> lg_cursor old = None"
    and w: "(if b = Marker then s_ret () else write_store io (shf_shard_file fs) (hx_moved hx)) d = (r, d')"
  shows "disk_view hx d' fs = Some v" and "keeps_others root s d d'"
    and "head_file hx (file_at d' (shf_head fs)) = Some h" and "r = Inr u \<Longrightarrow> beside_of hx (file_at d' (shf_shard_file fs)) = Some Marker"
proof -
  have vm: "view_of Marker h (file_at d (shf_log fs)) = Some v"
    using view_of_marked [OF _ free] v disk_view_eq [OF b h] by simp
  have "disk_view hx d' fs = Some v \<and> keeps_others root s d d' \<and> head_file hx (file_at d' (shf_head fs)) = Some h \<and>
      (r = Inr u \<longrightarrow> beside_of hx (file_at d' (shf_shard_file fs)) = Some Marker)"
  proof (cases "b = Marker")
    case True
    with w b h v show ?thesis by (auto simp: s_simps)
  next
    case False
    with w have w': "write_store io (shf_shard_file fs) (hx_moved hx) d = (r, d')" by simp
    note o = mark_outcome [OF fs laws w']
    from o(1) show ?thesis
    proof
      assume m: "beside_of hx (file_at d' (shf_shard_file fs)) = Some Marker"
      have "disk_view hx d' fs = view_of Marker h (file_at d' (shf_log fs))" by (rule disk_view_eq) (use m h o(2) in simp_all)
      with vm o m h show ?thesis by simp
    next
      assume m: "isl r \<and> file_at d' (shf_shard_file fs) = file_at d (shf_shard_file fs)"
      then have "disk_view hx d' fs = disk_view hx d fs" by (intro disk_view_cong) (use o in simp_all)
      with m v o h show ?thesis by auto
    qed
  qed
  then show "disk_view hx d' fs = Some v" "keeps_others root s d d'" "head_file hx (file_at d' (shf_head fs)) = Some h"
    "r = Inr u \<Longrightarrow> beside_of hx (file_at d' (shf_shard_file fs)) = Some Marker" by auto
qed

lemma prepare_outcome:
  assumes fs: "shard_files_of root s = Inr fs" and laws: "head_laws hx" and ld: "load hx io d fs history = Inr ld"
    and v: "disk_view hx d fs = Some v" and w: "prepare hx pl fs ld d = (r, d')"
  shows "disk_view hx d' fs = Some v \<and> keeps_others root s d d' \<and>
    (\<forall>n ls converting. r = Inr (n, ls, converting) \<longrightarrow> ready hx d' fs n ls converting)"
proof -
  note f = load_files [OF ld]
  let ?mark = "if ld_beside ld = Marker then s_ret () else write_store (pl 1) (shf_shard_file fs) (hx_moved hx)"
  obtain r1 d1 where m: "?mark d = (r1, d1)" by force
  note ms = mark_step [OF fs laws f v _ m]
  consider (head) h where "ld_head ld = Some h"
    | (convert) old where "ld_head ld = None" "ld_beside ld = Earlier old" "lg_cursor old \<noteq> None"
    | (fresh) "ld_head ld = None" "\<forall>old. ld_beside ld = Earlier old \<longrightarrow> lg_cursor old = None"
    by blast
  then show ?thesis
  proof cases
    case (head h)
    from head w m have "d' = d1" "\<forall>x. r = Inr x \<longrightarrow> r1 = Inr () \<and> x = (fh_log_len h, [], False)"
      by (auto simp: prepare_def Let_def s_simps)
    with ms head show ?thesis by (auto simp: ready_def)
  next
    case convert
    with w f v show ?thesis by (auto simp: prepare_def Let_def s_simps ready_def legacy_lines_def)
  next
    case fresh
    have p: "prepare hx pl fs ld = s_bind ?mark (\<lambda>_. s_bind (write_head hx (pl 2) (shf_head fs) empty_head) (\<lambda>_. s_ret (0, [], False)))"
      using fresh by (cases "ld_beside ld") (auto simp: prepare_def Let_def)
    show ?thesis
    proof (cases r1)
      case (Inl e)
      with w p m ms fresh show ?thesis by (auto simp: s_simps)
    next
      case (Inr u)
      obtain r2 d2 where h: "write_head hx (pl 2) (shf_head fs) empty_head d1 = (r2, d2)" by force
      from w p m Inr h have e: "d' = d2" "\<forall>x. r = Inr x \<longrightarrow> \<not> isl r2 \<and> x = (0, [], False)" by (auto simp: s_simps)
      note o = head_outcome [OF fs laws h]
      have b: "beside_of hx (file_at d1 (shf_shard_file fs)) = Some Marker" using ms(4) fresh(2) Inr by simp
      have k: "keeps_others root s d d2" using o(4) ms(2) fresh(2) by simp
      have vm: "view_of Marker None (file_at d1 (shf_log fs)) = Some v"
        using ms(1,3) fresh disk_view_eq [OF b] by simp
      from o(1) show ?thesis
      proof
        assume hf: "head_file hx (file_at d2 (shf_head fs)) = Some (Some empty_head)"
        have "disk_view hx d2 fs = view_of Marker (Some empty_head) (file_at d2 (shf_log fs))"
          by (rule disk_view_eq) (use b hf o in simp_all)
        with view_of_empty_head [OF vm] o(3) hf b e k show ?thesis by (auto simp: ready_def o(2) empty_head_def)
      next
        assume hf: "isl r2 \<and> file_at d2 (shf_head fs) = file_at d1 (shf_head fs)"
        then have "disk_view hx d2 fs = disk_view hx d1 fs" by (intro disk_view_cong) (use o in simp_all)
        with ms(1) fresh(2) hf e k show ?thesis by auto
      qed
    qed
  qed
qed

text \<open>Whatever a plan makes of an append to the log, what was committed stays.\<close>

lemma log_step:
  assumes fs: "shard_files_of root s = Inr fs" and v: "disk_view hx d fs = Some v" and rd: "ready hx d fs n ls converting"
    and w: "append_log io (shf_log fs) n (ls @ [line]) d = (r, d')"
  shows "disk_view hx d' fs = Some v" and "ready hx d' fs n ls converting" and "keeps_others root s d d'"
proof -
  note o = append_log_outcome [OF w]
  have ne: "shf_shard_file fs \<noteq> shf_log fs" "shf_head fs \<noteq> shf_log fs" by (simp_all add: shard_files_paths [OF fs] shard_path_eq)
  have same: "file_at d' (shf_shard_file fs) = file_at d (shf_shard_file fs)" "file_at d' (shf_head fs) = file_at d (shf_head fs)"
    using o(2) ne by blast+
  show "keeps_others root s d d'" using o(2) by (auto simp: own_def shard_files_paths [OF fs])
  show r: "ready hx d' fs n ls converting" using rd unfolding ready_def same .
  show "disk_view hx d' fs = Some v"
  proof (cases converting)
    case True
    with rd obtain old where old: "head_file hx (file_at d (shf_head fs)) = Some None"
      "beside_of hx (file_at d (shf_shard_file fs)) = Some (Earlier old)" "lg_cursor old \<noteq> None" by (auto simp: ready_def)
    with v show ?thesis by (simp add: disk_view_def same view_of_def)
  next
    case False
    with rd obtain h where h: "head_file hx (file_at d (shf_head fs)) = Some (Some h)"
      "beside_of hx (file_at d (shf_shard_file fs)) = Some Marker" "n = fh_log_len h" by (auto simp: ready_def)
    with v obtain ls' where l: "log_of (file_at d (shf_log fs)) h = Some ls'" "v = (fh_cursor h, ls')"
      by (auto simp: disk_view_def view_of_def split: option.splits)
    have "take n (unwrap_or [] (file_at d' (shf_log fs))) = take n (unwrap_or [] (file_at d (shf_log fs))) \<and>
        n \<le> length (unwrap_or [] (file_at d' (shf_log fs)))"
      using o(1) log_of_SomeD(1) [OF l(1)] h(3) by (auto simp: unwrap_or_def)
    with log_of_prefix [OF l(1)] h(3) have "log_of (file_at d' (shf_log fs)) h = Some ls'" by simp
    with h l show ?thesis by (simp add: disk_view_def same view_of_def)
  qed
qed

lemma legacy_utf8:
  "head_laws hx \<Longrightarrow> beside_of hx f = Some (Earlier old) \<Longrightarrow> l \<in> set (legacy_lines old) \<Longrightarrow> utf8_ok l"
  by (auto simp: beside_of_def legacy_lines_def head_laws_def split: option.splits if_splits sum.splits)

text \<open>The head is the commit point.\<close>

lemma head_step:
  assumes fs: "shard_files_of root s = Inr fs" and laws: "head_laws hx" and v: "disk_view hx d fs = Some v"
    and rd: "ready hx d fs n ls converting" and w: "append_log io (shf_log fs) n (ls @ [line]) d = (Inr k, d2)"
    and line: "utf8_ok line" "hc_next_seq c = length (snd v) + 1"
    and h: "write_head hx io' (shf_head fs) \<lparr>fh_cursor = Some c, fh_log_len = k\<rparr> d2 = (r, d3)"
  shows "disk_view hx d3 fs = Some (Some c, snd v @ [line]) \<or> isl r \<and> disk_view hx d3 fs = Some v"
    and "keeps_others root s d2 d3" and "beside_of hx (file_at d3 (shf_shard_file fs)) = beside_of hx (file_at d (shf_shard_file fs))"
    and "\<not> isl r \<Longrightarrow> head_file hx (file_at d3 (shf_head fs)) = Some (Some \<lparr>fh_cursor = Some c, fh_log_len = k\<rparr>)"
proof -
  note o = head_outcome [OF fs laws h] and lg = append_log_outcome [OF w] and ls2 = log_step [OF fs v rd w]
  let ?h = "\<lparr>fh_cursor = Some c, fh_log_len = k\<rparr>" and ?a = "unwrap_or [] (file_at d (shf_log fs))"
  show "keeps_others root s d2 d3" by (rule o(4))
  show "\<not> isl r \<Longrightarrow> head_file hx (file_at d3 (shf_head fs)) = Some (Some ?h)" using o(1) by blast
  have bs: "file_at d3 (shf_shard_file fs) = file_at d (shf_shard_file fs)"
    using lg(2) o(2) by (simp add: shard_files_paths [OF fs] shard_path_eq)
  then show "beside_of hx (file_at d3 (shf_shard_file fs)) = beside_of hx (file_at d (shf_shard_file fs))" by simp
  from lg(1) have log: "file_at d3 (shf_log fs) = Some (take n ?a @ log_text (ls @ [line]))" "n \<le> length ?a"
      "k = n + length (log_text (ls @ [line]))" "\<forall>l \<in> set (ls @ [line]). nl \<notin> set l"
    using o(3) by auto
  have new: "disk_view hx d3 fs = Some (Some c, snd v @ [line])" if hf: "head_file hx (file_at d3 (shf_head fs)) = Some (Some ?h)"
  proof (cases converting)
    case True
    with rd obtain old where old: "head_file hx (file_at d (shf_head fs)) = Some None" "n = 0" "ls = legacy_lines old"
      "beside_of hx (file_at d (shf_shard_file fs)) = Some (Earlier old)" "lg_cursor old \<noteq> None" by (auto simp: ready_def)
    with v have sv: "snd v = ls" by (auto simp: disk_view_def view_of_def)
    have "log_of (file_at d3 (shf_log fs)) ?h = Some (ls @ [line])"
      using log_of_appended [of "[]" "ls @ [line]" c] log line legacy_utf8 [OF laws old(4)] old(2,3) sv by simp
    with old sv hf show ?thesis by (simp add: disk_view_def bs view_of_def)
  next
    case False
    with rd obtain h0 where h0: "head_file hx (file_at d (shf_head fs)) = Some (Some h0)" "ls = []" "n = fh_log_len h0"
      "beside_of hx (file_at d (shf_shard_file fs)) = Some Marker" by (auto simp: ready_def)
    with v obtain ls' where l: "log_of (file_at d (shf_log fs)) h0 = Some ls'" "v = (fh_cursor h0, ls')"
      by (auto simp: disk_view_def view_of_def split: option.splits)
    note t = log_of_SomeD [OF l(1)]
    have "log_of (file_at d3 (shf_log fs)) ?h = Some (ls' @ [line])"
      using log_of_appended [of "take n ?a" "[line]" c] log line t h0 l(2) by simp
    with h0 l hf show ?thesis by (simp add: disk_view_def bs view_of_def)
  qed
  from o(1) show "disk_view hx d3 fs = Some (Some c, snd v @ [line]) \<or> isl r \<and> disk_view hx d3 fs = Some v"
  proof
    assume "isl r \<and> file_at d3 (shf_head fs) = file_at d2 (shf_head fs)"
    moreover from this have "disk_view hx d3 fs = disk_view hx d2 fs" by (intro disk_view_cong) (use o in simp_all)
    ultimately show ?thesis using ls2(1) by simp
  qed (simp add: new)
qed

text \<open>A commit is atomic: whatever fails in it, the shard reads as before or with the record.\<close>

lemma commit_atomic:
  assumes fs: "shard_files_of root s = Inr fs" and laws: "head_laws hx" and ld: "load hx io d fs history = Inr ld"
    and v: "disk_view hx d fs = Some v" and line: "utf8_ok line" "hc_next_seq c = length (snd v) + 1"
    and w: "commit hx pl fs ld c line d = (r, d')"
  shows "(disk_view hx d' fs = Some (Some c, snd v @ [line]) \<or> isl r \<and> disk_view hx d' fs = Some v) \<and> keeps_others root s d d'"
proof -
  obtain r1 d1 where p: "prepare hx pl fs ld d = (r1, d1)" by force
  note po = prepare_outcome [OF fs laws ld v p]
  show ?thesis
  proof (cases r1)
    case (Inl e)
    with w p po show ?thesis by (auto simp: commit_alt s_simps)
  next
    case (Inr x)
    obtain n ls converting where x: "x = (n, ls, converting)" by (cases x)
    from po Inr x have rd: "ready hx d1 fs n ls converting" and v1: "disk_view hx d1 fs = Some v" by auto
    obtain r2 d2 where a: "append_log (pl 3) (shf_log fs) n (ls @ [line]) d1 = (r2, d2)" by force
    note lo = log_step [OF fs v1 rd a]
    show ?thesis
    proof (cases r2)
      case (Inl e)
      with w p a lo(1,3) po \<open>r1 = Inr x\<close> x show ?thesis by (auto simp: commit_alt s_simps)
    next
      case (Inr k)
      obtain r3 d3 where h: "write_head hx (pl 4) (shf_head fs) \<lparr>fh_cursor = Some c, fh_log_len = k\<rparr> d2 = (r3, d3)" by force
      note ho = head_step [OF fs laws v1 rd a [unfolded Inr] line h]
      have k3: "keeps_others root s d d3" using po lo(3) ho(2) by simp
      show ?thesis
      proof (cases "isl r3 \<or> \<not> converting")
        case True
        with w p a h Inr \<open>r1 = Inr x\<close> x have "d' = d3" "isl r = isl r3" by (auto simp: commit_alt s_simps)
        with ho(1) k3 show ?thesis by simp
      next
        case False
        with w p a h Inr \<open>r1 = Inr x\<close> x have m: "write_store (pl 5) (shf_shard_file fs) (hx_moved hx) d3 = (r, d')"
          by (auto simp: commit_alt s_simps)
        from rd False obtain old where b: "beside_of hx (file_at d3 (shf_shard_file fs)) = Some (Earlier old)"
          using ho(3) by (auto simp: ready_def)
        have v3: "disk_view hx d3 fs = Some (Some c, snd v @ [line])" using ho(1) False by auto
        from m have m': "(if Earlier old = Marker then s_ret () else write_store (pl 5) (shf_shard_file fs) (hx_moved hx)) d3 = (r, d')" by simp
        have hf: "head_file hx (file_at d3 (shf_head fs)) = Some (Some \<lparr>fh_cursor = Some c, fh_log_len = k\<rparr>)" using ho(4) False by simp
        from mark_step(1,2) [OF fs laws b hf v3 _ m'] k3 show ?thesis by simp
      qed
    qed
  qed
qed

section \<open>The contract\<close>

text \<open>What a section leaves of a shard: as it was, or with the line its callback gave; a section that
  succeeds tells which. \<open>full\<close> when the callback is given the history.\<close>

definition section_post :: "bool \<Rightarrow> shard_view \<Rightarrow> shard_section \<Rightarrow> store_error + seen \<Rightarrow> shard_view \<Rightarrow> bool" where
  "section_post full v f r v' \<longleftrightarrow>
     (case r of
        Inr (c, rs) \<Rightarrow> c = fst v \<and> (full \<longrightarrow> map sr_record_json rs = snd v) \<and>
          (f c rs = Inr None \<and> v' = v \<or> (\<exists>c' l. f c rs = Inr (Some (c', l)) \<and> v' = (Some c', snd v @ [l])))
      | Inl _ \<Rightarrow> v' = v \<or>
          (\<exists>rs c' l. (full \<longrightarrow> map sr_record_json rs = snd v) \<and> f (fst v) rs = Inr (Some (c', l)) \<and> v' = (Some c', snd v @ [l])))"

definition section_ok :: "bool \<Rightarrow> shard_view \<Rightarrow> shard_section \<Rightarrow> bool" where
  "section_ok full v f \<longleftrightarrow>
     (\<forall>rs c' l. (full \<longrightarrow> map sr_record_json rs = snd v) \<longrightarrow> f (fst v) rs = Inr (Some (c', l)) \<longrightarrow>
        utf8_ok l \<and> hc_next_seq c' = length (snd v) + 1)"

locale shard_store =
  fixes S :: "'h \<Rightarrow> 's head_store" and ok :: "'s \<Rightarrow> bool" and view :: "'s \<Rightarrow> string \<Rightarrow> shard_view"
  assumes view_law: "ok s \<Longrightarrow> view_ok (view s sh)"
    and with_shard_law: "ok s \<Longrightarrow> section_ok True (view s sh) f \<Longrightarrow> hs_with_shard (S h) sh f s = (r, s') \<Longrightarrow>
      ok s' \<and> section_post True (view s sh) f r (view s' sh) \<and> (\<forall>t. t \<noteq> sh \<longrightarrow> view s' t = view s t)"
    and with_shard_head_law: "ok s \<Longrightarrow> section_ok False (view s sh) (\<lambda>c _. g c) \<Longrightarrow> hs_with_shard_head (S h) sh g s = (r, s') \<Longrightarrow>
      ok s' \<and> section_post False (view s sh) (\<lambda>c _. g c) r (view s' sh) \<and> (\<forall>t. t \<noteq> sh \<longrightarrow> view s' t = view s t)"
    and list_law: "ok s \<Longrightarrow> hs_list_shards (S h) s = (q, s') \<Longrightarrow>
      s' = s \<and> (\<forall>shs. q = Inr shs \<longrightarrow> sorted_wrt (<) shs \<and> (\<forall>sh. fst (view s sh) \<noteq> None \<longrightarrow> sh \<in> set shs))"

section \<open>In memory\<close>

definition memory_view :: "memory_heads \<Rightarrow> string \<Rightarrow> shard_view" where
  "memory_view s sh =
     (case bm_get (mhs_shards s) sh of None \<Rightarrow> (None, []) | Some st \<Rightarrow> (mh_cursor st, map sr_record_json (mh_records st)))"

definition memory_ok :: "memory_heads \<Rightarrow> bool" where
  "memory_ok s \<longleftrightarrow> bm_wf (mhs_shards s) \<and> (\<forall>sh. view_ok (memory_view s sh))"

lemma view_ok_Nil [simp]: "view_ok (None, [])"
  by (simp add: view_ok_def)

lemma view_ok_snoc: "hc_next_seq c = length ls + 1 \<Longrightarrow> view_ok (Some c, ls @ [l])"
  by (simp add: view_ok_def)

lemma no_pair: "(\<forall>a b. w \<noteq> Some (a, b)) \<longleftrightarrow> w = None"
  by (cases w) auto

lemma memory_section:
  assumes "memory_ok s" and "section_ok full (memory_view s sh) f" and "memory_with_shard sh f s = (r, s')"
  shows "memory_ok s' \<and> section_post full (memory_view s sh) f r (memory_view s' sh) \<and> (\<forall>t. t \<noteq> sh \<longrightarrow> memory_view s' t = memory_view s t)"
proof -
  let ?st = "unwrap_or new_memory_shard (bm_get (mhs_shards s) sh)"
  let ?s1 = "s\<lparr>mhs_shards := bm_insert sh ?st (mhs_shards s)\<rparr>"
  have v: "memory_view s sh = (mh_cursor ?st, map sr_record_json (mh_records ?st))"
    by (simp add: memory_view_def unwrap_or_def new_memory_shard_def split: option.split)
  have s1: "memory_view ?s1 t = memory_view s t" for t
    using v by (auto simp: memory_view_def unwrap_or_def split: option.splits)
  then have ok1: "memory_ok ?s1" using assms(1) by (simp add: memory_ok_def)
  have cases: "(isl r \<and> (s' = s \<or> s' = ?s1)) \<or> r = Inr (mh_cursor ?st, mh_records ?st) \<and>
      (f (mh_cursor ?st) (mh_records ?st) = Inr None \<and> s' = ?s1 \<or>
       (\<exists>c l. f (mh_cursor ?st) (mh_records ?st) = Inr (Some (c, l)) \<and>
          s' = ?s1\<lparr>mhs_shards := bm_insert sh (?st\<lparr>mh_records := mh_records ?st @ [\<lparr>sr_seq = hc_next_seq c - 1, sr_record_json = l\<rparr>],
                   mh_cursor := Some c\<rparr>) (mhs_shards ?s1)\<rparr>))"
    using assms(3) by (auto simp: no_pair memory_with_shard_def shard_lock_def s_simps Let_def res_guard_def split: if_splits option.splits)
  then consider "isl r" "s' = s \<or> s' = ?s1"
    | "r = Inr (mh_cursor ?st, mh_records ?st)" "f (mh_cursor ?st) (mh_records ?st) = Inr None" "s' = ?s1"
    | c l where "r = Inr (mh_cursor ?st, mh_records ?st)" "f (mh_cursor ?st) (mh_records ?st) = Inr (Some (c, l))"
        "s' = ?s1\<lparr>mhs_shards := bm_insert sh (?st\<lparr>mh_records := mh_records ?st @ [\<lparr>sr_seq = hc_next_seq c - 1, sr_record_json = l\<rparr>],
                   mh_cursor := Some c\<rparr>) (mhs_shards ?s1)\<rparr>"
    by blast
  then show ?thesis
  proof cases
    case 1
    then show ?thesis using assms(1) ok1 s1 by (auto simp: section_post_def split: sum.splits)
  next
    case 2
    then show ?thesis using ok1 s1 v by (simp add: section_post_def)
  next
    case (3 c l)
    have v': "memory_view s' sh = (Some c, snd (memory_view s sh) @ [l])" using 3(3) v by (simp add: memory_view_def)
    have o: "memory_view s' t = memory_view s t" if "t \<noteq> sh" for t using 3(3) s1 [of t] that by (simp add: memory_view_def)
    from assms(2) 3(2) v have "hc_next_seq c = length (snd (memory_view s sh)) + 1" by (fastforce simp: section_ok_def)
    then have "view_ok (memory_view s' t)" for t
      using o [of t] v' assms(1) view_ok_snoc by (cases "t = sh") (auto simp: memory_ok_def)
    moreover have "bm_wf (mhs_shards s')" using 3(3) assms(1) by (simp add: memory_ok_def)
    ultimately show ?thesis using o v' 3 v by (simp add: memory_ok_def section_post_def)
  qed
qed

interpretation volatile: shard_store "\<lambda>_ :: unit. memory_store" memory_ok memory_view
proof
  fix s sh assume "memory_ok s"
  then show "view_ok (memory_view s sh)" by (simp add: memory_ok_def)
next
  fix s sh f h r s' assume "memory_ok s" "section_ok True (memory_view s sh) f" "hs_with_shard memory_store sh f s = (r, s')"
  then show "memory_ok s' \<and> section_post True (memory_view s sh) f r (memory_view s' sh) \<and> (\<forall>t. t \<noteq> sh \<longrightarrow> memory_view s' t = memory_view s t)"
    using memory_section [of s True sh f r s'] by (simp add: memory_store_def)
next
  fix s sh g h r s' assume "memory_ok s" "section_ok False (memory_view s sh) (\<lambda>c _. g c)" "hs_with_shard_head memory_store sh g s = (r, s')"
  then show "memory_ok s' \<and> section_post False (memory_view s sh) (\<lambda>c _. g c) r (memory_view s' sh) \<and>
      (\<forall>t. t \<noteq> sh \<longrightarrow> memory_view s' t = memory_view s t)"
    using memory_section [of s False sh "\<lambda>c _. g c" r s'] by (simp add: memory_store_def memory_with_shard_head_def)
next
  fix s h q s' assume a: "memory_ok s" "hs_list_shards memory_store s = (q, s')"
  have "sorted_wrt (<) (map fst (filter P (mhs_shards s)))" for P
    using a(1) bm_wf_filter by (auto simp: memory_ok_def bm_wf_def)
  moreover have "sh \<in> fst ` set (filter (\<lambda>(_, st). mh_cursor st \<noteq> None) (mhs_shards s))" if "fst (memory_view s sh) \<noteq> None" for sh
    using that a(1) by (force simp: memory_view_def memory_ok_def bm_get_eq_Some split: option.splits)
  ultimately show "s' = s \<and> (\<forall>shs. q = Inr shs \<longrightarrow> sorted_wrt (<) shs \<and> (\<forall>sh. fst (memory_view s sh) \<noteq> None \<longrightarrow> sh \<in> set shs))"
    using a(2) by (auto simp: memory_store_def memory_list_shards_def split: if_splits)
qed

section \<open>On file\<close>

definition file_heads :: "head_ext \<Rightarrow> string \<Rightarrow> disk \<Rightarrow> string \<Rightarrow> shard_view" where
  "file_heads hx root d sh =
     (case shard_files_of root sh of
        Inl _ \<Rightarrow> (None, [])
      | Inr fs \<Rightarrow> (case disk_view hx d fs of None \<Rightarrow> (None, []) | Some v \<Rightarrow> v))"

definition heads_ok :: "head_ext \<Rightarrow> string \<Rightarrow> disk \<Rightarrow> bool" where
  "heads_ok hx root d \<longleftrightarrow> head_laws hx \<and> is_dir d root \<and>
     (\<forall>sh fs. shard_files_of root sh = Inr fs \<longrightarrow> (\<exists>v. disk_view hx d fs = Some v \<and> view_ok v))"

text \<open>Sections create no directory.\<close>

named_theorems keeps_dirs \<open>operations that leave the directories\<close>

definition dirs_kept :: "'a hdk \<Rightarrow> bool" where
  "dirs_kept m \<longleftrightarrow> (\<forall>d r d'. m d = (r, d') \<longrightarrow> d_dirs d' = d_dirs d)"

lemma dirs_kept_basic [keeps_dirs]:
  "dirs_kept (s_ret a)" "dirs_kept (s_fail e)" "dirs_kept (s_look f)" "dirs_kept (h_step io op p)"
  "dirs_kept (h_upd (put_file p b))" "dirs_kept (h_upd (\<lambda>d. if file_at d p = None then put_file p b d else d))"
  "dirs_kept (append_bytes io p w b)"
  by (auto simp: dirs_kept_def s_simps h_step_def h_upd_def append_bytes_def Let_def split: option.splits if_splits)

lemma dirs_kept_bind [keeps_dirs]: "dirs_kept m \<Longrightarrow> (\<And>a. dirs_kept (f a)) \<Longrightarrow> dirs_kept (s_bind m f)"
  unfolding dirs_kept_def s_bind_eq by metis

lemma dirs_kept_if [keeps_dirs]: "(b \<Longrightarrow> dirs_kept m) \<Longrightarrow> (\<not> b \<Longrightarrow> dirs_kept n) \<Longrightarrow> dirs_kept (if b then m else n)"
  by simp

lemma dirs_kept_write_store [keeps_dirs]: "dirs_kept (write_store io p b)"
  unfolding dirs_kept_def write_store_def write_atomic_def sync_dir_def
  by (auto simp: s_simps)

lemma dirs_kept_write_head [keeps_dirs]: "dirs_kept (write_head hx io p h)"
  by (simp add: write_head_def keeps_dirs split: sum.split)

lemma dirs_kept_append_lines [keeps_dirs]: "dirs_kept (append_lines io p w ls)"
  by (induction ls arbitrary: w) (auto intro!: keeps_dirs)

lemma dirs_kept_append_log [keeps_dirs]: "dirs_kept (append_log io p n ls)"
  unfolding append_log_def by (intro keeps_dirs)

lemma dirs_kept_commit [keeps_dirs]: "dirs_kept (commit hx pl fs ld c l)"
  unfolding commit_def Let_def
  by (intro dirs_kept_bind) (auto intro!: keeps_dirs split: option.split beside.split)

lemma dirs_kept_section: "dirs_kept (file_section hx pl root sh full f)"
  unfolding file_section_def with_shard_lock_def Let_def
  by (intro keeps_dirs) (auto intro!: keeps_dirs split: option.split)

text \<open>Another shard's files are not among those a section writes.\<close>

lemma own_other: "shard_files_of root t = Inr fs \<Longrightarrow> t \<noteq> sh \<Longrightarrow>
    \<not> own root sh (shf_shard_file fs) \<and> \<not> own root sh (shf_head fs) \<and> \<not> own root sh (shf_log fs)"
  by (auto simp: own_def shard_files_of_Inr shard_path_eq)

lemma with_shard_lock_cases:
  assumes "with_shard_lock io p m d = (r, d')"
  shows "isl r \<and> (d' = d \<or> d' = (if file_at d (with_extension p ''lock'') = None then put_file (with_extension p ''lock'') [] d else d)) \<or>
    m (if file_at d (with_extension p ''lock'') = None then put_file (with_extension p ''lock'') [] d else d) = (r, d')"
  using assms by (auto simp: with_shard_lock_def Let_def s_simps h_step_def h_upd_def split: option.splits)

lemma file_section_cases:
  assumes "file_section hx pl root sh full f d = (r, d')" and "shard_files_of root sh = Inr fs"
  shows "\<exists>d1. disk_view hx d1 fs = disk_view hx d fs \<and> keeps_others root sh d d1 \<and>
    (isl r \<and> (d' = d \<or> d' = d1) \<or>
     (\<exists>ld. load hx (pl 0) d1 fs full = Inr ld \<and>
       (f (ld_cursor ld) (ld_records ld) = Inr None \<and> r = Inr (ld_cursor ld, ld_records ld) \<and> d' = d1 \<or>
        (\<exists>c l r2. f (ld_cursor ld) (ld_records ld) = Inr (Some (c, l)) \<and> commit hx pl fs ld c l d1 = (r2, d') \<and>
           (case r2 of Inl e \<Rightarrow> r = Inl e | Inr _ \<Rightarrow> r = Inr (ld_cursor ld, ld_records ld))))))"
proof -
  note p = shard_files_paths [OF assms(2)]
  let ?lock = "shard_path root sh ''lock''"
  let ?d1 = "if file_at d ?lock = None then put_file ?lock [] d else d"
  have k: "keeps_others root sh d ?d1" by (simp add: own_def)
  have v: "disk_view hx ?d1 fs = disk_view hx d fs" by (rule disk_view_cong) (simp_all add: p shard_path_eq)
  let ?body = "s_bind (s_look (\<lambda>d. load hx (pl 0) d fs full)) (\<lambda>ld.
        s_bind (s_look (\<lambda>_. f (ld_cursor ld) (ld_records ld))) (\<lambda>w.
        s_bind (case w of Some (c, l) \<Rightarrow> commit hx pl fs ld c l | None \<Rightarrow> s_ret ()) (\<lambda>_.
        s_ret (ld_cursor ld, ld_records ld))))"
  from assms have "with_shard_lock (pl 0) (shf_shard_file fs) ?body d = (r, d')"
    unfolding file_section_def s_bind_def [of "s_look _"] by (simp add: s_look_def)
  from with_shard_lock_cases [OF this] have "isl r \<and> (d' = d \<or> d' = ?d1) \<or> ?body ?d1 = (r, d')"
    unfolding p(4) .
  then show ?thesis
  proof
    assume "isl r \<and> (d' = d \<or> d' = ?d1)"
    with k v show ?thesis by blast
  next
    assume b: "?body ?d1 = (r, d')"
    show ?thesis
    proof (cases "load hx (pl 0) ?d1 fs full")
      case (Inl e)
      with b have "isl r \<and> d' = ?d1" by (auto simp: s_simps)
      with k v show ?thesis by blast
    next
      case (Inr ld)
      show ?thesis
      proof (cases "f (ld_cursor ld) (ld_records ld)")
        case (Inl e)
        with b Inr have "isl r \<and> d' = ?d1" by (auto simp: s_simps)
        with k v show ?thesis by blast
      next
        case w: (Inr w)
        show ?thesis
        proof (cases w)
          case None
          with b Inr w have "r = Inr (ld_cursor ld, ld_records ld) \<and> d' = ?d1" by (auto simp: s_simps)
          with k v Inr w None show ?thesis by blast
        next
          case (Some cl)
          obtain c l where cl: "cl = (c, l)" by force
          obtain r2 d2 where c: "commit hx pl fs ld c l ?d1 = (r2, d2)" by force
          with b Inr w Some cl have "d' = d2" "case r2 of Inl e \<Rightarrow> r = Inl e | Inr _ \<Rightarrow> r = Inr (ld_cursor ld, ld_records ld)"
            by (auto simp: s_simps split: sum.splits)
          with k v Inr w Some cl c show ?thesis by blast
        qed
      qed
    qed
  qed
qed

lemma load_seen:
  assumes "load hx io d fs full = Inr ld" and "disk_view hx d fs = Some v"
  shows "ld_cursor ld = fst v" and "full \<Longrightarrow> map sr_record_json (ld_records ld) = snd v"
proof -
  have e: "disk_view hx d fs = view_of (ld_beside ld) (ld_head ld) (file_at d (shf_log fs))"
    by (rule disk_view_eq) (use load_files [OF assms(1)] in simp_all)
  with assms(2) view_cursor show "ld_cursor ld = fst v" by metis
  show "full \<Longrightarrow> map sr_record_json (ld_records ld) = snd v" using assms e load_view [of hx io d fs ld] by auto
qed

lemma file_section_law:
  assumes ok: "heads_ok hx root d" and f: "section_ok full (file_heads hx root d sh) f"
    and w: "file_section hx pl root sh full f d = (r, d')"
  shows "heads_ok hx root d' \<and> section_post full (file_heads hx root d sh) f r (file_heads hx root d' sh) \<and>
    (\<forall>t. t \<noteq> sh \<longrightarrow> file_heads hx root d' t = file_heads hx root d t)"
proof (cases "shard_files_of root sh")
  case (Inl e)
  with w have "isl r" "d' = d" by (auto simp: file_section_def s_simps)
  with ok show ?thesis by (auto simp: section_post_def split: sum.splits)
next
  case (Inr fs)
  from ok Inr obtain v where v: "disk_view hx d fs = Some v" "view_ok v" and laws: "head_laws hx" unfolding heads_ok_def by blast
  have hv: "file_heads hx root d sh = v" using Inr v by (simp add: file_heads_def)
  from file_section_cases [OF w Inr] obtain d1 where d1: "disk_view hx d1 fs = Some v" "keeps_others root sh d d1"
    and c: "isl r \<and> (d' = d \<or> d' = d1) \<or>
     (\<exists>ld. load hx (pl 0) d1 fs full = Inr ld \<and>
       (f (ld_cursor ld) (ld_records ld) = Inr None \<and> r = Inr (ld_cursor ld, ld_records ld) \<and> d' = d1 \<or>
        (\<exists>c l r2. f (ld_cursor ld) (ld_records ld) = Inr (Some (c, l)) \<and> commit hx pl fs ld c l d1 = (r2, d') \<and>
           (case r2 of Inl e \<Rightarrow> r = Inl e | Inr _ \<Rightarrow> r = Inr (ld_cursor ld, ld_records ld)))))" using v(1) by auto
  have main: "(\<exists>v'. disk_view hx d' fs = Some v' \<and> view_ok v' \<and> section_post full v f r v') \<and> keeps_others root sh d d'"
    using c
  proof (elim disjE conjE exE)
    fix ld assume a: "load hx (pl 0) d1 fs full = Inr ld" "f (ld_cursor ld) (ld_records ld) = Inr None"
      "r = Inr (ld_cursor ld, ld_records ld)" "d' = d1"
    with load_seen [OF a(1) d1(1)] d1 v show ?thesis by (auto simp: section_post_def)
  next
    fix ld c l r2 assume a: "load hx (pl 0) d1 fs full = Inr ld" "f (ld_cursor ld) (ld_records ld) = Inr (Some (c, l))"
      "commit hx pl fs ld c l d1 = (r2, d')" "case r2 of Inl e \<Rightarrow> r = Inl e | Inr _ \<Rightarrow> r = Inr (ld_cursor ld, ld_records ld)"
    note seen = load_seen [OF a(1) d1(1)]
    then have "full \<longrightarrow> map sr_record_json (ld_records ld) = snd v" by blast
    with f [unfolded section_ok_def hv] a(2) [unfolded seen(1)] have fl: "utf8_ok l" "hc_next_seq c = length (snd v) + 1"
      by (auto dest: spec)
    note ca = commit_atomic [OF Inr laws a(1) d1(1) fl a(3)]
    have k: "keeps_others root sh d d'" using ca d1(2) by simp
    from ca have "disk_view hx d' fs = Some (Some c, snd v @ [l]) \<or> isl r2 \<and> disk_view hx d' fs = Some v" by blast
    then show ?thesis
    proof
      assume "disk_view hx d' fs = Some (Some c, snd v @ [l])"
      moreover have "section_post full v f r (Some c, snd v @ [l])"
        using a(2,4) seen by (cases r2) (auto simp: section_post_def)
      ultimately show ?thesis using k view_ok_snoc [OF fl(2)] by blast
    next
      assume "isl r2 \<and> disk_view hx d' fs = Some v"
      with a(4) k v(2) show ?thesis by (cases r2) (auto simp: section_post_def)
    qed
  qed (use d1 v in \<open>auto simp: section_post_def split: sum.splits\<close>)
  then obtain v' where v': "disk_view hx d' fs = Some v'" "view_ok v'" "section_post full v f r v'" and k: "keeps_others root sh d d'" by blast
  have other: "disk_view hx d' gs = disk_view hx d gs" if "shard_files_of root t = Inr gs" "t \<noteq> sh" for t gs
    by (rule disk_view_cong) (use k own_other [OF that] in simp_all)
  have dir: "is_dir d' root" using ok dirs_kept_section w unfolding dirs_kept_def is_dir_def heads_ok_def by metis
  have "\<exists>u. disk_view hx d' gs = Some u \<and> view_ok u" if "shard_files_of root t = Inr gs" for t gs
  proof (cases "t = sh")
    case True
    with that Inr v' show ?thesis by auto
  next
    case False
    with ok that other [OF that] show ?thesis by (auto simp: heads_ok_def)
  qed
  then have "heads_ok hx root d'" using laws dir by (simp add: heads_ok_def)
  moreover have "file_heads hx root d' t = file_heads hx root d t" if "t \<noteq> sh" for t
    using other [OF _ that] by (simp add: file_heads_def split: sum.split)
  moreover have "file_heads hx root d' sh = v'" using Inr v' by (simp add: file_heads_def)
  ultimately show ?thesis using v'(3) hv by simp
qed

section \<open>Listing\<close>

lemma data_file_of_own [simp]:
  "data_file_of (stem @ ''.head'') = Some (stem, HeadFile)" "data_file_of (stem @ ''.shard'') = Some (stem, ShardFile)"
  by (simp_all add: data_file_of_def strip_suffix_def)

lemma list_loop_keeps: "list_loop hx io d root out names = Inr shs \<Longrightarrow> set out \<subseteq> set shs"
  by (induction names arbitrary: out) (fastforce simp: res_simps split: option.splits if_splits)+

lemma list_loop_lists:
  assumes "list_loop hx io d root out names = Inr shs" and "name \<in> set names" and "data_file_of name = Some (shard_to_hex sh, kind)"
    and "shard_files_of root sh = Inr fs" and "\<And>b. lists_shard hx io d fs kind = Inr b \<Longrightarrow> b"
    and "\<And>t. shard_from_hex (shard_to_hex sh) = Inr t \<Longrightarrow> t = sh"
  shows "sh \<in> set shs"
  using assms(1,2)
proof (induction names arbitrary: out)
  case (Cons n names)
  show ?case
  proof (cases "name = n")
    case True
    with Cons.prems(1) assms(3-6) have "list_loop hx io d root (sh # out) names = Inr shs" by (force simp: res_simps)
    from list_loop_keeps [OF this] show ?thesis by simp
  next
    case False
    with Cons.prems obtain out' where "list_loop hx io d root out' names = Inr shs"
      by (auto simp: res_simps split: option.splits)
    with Cons.IH False Cons.prems(2) show ?thesis by auto
  qed
qed simp

lemma to_digit16_nibble: "n < 16 \<Longrightarrow> to_digit16 (nibble n) = Some n"
  by (simp add: to_digit16_def nibble_def Let_def)

lemma hex_pairs_to_hex: "hex_pairs (shard_to_hex s) = Some s"
proof (induction s)
  case (Cons c s)
  have "(of_char c :: nat) div 16 < 16" using of_char_less [of c] by (simp add: less_mult_imp_div_less)
  with Cons show ?case by (simp add: shard_to_hex_def to_digit16_nibble)
qed (simp add: shard_to_hex_def)

lemma shard_from_hex_to_hex: "shard_from_hex (shard_to_hex s) = (if utf8_ok s then Inr s else Inl (SInvalid (StemNotUtf8 (shard_to_hex s))))"
  by (simp add: shard_from_hex_def hex_pairs_to_hex) (simp add: shard_to_hex_encode)

lemma lists_own:
  assumes "disk_view hx d fs = Some v" and "fst v \<noteq> None" and "shard_files_of root sh = Inr fs"
  shows "\<exists>e kind. file_at d (shard_path root sh e) \<noteq> None \<and> (e, kind) \<in> {(''head'', HeadFile), (''shard'', ShardFile)} \<and>
    (\<forall>b. lists_shard hx io d fs kind = Inr b \<longrightarrow> b)"
proof -
  from assms(1) obtain b h where bh: "beside_of hx (file_at d (shf_shard_file fs)) = Some b" "head_file hx (file_at d (shf_head fs)) = Some h"
    "view_of b h (file_at d (shf_log fs)) = Some v" by (auto simp: disk_view_def Option.bind_eq_Some_conv)
  have listed: "head_listed hx io d fs = Inr l \<Longrightarrow> l = (\<exists>x. h = Some x \<and> fh_cursor x \<noteq> None)" for l
    using bh(2) by (auto simp: head_listed_def res_simps head_file_def dest!: read_head_Inr split: option.splits sum.splits)
  show ?thesis
  proof (cases h)
    case (Some x)
    with bh(3) assms(2) have "fh_cursor x \<noteq> None" by (auto simp: view_of_def split: option.splits beside.splits if_splits)
    moreover have "file_at d (shf_head fs) \<noteq> None" using bh(2) Some by (auto simp: head_file_def split: option.splits)
    ultimately show ?thesis using listed Some shard_files_paths(2) [OF assms(3)]
      by (intro exI [of _ "''head''"] exI [of _ HeadFile]) (auto simp: lists_shard_def)
  next
    case None
    with bh(3) assms(2) obtain old where old: "b = Earlier old" "lg_cursor old \<noteq> None"
      by (auto simp: view_of_def split: beside.splits if_splits)
    with bh(1) have "file_at d (shf_shard_file fs) \<noteq> None" by (auto simp: beside_of_def split: option.splits)
    moreover have "l" if "lists_shard hx io d fs ShardFile = Inr l" for l
    proof -
      from that listed None have "read_beside hx io d (shf_shard_file fs) = Inr b' \<Longrightarrow> b' = b" for b' using read_beside_Inr bh(1) by fastforce
      with that listed None old show ?thesis by (auto simp: lists_shard_def res_simps split: if_splits)
    qed
    ultimately show ?thesis using shard_files_paths(1) [OF assms(3)]
      by (intro exI [of _ "''shard''"] exI [of _ ShardFile]) auto
  qed
qed

lemma map_filter_member: "x \<in> set xs \<Longrightarrow> f x = Some y \<Longrightarrow> y \<in> set (List.map_filter f xs)"
  by (induction xs) (auto simp: List.map_filter_simps split: option.split)

lemma file_list_complete:
  assumes "heads_ok hx root d" and "file_list_shards hx io root d = (Inr shs, d')" and "fst (file_heads hx root d sh) \<noteq> None"
  shows "sh \<in> set shs"
proof -
  from assms(3) obtain fs v where v: "shard_files_of root sh = Inr fs" "disk_view hx d fs = Some v" "fst v \<noteq> None"
    by (auto simp: file_heads_def split: sum.splits option.splits)
  from lists_own [OF v(2,3,1)] obtain e kind where k: "file_at d (shard_path root sh e) \<noteq> None"
    "(e, kind) \<in> {(''head'', HeadFile), (''shard'', ShardFile)}" "\<And>b. lists_shard hx io d fs kind = Inr b \<Longrightarrow> b" by blast
  let ?name = "shard_to_hex sh @ CHR ''.'' # e"
  have dir: "is_dir d root" using assms(1) by (simp add: heads_ok_def)
  with assms(2) obtain names raw where n: "read_dir io d root = Inr names" "list_loop hx io d root [] names = Inr raw" "shs = bs_of_list raw"
    by (auto simp: file_list_shards_def s_simps res_simps list_named_def)
  have "shard_path root sh e \<in> fst ` set (d_files d)" using k(1) by (force simp: file_at_def dest: bm_get_SomeD)
  moreover have "entry_name root (shard_path root sh e) = Some ?name"
    unfolding shard_path_def by (rule entry_name_join) (use k(2) hex_plain in auto)
  ultimately have "?name \<in> set (List.map_filter (entry_name root) (map fst (d_files d) @ d_dirs d))"
    by (intro map_filter_member) simp_all
  with n(1) have "?name \<in> set names" by (auto simp: read_dir_def split: option.splits if_splits)
  moreover have "data_file_of ?name = Some (shard_to_hex sh, kind)" using k(2) by auto
  moreover have "shard_from_hex (shard_to_hex sh) = Inr t \<Longrightarrow> t = sh" for t by (auto simp: shard_from_hex_to_hex split: if_splits)
  ultimately have "sh \<in> set raw" by (intro list_loop_lists [OF n(2) _ _ v(1) k(3)])
  then show ?thesis using n(3) by simp
qed

interpretation durable_heads: shard_store "file_store hx root" "heads_ok hx root" "file_heads hx root" for hx root
proof
  fix d sh assume "heads_ok hx root d"
  then show "view_ok (file_heads hx root d sh)" unfolding heads_ok_def file_heads_def by (force split: sum.splits)
next
  fix d sh f pl r d'
  assume "heads_ok hx root d" "section_ok True (file_heads hx root d sh) f" "hs_with_shard (file_store hx root pl) sh f d = (r, d')"
  then show "heads_ok hx root d' \<and> section_post True (file_heads hx root d sh) f r (file_heads hx root d' sh) \<and>
      (\<forall>t. t \<noteq> sh \<longrightarrow> file_heads hx root d' t = file_heads hx root d t)"
    using file_section_law [of hx root d True sh f pl r d'] by (simp add: file_store_def)
next
  fix d sh g pl r d'
  assume "heads_ok hx root d" "section_ok False (file_heads hx root d sh) (\<lambda>c _. g c)" "hs_with_shard_head (file_store hx root pl) sh g d = (r, d')"
  then show "heads_ok hx root d' \<and> section_post False (file_heads hx root d sh) (\<lambda>c _. g c) r (file_heads hx root d' sh) \<and>
      (\<forall>t. t \<noteq> sh \<longrightarrow> file_heads hx root d' t = file_heads hx root d t)"
    using file_section_law [of hx root d False sh "\<lambda>c _. g c" pl r d'] by (simp add: file_store_def)
next
  fix d pl q d' assume a: "heads_ok hx root d" "hs_list_shards (file_store hx root pl) d = (q, d')"
  then have l: "file_list_shards hx (pl 0) root d = (q, d')" by (simp add: file_store_def)
  have "sorted_wrt (<) shs" if "q = Inr shs" for shs
    using l that by (auto simp: file_list_shards_def s_simps res_simps list_named_def sorted_bs_of_list split: if_splits)
  moreover have "d' = d" using l by (simp add: file_list_shards_def s_simps)
  ultimately show "d' = d \<and> (\<forall>shs. q = Inr shs \<longrightarrow> sorted_wrt (<) shs \<and> (\<forall>sh. fst (file_heads hx root d sh) \<noteq> None \<longrightarrow> sh \<in> set shs))"
    using l file_list_complete [OF a(1)] by blast
qed

end
