(* ===== verification/Demo_Head.thy ===== *)
theory Demo_Head
  imports Head_Commit Demo_Ext
begin

text \<open>
  A concrete instance of serde on a head store's files, and an empty store: heads are lists of
  fields with their numbers in unary, the marker is one letter, and no earlier format is read.
\<close>

definition tally :: "nat \<Rightarrow> string" where
  "tally n = replicate n (CHR ''I'') @ [comma]"

definition take_tally :: "string \<Rightarrow> nat \<times> string" where
  "take_tally s = (let h = takeWhile (\<lambda>c. c \<noteq> comma) s in (length h, drop (Suc (length h)) s))"

lemma take_tally_tally [simp]: "take_tally (tally n @ s) = (n, s)"
proof -
  have "takeWhile (\<lambda>c. c \<noteq> comma) (replicate n (CHR ''I'') @ comma # s) = replicate n (CHR ''I'')"
    by (subst takeWhile_append2) (auto simp: comma_def)
  then show ?thesis by (simp add: take_tally_def tally_def)
qed

fun demo_spans :: "key_span list \<Rightarrow> string" where
  "demo_spans [] = ''''"
| "demo_spans (k # ks) = field (ks_kid k) @ tally (ks_first_seq k) @ demo_spans ks"

fun demo_parse_spans :: "nat \<Rightarrow> string \<Rightarrow> key_span list option" where
  "demo_parse_spans 0 s = Some []"
| "demo_parse_spans (Suc n) s =
     Option.bind (take_field s) (\<lambda>(kid, s1). (case take_tally s1 of (q, s2) \<Rightarrow>
       map_option ((#) \<lparr>ks_kid = kid, ks_first_seq = q\<rparr>) (demo_parse_spans n s2)))"

lemma demo_parse_spans [simp]: "demo_parse_spans (length ks) (demo_spans ks) = Some ks"
  by (induction ks) simp_all

definition demo_print_head :: "file_head \<Rightarrow> string + bytes" where
  "demo_print_head h = Inr (tally (fh_log_len h) @
     (case fh_cursor h of
        None \<Rightarrow> ''''
      | Some c \<Rightarrow> tally (hc_next_seq c) @ field (hc_last_hash c) @
          (case hc_signers c of None \<Rightarrow> '''' | Some g \<Rightarrow> tally (sg_through g) @ tally (length (sg_spans g)) @ demo_spans (sg_spans g))))"

definition demo_head :: "bytes \<Rightarrow> string + file_head" where
  "demo_head s =
     (case take_tally s of (n, s1) \<Rightarrow>
        if s1 = [] then Inr \<lparr>fh_cursor = None, fh_log_len = n\<rparr>
        else (case take_tally s1 of (q, s2) \<Rightarrow>
          (case take_field s2 of
             None \<Rightarrow> Inl ''hash''
           | Some (h, s3) \<Rightarrow>
               if s3 = [] then Inr \<lparr>fh_cursor = Some \<lparr>hc_next_seq = q, hc_last_hash = h, hc_signers = None\<rparr>, fh_log_len = n\<rparr>
               else (case take_tally s3 of (t, s4) \<Rightarrow> (case take_tally s4 of (k, s5) \<Rightarrow>
                 (case demo_parse_spans k s5 of
                    None \<Rightarrow> Inl ''spans''
                  | Some sp \<Rightarrow> Inr \<lparr>fh_cursor = Some \<lparr>hc_next_seq = q, hc_last_hash = h,
                      hc_signers = Some \<lparr>sg_through = t, sg_spans = sp\<rparr>\<rparr>, fh_log_len = n\<rparr>))))))"

definition demo_head_ext :: head_ext where
  "demo_head_ext = \<lparr>hx_value = (\<lambda>b. if b = ''M'' then Inr (JObject [(''records'', JString ''moved'')]) else Inl ''not a marker''),
     hx_legacy = (\<lambda>_. Inl ''not an earlier shard''), hx_head = demo_head, hx_print_head = demo_print_head, hx_moved = ''M''\<rparr>"

lemma tally_Nil [simp]: "tally n \<noteq> []" "field b \<noteq> []"
  by (simp_all add: tally_def field_def)

lemma demo_head_round: "demo_print_head h = Inr b \<Longrightarrow> demo_head b = Inr h"
  using take_tally_tally [of "fh_log_len h" "[]"] take_field_field [of _ "[]"]
  by (cases h; cases "fh_cursor h"; cases "hc_signers (the (fh_cursor h))")
    (auto simp: demo_print_head_def demo_head_def)

lemma demo_head_laws: "head_laws demo_head_ext"
  using demo_head_round by (auto simp: head_laws_def demo_head_ext_def is_marker_def jget_def)

definition demo_root :: disk where
  "demo_root = \<lparr>d_files = [], d_dirs = [''h''], d_locks = []\<rparr>"

lemma demo_heads_ok: "heads_ok demo_head_ext ''h'' demo_root"
  using demo_head_laws
  by (auto simp: heads_ok_def demo_root_def is_dir_def disk_view_def file_at_def beside_of_def head_file_def view_of_def view_ok_def)

lemma demo_heads_empty [simp]: "file_heads demo_head_ext ''h'' demo_root sh = (None, [])"
  by (auto simp: file_heads_def demo_root_def disk_view_def file_at_def beside_of_def head_file_def view_of_def split: sum.splits)

lemma demo_prints: "\<exists>b. hx_print_head demo_head_ext h = Inr b"
  by (simp add: demo_head_ext_def demo_print_head_def)

end
