(* ===== verification/Head_Live.thy ===== *)
theory Head_Live
  imports Head_Commit Demo_Head
begin

text \<open>
  The head store when no call fails: every read finds what the files hold, and a section whose
  callback gives a line commits it.
\<close>

section \<open>Without faults\<close>

abbreviation calm :: stages where
  "calm \<equiv> \<lambda>_. no_faults"

lemma h_step_calm [simp]: "h_step no_faults op p d = (Inr (), d)"
  by (simp add: h_step_def s_err_def io_step_def no_faults_def)

lemma write_store_calm: "fst (write_store no_faults p b d) = Inr ()"
  by (simp add: write_store_def write_atomic_def s_bind_def s_err_def io_step_def d_upd_def sync_dir_def no_faults_def)

lemma write_head_calm: "hx_print_head hx h = Inr b \<Longrightarrow> fst (write_head hx no_faults p h d) = Inr ()"
  by (simp add: write_head_def write_store_calm)

lemma append_lines_calm: "\<forall>l \<in> set ls. nl \<notin> set l \<Longrightarrow> \<exists>n d'. append_lines no_faults p w ls d = (Inr n, d')"
  by (induction ls arbitrary: w d) (auto simp: s_simps append_bytes_def no_faults_def Let_def)

lemma append_log_calm:
  assumes "\<forall>l \<in> set ls. nl \<notin> set l" and "n \<le> length (unwrap_or [] (file_at d p))"
    and "n = 0 \<or> unwrap_or [] (file_at d p) ! (n - 1) = nl"
  shows "\<exists>k d'. append_log no_faults p n ls d = (Inr k, d')"
proof -
  define d0 where "d0 = (if file_at d p = None then put_file p [] d else d)"
  have f: "unwrap_or [] (file_at d0 p) = unwrap_or [] (file_at d p)" by (auto simp: unwrap_or_def d0_def)
  obtain k d' where "append_lines no_faults p 0 ls (if n < length (unwrap_or [] (file_at d0 p)) then
      put_file p (take n (unwrap_or [] (file_at d0 p))) d0 else d0) = (Inr k, d')" using append_lines_calm [OF assms(1)] by blast
  then show ?thesis using assms(2,3) unfolding f [symmetric]
    by (simp add: append_log_def s_bind_def s_look_def s_ret_def h_upd_def res_guard_def flip: d0_def split: if_splits)
qed

lemma prepare_calm:
  assumes "\<forall>h. \<exists>b. hx_print_head hx h = Inr b"
  shows "\<exists>x d'. prepare hx calm fs ld d = (Inr x, d')"
proof -
  have w: "\<exists>d'. write_store no_faults p b d = (Inr (), d')" for p b d
    using write_store_calm [of p b d] by (metis prod.collapse)
  have h: "\<exists>d'. write_head hx no_faults p h d = (Inr (), d')" for p h d
    using write_head_calm [of hx h _ p d] assms by (metis prod.collapse)
  obtain d1 where m: "(if ld_beside ld = Marker then s_ret () else write_store no_faults (shf_shard_file fs) (hx_moved hx)) d = (Inr (), d1)"
    using w [of "shf_shard_file fs" "hx_moved hx" d] by (cases "ld_beside ld = Marker") (auto simp: s_ret_def)
  obtain d2 where e: "write_head hx no_faults (shf_head fs) empty_head d1 = (Inr (), d2)" using h by blast
  have "\<exists>n ls cv d'. prepare hx calm fs ld d = (Inr (n, ls, cv), d')" using m e
    by (cases "ld_head ld"; cases "ld_beside ld") (auto simp: prepare_def Let_def s_bind_def s_ret_def)
  then show ?thesis by blast
qed

lemma commit_calm:
  assumes fs: "shard_files_of root s = Inr fs" and laws: "head_laws hx" and ld: "load hx io d fs history = Inr ld"
    and v: "disk_view hx d fs = Some v" and pr: "\<forall>h. \<exists>b. hx_print_head hx h = Inr b" and ls: "\<forall>l \<in> set (snd v @ [line]). nl \<notin> set l"
  shows "\<exists>d'. commit hx calm fs ld c line d = (Inr (), d')"
proof -
  obtain n es cv d1 where p: "prepare hx calm fs ld d = (Inr (n, es, cv), d1)" using prepare_calm [OF pr] by (metis prod_cases3)
  from prepare_outcome [OF fs laws ld v p] have v1: "disk_view hx d1 fs = Some v" and rd: "ready hx d1 fs n es cv" by auto
  have g: "n \<le> length (unwrap_or [] (file_at d1 (shf_log fs))) \<and>
      (n = 0 \<or> unwrap_or [] (file_at d1 (shf_log fs)) ! (n - 1) = nl) \<and> set es \<subseteq> set (snd v)"
  proof (cases cv)
    case True
    with rd v1 show ?thesis by (auto simp: ready_def disk_view_def view_of_def)
  next
    case False
    with rd obtain h where h: "head_file hx (file_at d1 (shf_head fs)) = Some (Some h)"
      "beside_of hx (file_at d1 (shf_shard_file fs)) = Some Marker" "n = fh_log_len h" "es = []" by (auto simp: ready_def)
    with v1 obtain ls' where l: "log_of (file_at d1 (shf_log fs)) h = Some ls'"
      by (auto simp: disk_view_def view_of_def split: option.splits)
    let ?b = "unwrap_or [] (file_at d1 (shf_log fs))"
    from l have n: "n \<le> length ?b" "ends_nl (take n ?b)" using h(3) by (auto simp: log_of_def Let_def split: if_splits)
    have "n = 0 \<or> ?b ! (n - 1) = nl"
    proof (cases "n = 0")
      case False
      with n(1) have ne: "take n ?b \<noteq> []" by auto
      then have "last (take n ?b) = ?b ! (n - 1)" using n(1) False by (simp add: last_conv_nth min_def)
      with ne n(2) show ?thesis by (simp add: ends_nl_def)
    qed simp
    with n(1) h(4) show ?thesis by simp
  qed
  then have "\<forall>l \<in> set (es @ [line]). nl \<notin> set l" using ls by auto
  then obtain k d2 where a: "append_log no_faults (shf_log fs) n (es @ [line]) d1 = (Inr k, d2)" using append_log_calm g by blast
  obtain d3 where h: "write_head hx no_faults (shf_head fs) \<lparr>fh_cursor = Some c, fh_log_len = k\<rparr> d2 = (Inr (), d3)"
    using write_head_calm pr by (metis prod.collapse)
  obtain d4 where "write_store no_faults (shf_shard_file fs) (hx_moved hx) d3 = (Inr (), d4)"
    using write_store_calm by (metis prod.collapse)
  with p a h show ?thesis by (cases cv) (simp_all add: commit_alt s_bind_def s_ret_def)
qed

lemma read_log_calm: "log_of (file_at d p) h = Some ls \<Longrightarrow> read_log no_faults d p h = Inr (number_records ls)"
  by (auto simp: read_log_def log_of_def Let_def ends_nl_text res_guard_def split: if_splits)

lemma read_beside_calm: "beside_of hx (file_at d p) = Some b \<Longrightarrow> read_beside hx no_faults d p = Inr b"
  by (auto simp: read_beside_def beside_of_def map_err_def split: option.splits if_splits sum.splits)

lemma read_head_calm: "head_file hx (file_at d p) = Some h \<Longrightarrow> read_head hx no_faults d p = Inr h"
  by (auto simp: read_head_def head_file_def map_err_def split: option.splits sum.splits)

lemma load_calm:
  assumes "disk_view hx d fs = Some v"
  shows "\<exists>ld. load hx no_faults d fs history = Inr ld"
proof -
  from assms obtain b h where b: "beside_of hx (file_at d (shf_shard_file fs)) = Some b"
    and h: "head_file hx (file_at d (shf_head fs)) = Some h" and v: "view_of b h (file_at d (shf_log fs)) = Some v"
    by (auto simp: disk_view_def bind_eq_Some_conv)
  show ?thesis
  proof (cases h)
    case (Some fh)
    with v obtain ls where l: "log_of (file_at d (shf_log fs)) fh = Some ls"
      and old: "\<And>old. b = Earlier old \<Longrightarrow> take (length (legacy_lines old)) ls = legacy_lines old"
      by (auto simp: view_of_def split: option.splits beside.splits if_splits)
    have "refuse_unless_prefix no_faults d fs fh old = Inr ()" if "b = Earlier old" for old
      using old [OF that] read_log_calm [OF l] refuse_prefix_iff [of "lg_records old" "number_records ls"]
      by (simp add: refuse_unless_prefix_def res_guard_def legacy_lines_def)
    then show ?thesis using Some read_beside_calm [OF b] read_head_calm [OF h] read_log_calm [OF l]
      by (cases b) (simp_all add: load_def)
  next
    case None
    then have "refuse_orphan_log no_faults d fs b = Inr ()" using v
      by (cases b) (auto simp: refuse_orphan_log_def view_of_def res_guard_def unwrap_or_def split: option.splits if_splits)
    then show ?thesis using None read_beside_calm [OF b] read_head_calm [OF h] by (simp add: load_def)
  qed
qed

text \<open>With no fault, a section whose callback gives one line commits it.\<close>

lemma file_section_calm:
  assumes ok: "heads_ok hx root d" and fs: "shard_files_of root sh = Inr fs" and pr: "\<forall>h. \<exists>b. hx_print_head hx h = Inr b"
    and nls: "\<forall>l \<in> set (snd (file_heads hx root d sh)). nl \<notin> set l"
    and f: "\<And>rs. (full \<Longrightarrow> map sr_record_json rs = snd (file_heads hx root d sh)) \<Longrightarrow>
      \<exists>w. f (fst (file_heads hx root d sh)) rs = Inr w \<and> (\<forall>c l. w = Some (c, l) \<longrightarrow> nl \<notin> set l)"
  shows "\<exists>r d'. file_section hx calm root sh full f d = (Inr r, d')"
proof -
  let ?lock = "with_extension (shf_shard_file fs) ''lock''"
  let ?d = "if file_at d ?lock = None then put_file ?lock [] d else d"
  from ok fs obtain v where v: "disk_view hx d fs = Some v" and laws: "head_laws hx" unfolding heads_ok_def by blast
  have hv: "file_heads hx root d sh = v" using fs v by (simp add: file_heads_def)
  note p = shard_files_paths [OF fs]
  have lk: "?lock = shard_path root sh ''lock''" by (rule p(4))
  have "shf_shard_file fs \<noteq> ?lock" "shf_head fs \<noteq> ?lock" "shf_log fs \<noteq> ?lock" unfolding lk by (simp_all add: p shard_path_eq)
  then have "file_at ?d (shf_shard_file fs) = file_at d (shf_shard_file fs)" "file_at ?d (shf_head fs) = file_at d (shf_head fs)"
    "file_at ?d (shf_log fs) = file_at d (shf_log fs)" by simp_all
  then have v1: "disk_view hx ?d fs = Some v" using v disk_view_cong by metis
  obtain ld where ld: "load hx no_faults ?d fs full = Inr ld" using load_calm [OF v1] by blast
  note seen = load_seen [OF ld v1]
  have "full \<Longrightarrow> map sr_record_json (ld_records ld) = snd v" using seen(2) .
  from f [unfolded hv, OF this] obtain w where w: "f (ld_cursor ld) (ld_records ld) = Inr w" "\<forall>c l. w = Some (c, l) \<longrightarrow> nl \<notin> set l"
    using seen(1) by auto
  have "\<exists>d'. (case w of Some (c, l) \<Rightarrow> commit hx calm fs ld c l | None \<Rightarrow> s_ret ()) ?d = (Inr (), d')"
  proof (cases w)
    case (Some q)
    obtain c l where q: "q = (c, l)" by (cases q)
    with w(2) Some nls hv have "\<forall>x \<in> set (snd v @ [l]). nl \<notin> set x" by simp
    from commit_calm [OF fs laws ld v1 pr this] Some q show ?thesis by simp
  qed (simp add: s_ret_def)
  then obtain d' where "(case w of Some (c, l) \<Rightarrow> commit hx calm fs ld c l | None \<Rightarrow> s_ret ()) ?d = (Inr (), d')" ..
  then have "file_section hx calm root sh full f d = (Inr (ld_cursor ld, ld_records ld), d')"
    using fs ld w(1) by (simp add: file_section_def with_shard_lock_def Let_def s_bind_def s_look_def s_ret_def h_upd_def)
  then show ?thesis by blast
qed

section \<open>Properties\<close>

text \<open>C15: a section on a shard of a directory is all or nothing whatever fails, at whichever call of
  whichever stage: the shard reads as before or with exactly the line its callback gave, a section
  that succeeds says which, what the callback was given is what the shard held, and no other shard
  changes. The earlier one-file format is converted on the way under the same promise.\<close>

theorem section_all_or_nothing:
  assumes "heads_ok hx root d" and "section_ok full (file_heads hx root d sh) f" and "file_section hx pl root sh full f d = (r, d')"
  shows "heads_ok hx root d' \<and> section_post full (file_heads hx root d sh) f r (file_heads hx root d' sh) \<and>
    (\<forall>t. t \<noteq> sh \<longrightarrow> file_heads hx root d' t = file_heads hx root d t)"
  using assms by (rule file_section_law)

definition demo_cursor :: head_cursor where
  "demo_cursor = \<lparr>hc_next_seq = 1, hc_last_hash = ''ab'', hc_signers = None\<rparr>"

text \<open>The head's rename fails once the log has the line.\<close>

definition torn_stages :: stages where
  "torn_stages = (\<lambda>n. if n = 4 then \<lparr>io_fault = (\<lambda>op. Some ''disk full''), io_cut = 0\<rparr> else no_faults)"

theorem section_all_or_nothing_witness:
  "\<exists>r d'. file_section demo_head_ext torn_stages ''h'' ''a'' True (\<lambda>_ _. Inr (Some (demo_cursor, ''{}''))) demo_root = (r, d') \<and>
    (file_heads demo_head_ext ''h'' d' ''a'' = (None, []) \<or> file_heads demo_head_ext ''h'' d' ''a'' = (Some demo_cursor, [''{}''])) \<and>
    file_heads demo_head_ext ''h'' d' ''b'' = (None, [])"
proof -
  let ?f = "\<lambda>_ _. Inr (Some (demo_cursor, ''{}'')) :: store_error + shard_write"
  obtain r d' where a: "file_section demo_head_ext torn_stages ''h'' ''a'' True ?f demo_root = (r, d')" by (metis prod.exhaust)
  have "utf8_ok ''{}''" by code_simp
  then have "section_ok True (file_heads demo_head_ext ''h'' demo_root ''a'') ?f" by (simp add: section_ok_def demo_cursor_def)
  from section_all_or_nothing [OF demo_heads_ok this a] a show ?thesis by (auto simp: section_post_def split: sum.splits)
qed

text \<open>A shard's name survives its file name: the stem of its files reads back to it, and to no other
  shard, and a name that is not UTF-8 is refused rather than read as another.\<close>

theorem shard_name_round_trip:
  "shard_from_hex (shard_to_hex s) = (if utf8_ok s then Inr s else Inl (SInvalid (StemNotUtf8 (shard_to_hex s)))) \<and>
    (shard_to_hex s = shard_to_hex t \<longleftrightarrow> s = t) \<and> CHR ''/'' \<notin> set (shard_to_hex s) \<and> CHR ''.'' \<notin> set (shard_to_hex s)"
  by (simp add: shard_from_hex_to_hex shard_to_hex_inj hex_plain)

end
