(* ===== verification/Sharded.thy ===== *)
theory Sharded
  imports Head_Commit Commitments
begin

text \<open>
  The sharded ledger, \<open>decern-ledger/src/sharded.rs\<close>: one hash chain per shard, extended by any
  number of processes through the sections of a head store. A process holds one signing key and the
  keys it trusts; before it extends a shard it checks that its key may follow the last one, from
  the spans the cursor carries or, when they are behind, from the history.
\<close>

section \<open>The code\<close>

record sharded =
  sl_key :: bytes
  sl_verifiers :: "bytes list"

definition sharded_new :: "ext \<Rightarrow> bytes \<Rightarrow> bytes list \<Rightarrow> sharded" where
  "sharded_new x key retired = \<lparr>sl_key = key, sl_verifiers = add_verifier retired (x_public x key)\<rparr>"

text \<open>\<open>StoreError\<close>'s display; the sentence of an invalid record is left out.\<close>

fun store_text :: "store_error \<Rightarrow> string" where
  "store_text (SIo path e) = ''store I/O error at '' @ path @ '': '' @ e"
| "store_text (SSerde e) = ''store serialization error: '' @ e"
| "store_text (SInvalid _) = ''invalid record''"

definition store_to_ledger_err :: "store_error \<Rightarrow> ledger_error" where
  "store_to_ledger_err e = Io ''<sharded ledger store>'' (store_text e)"

definition no_record :: "string \<Rightarrow> ledger_error" where
  "no_record shard = Io (''<sharded ledger, shard '' @ shard @ ''>'') ''append produced no record (store did not commit)''"

definition sharded_pubkey_hex :: "ext \<Rightarrow> sharded \<Rightarrow> string" where
  "sharded_pubkey_hex x L = x_hex x (x_public x (sl_key L))"

definition may_extend :: "ext \<Rightarrow> key_span list \<Rightarrow> string \<Rightarrow> bytes list \<Rightarrow> string \<Rightarrow> ledger_error + unit" where
  "may_extend x spans kid verifiers shard =
     (if spans = [] then Inr ()
      else (let latest = ks_kid (last spans) in
        if latest = '''' then Inl (SignerNotHeld kid shard)
        else if latest = kid then Inr ()
        else case rposition (\<lambda>s. ks_kid s = kid) spans of
          Some mine \<Rightarrow> (let next = spans ! (mine + 1) in Inl (KeySuperseded kid (ks_kid next) (ks_first_seq next)))
        | None \<Rightarrow>
            if \<not> list_ex (\<lambda>v. key_fingerprint x v = latest) verifiers then Inl (LastKeyNotHeld kid shard latest)
            else Inr ()))"

definition current_spans :: "head_cursor option \<Rightarrow> key_span list option" where
  "current_spans cursor =
     (case cursor of
        None \<Rightarrow> Some []
      | Some c \<Rightarrow>
          (case hc_signers c of
             Some s \<Rightarrow> if sg_through s = hc_next_seq c then Some (sg_spans s) else None
           | None \<Rightarrow> None))"

definition record_signer :: "ext \<Rightarrow> json \<Rightarrow> bytes list \<Rightarrow> string option" where
  "record_signer x rec verifiers =
     (case jget_str rec ''kid'' of
        Some kid \<Rightarrow> Some kid
      | None \<Rightarrow>
          Option.bind (jget_str rec ''hash'') (\<lambda>h.
          Option.bind (x_unhex x h) (\<lambda>hash.
          Option.bind (jget_str rec ''sig_b64'') (\<lambda>s.
          Option.bind (x_unb64 x s) (\<lambda>sig.
          if length sig \<noteq> 64 then None
          else map_option (key_fingerprint x) (List.find (\<lambda>k. x_verify x k hash sig) verifiers))))))"

definition add_span :: "key_span list \<Rightarrow> string \<Rightarrow> nat \<Rightarrow> key_span list" where
  "add_span spans kid seq =
     (if spans = [] \<or> ks_kid (last spans) \<noteq> kid then spans @ [\<lparr>ks_kid = kid, ks_first_seq = seq\<rparr>] else spans)"

fun spans_loop :: "ext \<Rightarrow> bytes list \<Rightarrow> nat \<Rightarrow> key_span list \<Rightarrow> json list \<Rightarrow> key_span list" where
  "spans_loop x verifiers seq spans [] = spans"
| "spans_loop x verifiers seq spans (r # rs) =
     spans_loop x verifiers (seq + 1) (add_span spans (unwrap_or '''' (record_signer x r verifiers)) seq) rs"

definition spans_of :: "ext \<Rightarrow> json list \<Rightarrow> bytes list \<Rightarrow> key_span list" where
  "spans_of x records verifiers = spans_loop x verifiers 0 [] records"

definition seal ::
  "ext \<Rightarrow> sharded \<Rightarrow> string \<Rightarrow> head_cursor option \<Rightarrow> key_span list \<Rightarrow> entry \<Rightarrow>
   ledger_error + (ledger_record \<times> head_cursor \<times> string)" where
  "seal x L shard cursor spans e =
     (let kid = key_fingerprint x (x_public x (sl_key L)) in
      res_bind (may_extend x spans kid (sl_verifiers L) shard) (\<lambda>_.
      (let next_seq = (case cursor of Some c \<Rightarrow> hc_next_seq c | None \<Rightarrow> 0);
           prev_hash = (case cursor of Some c \<Rightarrow> hc_last_hash c | None \<Rightarrow> genesis);
           entry = e\<lparr>e_seq := next_seq\<rparr> in
       res_bind (map_err Serde (x_entry_json x entry)) (\<lambda>entry_json.
       (let hash = chain_hash x entry_json prev_hash; hash_hex = x_hex x hash;
            sig_b64 = x_b64 x (x_sign x (sl_key L) hash) in
        res_bind (map_err Serde (x_raw x entry_json)) (\<lambda>raw_entry.
        res_bind (map_err Serde (x_record_json x \<lparr>rl_entry = raw_entry, rl_prev = prev_hash,
            rl_hash = hash_hex, rl_sig_b64 = sig_b64, rl_kid = Some kid\<rparr>)) (\<lambda>line.
        Inr (\<lparr>lr_entry = entry, lr_prev = prev_hash, lr_hash = hash_hex, lr_sig_b64 = sig_b64, lr_kid = Some kid\<rparr>,
             \<lparr>hc_next_seq = next_seq + 1, hc_last_hash = hash_hex,
              hc_signers = Some \<lparr>sg_through = next_seq + 1, sg_spans = add_span spans kid next_seq\<rparr>\<rparr>,
             line))))))))"

text \<open>\<open>seal_into\<close>: what the store is told to write; a refusal writes nothing.\<close>

definition to_write :: "ledger_error + (ledger_record \<times> head_cursor \<times> string) option \<Rightarrow> store_error + shard_write" where
  "to_write sealed =
     (case sealed of
        Inr (Some (_, new_cursor, line)) \<Rightarrow> Inr (Some (new_cursor, line))
      | _ \<Rightarrow> Inr None)"

text \<open>The callback of \<open>critical_section\<close>: the sealed record, if one is appended, and the caller's value.\<close>

definition critical_body ::
  "ext \<Rightarrow> sharded \<Rightarrow> string \<Rightarrow> (json list \<Rightarrow> ledger_error + (entry option \<times> 'a)) \<Rightarrow> head_cursor option \<Rightarrow> stored_record list \<Rightarrow>
   ledger_error + ((ledger_record \<times> head_cursor \<times> string) option \<times> 'a)" where
  "critical_body x L shard f cursor existing =
     res_bind (res_list (map (\<lambda>r. map_err Serde (x_value x (sr_record_json r))) existing)) (\<lambda>parsed.
     res_bind (f parsed) (\<lambda>(maybe_entry, v).
       case maybe_entry of
         None \<Rightarrow> Inr (None, v)
       | Some e \<Rightarrow> res_map (\<lambda>t. (Some t, v)) (seal x L shard cursor (spans_of x parsed (sl_verifiers L)) e)))"

definition critical_section ::
  "ext \<Rightarrow> sharded \<Rightarrow> 's head_store \<Rightarrow> string \<Rightarrow> (json list \<Rightarrow> ledger_error + (entry option \<times> 'a)) \<Rightarrow>
   ('s, ledger_error, ledger_record option \<times> 'a) sres" where
  "critical_section x L S shard f =
     s_bind (s_err store_to_ledger_err
       (hs_with_shard S shard (\<lambda>cursor existing. to_write (res_map fst (critical_body x L shard f cursor existing))))) (\<lambda>(cursor, existing).
     s_look (\<lambda>_. res_map (\<lambda>(sealed, v). (map_option fst sealed, v)) (critical_body x L shard f cursor existing)))"

text \<open>The callback of an append on the cursor alone; \<open>None\<close> when the spans are behind.\<close>

definition head_body ::
  "ext \<Rightarrow> sharded \<Rightarrow> string \<Rightarrow> entry \<Rightarrow> (entry \<Rightarrow> ledger_error + entry) \<Rightarrow> head_cursor option \<Rightarrow>
   ledger_error + (ledger_record \<times> head_cursor \<times> string) option" where
  "head_body x L shard e revise cursor =
     (case current_spans cursor of
        None \<Rightarrow> Inr None
      | Some spans \<Rightarrow> res_bind (revise e) (\<lambda>e'. res_map Some (seal x L shard cursor spans e')))"

definition append_revised ::
  "ext \<Rightarrow> sharded \<Rightarrow> 's head_store \<Rightarrow> string \<Rightarrow> entry \<Rightarrow> (entry \<Rightarrow> ledger_error + entry) \<Rightarrow> ('s, ledger_error, ledger_record) sres" where
  "append_revised x L S shard e revise =
     s_bind (s_err store_to_ledger_err
       (hs_with_shard_head S shard (\<lambda>cursor. to_write (head_body x L shard e revise cursor)))) (\<lambda>(cursor, _).
     s_bind (s_look (\<lambda>_. head_body x L shard e revise cursor)) (\<lambda>sealed.
       case sealed of
         Some (rec, _, _) \<Rightarrow> s_ret rec
       | None \<Rightarrow>
           s_bind (critical_section x L S shard (\<lambda>_. res_map (\<lambda>e'. (Some e', ())) (revise e))) (\<lambda>(rec, _).
           s_look (\<lambda>_. ok_or rec (no_record shard)))))"

definition sharded_append :: "ext \<Rightarrow> sharded \<Rightarrow> 's head_store \<Rightarrow> string \<Rightarrow> entry \<Rightarrow> ('s, ledger_error, ledger_record) sres" where
  "sharded_append x L S shard e = append_revised x L S shard e Inr"

section \<open>Reads\<close>

definition raw_stored_records :: "'s head_store \<Rightarrow> string \<Rightarrow> ('s, ledger_error, seen) sres" where
  "raw_stored_records S shard = s_err store_to_ledger_err (hs_with_shard S shard (\<lambda>_ _. Inr None))"

definition sharded_checkpoint_of :: "ext \<Rightarrow> sharded \<Rightarrow> head_cursor option \<Rightarrow> nat \<Rightarrow> checkpoint" where
  "sharded_checkpoint_of x L cursor ts_ms =
     (let root = (case cursor of Some c \<Rightarrow> hc_last_hash c | None \<Rightarrow> genesis);
          count = (case cursor of Some c \<Rightarrow> hc_next_seq c | None \<Rightarrow> 0) in
      \<lparr>cp_root = root, cp_count = count, cp_ts_ms = ts_ms, cp_pubkey_hex = sharded_pubkey_hex x L,
       cp_sig_b64 = x_b64 x (x_sign x (sl_key L) (checkpoint_bytes root count ts_ms))\<rparr>)"

definition sharded_checkpoint :: "ext \<Rightarrow> sharded \<Rightarrow> 's head_store \<Rightarrow> string \<Rightarrow> nat \<Rightarrow> ('s, ledger_error, checkpoint) sres" where
  "sharded_checkpoint x L S shard ts_ms =
     s_bind (s_err store_to_ledger_err (hs_with_shard_head S shard (\<lambda>_. Inr None))) (\<lambda>(cursor, _).
     s_ret (sharded_checkpoint_of x L cursor ts_ms))"

definition sharded_read_records ::
  "ext \<Rightarrow> sharded \<Rightarrow> 's head_store \<Rightarrow> string \<Rightarrow> nat \<Rightarrow> nat \<Rightarrow> ('s, ledger_error, json list) sres" where
  "sharded_read_records x L S shard offset limit =
     s_bind (critical_section x L S shard (\<lambda>existing. Inr (None, existing))) (\<lambda>(_, records).
     s_ret (take limit (drop offset records)))"

definition sharded_self_verify :: "ext \<Rightarrow> sharded \<Rightarrow> 's head_store \<Rightarrow> string \<Rightarrow> ('s, ledger_error, verify_report) sres" where
  "sharded_self_verify x L S shard =
     s_bind (raw_stored_records S shard) (\<lambda>(_, records).
     s_look (\<lambda>_. verify_stored_records x (map sr_record_json records) (sl_verifiers L)))"

definition sharded_read_raw_records ::
  "ext \<Rightarrow> 's head_store \<Rightarrow> string \<Rightarrow> nat \<Rightarrow> nat \<Rightarrow> ('s, ledger_error, string list) sres" where
  "sharded_read_raw_records x S shard offset limit =
     s_bind (raw_stored_records S shard) (\<lambda>(_, records).
     s_look (\<lambda>_. res_list (map (\<lambda>r. map_err Serde (x_raw x (sr_record_json r))) (take limit (drop offset records)))))"

fun stored_leaves :: "ext \<Rightarrow> nat \<Rightarrow> stored_record list \<Rightarrow> ledger_error + bytes list" where
  "stored_leaves x i [] = Inr []"
| "stored_leaves x i (r # rs) =
     res_bind (map_err Serde (x_value x (sr_record_json r))) (\<lambda>v.
     res_bind (ok_or (jget_str v ''hash'') (Tamper i MissingHash)) (\<lambda>hash_hex.
     res_bind (ok_or (x_unhex x hash_hex) (Tamper i HashNotHex)) (\<lambda>leaf.
     res_map ((#) leaf) (stored_leaves x (i + 1) rs))))"

definition sharded_merkle_leaves :: "ext \<Rightarrow> 's head_store \<Rightarrow> string \<Rightarrow> ('s, ledger_error, bytes list) sres" where
  "sharded_merkle_leaves x S shard =
     s_bind (raw_stored_records S shard) (\<lambda>(_, records). s_look (\<lambda>_. stored_leaves x 0 records))"

definition sharded_sign_tree_head :: "ext \<Rightarrow> sharded \<Rightarrow> bytes list \<Rightarrow> nat \<Rightarrow> tree_head" where
  "sharded_sign_tree_head x L leaves ts_ms =
     (let root_hex = x_hex x (tree_hash (x_sha256 x) leaves); tree_size = length leaves in
      \<lparr>th_merkle_root = root_hex, th_tree_size = tree_size, th_ts_ms = ts_ms, th_pubkey_hex = sharded_pubkey_hex x L,
       th_sig_b64 = x_b64 x (x_sign x (sl_key L) (tree_head_bytes root_hex tree_size ts_ms))\<rparr>)"

definition sharded_tree_head :: "ext \<Rightarrow> sharded \<Rightarrow> 's head_store \<Rightarrow> string \<Rightarrow> nat \<Rightarrow> ('s, ledger_error, tree_head) sres" where
  "sharded_tree_head x L S shard ts_ms =
     s_bind (sharded_merkle_leaves x S shard) (\<lambda>leaves. s_ret (sharded_sign_tree_head x L leaves ts_ms))"

definition evidence_snapshot ::
  "ext \<Rightarrow> sharded \<Rightarrow> 's head_store \<Rightarrow> string \<Rightarrow> nat \<Rightarrow>
   ('s, ledger_error, nat \<times> stored_record list \<times> checkpoint \<times> tree_head) sres" where
  "evidence_snapshot x L S shard ts_ms =
     s_bind (raw_stored_records S shard) (\<lambda>(cursor, existing).
     (let cp = sharded_checkpoint_of x L cursor ts_ms in
      s_bind (s_look (\<lambda>_. stored_leaves x 0 existing)) (\<lambda>leaves.
      s_ret (cp_count cp, existing, cp, sharded_sign_tree_head x L leaves ts_ms))))"

definition sharded_list_shards :: "'s head_store \<Rightarrow> ('s, ledger_error, string list) sres" where
  "sharded_list_shards S = s_err store_to_ledger_err (hs_list_shards S)"

section \<open>Audit\<close>

text \<open>The outcome of one shard is kept beside the others'.\<close>

definition verify_one_shard :: "ext \<Rightarrow> 's head_store \<Rightarrow> string \<Rightarrow> bytes list \<Rightarrow> 's \<Rightarrow> (ledger_error + verify_report) \<times> 's" where
  "verify_one_shard x S shard keys =
     s_bind (raw_stored_records S shard) (\<lambda>(_, records).
     s_look (\<lambda>_. verify_stored_records x (map sr_record_json records) keys))"

fun verify_shards ::
  "ext \<Rightarrow> 's head_store \<Rightarrow> bytes list \<Rightarrow> string list \<Rightarrow> 's \<Rightarrow> (string \<times> (ledger_error + verify_report)) list \<times> 's" where
  "verify_shards x S keys [] s = ([], s)"
| "verify_shards x S keys (sh # shs) s =
     (let (r, s1) = verify_one_shard x S sh keys s; (out, s2) = verify_shards x S keys shs s1 in ((sh, r) # out, s2))"

definition not_a_store :: string where
  "not_a_store = ''not a sharded head-store directory (path is missing or not a directory)''"

definition verify_sharded_dir_with_keys ::
  "ext \<Rightarrow> head_ext \<Rightarrow> stages \<Rightarrow> string \<Rightarrow> bytes list \<Rightarrow> (disk, ledger_error, (string \<times> (ledger_error + verify_report)) list) sres" where
  "verify_sharded_dir_with_keys x hx pl dir keys =
     s_bind (s_look (\<lambda>d. res_guard (is_dir d dir) (Io dir not_a_store))) (\<lambda>_.
     s_bind (io_step (pl 0) (CreateDir dir) dir) (\<lambda>_.
     s_bind (s_err store_to_ledger_err (hs_list_shards (file_store hx dir pl))) (\<lambda>shards s.
       case verify_shards x (file_store hx dir pl) keys shards s of (out, s') \<Rightarrow> (Inr out, s'))))"

definition verify_sharded_dir ::
  "ext \<Rightarrow> head_ext \<Rightarrow> stages \<Rightarrow> string \<Rightarrow> bytes option \<Rightarrow> (disk, ledger_error, (string \<times> (ledger_error + verify_report)) list) sres" where
  "verify_sharded_dir x hx pl dir pubkey = verify_sharded_dir_with_keys x hx pl dir (case pubkey of None \<Rightarrow> [] | Some k \<Rightarrow> [k])"

end
