(* ===== verification/Sharded_Runs.thy ===== *)
theory Sharded_Runs
  imports Sharded Head_Live Demo_Head Ledger
begin

text \<open>
  What the sharded ledger promises, over any store that keeps the contract \<open>shard_store\<close>: a shard
  whose lines verify under a ring of keys goes on verifying under it, whichever of the ring's
  processes extend it, in whatever order, and whatever fails.
\<close>

section \<open>A sound shard\<close>

text \<open>serde reads the same object into a value.\<close>

definition label_law :: "ext \<Rightarrow> bool" where
  "label_law x \<longleftrightarrow> (\<forall>l r. x_parse_record x l = Inr r \<longrightarrow>
     (\<exists>v. x_value x l = Inr v \<and> jget_str v ''kid'' = rl_kid r \<and> jget_str v ''hash'' = Some (rl_hash r)))"

definition labelled :: "ext \<Rightarrow> string \<Rightarrow> bool" where
  "labelled x l \<longleftrightarrow> \<not> is_blank l \<and> nl \<notin> set l \<and> (\<exists>r. x_parse_record x l = Inr r \<and> rl_kid r \<noteq> None)"

definition span_of :: "signer_span \<Rightarrow> key_span" where
  "span_of s = \<lparr>ks_kid = ss_kid s, ks_first_seq = ss_first_seq s\<rparr>"

text \<open>Its lines verify under the ring, each names its signer, and its cursor is their head, with the
  spans of their keys when it carries them.\<close>

definition sound_shard :: "ext \<Rightarrow> bytes list \<Rightarrow> shard_view \<Rightarrow> bool" where
  "sound_shard x keys v \<longleftrightarrow> keys \<noteq> [] \<and> (\<forall>l \<in> set (snd v). labelled x l) \<and>
     (\<exists>rep. verify_lines x (map Inr (snd v)) keys None = Inr (rep, None) \<and>
        (case fst v of
           None \<Rightarrow> snd v = []
         | Some c \<Rightarrow> hc_next_seq c = length (snd v) \<and> unwrap_or genesis (vr_root rep) = hc_last_hash c \<and>
             (\<forall>sp. current_spans (Some c) = Some sp \<longrightarrow> sp = map span_of (vr_signers rep))))"

lemma sound_new [simp]: "sound_shard x keys (None, []) \<longleftrightarrow> keys \<noteq> []"
  by (simp add: sound_shard_def verify_lines_def init_vstate_def)

lemma admit_adds:
  "admit_signer signers n kid = Inr signers' \<Longrightarrow> signers' = add_signer signers kid n"
  by (auto simp: admit_signer_def add_signer_def split: if_splits option.splits)

lemma admit_distinct:
  assumes "admit_signer signers n kid = Inr signers'" and "distinct (map ss_kid signers)"
  shows "distinct (map ss_kid signers')"
proof (cases "signers \<noteq> [] \<and> ss_kid (last signers) = kid")
  case True
  with assms show ?thesis by (simp add: admit_signer_def)
next
  case False
  with assms(1) have s: "successor signers kid = None" "signers' = signers @ [\<lparr>ss_kid = kid, ss_first_seq = n\<rparr>]"
    by (auto simp: admit_signer_def split: option.splits)
  have "kid \<notin> ss_kid ` set signers"
  proof
    assume k: "kid \<in> ss_kid ` set signers"
    with s(1) have "position (\<lambda>s. ss_kid s = kid) signers = Some (length signers - 1)" by (simp add: successor_None)
    from position_Some [OF this] have "ss_kid (signers ! (length signers - 1)) = kid" by simp
    moreover from k have ne: "signers \<noteq> []" by auto
    ultimately show False using False by (simp add: last_conv_nth)
  qed
  with assms(2) s(2) show ?thesis by simp
qed

text \<open>The spans read from the history are the signers the verifier finds.\<close>

lemma add_span_of: "add_span (map span_of ss) kid n = map span_of (add_signer ss kid n)"
  by (auto simp: add_span_def add_signer_def span_of_def last_map)

lemma verify_loop_spans:
  assumes "verify_loop x keys i st (map Inr ls) = Inr st'" and "keys \<noteq> []" and "\<forall>l \<in> set ls. labelled x l"
    and "label_law x" and "map (x_value x) ls = map Inr vs"
  shows "spans_loop x vrs (vs_count st) (map span_of (vs_signers st)) vs = map span_of (vs_signers st') \<and>
    vs_count st' = vs_count st + length ls \<and> (distinct (map ss_kid (vs_signers st)) \<longrightarrow> distinct (map ss_kid (vs_signers st')))"
  using assms(1,3,5)
proof (induction ls arbitrary: i st vs)
  case (Cons l ls)
  then obtain v vs' where vs: "vs = v # vs'" "x_value x l = Inr v" "map (x_value x) ls = map Inr vs'" by (cases vs) auto
  from Cons.prems obtain st1 where st1: "verify_line x keys i st l = Inr st1" "verify_loop x keys (Suc i) st1 (map Inr ls) = Inr st'"
    by (auto simp: res_simps)
  from Cons.prems(2) have nb: "\<not> is_blank l" and "\<exists>r. x_parse_record x l = Inr r \<and> rl_kid r \<noteq> None" by (auto simp: labelled_def)
  then obtain r kid where r: "x_parse_record x l = Inr r" "rl_kid r = Some kid" by auto
  with assms(4) vs(2) have kid: "jget_str v ''kid'' = Some kid" unfolding label_law_def by force
  from verify_line_Inr [OF st1(1) nb] r assms(2) obtain h where c: "vs_count st1 = Suc (vs_count st)"
    "check_signer x (vs_signers st) keys (vs_count st) h (rl_sig_b64 r) (Some kid) = Inr (vs_signers st1)"
    by (metis Inr_inject)
  then have a: "admit_signer (vs_signers st) (vs_count st) kid = Inr (vs_signers st1)"
    by (auto simp: check_signer_def res_simps signer_of_def split: option.splits if_splits)
  from Cons.IH [OF st1(2) _ vs(3)] Cons.prems(2) c(1) vs(1) kid admit_adds [OF a] admit_distinct [OF a]
  show ?case by (simp add: record_signer_def unwrap_or_def add_span_of)
qed simp

lemma verify_lines_spans:
  assumes "verify_lines x (map Inr ls) keys None = Inr (rep, w)" and "keys \<noteq> []" and "\<forall>l \<in> set ls. labelled x l" and "label_law x"
    and "map (x_value x) ls = map Inr vs"
  shows "spans_of x vs vrs = map span_of (vr_signers rep)" and "vr_entries rep = length ls" and "distinct (map ss_kid (vr_signers rep))"
proof -
  from assms(1) obtain st where st: "verify_loop x keys 0 (init_vstate None) (map Inr ls) = Inr st" "rep = report_of keys st"
    by (auto simp: verify_lines_def res_simps)
  from verify_loop_spans [OF st(1) assms(2-5), of vrs] st(2)
  show "spans_of x vs vrs = map span_of (vr_signers rep)" "vr_entries rep = length ls" "distinct (map ss_kid (vr_signers rep))"
    by (simp_all add: spans_of_def report_of_def init_vstate_def)
qed

lemma labelled_values:
  assumes "label_law x" and "\<forall>l \<in> set ls. labelled x l"
  shows "\<exists>vs. map (x_value x) ls = map Inr vs"
  using assms(2)
proof (induction ls)
  case (Cons l ls)
  then obtain vs where vs: "map (x_value x) ls = map Inr vs" by auto
  from Cons.prems obtain r where "x_parse_record x l = Inr r" by (auto simp: labelled_def)
  with assms(1) obtain v where "x_value x l = Inr v" unfolding label_law_def by blast
  with vs have "map (x_value x) (l # ls) = map Inr (v # vs)" by simp
  then show ?case by blast
qed simp

section \<open>Sealing\<close>

text \<open>A key that may extend a shard has no successor in it.\<close>

lemma may_extend_Inr:
  assumes "may_extend x (map span_of signers) kid vrs shard = Inr u" and "distinct (map ss_kid signers)"
  shows "successor signers kid = None"
proof (cases "kid \<in> ss_kid ` set signers")
  case False
  then show ?thesis by (simp add: successor_None)
next
  case True
  then have ne: "signers \<noteq> []" by auto
  have "rposition (\<lambda>s. ks_kid s = kid) (map span_of signers) \<noteq> None"
    using True by (auto simp: rposition_None span_of_def)
  with assms(1) ne have last: "ss_kid (last signers) = kid"
    by (auto simp: may_extend_def Let_def last_map span_of_def split: if_splits option.splits)
  from True obtain i where i: "position (\<lambda>s. ss_kid s = kid) signers = Some i"
    by (cases "position (\<lambda>s. ss_kid s = kid) signers") (auto simp: position_None)
  from position_Some [OF i] have "i < length signers" "ss_kid (signers ! i) = kid" by auto
  with last ne have "map ss_kid signers ! i = map ss_kid signers ! (length signers - 1)" by (simp add: last_conv_nth)
  moreover have "i < length (map ss_kid signers)" "length signers - 1 < length (map ss_kid signers)"
    using \<open>i < length signers\<close> ne by simp_all
  ultimately have "i = length signers - 1" using nth_eq_iff_index_eq [OF assms(2)] by blast
  with i show ?thesis by (simp add: successor_None)
qed

text \<open>A process's ledger on a shard, as the single-writer ledger would hold it.\<close>

definition as_ledger :: "sharded \<Rightarrow> head_cursor option \<Rightarrow> bytes list \<Rightarrow> signer_span list \<Rightarrow> ledger" where
  "as_ledger L cursor keys signers = \<lparr>l_location = Single [], l_active_path = [], l_key = sl_key L,
     l_last_hash = (case cursor of Some c \<Rightarrow> hc_last_hash c | None \<Rightarrow> genesis),
     l_next_seq = (case cursor of Some c \<Rightarrow> hc_next_seq c | None \<Rightarrow> 0),
     l_verifiers = keys, l_signers = signers, l_sync = True, l_rollover = None, l_failed = False\<rparr>"

lemma seal_Inr:
  assumes "seal x L shard cursor spans e = Inr (rec, c, line)"
  shows "may_extend x spans (key_fingerprint x (x_public x (sl_key L))) (sl_verifiers L) shard = Inr ()"
    and "make_record x (as_ledger L cursor keys signers) e = Inr (rec, line)"
    and "hc_next_seq c = (case cursor of Some c \<Rightarrow> hc_next_seq c | None \<Rightarrow> 0) + 1" and "hc_last_hash c = lr_hash rec"
    and "current_spans (Some c) = Some (add_span spans (key_fingerprint x (x_public x (sl_key L))) (case cursor of Some c \<Rightarrow> hc_next_seq c | None \<Rightarrow> 0))"
  using assms by (auto simp: seal_def Let_def res_simps make_record_def as_ledger_def current_spans_def)

lemma make_record_labelled:
  assumes "ext_ok x" and "make_record x L e = Inr (rec, line)"
  shows "labelled x line"
proof -
  from assms(2) obtain s s' h g where s: "x_raw x s = Inr s'" "x_entry_json x (e\<lparr>e_seq := l_next_seq L\<rparr>) = Inr s"
    and j: "x_record_json x \<lparr>rl_entry = s', rl_prev = l_last_hash L, rl_hash = h, rl_sig_b64 = g,
      rl_kid = Some (key_fingerprint x (x_public x (l_key L)))\<rparr> = Inr line"
    by (auto simp: make_record_def Let_def res_simps)
  let ?r = "\<lparr>rl_entry = s', rl_prev = l_last_hash L, rl_hash = h, rl_sig_b64 = g,
      rl_kid = Some (key_fingerprint x (x_public x (l_key L)))\<rparr>"
  have laws: "record_law x" using assms(1) by (simp add: ext_ok_def)
  then have "s' = s" using s unfolding record_law_def by blast
  with s have "x_raw x (rl_entry ?r) = Inr (rl_entry ?r)" by simp
  with laws j have p: "x_parse_record x line = Inr ?r \<and> nl \<notin> set line \<and> line \<noteq> [] \<and> hd line = CHR ''{''" unfolding record_law_def by blast
  then have "\<not> is_blank line" by (metis is_blank_brace list.collapse)
  with p show ?thesis by (simp add: labelled_def)
qed

lemma sound_append:
  assumes "sound_shard x K v" and "ext_ok x" and "x_public x (sl_key L) \<in> set K"
    and "verify_lines x (map Inr (snd v)) K None = Inr (rep, None)" and "label_law x"
    and "seal x L shard (fst v) (map span_of (vr_signers rep)) e = Inr (rec, c, line)"
  shows "sound_shard x K (Some c, snd v @ [line])" and "utf8_ok line" and "nl \<notin> set line"
    and "hc_next_seq c = length (snd v) + 1" and "lr_entry rec = e\<lparr>e_seq := length (snd v)\<rparr>" and "carries x line (lr_entry rec)"
proof -
  let ?kid = "key_fingerprint x (x_public x (sl_key L))"
  let ?M = "as_ledger L (fst v) K (vr_signers rep)"
  from assms(1,4) have k: "K \<noteq> []" "\<forall>l \<in> set (snd v). labelled x l"
    and h: "(case fst v of Some c \<Rightarrow> hc_next_seq c | None \<Rightarrow> 0) = length (snd v)"
      "unwrap_or genesis (vr_root rep) = (case fst v of Some c \<Rightarrow> hc_last_hash c | None \<Rightarrow> genesis)"
    by (auto simp: sound_shard_def verify_lines_def init_vstate_def report_of_def split: option.splits)
  obtain vs where vs: "map (x_value x) (snd v) = map Inr vs" using labelled_values [OF assms(5) k(2)] by blast
  note sp = verify_lines_spans [OF assms(4) k assms(5) vs]
  note sl = seal_Inr [OF assms(6)]
  have suc: "successor (vr_signers rep) ?kid = None" using may_extend_Inr [OF sl(1) sp(3)] .
  have mv: "verify_lines x (map Inr (snd v @ [line])) K None =
      Inr (\<lparr>vr_entries = length (snd v) + 1, vr_root = Some (lr_hash rec), vr_signatures_checked = True,
        vr_signers = add_signer (vr_signers rep) ?kid (length (snd v))\<rparr>, None) \<and> nl \<notin> set line \<and> utf8_ok line \<and>
      lr_entry rec = e\<lparr>e_seq := length (snd v)\<rparr>"
    using make_record_verifies [OF assms(2) sl(2) [of K "vr_signers rep"], of "snd v" rep] assms(3,4) sp(2) h suc
    by (simp add: as_ledger_def)
  have lab: "labelled x line" using make_record_labelled [OF assms(2) sl(2)] .
  show "carries x line (lr_entry rec)" using make_record_carries [OF assms(2) sl(2)] by blast
  show "utf8_ok line" "nl \<notin> set line" "lr_entry rec = e\<lparr>e_seq := length (snd v)\<rparr>" using mv by simp_all
  show "hc_next_seq c = length (snd v) + 1" using sl(3) h(1) by simp
  show "sound_shard x K (Some c, snd v @ [line])"
    using mv lab k h sl(3,4,5) by (auto simp: sound_shard_def unwrap_or_def add_span_of)
qed

section \<open>Sections on a sound shard\<close>

lemma parsed_values:
  assumes "map sr_record_json rs = ls" and "map (x_value x) ls = map Inr vs"
  shows "res_list (map (\<lambda>r. map_err Serde (x_value x (sr_record_json r))) rs) = Inr vs"
proof -
  have "map (\<lambda>r. map_err Serde (x_value x (sr_record_json r))) rs = map (map_err Serde) (map (x_value x) (map sr_record_json rs))" by simp
  also have "\<dots> = map Inr vs" unfolding assms by (simp add: map_err_def)
  finally show ?thesis by (simp add: res_list_Inr)
qed

lemma critical_body_seals:
  assumes "sound_shard x K v" and "ext_ok x" and "label_law x" and "x_public x (sl_key L) \<in> set K"
    and "map sr_record_json rs = snd v" and "critical_body x L shard f (fst v) rs = Inr (Some (rec, c, line), a)"
  shows "sound_shard x K (Some c, snd v @ [line]) \<and> utf8_ok line \<and> nl \<notin> set line \<and> hc_next_seq c = length (snd v) + 1 \<and>
    (\<exists>vs e. map (x_value x) (snd v) = map Inr vs \<and> f vs = Inr (Some e, a) \<and> lr_entry rec = e\<lparr>e_seq := length (snd v)\<rparr>) \<and>
    carries x line (lr_entry rec)"
proof -
  from assms(1) obtain rep where rep: "verify_lines x (map Inr (snd v)) K None = Inr (rep, None)"
    and k: "K \<noteq> []" "\<forall>l \<in> set (snd v). labelled x l" by (auto simp: sound_shard_def)
  obtain vs where vs: "map (x_value x) (snd v) = map Inr vs" using labelled_values [OF assms(3) k(2)] by blast
  note p = parsed_values [OF assms(5) vs]
  with assms(6) obtain e where e: "f vs = Inr (Some e, a)" "seal x L shard (fst v) (spans_of x vs (sl_verifiers L)) e = Inr (rec, c, line)"
    by (auto simp: critical_body_def res_simps split: option.splits)
  note s = e(2) [unfolded verify_lines_spans(1) [OF rep k assms(3) vs]]
  from sound_append [OF assms(1,2,4) rep assms(3) s] e(1) vs show ?thesis by blast
qed

lemma sound_spans:
  assumes "sound_shard x K v" and "verify_lines x (map Inr (snd v)) K None = Inr (rep, None)" and "current_spans (fst v) = Some sp"
  shows "sp = map span_of (vr_signers rep)"
proof (cases "fst v")
  case None
  with assms show ?thesis by (auto simp: sound_shard_def current_spans_def verify_lines_def init_vstate_def report_of_def)
next
  case (Some c)
  with assms show ?thesis by (auto simp: sound_shard_def)
qed

lemma head_body_seals:
  assumes "sound_shard x K v" and "ext_ok x" and "label_law x" and "x_public x (sl_key L) \<in> set K"
    and "head_body x L shard e revise (fst v) = Inr (Some (rec, c, line))"
  shows "sound_shard x K (Some c, snd v @ [line]) \<and> utf8_ok line \<and> nl \<notin> set line \<and> hc_next_seq c = length (snd v) + 1 \<and>
    (\<exists>e'. revise e = Inr e' \<and> lr_entry rec = e'\<lparr>e_seq := length (snd v)\<rparr>) \<and> carries x line (lr_entry rec)"
proof -
  from assms(1) obtain rep where rep: "verify_lines x (map Inr (snd v)) K None = Inr (rep, None)" by (auto simp: sound_shard_def)
  note sp = sound_spans [OF assms(1) rep]
  from assms(5) obtain spans e' where s: "current_spans (fst v) = Some spans" "revise e = Inr e'" "seal x L shard (fst v) spans e' = Inr (rec, c, line)"
    by (auto simp: head_body_def res_simps split: option.splits)
  from sound_append [OF assms(1,2,4) rep assms(3) s(3) [unfolded sp [OF s(1)]]] s(2) show ?thesis by blast
qed

lemma map_err_all: "map (\<lambda>r. map_err g (f (h r))) rs = map Inr vs \<Longrightarrow> map f (map h rs) = map Inr vs"
proof (induction rs arbitrary: vs)
  case (Cons r rs)
  then show ?case by (cases vs; cases "f (h r)") (auto simp: map_err_def)
qed simp

definition grown :: "shard_view \<Rightarrow> shard_view \<Rightarrow> bool" where
  "grown v v' \<longleftrightarrow> v' = v \<or> (\<exists>c line. v' = (Some c, snd v @ [line]))"

text \<open>A shard grew by at most one line, which carries an entry it was asked for.\<close>

definition landed :: "ext \<Rightarrow> (entry \<Rightarrow> bool) \<Rightarrow> shard_view \<Rightarrow> shard_view \<Rightarrow> bool" where
  "landed x P v v' \<longleftrightarrow> (\<exists>new. snd v' = snd v @ new \<and> length new \<le> 1 \<and> (\<forall>line \<in> set new. \<exists>e. P e \<and> carries x line (e\<lparr>e_seq := length (snd v)\<rparr>)))"

lemma landed_same: "snd v' = snd v \<Longrightarrow> landed x P v v'"
  by (simp add: landed_def)

lemma landed_line_of: "snd v' = snd v @ [line] \<Longrightarrow> P e \<Longrightarrow> carries x line (e\<lparr>e_seq := length (snd v)\<rparr>) \<Longrightarrow> landed x P v v'"
  by (auto simp: landed_def)

lemma grown_refl [simp]: "grown v v"
  by (simp add: grown_def)

lemma to_write_Some: "to_write m = Inr (Some (c, l)) \<longleftrightarrow> (\<exists>rec. m = Inr (Some (rec, c, l)))"
  by (auto simp: to_write_def split: sum.splits option.splits)

lemma to_write_None: "to_write m = Inr None \<longleftrightarrow> isl m \<or> m = Inr None"
  by (auto simp: to_write_def split: sum.splits option.splits)

context shard_store
begin

definition sound_store :: "ext \<Rightarrow> bytes list \<Rightarrow> 's \<Rightarrow> bool" where
  "sound_store x K s \<longleftrightarrow> ok s \<and> (\<forall>sh. sound_shard x K (view s sh))"

definition one_step :: "string \<Rightarrow> 's \<Rightarrow> 's \<Rightarrow> bool" where
  "one_step sh s s' \<longleftrightarrow> grown (view s sh) (view s' sh) \<and> (\<forall>t. t \<noteq> sh \<longrightarrow> view s' t = view s t)"

text \<open>A critical section decides on the lines its record follows.\<close>

lemma critical_keeps:
  assumes "sound_store x K s" and "ext_ok x" and "label_law x" and "x_public x (sl_key L) \<in> set K"
    and "critical_section x L (S h) sh f s = (r, s')"
  shows "sound_store x K s'" and "one_step sh s s'"
    and "r = Inr (rec, a) \<Longrightarrow> (\<exists>vs. map (x_value x) (snd (view s sh)) = map Inr vs \<and>
      (case rec of
         None \<Rightarrow> f vs = Inr (None, a) \<and> view s' sh = view s sh
       | Some q \<Rightarrow> \<exists>e c line. f vs = Inr (Some e, a) \<and> lr_entry q = e\<lparr>e_seq := length (snd (view s sh))\<rparr> \<and>
           view s' sh = (Some c, snd (view s sh) @ [line]) \<and> carries x line (lr_entry q)))"
    and "landed x (\<lambda>e. \<exists>vs a. f vs = Inr (Some e, a)) (view s sh) (view s' sh)"
proof -
  let ?v = "view s sh"
  let ?g = "\<lambda>cursor existing. to_write (res_map fst (critical_body x L sh f cursor existing))"
  from assms(1) have ok: "ok s" and sound: "sound_shard x K ?v" by (auto simp: sound_store_def)
  note seals = critical_body_seals [OF sound assms(2,3,4)]
  obtain q s1 where w: "hs_with_shard (S h) sh ?g s = (q, s1)" by (metis prod.exhaust)
  have g: "?g c rs = Inr (Some (c', l)) \<longleftrightarrow> (\<exists>rec a. critical_body x L sh f c rs = Inr (Some (rec, c', l), a))" for c rs c' l
    by (auto simp: to_write_Some res_simps)
  have "section_ok True ?v ?g" unfolding section_ok_def g by (auto dest: seals)
  from with_shard_law [OF ok this w] have ok1: "ok s1" and post: "section_post True ?v ?g q (view s1 sh)"
    and o: "\<forall>t. t \<noteq> sh \<longrightarrow> view s1 t = view s t" by auto
  have s1: "s' = s1" using assms(5) w by (auto simp: critical_section_def s_simps split: prod.splits)
  have "view s1 sh = ?v \<or> (\<exists>rs c' l. map sr_record_json rs = snd ?v \<and> ?g (fst ?v) rs = Inr (Some (c', l)) \<and> view s1 sh = (Some c', snd ?v @ [l]))"
    using post by (cases q) (auto simp only: section_post_def sum.case prod.case)
  then have kept: "sound_shard x K (view s1 sh) \<and> grown ?v (view s1 sh) \<and> landed x (\<lambda>e. \<exists>vs a. f vs = Inr (Some e, a)) ?v (view s1 sh)"
    unfolding g
  proof (elim disjE exE conjE)
    assume "view s1 sh = ?v"
    with sound show ?thesis by (simp add: grown_def landed_same)
  next
    fix rs c' l rec a assume j: "map sr_record_json rs = snd ?v" "critical_body x L sh f (fst ?v) rs = Inr (Some (rec, c', l), a)"
      and v: "view s1 sh = (Some c', snd ?v @ [l])"
    from seals [OF j] obtain vs e where "f vs = Inr (Some e, a)" "lr_entry rec = e\<lparr>e_seq := length (snd ?v)\<rparr>"
        "carries x l (lr_entry rec)" "sound_shard x K (Some c', snd ?v @ [l])" by blast
    with v show ?thesis by (auto simp: grown_def intro!: landed_line_of)
  qed
  show "sound_store x K s'" using assms(1) ok1 o kept s1 unfolding sound_store_def by metis
  show "one_step sh s s'" using o kept s1 by (simp add: one_step_def)
  show "landed x (\<lambda>e. \<exists>vs a. f vs = Inr (Some e, a)) (view s sh) (view s' sh)" using kept s1 by simp
  assume r: "r = Inr (rec, a)"
  with assms(5) w obtain c rs sealed where q: "q = Inr (c, rs)" "critical_body x L sh f c rs = Inr (sealed, a)" "rec = map_option fst sealed"
    by (auto simp: critical_section_def s_simps res_simps split: sum.splits)
  from post q(1) have cv: "c = fst ?v" "map sr_record_json rs = snd ?v" by (auto simp: section_post_def)
  show "\<exists>vs. map (x_value x) (snd (view s sh)) = map Inr vs \<and>
      (case rec of
         None \<Rightarrow> f vs = Inr (None, a) \<and> view s' sh = view s sh
       | Some q \<Rightarrow> \<exists>e c line. f vs = Inr (Some e, a) \<and> lr_entry q = e\<lparr>e_seq := length (snd (view s sh))\<rparr> \<and>
           view s' sh = (Some c, snd (view s sh) @ [line]) \<and> carries x line (lr_entry q))"
  proof (cases sealed)
    case None
    from q(2) obtain vs where vs: "res_list (map (\<lambda>r. map_err Serde (x_value x (sr_record_json r))) rs) = Inr vs" "f vs = Inr (None, a)"
      using None by (auto simp: critical_body_def res_simps split: option.splits)
    from vs(1) have "map (\<lambda>r. map_err Serde (x_value x (sr_record_json r))) rs = map Inr vs" by (simp add: res_list_Inr)
    then have "map (x_value x) (map sr_record_json rs) = map Inr vs" by (rule map_err_all)
    moreover have "?g c rs = Inr None" using q(2) None by (simp add: to_write_def)
    with post q(1) have "view s1 sh = ?v" by (simp add: section_post_def)
    ultimately show ?thesis using cv vs(2) q(3) None s1 by auto
  next
    case (Some t)
    obtain q' c' l where t: "t = (q', c', l)" by (cases t)
    have "critical_body x L sh f (fst ?v) rs = Inr (Some (q', c', l), a)" using q(2) Some t cv(1) by simp
    from seals [OF cv(2) this] obtain vs e where
      "map (x_value x) (snd ?v) = map Inr vs" "f vs = Inr (Some e, a)" "lr_entry q' = e\<lparr>e_seq := length (snd ?v)\<rparr>"
      "carries x l (lr_entry q')" by blast
    moreover have "?g c rs = Inr (Some (c', l))" using q(2) Some t by (simp add: to_write_def)
    with post q(1) have "view s1 sh = (Some c', snd ?v @ [l])" by (simp add: section_post_def)
    ultimately show ?thesis using q(3) Some t s1 by auto
  qed
qed

lemma append_keeps:
  assumes "sound_store x K s" and "ext_ok x" and "label_law x" and "x_public x (sl_key L) \<in> set K"
    and "append_revised x L (S h) sh e revise s = (r, s')"
  shows "sound_store x K s' \<and> one_step sh s s' \<and>
    (\<forall>rec. r = Inr rec \<longrightarrow> (\<exists>e' c line. revise e = Inr e' \<and> lr_entry rec = e'\<lparr>e_seq := length (snd (view s sh))\<rparr> \<and>
      view s' sh = (Some c, snd (view s sh) @ [line]) \<and> carries x line (lr_entry rec))) \<and>
    landed x (\<lambda>e'. revise e = Inr e') (view s sh) (view s' sh)"
proof -
  let ?v = "view s sh"
  let ?g = "\<lambda>cursor. to_write (head_body x L sh e revise cursor)"
  from assms(1) have ok: "ok s" and sound: "sound_shard x K ?v" by (auto simp: sound_store_def)
  note seals = head_body_seals [OF sound assms(2,3,4)]
  obtain q s1 where w: "hs_with_shard_head (S h) sh ?g s = (q, s1)" by (metis prod.exhaust)
  have "section_ok False ?v (\<lambda>c _. ?g c)" unfolding section_ok_def to_write_Some by (auto dest: seals)
  from with_shard_head_law [OF ok this w] have ok1: "ok s1" and post: "section_post False ?v (\<lambda>c _. ?g c) q (view s1 sh)"
    and o: "\<forall>t. t \<noteq> sh \<longrightarrow> view s1 t = view s t" by auto
  have vs: "view s1 sh = ?v \<or> (\<exists>c' l. ?g (fst ?v) = Inr (Some (c', l)) \<and> view s1 sh = (Some c', snd ?v @ [l]))"
    using post by (cases q) (auto simp only: section_post_def sum.case prod.case)
  then have kept: "sound_shard x K (view s1 sh) \<and> grown ?v (view s1 sh) \<and> landed x (\<lambda>e'. revise e = Inr e') ?v (view s1 sh)"
    unfolding to_write_Some
  proof (elim disjE exE conjE)
    assume "view s1 sh = ?v"
    with sound show ?thesis by (simp add: grown_def landed_same)
  next
    fix c' l rec assume j: "head_body x L sh e revise (fst ?v) = Inr (Some (rec, c', l))"
      and v: "view s1 sh = (Some c', snd ?v @ [l])"
    from seals [OF j] obtain e' where "revise e = Inr e'" "lr_entry rec = e'\<lparr>e_seq := length (snd ?v)\<rparr>"
        "carries x l (lr_entry rec)" "sound_shard x K (Some c', snd ?v @ [l])" by blast
    with v show ?thesis by (auto simp: grown_def intro!: landed_line_of)
  qed
  have ss1: "sound_store x K s1" using assms(1) ok1 o kept unfolding sound_store_def by metis
  have os1: "one_step sh s s1" using o kept by (simp add: one_step_def)
  show ?thesis
  proof (cases q)
    case (Inl z)
    with assms(5) w have "s' = s1" "isl r" by (auto simp: append_revised_def s_simps)
    with ss1 os1 kept show ?thesis by auto
  next
    case (Inr p)
    obtain c rs where p: "p = (c, rs)" by (cases p)
    from post Inr p have c: "c = fst ?v" by (simp add: section_post_def)
    show ?thesis
    proof (cases "head_body x L sh e revise c")
      case (Inl z)
      with assms(5) w Inr p have "s' = s1" "isl r" by (auto simp: append_revised_def s_simps)
      with ss1 os1 kept show ?thesis by auto
    next
      case hb: (Inr sealed)
      show ?thesis
      proof (cases sealed)
        case (Some t)
        obtain rec c' l where t: "t = (rec, c', l)" by (cases t)
        with assms(5) w Inr p hb Some have e: "s' = s1" "r = Inr rec" by (auto simp: append_revised_def s_simps)
        have "?g c = Inr (Some (c', l))" using hb Some t by (simp add: to_write_def)
        with post Inr p have "view s1 sh = (Some c', snd ?v @ [l])" by (simp add: section_post_def)
        moreover have "head_body x L sh e revise (fst ?v) = Inr (Some (rec, c', l))" using hb Some t c by simp
        from seals [OF this] obtain e' where "revise e = Inr e'" "lr_entry rec = e'\<lparr>e_seq := length (snd ?v)\<rparr>"
          "carries x l (lr_entry rec)" by blast
        ultimately show ?thesis using e ss1 os1 kept by simp
      next
        case None
        have "?g c = Inr None" using hb None by (simp add: to_write_def)
        with post Inr p have same: "view s1 sh = ?v" by (simp add: section_post_def)
        let ?f = "\<lambda>_ :: json list. res_map (\<lambda>e'. (Some e', ())) (revise e)"
        obtain q2 s2 where cs: "critical_section x L (S h) sh ?f s1 = (q2, s2)" by (metis prod.exhaust)
        note ck = critical_keeps [OF ss1 assms(2,3,4) cs]
        have os2: "one_step sh s s2" using ck(2) same o by (simp add: one_step_def)
        have e: "s' = s2" "\<forall>rec. r = Inr rec \<longrightarrow> q2 = Inr (Some rec, ())"
          using assms(5) w Inr p hb None cs by (auto simp: append_revised_def s_simps ok_or_def split: sum.splits option.splits)
        have "\<exists>e' c line. revise e = Inr e' \<and> lr_entry rec = e'\<lparr>e_seq := length (snd ?v)\<rparr> \<and>
            view s' sh = (Some c, snd ?v @ [line]) \<and> carries x line (lr_entry rec)"
          if "r = Inr rec" for rec
          using ck(3) [of "Some rec" "()"] e that same by (auto simp: res_simps)
        moreover have "landed x (\<lambda>e'. revise e = Inr e') ?v (view s' sh)" using ck(4) e(1) same by (auto simp: landed_def res_simps)
        ultimately show ?thesis using ck(1) os2 e(1) by blast
      qed
    qed
  qed
qed

end

section \<open>Processes on one store\<close>

text \<open>One call of some process: each has its own ledger, whose key is in the ring, and the store of
  each call fails as it will. Calls on a shard are serialised by its lock.\<close>

inductive sh_step :: "ext \<Rightarrow> bytes list \<Rightarrow> ('h \<Rightarrow> 's head_store) \<Rightarrow> 's \<Rightarrow> 's \<Rightarrow> bool" for x K S where
  sh_append: "x_public x (sl_key L) \<in> set K \<Longrightarrow> append_revised x L (S h) sh e revise s = (r, s') \<Longrightarrow> sh_step x K S s s'"
| sh_section: "x_public x (sl_key L) \<in> set K \<Longrightarrow> critical_section x L (S h) sh (f :: json list \<Rightarrow> ledger_error + (entry option \<times> json)) s = (r, s') \<Longrightarrow>
    sh_step x K S s s'"
| sh_evidence: "evidence_snapshot x L (S h) sh ts s = (r, s') \<Longrightarrow> sh_step x K S s s'"
| sh_checkpoint: "sharded_checkpoint x L (S h) sh ts s = (r, s') \<Longrightarrow> sh_step x K S s s'"
| sh_list: "sharded_list_shards (S h) s = (r, s') \<Longrightarrow> sh_step x K S s s'"

text \<open>The outcome an audit gives for a shard: the report on its lines, or that the store could not be read.\<close>

definition audited :: "ext \<Rightarrow> bytes list \<Rightarrow> string list \<Rightarrow> ledger_error + verify_report \<Rightarrow> bool" where
  "audited x K ls r \<longleftrightarrow>
     (case r of
        Inr rep \<Rightarrow> verify_lines x (map Inr ls) K None = Inr (rep, None)
      | Inl e \<Rightarrow> \<exists>m. e = Io ''<sharded ledger store>'' m)"

text \<open>A shard's leaves are its records' hashes.\<close>

abbreviation leaf_data :: "ext \<Rightarrow> string \<Rightarrow> bytes option" where
  "leaf_data x l \<equiv> x_unhex x (rl_hash (projr (x_parse_record x l)))"

lemma stored_leaves_Inr:
  assumes "stored_leaves x i rs = Inr leaves" and "\<forall>r \<in> set rs. labelled x (sr_record_json r)" and "label_law x"
  shows "map Some leaves = map (leaf_data x) (map sr_record_json rs)"
  using assms(1,2)
proof (induction rs arbitrary: i leaves)
  case (Cons r rs)
  then obtain v h l ls where v: "x_value x (sr_record_json r) = Inr v" "jget_str v ''hash'' = Some h" "x_unhex x h = Some l"
    "stored_leaves x (i + 1) rs = Inr ls" "leaves = l # ls" by (auto simp: res_simps map_err_eq_Inr)
  from Cons.prems(2) obtain q where q: "x_parse_record x (sr_record_json r) = Inr q" by (auto simp: labelled_def)
  with assms(3) v(1,2) have "rl_hash q = h" unfolding label_law_def by force
  with Cons.IH [OF v(4)] Cons.prems(2) v(3,5) q show ?case by simp
qed simp

lemma sharded_signed:
  assumes "sig_law x"
  shows "verify_checkpoint_sig x (sharded_checkpoint_of x L c ts) (x_public x (sl_key L))"
    and "verify_tree_head_sig x (sharded_sign_tree_head x L leaves ts) (x_public x (sl_key L))"
  using assms by (simp_all add: verify_checkpoint_sig_def sharded_checkpoint_of_def verify_tree_head_sig_def
    sharded_sign_tree_head_def decode_sig_def sig_law_def Let_def)

context shard_store
begin

lemma raw_reads:
  assumes "ok s" and "raw_stored_records (S h) sh s = (r, s')"
  shows "ok s'" and "view s' t = view s t" and "r = Inr (c, rs) \<Longrightarrow> c = fst (view s sh) \<and> map sr_record_json rs = snd (view s sh)"
    and "r = Inl e \<Longrightarrow> \<exists>m. e = Io ''<sharded ledger store>'' m"
proof -
  obtain q s1 where w: "hs_with_shard (S h) sh (\<lambda>_ _. Inr None) s = (q, s1)" by (metis prod.exhaust)
  have sok: "section_ok True (view s sh) (\<lambda>_ _. Inr None)" by (simp add: section_ok_def)
  have e: "s' = s1" "r = map_err store_to_ledger_err q" using assms(2) w by (auto simp: raw_stored_records_def s_err_def map_err_def split: sum.splits)
  from with_shard_law [OF assms(1) sok w] have l: "ok s1" "section_post True (view s sh) (\<lambda>_ _. Inr None) q (view s1 sh)"
    "\<forall>t. t \<noteq> sh \<longrightarrow> view s1 t = view s t" by auto
  then have "view s1 sh = view s sh" by (auto simp: section_post_def split: sum.splits)
  with l(1,3) e show "ok s'" "view s' t = view s t" by (simp, cases "t = sh") simp_all
  show "r = Inr (c, rs) \<Longrightarrow> c = fst (view s sh) \<and> map sr_record_json rs = snd (view s sh)"
    using e l(2) by (auto simp: section_post_def map_err_eq_Inr)
  show "r = Inl e \<Longrightarrow> \<exists>m. e = Io ''<sharded ledger store>'' m"
    using e by (auto simp: map_err_def store_to_ledger_err_def split: sum.splits)
qed

lemma head_reads:
  assumes "ok s" and "hs_with_shard_head (S h) sh (\<lambda>_. Inr None) s = (r, s')"
  shows "ok s'" and "view s' t = view s t" and "r = Inr (c, rs) \<Longrightarrow> c = fst (view s sh)"
proof -
  have sok: "section_ok False (view s sh) (\<lambda>_ _. Inr None)" by (simp add: section_ok_def)
  from with_shard_head_law [OF assms(1) sok assms(2)] have l: "ok s'" "section_post False (view s sh) (\<lambda>_ _. Inr None) r (view s' sh)"
    "\<forall>t. t \<noteq> sh \<longrightarrow> view s' t = view s t" by auto
  then have "view s' sh = view s sh" by (auto simp: section_post_def split: sum.splits)
  with l show "ok s'" "view s' t = view s t" by (simp, cases "t = sh") simp_all
  show "r = Inr (c, rs) \<Longrightarrow> c = fst (view s sh)" using l(2) by (auto simp: section_post_def)
qed

definition kept :: "'s \<Rightarrow> 's \<Rightarrow> bool" where
  "kept s s' \<longleftrightarrow> (\<forall>sh. \<exists>more. snd (view s' sh) = snd (view s sh) @ more)"

lemma one_step_kept: "one_step sh s s' \<Longrightarrow> kept s s'"
  unfolding one_step_def kept_def grown_def by (metis append_Nil2 snd_conv)

lemma same_kept: "sound_store x K s \<Longrightarrow> ok s' \<Longrightarrow> (\<And>t. view s' t = view s t) \<Longrightarrow> sound_store x K s' \<and> kept s s'"
  by (simp add: sound_store_def kept_def)

lemma step_keeps:
  assumes "sh_step x K S s s'" and "sound_store x K s" and "ext_ok x" and "label_law x"
  shows "sound_store x K s' \<and> kept s s'"
  using assms(1)
proof cases
  case (sh_append L h sh e revise r)
  from append_keeps [OF assms(2-4) this] show ?thesis by (auto dest: one_step_kept)
next
  case (sh_section L h sh f r)
  from critical_keeps(1,2) [OF assms(2-4) this] show ?thesis by (auto dest: one_step_kept)
next
  case (sh_evidence L h sh ts r)
  obtain q s1 where w: "raw_stored_records (S h) sh s = (q, s1)" by (metis prod.exhaust)
  with sh_evidence have "s' = s1" by (auto simp: evidence_snapshot_def s_simps Let_def split: sum.splits)
  with raw_reads(1,2) [OF _ w] assms(2) show ?thesis by (intro same_kept) (simp_all add: sound_store_def)
next
  case (sh_checkpoint L h sh ts r)
  obtain q s1 where w: "hs_with_shard_head (S h) sh (\<lambda>_. Inr None) s = (q, s1)" by (metis prod.exhaust)
  with sh_checkpoint have "s' = s1" by (auto simp: sharded_checkpoint_def s_simps split: sum.splits)
  with head_reads(1,2) [OF _ w] assms(2) show ?thesis by (intro same_kept) (simp_all add: sound_store_def)
next
  case (sh_list h r)
  obtain q s1 where w: "hs_list_shards (S h) s = (q, s1)" by (metis prod.exhaust)
  with sh_list have "s' = s1" by (auto simp: sharded_list_shards_def s_err_def split: sum.splits)
  with list_law [OF _ w] assms(2) have "s' = s" by (simp add: sound_store_def)
  with assms(2) show ?thesis by (simp add: kept_def)
qed

lemma runs_keep:
  assumes "(sh_step x K S)\<^sup>*\<^sup>* s s'" and "sound_store x K s" and "ext_ok x" and "label_law x"
  shows "sound_store x K s' \<and> kept s s'"
  using assms(1)
proof (induction rule: rtranclp_induct)
  case base
  then show ?case using assms(2) by (simp add: kept_def)
next
  case (step y z)
  with step_keeps [OF step(2) _ assms(3,4)] show ?case unfolding kept_def by (metis append_assoc)
qed

text \<open>An audit reads each shard as it stands.\<close>

lemma verify_one:
  assumes "sound_store x K s" and "verify_one_shard x (S h) sh K s = (r, s')"
  shows "sound_store x K s' \<and> (\<forall>t. view s' t = view s t) \<and>
    audited x K (snd (view s sh)) r"
proof -
  from assms(1) have ok: "ok s" and sound: "sound_shard x K (view s sh)" by (auto simp: sound_store_def)
  obtain q s1 where w: "raw_stored_records (S h) sh s = (q, s1)" by (metis prod.exhaust)
  note rr = raw_reads [OF ok w]
  have s1: "s' = s1" using assms(2) w by (auto simp: verify_one_shard_def s_simps split: sum.splits)
  have v: "sound_store x K s' \<and> (\<forall>t. view s' t = view s t)" using rr(1,2) s1 assms(1) by (simp add: sound_store_def)
  show ?thesis
  proof (cases q)
    case (Inl e)
    with assms(2) w have "r = Inl e" by (auto simp: verify_one_shard_def s_simps)
    with rr(4) [OF Inl] v show ?thesis by (simp add: audited_def)
  next
    case (Inr p)
    obtain c rs where p: "p = (c, rs)" by (cases p)
    with assms(2) w Inr have "r = verify_stored_records x (map sr_record_json rs) K" by (auto simp: verify_one_shard_def s_simps)
    moreover from sound obtain rep where "verify_lines x (map Inr (snd (view s sh))) K None = Inr (rep, None)" by (auto simp: sound_shard_def)
    ultimately show ?thesis using rr(3) [of c rs] Inr p v by (simp add: verify_stored_records_def audited_def)
  qed
qed

lemma verify_all:
  assumes "sound_store x K s" and "verify_shards x (S h) K shs s = (out, s')"
  shows "map fst out = shs \<and> sound_store x K s' \<and>
    (\<forall>(sh, r) \<in> set out. audited x K (snd (view s sh)) r)"
  using assms
proof (induction shs arbitrary: s out s')
  case (Cons sh shs)
  obtain r s1 where r: "verify_one_shard x (S h) sh K s = (r, s1)" by (metis prod.exhaust)
  obtain out' s2 where o: "verify_shards x (S h) K shs s1 = (out', s2)" by (metis prod.exhaust)
  from verify_one [OF Cons.prems(1) r] have v: "sound_store x K s1" "\<And>t. view s1 t = view s t"
    "audited x K (snd (view s sh)) r" by auto
  from Cons.prems(2) r o have "out = (sh, r) # out'" "s' = s2" by auto
  with Cons.IH [OF v(1) o] v(2,3) show ?case by simp
qed simp

lemma evidence_agrees:
  assumes "sound_store x K s" and "ext_ok x" and "label_law x"
    and "evidence_snapshot x L (S h) sh ts s = (Inr (n, recs, cp, th), s')"
  shows "map sr_record_json recs = snd (view s sh) \<and> n = length recs \<and> cp_count cp = n \<and> th_tree_size th = n \<and>
    (\<exists>rep. verify_stored_records x (map sr_record_json recs) K = Inr rep \<and> cp_root cp = unwrap_or genesis (vr_root rep)) \<and>
    (\<exists>leaves. map Some leaves = map (leaf_data x) (map sr_record_json recs) \<and>
       th_merkle_root th = x_hex x (tree_hash (x_sha256 x) leaves)) \<and>
    verify_checkpoint_sig x cp (x_public x (sl_key L)) \<and> verify_tree_head_sig x th (x_public x (sl_key L))"
proof -
  from assms(1) have ok: "ok s" and sound: "sound_shard x K (view s sh)" by (auto simp: sound_store_def)
  from assms(4) obtain c leaves s1 where w: "raw_stored_records (S h) sh s = (Inr (c, recs), s1)"
    and lv: "stored_leaves x 0 recs = Inr leaves" and e: "cp = sharded_checkpoint_of x L c ts" "th = sharded_sign_tree_head x L leaves ts"
      "n = cp_count cp"
    by (auto simp: evidence_snapshot_def s_simps Let_def split: sum.splits)
  from raw_reads(3) [OF ok w] have v: "c = fst (view s sh)" "map sr_record_json recs = snd (view s sh)" by auto
  have "view s sh = (c, map sr_record_json recs)" using v by (simp add: prod_eq_iff)
  note sh = sound [unfolded this sound_shard_def fst_conv snd_conv]
  then obtain rep where rep: "verify_lines x (map Inr (map sr_record_json recs)) K None = Inr (rep, None)"
    and h: "case c of None \<Rightarrow> recs = [] | Some c \<Rightarrow> hc_next_seq c = length recs \<and> unwrap_or genesis (vr_root rep) = hc_last_hash c"
    by (cases c) auto
  have lab: "\<forall>r \<in> set recs. labelled x (sr_record_json r)" using sh by simp
  have lf: "map Some leaves = map (leaf_data x) (map sr_record_json recs)" by (rule stored_leaves_Inr [OF lv lab assms(3)])
  then have "length leaves = length recs" by (metis length_map)
  moreover have "cp_count cp = length recs \<and> cp_root cp = unwrap_or genesis (vr_root rep)"
    using h rep e(1) by (cases c) (auto simp: sharded_checkpoint_of_def Let_def verify_lines_def init_vstate_def report_of_def unwrap_or_def)
  moreover have "sig_law x" using assms(2) by (simp add: ext_ok_def)
  moreover have "th_merkle_root th = x_hex x (tree_hash (x_sha256 x) leaves) \<and> th_tree_size th = length leaves"
    using e(2) by (simp add: sharded_sign_tree_head_def Let_def)
  ultimately show ?thesis using v(2) e lf rep sharded_signed [of x L] by (auto simp: verify_stored_records_def)
qed

end

section \<open>A key that may extend a shard extends it\<close>

text \<open>serde prints every entry and record.\<close>

definition json_total :: "ext \<Rightarrow> bool" where
  "json_total x \<longleftrightarrow> (\<forall>e. \<exists>s s'. x_entry_json x e = Inr s \<and> x_raw x s = Inr s') \<and> (\<forall>r. \<exists>l. x_record_json x r = Inr l)"

lemma seal_total:
  assumes "json_total x" and "may_extend x spans (key_fingerprint x (x_public x (sl_key L))) (sl_verifiers L) sh = Inr u"
  shows "\<exists>rec c line. seal x L sh cursor spans e = Inr (rec, c, line)"
proof -
  have j: "\<exists>s s'. x_entry_json x e' = Inr s \<and> x_raw x s = Inr s'" "\<exists>l. x_record_json x r = Inr l" for e' r
    using assms(1) by (auto simp: json_total_def)
  have j2: "x_record_json x r = Inl z \<Longrightarrow> False" for r z using j(2) [of r] by auto
  let ?e = "e\<lparr>e_seq := case cursor of Some c \<Rightarrow> hc_next_seq c | None \<Rightarrow> 0\<rparr>"
  obtain s s' where "x_entry_json x ?e = Inr s" "x_raw x s = Inr s'" using j(1) by blast
  with assms(2) show ?thesis unfolding seal_def Let_def by (auto simp: map_err_def split: sum.splits dest: j2)
qed

lemma to_write_Inr: "\<exists>w. to_write m = Inr w"
  by (auto simp: to_write_def split: sum.splits option.splits)

lemma sound_one_line: "sound_shard x K v \<Longrightarrow> \<forall>l \<in> set (snd v). nl \<notin> set l"
  by (auto simp: sound_shard_def labelled_def)

lemma critical_calm:
  assumes ok: "heads_ok hx root d" and sound: "sound_shard x K (file_heads hx root d sh)" and x: "ext_ok x" "label_law x" "json_total x"
    and key: "x_public x (sl_key L) \<in> set K" and pr: "\<forall>h. \<exists>b. hx_print_head hx h = Inr b" and fs: "shard_files_of root sh = Inr fs"
    and rep: "verify_lines x (map Inr (snd (file_heads hx root d sh))) K None = Inr (rep, None)"
    and may: "may_extend x (map span_of (vr_signers rep)) (key_fingerprint x (x_public x (sl_key L))) (sl_verifiers L) sh = Inr ()"
  shows "\<exists>rec d'. critical_section x L (file_store hx root calm) sh (\<lambda>_. Inr (Some e, ())) d = (Inr (Some rec, ()), d')"
proof -
  let ?v = "file_heads hx root d sh" and ?f = "\<lambda>_ :: json list. Inr (Some e, ()) :: ledger_error + (entry option \<times> unit)"
  let ?h = "\<lambda>cursor existing. to_write (res_map fst (critical_body x L sh ?f cursor existing))"
  note cb = critical_body_seals [OF sound x(1,2) key]
  have h: "\<exists>w. ?h (fst ?v) rs = Inr w \<and> (\<forall>c l. w = Some (c, l) \<longrightarrow> nl \<notin> set l)" if "map sr_record_json rs = snd ?v" for rs
  proof -
    have "nl \<notin> set l" if "?h (fst ?v) rs = Inr (Some (c, l))" for c l
      using that cb [OF \<open>map sr_record_json rs = snd ?v\<close>] unfolding to_write_Some res_map_eq_Inr by fastforce
    with to_write_Inr [of "res_map fst (critical_body x L sh ?f (fst ?v) rs)"] show ?thesis by auto
  qed
  then obtain r2 d2 where w2: "hs_with_shard (file_store hx root calm) sh ?h d = (Inr r2, d2)"
    using file_section_calm [OF ok fs pr sound_one_line [OF sound], of True ?h] by (auto simp: file_store_def)
  obtain c2 rs2 where r2: "r2 = (c2, rs2)" by (cases r2)
  have "section_ok True ?v ?h" unfolding section_ok_def to_write_Some by (auto simp: res_simps dest: cb)
  from durable_heads.with_shard_law [OF ok this w2] r2 have v2: "c2 = fst ?v" "map sr_record_json rs2 = snd ?v"
    by (auto simp: section_post_def)
  from sound have k: "K \<noteq> []" "\<forall>l \<in> set (snd ?v). labelled x l" by (auto simp: sound_shard_def)
  obtain vs where vs: "map (x_value x) (snd ?v) = map Inr vs" using labelled_values [OF x(2) k(2)] by blast
  note p = parsed_values [OF v2(2) vs]
  from seal_total [OF x(3) may] obtain rec c' l where "seal x L sh c2 (spans_of x vs (sl_verifiers L)) e = Inr (rec, c', l)"
    unfolding verify_lines_spans(1) [OF rep k x(2) vs] by blast
  with p have "critical_body x L sh ?f c2 rs2 = Inr (Some (rec, c', l), ())" by (simp add: critical_body_def)
  with w2 r2 show ?thesis by (simp add: critical_section_def s_bind_def s_err_def s_look_def)
qed

lemma append_calm:
  assumes ok: "heads_ok hx root d" and sound: "sound_shard x K (file_heads hx root d sh)" and x: "ext_ok x" "label_law x" "json_total x"
    and key: "x_public x (sl_key L) \<in> set K" and pr: "\<forall>h. \<exists>b. hx_print_head hx h = Inr b" and sh: "sh \<noteq> []"
    and rep: "verify_lines x (map Inr (snd (file_heads hx root d sh))) K None = Inr (rep, None)"
    and may: "may_extend x (map span_of (vr_signers rep)) (key_fingerprint x (x_public x (sl_key L))) (sl_verifiers L) sh = Inr ()"
  shows "\<exists>rec d'. sharded_append x L (file_store hx root calm) sh e d = (Inr rec, d')"
proof -
  let ?v = "file_heads hx root d sh" and ?g = "\<lambda>cursor. to_write (head_body x L sh e Inr cursor)"
  from sh obtain fs where fs: "shard_files_of root sh = Inr fs" by (auto simp: shard_files_of_Inr)
  note hs = head_body_seals [OF sound x(1,2) key]
  have one: "nl \<notin> set l" if "?g (fst ?v) = Inr (Some (c, l))" for c l
    using that hs unfolding to_write_Some by blast
  have "\<exists>w. ?g (fst ?v) = Inr w \<and> (\<forall>c l. w = Some (c, l) \<longrightarrow> nl \<notin> set l)"
    using to_write_Inr [of "head_body x L sh e Inr (fst ?v)"] one by auto
  then obtain r1 d1 where w: "hs_with_shard_head (file_store hx root calm) sh ?g d = (Inr r1, d1)"
    using file_section_calm [OF ok fs pr sound_one_line [OF sound], of False "\<lambda>c _. ?g c"] by (auto simp: file_store_def)
  obtain c rs where r1: "r1 = (c, rs)" by (cases r1)
  have "section_ok False ?v (\<lambda>c _. ?g c)" unfolding section_ok_def to_write_Some by (auto dest: hs)
  note law = durable_heads.with_shard_head_law [OF ok this w]
  from law r1 have c: "c = fst ?v" by (auto simp: section_post_def)
  show ?thesis
  proof (cases "current_spans c")
    case (Some spans)
    with sound_spans [OF sound rep] seal_total [OF x(3) may] c obtain rec c' l where "seal x L sh c spans e = Inr (rec, c', l)" by blast
    with Some w r1 show ?thesis by (simp add: sharded_append_def append_revised_def head_body_def s_bind_def s_err_def s_look_def s_ret_def)
  next
    case None
    then have n: "head_body x L sh e Inr c = Inr None" by (simp add: head_body_def)
    with law r1 have same: "file_heads hx root d1 sh = ?v" and ok1: "heads_ok hx root d1" by (auto simp: section_post_def to_write_def)
    from critical_calm [OF ok1 _ x key pr fs _ may, of e] sound rep same
    obtain rec d2 where "critical_section x L (file_store hx root calm) sh (\<lambda>_. Inr (Some e, ())) d1 = (Inr (Some rec, ()), d2)" by auto
    with w r1 n show ?thesis
      by (simp add: sharded_append_def append_revised_def s_bind_def s_err_def s_look_def s_ret_def ok_or_def)
  qed
qed

section \<open>Properties\<close>

text \<open>The store of the examples: two processes, the second rotating the first one's key.\<close>

definition first_process :: sharded where
  "first_process = sharded_new demo_ext ''K'' []"

definition second_process :: sharded where
  "second_process = sharded_new demo_ext ''L'' [''K'']"

abbreviation demo_heads :: "stages \<Rightarrow> disk head_store" where
  "demo_heads \<equiv> file_store demo_head_ext ''h''"

abbreviation demo_ring :: "bytes list" where
  "demo_ring \<equiv> [''K'', ''L'']"

lemma demo_label_law: "label_law demo_ext"
  by (auto simp: label_law_def demo_ext_def jget_str_def jget_def split: option.splits)

lemma demo_json_total: "json_total demo_ext"
  by (simp add: json_total_def demo_ext_def demo_record_json_def)

lemma demo_keys: "x_public demo_ext (sl_key first_process) = ''K''" "x_public demo_ext (sl_key second_process) = ''L''"
  by (simp_all add: first_process_def second_process_def sharded_new_def demo_ext_def)

lemma demo_first:
  "\<exists>rec d1. sharded_append demo_ext first_process (demo_heads calm) ''a'' (demo_entry 7) demo_root = (Inr rec, d1)"
proof (rule append_calm [where K = demo_ring])
  show "verify_lines demo_ext (map Inr (snd (file_heads demo_head_ext ''h'' demo_root ''a''))) demo_ring None =
      Inr (\<lparr>vr_entries = 0, vr_root = None, vr_signatures_checked = True, vr_signers = []\<rparr>, None)"
    by (simp add: verify_lines_def init_vstate_def report_of_def)
qed (use demo_heads_ok demo_ext_ok demo_label_law demo_json_total demo_prints demo_keys in \<open>simp_all add: may_extend_def\<close>)

lemma demo_sound: "\<forall>sh. sound_shard demo_ext demo_ring (file_heads demo_head_ext ''h'' demo_root sh)"
  by simp

text \<open>C14: any number of processes with keys in a ring extend the shards of one directory, each call
  failing anywhere it can: every shard goes on verifying under the ring, its cursor is the head of
  its lines, and no committed line is ever lost, changed or reordered.\<close>

theorem sharded_runs_verify:
  assumes "ext_ok x" and "label_law x" and "heads_ok hx root d" and "\<forall>sh. sound_shard x K (file_heads hx root d sh)"
    and "(sh_step x K (file_store hx root))\<^sup>*\<^sup>* d d'"
  shows "heads_ok hx root d' \<and> (\<forall>sh. sound_shard x K (file_heads hx root d' sh) \<and>
    (\<exists>more. snd (file_heads hx root d' sh) = snd (file_heads hx root d sh) @ more))"
  using durable_heads.runs_keep [OF assms(5) _ assms(1,2)] assms(3,4)
  by (simp add: durable_heads.sound_store_def durable_heads.kept_def)

theorem sharded_runs_verify_witness:
  "\<exists>rec d1 r d2. sharded_append demo_ext first_process (demo_heads calm) ''a'' (demo_entry 7) demo_root = (Inr rec, d1) \<and>
    sharded_append demo_ext second_process (demo_heads calm) ''a'' (demo_entry 8) d1 = (r, d2) \<and>
    (\<forall>sh. sound_shard demo_ext demo_ring (file_heads demo_head_ext ''h'' d2 sh))"
proof -
  obtain rec d1 where a: "sharded_append demo_ext first_process (demo_heads calm) ''a'' (demo_entry 7) demo_root = (Inr rec, d1)"
    using demo_first by blast
  obtain r d2 where b: "sharded_append demo_ext second_process (demo_heads calm) ''a'' (demo_entry 8) d1 = (r, d2)" by (metis prod.exhaust)
  have "sh_step demo_ext demo_ring demo_heads demo_root d1"
    by (rule sh_append [where S = demo_heads and h = calm, OF _ a [unfolded sharded_append_def]]) (simp add: first_process_def sharded_new_def)
  moreover have "sh_step demo_ext demo_ring demo_heads d1 d2"
    by (rule sh_append [where S = demo_heads and h = calm, OF _ b [unfolded sharded_append_def]]) (simp add: second_process_def sharded_new_def)
  ultimately have "(sh_step demo_ext demo_ring demo_heads)\<^sup>*\<^sup>* demo_root d2" by (meson rtranclp.rtrancl_into_rtrancl rtranclp.rtrancl_refl)
  from sharded_runs_verify [OF demo_ext_ok demo_label_law demo_heads_ok demo_sound this] a b show ?thesis by blast
qed

text \<open>C33: a critical section is atomic: its callback is given exactly the committed records, what
  it returns is what the caller gets, the entry it asks for is the next record after those it was
  given, and when it asks for none, or fails, or the store fails, the shard has at most the one
  record more that was sealed for it; no other shard changes.\<close>

theorem critical_section_atomic:
  fixes f :: "json list \<Rightarrow> ledger_error + (entry option \<times> 'a)"
  assumes "ext_ok x" and "label_law x" and "heads_ok hx root d" and "\<forall>sh. sound_shard x K (file_heads hx root d sh)"
    and "x_public x (sl_key L) \<in> set K" and "critical_section x L (file_store hx root pl) sh f d = (r, d')"
  shows "(\<forall>rec a. r = Inr (rec, a) \<longrightarrow> (\<exists>vs. map (x_value x) (snd (file_heads hx root d sh)) = map Inr vs \<and>
      (case rec of
         None \<Rightarrow> f vs = Inr (None, a) \<and> file_heads hx root d' sh = file_heads hx root d sh
       | Some q \<Rightarrow> \<exists>e c line. f vs = Inr (Some e, a) \<and> lr_entry q = e\<lparr>e_seq := length (snd (file_heads hx root d sh))\<rparr> \<and>
           file_heads hx root d' sh = (Some c, snd (file_heads hx root d sh) @ [line]) \<and> carries x line (lr_entry q)))) \<and>
    grown (file_heads hx root d sh) (file_heads hx root d' sh) \<and>
    (\<forall>t. t \<noteq> sh \<longrightarrow> file_heads hx root d' t = file_heads hx root d t)"
  using durable_heads.critical_keeps [of hx root x K d L pl sh f r d'] assms
  by (simp add: durable_heads.sound_store_def durable_heads.one_step_def)

theorem critical_section_atomic_witness:
  "\<exists>rec d'. critical_section demo_ext first_process (demo_heads calm) ''a'' (\<lambda>_. Inr (Some (demo_entry 7), ())) demo_root = (Inr (Some rec, ()), d') \<and>
    lr_entry rec = demo_entry 0 \<and> length (snd (file_heads demo_head_ext ''h'' d' ''a'')) = 1"
proof -
  let ?f = "\<lambda>_ :: json list. Inr (Some (demo_entry 7), ()) :: ledger_error + (entry option \<times> unit)"
  obtain fs where fs: "shard_files_of ''h'' ''a'' = Inr fs" using shard_files_of_Inr [of "''h''" "''a''"] by blast
  have "\<exists>rec d'. critical_section demo_ext first_process (demo_heads calm) ''a'' ?f demo_root = (Inr (Some rec, ()), d')"
  proof (rule critical_calm [where K = demo_ring, OF _ _ _ _ _ _ _ fs])
    show "verify_lines demo_ext (map Inr (snd (file_heads demo_head_ext ''h'' demo_root ''a''))) demo_ring None =
        Inr (\<lparr>vr_entries = 0, vr_root = None, vr_signatures_checked = True, vr_signers = []\<rparr>, None)"
      by (simp add: verify_lines_def init_vstate_def report_of_def)
  qed (use demo_heads_ok demo_ext_ok demo_label_law demo_json_total demo_prints demo_keys in \<open>simp_all add: may_extend_def\<close>)
  then obtain rec d' where a: "critical_section demo_ext first_process (demo_heads calm) ''a'' ?f demo_root = (Inr (Some rec, ()), d')" by blast
  have "x_public demo_ext (sl_key first_process) \<in> set demo_ring" by (simp add: first_process_def sharded_new_def)
  from critical_section_atomic [OF demo_ext_ok demo_label_law demo_heads_ok demo_sound this a] a
  show ?thesis by (auto simp: demo_entry_def)
qed

text \<open>With no fault, a process whose key may extend a shard, from the signers an auditor finds in
  it, gets its record committed: the last line of the shard, at the next sequence number.\<close>

theorem append_is_committed:
  assumes "ext_ok x" and "label_law x" and "json_total x" and "heads_ok hx root d" and "\<forall>sh. sound_shard x K (file_heads hx root d sh)"
    and "x_public x (sl_key L) \<in> set K" and "\<forall>h. \<exists>b. hx_print_head hx h = Inr b" and "sh \<noteq> []"
    and "verify_lines x (map Inr (snd (file_heads hx root d sh))) K None = Inr (rep, None)"
    and "may_extend x (map span_of (vr_signers rep)) (key_fingerprint x (x_public x (sl_key L))) (sl_verifiers L) sh = Inr ()"
  shows "\<exists>rec d' c line. sharded_append x L (file_store hx root calm) sh e d = (Inr rec, d') \<and>
    lr_entry rec = e\<lparr>e_seq := length (snd (file_heads hx root d sh))\<rparr> \<and>
    file_heads hx root d' sh = (Some c, snd (file_heads hx root d sh) @ [line]) \<and> carries x line (lr_entry rec)"
proof -
  from assms(5) have "sound_shard x K (file_heads hx root d sh)" by blast
  from append_calm [OF assms(4) this assms(1-3,6-10)] obtain rec d' where a: "sharded_append x L (file_store hx root calm) sh e d = (Inr rec, d')" by blast
  from durable_heads.append_keeps [OF _ assms(1,2,6) a [unfolded sharded_append_def]] assms(4,5) a
  show ?thesis by (auto simp: durable_heads.sound_store_def)
qed

theorem append_is_committed_witness:
  "\<exists>rec d' c line. sharded_append demo_ext first_process (demo_heads calm) ''a'' (demo_entry 7) demo_root = (Inr rec, d') \<and>
    lr_entry rec = demo_entry 0 \<and> file_heads demo_head_ext ''h'' d' ''a'' = (Some c, [line])"
proof -
  have k: "x_public demo_ext (sl_key first_process) \<in> set demo_ring" by (simp add: first_process_def sharded_new_def)
  have v: "verify_lines demo_ext (map Inr (snd (file_heads demo_head_ext ''h'' demo_root ''a''))) demo_ring None =
      Inr (\<lparr>vr_entries = 0, vr_root = None, vr_signatures_checked = True, vr_signers = []\<rparr>, None)"
    by (simp add: verify_lines_def init_vstate_def report_of_def)
  from append_is_committed [OF demo_ext_ok demo_label_law demo_json_total demo_heads_ok demo_sound k _ _ v, of "demo_entry 7"] demo_prints
  show ?thesis by (simp add: may_extend_def) (auto simp: demo_entry_def)
qed

text \<open>The evidence of a shard is one snapshot: its records are the committed ones and verify under
  the ring, its checkpoint counts them and carries the last one's hash, its tree head is over their
  hashes in order and has the same size, and both signatures verify under the process's key.\<close>

theorem evidence_is_one_snapshot:
  assumes "ext_ok x" and "label_law x" and "heads_ok hx root d" and "\<forall>sh. sound_shard x K (file_heads hx root d sh)"
    and "evidence_snapshot x L (file_store hx root pl) sh ts d = (Inr (n, recs, cp, th), d')"
  shows "map sr_record_json recs = snd (file_heads hx root d sh) \<and> n = length recs \<and> cp_count cp = n \<and> th_tree_size th = n \<and>
    (\<exists>rep. verify_stored_records x (map sr_record_json recs) K = Inr rep \<and> cp_root cp = unwrap_or genesis (vr_root rep)) \<and>
    (\<exists>leaves. map Some leaves = map (leaf_data x) (map sr_record_json recs) \<and>
       th_merkle_root th = x_hex x (tree_hash (x_sha256 x) leaves)) \<and>
    verify_checkpoint_sig x cp (x_public x (sl_key L)) \<and> verify_tree_head_sig x th (x_public x (sl_key L))"
proof -
  have "durable_heads.sound_store hx root x K d" using assms(3,4) by (simp add: durable_heads.sound_store_def)
  from durable_heads.evidence_agrees [OF this assms(1,2,5)] show ?thesis .
qed

lemma demo_reads: "\<exists>d1. raw_stored_records (demo_heads calm) ''a'' demo_root = (Inr (None, []), d1)"
proof -
  obtain fs where fs: "shard_files_of ''h'' ''a'' = Inr fs" using shard_files_of_Inr [of "''h''" "''a''"] by blast
  obtain r d1 where w: "file_section demo_head_ext calm ''h'' ''a'' True (\<lambda>_ _. Inr None) demo_root = (Inr r, d1)"
    using file_section_calm [OF demo_heads_ok fs, of True "\<lambda>_ _. Inr None"] demo_prints by auto
  have "section_ok True (file_heads demo_head_ext ''h'' demo_root ''a'') (\<lambda>_ _. Inr None)" by (simp add: section_ok_def)
  from file_section_law [OF demo_heads_ok this w] have "r = (None, [])" by (auto simp: section_post_def)
  with w show ?thesis by (simp add: raw_stored_records_def file_store_def s_err_def)
qed

theorem evidence_is_one_snapshot_witness:
  "\<exists>cp th d'. evidence_snapshot demo_ext first_process (demo_heads calm) ''a'' 5 demo_root = (Inr (0, [], cp, th), d') \<and>
    cp_count cp = 0 \<and> th_tree_size th = 0 \<and> verify_checkpoint_sig demo_ext cp ''K''"
proof -
  obtain d1 where r: "raw_stored_records (demo_heads calm) ''a'' demo_root = (Inr (None, []), d1)" using demo_reads by blast
  then obtain n cp th where e: "evidence_snapshot demo_ext first_process (demo_heads calm) ''a'' 5 demo_root = (Inr (n, [], cp, th), d1)"
    by (simp add: evidence_snapshot_def s_bind_def s_look_def s_ret_def Let_def)
  from evidence_is_one_snapshot [OF demo_ext_ok demo_label_law demo_heads_ok demo_sound e] e show ?thesis
    by (simp add: first_process_def sharded_new_def)
qed

text \<open>An audit of a directory misses no shard: each one with a committed record is reported, and
  what is reported of a shard is the report on all of its committed lines, unless the store could not
  read it; a shard the processes wrote is never reported as tampered with.\<close>

theorem audit_reports_every_shard:
  assumes "heads_ok hx root d" and "\<forall>sh. sound_shard x K (file_heads hx root d sh)"
    and "verify_sharded_dir_with_keys x hx pl root K d = (Inr out, d')"
  shows "(\<forall>sh. fst (file_heads hx root d sh) \<noteq> None \<longrightarrow> sh \<in> fst ` set out) \<and> distinct (map fst out) \<and>
    (\<forall>(sh, r) \<in> set out. audited x K (snd (file_heads hx root d sh)) r)"
proof -
  have s: "durable_heads.sound_store hx root x K d" using assms(1,2) by (simp add: durable_heads.sound_store_def)
  obtain q d1 where l: "hs_list_shards (file_store hx root pl) d = (q, d1)" by (metis prod.exhaust)
  from durable_heads.list_law [OF assms(1) l] have d1: "d1 = d" by blast
  from assms(3) l d1 obtain shs where q: "q = Inr shs"
    and "(case verify_shards x (file_store hx root pl) K shs d of (res, s) \<Rightarrow> (Inr res :: ledger_error + _, s)) = (Inr out, d')"
    by (auto simp: verify_sharded_dir_with_keys_def s_simps io_step_def split: sum.splits option.splits)
  then have v: "verify_shards x (file_store hx root pl) K shs d = (out, d')" by (simp split: prod.splits)
  from durable_heads.list_law [OF assms(1) l] q have c: "sorted_wrt (<) shs" "\<And>sh. fst (file_heads hx root d sh) \<noteq> None \<Longrightarrow> sh \<in> set shs" by auto
  from durable_heads.verify_all [OF s v] have f: "map fst out = shs" "\<forall>(sh, r) \<in> set out. audited x K (snd (file_heads hx root d sh)) r" by auto
  have "set shs = fst ` set out" using f(1) by (metis set_map)
  with c f show ?thesis by (simp add: strict_sorted_iff)
qed

theorem audit_reports_every_shard_witness:
  "\<exists>out d'. verify_sharded_dir_with_keys demo_ext demo_head_ext calm ''h'' demo_ring demo_root = (Inr out, d') \<and> distinct (map fst out)"
proof -
  have "entry_name ''h'' ''h'' = None" by code_simp
  then have l: "file_list_shards demo_head_ext no_faults ''h'' demo_root = (Inr [], demo_root)"
    by (simp add: file_list_shards_def s_look_def read_dir_def is_dir_def demo_root_def no_faults_def map_err_def list_named_def
      List.map_filter_simps bs_of_list_def)
  have "\<exists>out d'. verify_sharded_dir_with_keys demo_ext demo_head_ext calm ''h'' demo_ring demo_root = (Inr out, d')"
    using l by (simp add: verify_sharded_dir_with_keys_def s_bind_def s_look_def s_err_def io_step_def demo_root_def
      is_dir_def res_guard_def file_store_def)
  then obtain out d' where a: "verify_sharded_dir_with_keys demo_ext demo_head_ext calm ''h'' demo_ring demo_root = (Inr out, d')" by blast
  from audit_reports_every_shard [OF demo_heads_ok demo_sound a] a show ?thesis by blast
qed

end
