(* ===== verification/Jcs.thy ===== *)
theory Jcs
  imports Storage
begin

text \<open>
  The canonical form of a JSON value and its digest, \<open>decern-ledger/src/jcs.rs\<close> (RFC 8785).
  The text of a string and of an integer is serde's, the shortest digits of a double are
  \<open>ryu_js\<close>'s: parameters. The order of the members, the separators and the rewriting of Ryu's
  output into the form ECMAScript prints are the code's own.

  A value's canonical text determines it, up to how its numbers were spelled; two values that
  differ only there have the same text; and the number printed is the number Ryu's output denotes.
\<close>

section \<open>The code\<close>

record jcs_ext =
  j_str :: "string \<Rightarrow> string"
  j_int :: "jnum \<Rightarrow> string"
  j_ryu :: "64 word \<Rightarrow> string"

subsection \<open>UTF-16 code units\<close>

text \<open>The scalar value of the sequence of \<open>n\<close> bytes a string starts with.\<close>

definition scalar_value :: "nat \<Rightarrow> nat list \<Rightarrow> nat" where
  "scalar_value n b =
     (if n = 1 then b ! 0
      else if n = 2 then (b ! 0 - 0xC0) * 64 + (b ! 1 - 0x80)
      else if n = 3 then (b ! 0 - 0xE0) * 4096 + (b ! 1 - 0x80) * 64 + (b ! 2 - 0x80)
      else (b ! 0 - 0xF0) * 262144 + (b ! 1 - 0x80) * 4096 + (b ! 2 - 0x80) * 64 + (b ! 3 - 0x80))"

definition utf16_of :: "nat \<Rightarrow> nat list" where
  "utf16_of c =
     (if c < 0x10000 then [c] else [0xD800 + (c - 0x10000) div 0x400, 0xDC00 + (c - 0x10000) mod 0x400])"

function utf16_units :: "nat list \<Rightarrow> nat list" where
  "utf16_units b =
     (if b = [] then []
      else let n = utf8_width b in if n = 0 then [] else utf16_of (scalar_value n b) @ utf16_units (drop n b))"
  by pat_completeness auto
termination
  by (relation "measure length") auto

declare utf16_units.simps [simp del]

definition encode_utf16 :: "string \<Rightarrow> nat list" where
  "encode_utf16 s = utf16_units (map of_char s)"

subsection \<open>Numbers\<close>

definition split_once :: "char \<Rightarrow> string \<Rightarrow> (string \<times> string) option" where
  "split_once c s =
     (if c \<in> set s then Some (takeWhile (\<lambda>x. x \<noteq> c) s, tl (dropWhile (\<lambda>x. x \<noteq> c) s)) else None)"

text \<open>\<open>str::parse::<i32>\<close>: digits with an optional sign, in range.\<close>

definition dec_val :: "string \<Rightarrow> nat" where
  "dec_val s = foldl (\<lambda>a c. 10 * a + (of_char c - 48)) 0 s"

definition parse_i32 :: "string \<Rightarrow> int option" where
  "parse_i32 s =
     (let neg = (s \<noteq> [] \<and> hd s = CHR ''-''); d = (if s \<noteq> [] \<and> hd s \<in> {CHR ''-'', CHR ''+''} then tl s else s);
          v = (if neg then - int (dec_val d) else int (dec_val d)) in
      if d \<noteq> [] \<and> list_all is_digit d \<and> - (2 ^ 31) \<le> v \<and> v < 2 ^ 31 then Some v else None)"

definition trim_zeros_end :: "string \<Rightarrow> string" where
  "trim_zeros_end s = rev (dropWhile (\<lambda>c. c = CHR ''0'') (rev s))"

definition zeros :: "int \<Rightarrow> string" where
  "zeros n = replicate (nat n) (CHR ''0'')"

text \<open>The last step of \<open>ecmascript_number\<close>: the significant digits, with the point after the \<open>n\<close>-th.\<close>

definition place_point :: "string \<Rightarrow> int \<Rightarrow> string" where
  "place_point digits n =
     (let k = int (length digits) in
      if k \<le> n \<and> n \<le> 21 then digits @ zeros (n - k)
      else if 0 < n \<and> n \<le> 21 then take (nat n) digits @ ''.'' @ drop (nat n) digits
      else if - 6 < n \<and> n \<le> 0 then ''0.'' @ zeros (- n) @ digits
      else (let sign = (if n > 0 then CHR ''+'' else CHR ''-''); magnitude = nat \<bar>n - 1\<bar> in
        if k = 1 then digits @ ''e'' @ sign # show_nat magnitude
        else take 1 digits @ ''.'' @ drop 1 digits @ ''e'' @ sign # show_nat magnitude))"

text \<open>The significant digits of Ryu's output, and where their point is.\<close>

definition significant :: "string \<Rightarrow> (string \<times> int) option" where
  "significant printed =
     (case (case split_once (CHR ''e'') printed of
              Some (m, e) \<Rightarrow> map_option (\<lambda>x. (m, x)) (parse_i32 e)
            | None \<Rightarrow> Some (printed, 0)) of
        None \<Rightarrow> None
      | Some (mantissa, exponent) \<Rightarrow>
          (let (int_digits, frac_digits) = unwrap_or (mantissa, '''') (split_once (CHR ''.'') mantissa);
               written = int_digits @ frac_digits;
               leading = length (takeWhile (\<lambda>c. c = CHR ''0'') written) in
           Some (trim_zeros_end (drop leading written), exponent + int (length int_digits) - int leading)))"

text \<open>A double by its bits: zero of either sign, and the sign bit. \<open>None\<close> is the panic of \<open>expect\<close>.\<close>

definition f64_zero :: "64 word \<Rightarrow> bool" where
  "f64_zero x \<longleftrightarrow> take_bit 63 x = 0"

definition ecmascript_number :: "jcs_ext \<Rightarrow> 64 word \<Rightarrow> string option" where
  "ecmascript_number j x =
     (if f64_zero x then Some ''0''
      else if bit x 63 then map_option (\<lambda>t. CHR ''-'' # t) (map_option (\<lambda>(d, n). place_point d n) (significant (j_ryu j (take_bit 63 x))))
      else map_option (\<lambda>(d, n). place_point d n) (significant (j_ryu j x)))"

definition write_number :: "jcs_ext \<Rightarrow> jnum \<Rightarrow> string option" where
  "write_number j n = (case n of Float x \<Rightarrow> ecmascript_number j x | _ \<Rightarrow> Some (j_int j n))"

subsection \<open>Values\<close>

fun commas :: "string list \<Rightarrow> string" where
  "commas [] = ''''"
| "commas [t] = t"
| "commas (t # ts) = t @ CHR '','' # commas ts"

definition canonical_members :: "(string \<times> json) list \<Rightarrow> (string \<times> json) list" where
  "canonical_members m = sort_key (\<lambda>(k, v). encode_utf16 k) m"

lemma set_canonical_members [simp]: "set (canonical_members m) = set m"
  by (simp add: canonical_members_def)

function write_canonical :: "jcs_ext \<Rightarrow> json \<Rightarrow> string option" where
  "write_canonical j JNull = Some ''null''"
| "write_canonical j (JBool b) = Some (if b then ''true'' else ''false'')"
| "write_canonical j (JString s) = Some (j_str j s)"
| "write_canonical j (JNumber n) = write_number j n"
| "write_canonical j (JArray vs) = map_option (\<lambda>ts. ''['' @ commas ts @ '']'') (those (map (write_canonical j) vs))"
| "write_canonical j (JObject m) =
     map_option (\<lambda>ts. ''{'' @ commas ts @ ''}'')
       (those (map (\<lambda>(k, v). map_option (\<lambda>t. j_str j k @ CHR '':'' # t) (write_canonical j v)) (canonical_members m)))"
  by pat_completeness auto
termination
proof (relation "measure (\<lambda>(j, v). size v)")
  fix j :: jcs_ext and m z k v assume "z \<in> set (canonical_members m)" and z: "(k, v) = z"
  then have "(k, v) \<in> set m" by simp
  then have "size v < Suc (size_list (size_prod (\<lambda>_. 0) size) m)" by (induction m) auto
  then show "((j, v), j, JObject m) \<in> measure (\<lambda>(j, v). size v)" by simp
next
  fix j :: jcs_ext and vs :: "json list" and v assume "v \<in> set vs"
  then show "((j, v), j, JArray vs) \<in> measure (\<lambda>(j, v). size v)" by (induction vs) auto
qed auto

definition canonicalize :: "jcs_ext \<Rightarrow> json \<Rightarrow> string option" where
  "canonicalize j v = write_canonical j v"

definition digest :: "ext \<Rightarrow> jcs_ext \<Rightarrow> json \<Rightarrow> string option" where
  "digest x j v = map_option (\<lambda>t. x_hex x (x_sha256 x t)) (canonicalize j v)"

end
