(* ===== verification/Jcs_Number.thy ===== *)
theory Jcs_Number
  imports Jcs Complex_Main
begin

text \<open>
  The number printer of \<open>jcs.rs\<close>: what a decimal text denotes, and that moving the point of Ryu's
  digits to where ECMAScript writes it changes neither the number nor its digits.
\<close>

section \<open>Decimal texts\<close>

abbreviation digits_only :: "string \<Rightarrow> bool" where
  "digits_only s \<equiv> list_all is_digit s"

lemma dec_val_snoc: "dec_val (s @ [c]) = 10 * dec_val s + (of_char c - 48)"
  by (simp add: dec_val_def)

lemma dec_val_append: "dec_val (a @ b) = dec_val a * 10 ^ length b + dec_val b"
proof (induction b rule: rev_induct)
  case (snoc c b)
  then show ?case using dec_val_snoc [of "a @ b" c] dec_val_snoc [of b c] by (simp add: algebra_simps)
qed (simp add: dec_val_def)

lemma dec_val_Nil [simp]: "dec_val [] = 0"
  by (simp add: dec_val_def)

lemma dec_val_zeros [simp]: "dec_val (replicate n (CHR ''0'')) = 0"
  by (induction n) (simp_all add: replicate_app_Cons_same dec_val_snoc replicate_append_same [symmetric] del: replicate_Suc, simp add: replicate_append_same [symmetric] dec_val_snoc)

lemma dec_val_bound: "digits_only s \<Longrightarrow> dec_val s < 10 ^ length s"
proof (induction s rule: rev_induct)
  case (snoc c s)
  then have "(of_char c :: nat) - 48 < 10" by (auto simp: is_digit_def)
  with snoc show ?case by (simp add: dec_val_snoc)
qed simp

lemma dec_val_single: "is_digit c \<Longrightarrow> dec_val [c] = 0 \<Longrightarrow> c = CHR ''0''"
proof -
  assume "is_digit c" "dec_val [c] = 0"
  then have "of_char c = (48 :: nat)" by (auto simp: dec_val_def is_digit_def)
  moreover have "of_char (CHR ''0'') = (48 :: nat)" by code_simp
  ultimately show ?thesis by (metis of_char_eq_iff)
qed

lemma dec_val_show [simp]: "dec_val (show_nat n) = n"
proof (induction n rule: show_nat.induct)
  case (1 n)
  show ?case
  proof (cases "n < 10")
    case True
    then show ?thesis by (subst show_nat.simps) (simp add: dec_val_def of_char_digit)
  next
    case False
    then show ?thesis using 1 by (subst show_nat.simps) (simp add: dec_val_snoc of_char_digit)
  qed
qed

lemma dec_val_digit_inj: "is_digit a \<Longrightarrow> is_digit b \<Longrightarrow> (of_char a :: nat) - 48 = of_char b - 48 \<Longrightarrow> a = b"
proof -
  assume "is_digit a" "is_digit b" "(of_char a :: nat) - 48 = of_char b - 48"
  then have "(of_char a :: nat) = of_char b" unfolding is_digit_def by arith
  then show "a = b" by simp
qed

lemma dec_val_inj:
  assumes "digits_only a" and "digits_only b" and "length a = length b" and "dec_val a = dec_val b"
  shows "a = b"
  using assms
proof (induction a arbitrary: b rule: rev_induct)
  case (snoc c a)
  then obtain b' d where b: "b = b' @ [d]" by (metis length_0_conv length_append_singleton nat.distinct(1) rev_exhaust)
  have c: "(of_char c :: nat) - 48 < 10" "(of_char d :: nat) - 48 < 10" using snoc.prems b by (auto simp: is_digit_def)
  from snoc.prems(4) b have "10 * dec_val a + (of_char c - 48) = 10 * dec_val b' + (of_char d - 48)" by (simp add: dec_val_snoc)
  then have "(10 * dec_val a + (of_char c - 48)) mod 10 = (10 * dec_val b' + (of_char d - 48)) mod 10"
    "(10 * dec_val a + (of_char c - 48)) div 10 = (10 * dec_val b' + (of_char d - 48)) div 10" by simp_all
  with c have e: "(of_char c :: nat) - 48 = of_char d - 48" "dec_val a = dec_val b'" by simp_all
  have "c = d" using dec_val_digit_inj e(1) snoc.prems(1,2) b by simp
  moreover have "a = b'" using snoc.IH [of b'] snoc.prems b e(2) by simp
  ultimately show ?case using b by simp
qed simp

text \<open>A digit string with no leading zero is at least its power of ten, one with no trailing zero is
  no multiple of ten.\<close>

lemma dec_val_lower:
  assumes "digits_only s" and "s \<noteq> []" and "hd s \<noteq> CHR ''0''"
  shows "10 ^ (length s - 1) \<le> dec_val s"
proof -
  obtain c t where s: "s = [c] @ t" using assms(2) by (cases s) auto
  have "dec_val [c] \<noteq> 0" using dec_val_single assms(1,3) s by auto
  then have "10 ^ length t \<le> dec_val [c] * 10 ^ length t" by simp
  also have "\<dots> \<le> dec_val s" unfolding s dec_val_append by simp
  finally show ?thesis using s by simp
qed

lemma dec_val_last:
  assumes "digits_only s" and "s \<noteq> []" and "last s \<noteq> CHR ''0''"
  shows "\<not> 10 dvd dec_val s"
proof -
  obtain t c where s: "s = t @ [c]" using assms(2) by (metis rev_exhaust)
  have "dec_val [c] \<noteq> 0" using dec_val_single assms(1,3) s by auto
  moreover have "dec_val [c] < 10" using dec_val_bound [of "[c]"] assms(1) s by simp
  ultimately have "\<not> 10 dvd dec_val [c]" by (auto dest: dvd_imp_le)
  moreover have "dec_val s = 10 * dec_val t + dec_val [c]" using s by (simp add: dec_val_append)
  ultimately show ?thesis by (simp add: dvd_add_right_iff)
qed

section \<open>What a decimal text denotes\<close>

text \<open>A digit string scaled by a power of ten.\<close>

definition scaled :: "string \<Rightarrow> int \<Rightarrow> rat" where
  "scaled d e = of_nat (dec_val d) * 10 powi e"

definition point_text :: "string \<Rightarrow> string" where
  "point_text f = (if f = [] then [] else CHR ''.'' # f)"

definition decimal_text :: "string \<Rightarrow> string \<Rightarrow> string \<Rightarrow> int \<Rightarrow> bool" where
  "decimal_text t i f e \<longleftrightarrow> i \<noteq> [] \<and> digits_only i \<and> digits_only f \<and>
     (t = i @ point_text f \<and> e = 0 \<or> (\<exists>s. t = i @ point_text f @ CHR ''e'' # s \<and> parse_i32 s = Some e))"

definition denotes :: "string \<Rightarrow> rat \<Rightarrow> bool" where
  "denotes t q \<longleftrightarrow> (\<exists>i f e. decimal_text t i f e \<and> q = scaled (i @ f) (e - int (length f)))"

lemma scaled_zeros: "scaled (d @ replicate n (CHR ''0'')) e = scaled d (e + int n)"
  by (simp add: scaled_def dec_val_append power_int_add)

lemma scaled_leading: "scaled (replicate n (CHR ''0'') @ d) e = scaled d e"
  by (simp add: scaled_def dec_val_append)

lemma scaled_unique:
  assumes "digits_only a" "a \<noteq> []" "hd a \<noteq> CHR ''0''" "last a \<noteq> CHR ''0''"
    and "digits_only b" "b \<noteq> []" "hd b \<noteq> CHR ''0''" "last b \<noteq> CHR ''0''"
    and "scaled a i = scaled b k"
  shows "a = b \<and> i = k"
proof -
  have no: "i \<le> k" if "scaled a i = scaled b k" "\<not> 10 dvd dec_val b" for a b :: string and i k
  proof (rule ccontr)
    assume "\<not> i \<le> k"
    then obtain m where m: "i = k + int (Suc m)" by (metis add.commute int_ops(4) less_imp_of_nat_less zless_iff_Suc_zadd not_le)
    then have "of_nat (dec_val a) * (10 :: rat) ^ Suc m = of_nat (dec_val b)"
      using that(1) by (simp add: scaled_def power_int_add)
    then have "of_nat (dec_val a * 10 ^ Suc m) = (of_nat (dec_val b) :: rat)" by simp
    then have "dec_val a * 10 ^ Suc m = dec_val b" by (simp only: of_nat_eq_iff)
    then have "10 dvd dec_val b" by (metis dvd_triv_right dvd_mult power_Suc dvd_triv_left)
    with that(2) show False by simp
  qed
  have ik: "i = k" using no [OF assms(9)] no [OF assms(9) [symmetric]] dec_val_last [OF assms(1,2,4)] dec_val_last [OF assms(5,6,8)] by simp
  then have v: "dec_val a = dec_val b" using assms(9) by (simp add: scaled_def)
  have "length a = length b"
  proof (rule ccontr)
    assume ne: "length a \<noteq> length b"
    have "10 ^ (length a - 1) < (10 :: nat) ^ length b" "10 ^ (length b - 1) < (10 :: nat) ^ length a"
      using dec_val_lower [OF assms(1-3)] dec_val_lower [OF assms(5-7)] dec_val_bound [OF assms(1)] dec_val_bound [OF assms(5)] v by linarith+
    then have "length a - 1 < length b" "length b - 1 < length a" by simp_all
    with ne assms(2,6) show False by (cases a; cases b) auto
  qed
  with dec_val_inj [OF assms(1,5) _ v] ik show ?thesis by simp
qed

section \<open>Printing a double\<close>

lemma split_once_at: "c \<notin> set a \<Longrightarrow> split_once c (a @ c # b) = Some (a, b)"
proof -
  assume "c \<notin> set a"
  then have "takeWhile (\<lambda>x. x \<noteq> c) (a @ c # b) = a" "dropWhile (\<lambda>x. x \<noteq> c) (a @ c # b) = c # b"
    by (induction a) auto
  then show ?thesis by (simp add: split_once_def)
qed

lemma split_once_none: "c \<notin> set a \<Longrightarrow> split_once c a = None"
  by (simp add: split_once_def)

lemma no_digit: "digits_only s \<Longrightarrow> CHR ''e'' \<notin> set s \<and> CHR ''.'' \<notin> set s"
  by (auto simp: list_all_iff is_digit_def)

lemma significant_text:
  assumes "decimal_text t i f e"
  shows "significant t = Some (trim_zeros_end (drop (length (takeWhile (\<lambda>c. c = CHR ''0'') (i @ f))) (i @ f)),
    e + int (length i) - int (length (takeWhile (\<lambda>c. c = CHR ''0'') (i @ f))))"
proof -
  from assms have i: "CHR ''e'' \<notin> set i" "CHR ''.'' \<notin> set i" "CHR ''e'' \<notin> set f" "CHR ''.'' \<notin> set f"
    unfolding decimal_text_def using no_digit by blast+
  then have m: "CHR ''e'' \<notin> set (i @ point_text f)" by (auto simp: point_text_def)
  have p: "unwrap_or (i @ point_text f, '''') (split_once (CHR ''.'') (i @ point_text f)) = (i, f)"
    using i split_once_at [of "CHR ''.''" i f] by (auto simp: point_text_def split_once_none)
  from assms have "t = i @ point_text f \<and> e = 0 \<or> (\<exists>s. t = (i @ point_text f) @ CHR ''e'' # s \<and> parse_i32 s = Some e)"
    by (auto simp: decimal_text_def)
  then show ?thesis
  proof (elim disjE exE conjE)
    assume "t = i @ point_text f" "e = 0"
    with m p show ?thesis by (simp add: significant_def split_once_none Let_def)
  next
    fix s assume "t = (i @ point_text f) @ CHR ''e'' # s" "parse_i32 s = Some e"
    with split_once_at [OF m] p show ?thesis by (simp add: significant_def Let_def del: append_assoc)
  qed
qed

lemma trim_zeros_end_split: "\<exists>n. s = trim_zeros_end s @ replicate n (CHR ''0'')"
proof -
  let ?z = "takeWhile (\<lambda>c. c = CHR ''0'') (rev s)"
  have "rev s = ?z @ rev (trim_zeros_end s)" by (simp add: trim_zeros_end_def)
  then have "s = trim_zeros_end s @ rev ?z" by (metis rev_append rev_rev_ident)
  moreover have "?z = replicate (length ?z) (CHR ''0'')" by (rule replicate_eqI) (auto dest: set_takeWhileD)
  ultimately show ?thesis by (metis rev_replicate)
qed

lemma trim_zeros_end_last: "trim_zeros_end s \<noteq> [] \<Longrightarrow> last (trim_zeros_end s) \<noteq> CHR ''0''"
  using hd_dropWhile [of "\<lambda>c. c = CHR ''0''" "rev s"] unfolding trim_zeros_end_def last_rev by simp

text \<open>The significant digits of a text that denotes a positive number.\<close>

lemma significant_digits:
  assumes "decimal_text t i f e" and "q = scaled (i @ f) (e - int (length f))" and "0 < q"
  obtains d n where "significant t = Some (d, n)" "digits_only d" "d \<noteq> []" "hd d \<noteq> CHR ''0''" "last d \<noteq> CHR ''0''"
    "q = scaled d (n - int (length d))" "length d \<le> length i + length f"
    "e - int (length f) < n" "n \<le> e + int (length i)"
proof -
  let ?w = "i @ f" let ?l = "length (takeWhile (\<lambda>c. c = CHR ''0'') ?w)"
  let ?d = "trim_zeros_end (drop ?l ?w)"
  have dw: "drop ?l ?w = dropWhile (\<lambda>c. c = CHR ''0'') ?w" by (rule dropWhile_eq_drop [symmetric])
  obtain z where z: "drop ?l ?w = ?d @ replicate z (CHR ''0'')" using trim_zeros_end_split by blast
  have lead: "?w = replicate ?l (CHR ''0'') @ drop ?l ?w"
  proof -
    have "takeWhile (\<lambda>c. c = CHR ''0'') ?w = replicate ?l (CHR ''0'')" by (rule replicate_eqI) (auto dest: set_takeWhileD)
    then show ?thesis using dw by (metis takeWhile_dropWhile_id)
  qed
  have w: "?w = replicate ?l (CHR ''0'') @ ?d @ replicate z (CHR ''0'')" using lead z by metis
  have digs: "digits_only ?w" using assms(1) by (simp add: decimal_text_def)
  then have d: "digits_only ?d" using w by (metis list_all_append)
  have len: "length i + length f = ?l + (length ?d + z)" using w by (metis length_append length_replicate)
  have q: "q = scaled ?d (e - int (length f) + int z)" using assms(2) w scaled_leading scaled_zeros by metis
  have ne: "?d \<noteq> []" using assms(3) q by (auto simp: scaled_def)
  have hd: "hd ?d \<noteq> CHR ''0''"
  proof -
    have "hd (drop ?l ?w) = hd ?d" using z ne by (metis hd_append2)
    moreover have "drop ?l ?w \<noteq> []" using z ne by auto
    ultimately show ?thesis unfolding dw by (metis (mono_tags) hd_dropWhile)
  qed
  have "e - int (length f) + int z = e + int (length i) - int ?l - int (length ?d)" using len by linarith
  with q have "q = scaled ?d ((e + int (length i) - int ?l) - int (length ?d))" by simp
  moreover have "length ?d \<noteq> 0" using ne by simp
  moreover have "e - int (length f) < e + int (length i) - int ?l" using len ne by (cases ?d) auto
  ultimately show ?thesis using len by (intro that [OF significant_text [OF assms(1)] d ne hd trim_zeros_end_last [OF ne]]) linarith+
qed

lemma parse_signed:
  assumes "m < 2 ^ 31"
  shows "parse_i32 (CHR ''+'' # show_nat m) = Some (int m)" "parse_i32 (CHR ''-'' # show_nat m) = Some (- int m)"
  using assms show_nat_digits [of _ m] show_nat_nonempty [of m] by (auto simp: parse_i32_def Let_def list_all_iff)

lemma digits_take_drop: "digits_only d \<Longrightarrow> digits_only (take n d) \<and> digits_only (drop n d)"
  by (auto simp: list_all_iff dest: in_set_takeD in_set_dropD)

lemma digits_zeros [simp]: "digits_only (zeros n)"
  by (simp add: zeros_def list_all_iff is_digit_def)

text \<open>Where the point goes is where it was.\<close>

lemma place_point_text:
  assumes d: "digits_only d" "d \<noteq> []" and n: "\<bar>n\<bar> < 2 ^ 30"
  shows "\<exists>i f e. decimal_text (place_point d n) i f e \<and> scaled (i @ f) (e - int (length f)) = scaled d (n - int (length d))"
proof -
  let ?k = "int (length d)"
  have k: "?k \<ge> 1" using d(2) by (cases d) auto
  note td = digits_take_drop [OF d(1)]
  consider (whole) "?k \<le> n" "n \<le> 21" | (inside) "n < ?k" "0 < n" "n \<le> 21" | (small) "- 6 < n" "n \<le> 0"
    | (scientific) "\<not> (?k \<le> n \<and> n \<le> 21)" "\<not> (0 < n \<and> n \<le> 21)" "\<not> (- 6 < n \<and> n \<le> 0)" by linarith
  then show ?thesis
  proof cases
    case whole
    then have t: "place_point d n = d @ zeros (n - ?k)" by (simp add: place_point_def)
    have "scaled (d @ zeros (n - ?k)) 0 = scaled d (n - ?k)" using whole scaled_zeros [of d "nat (n - ?k)" 0] by (simp add: zeros_def)
    with t d show ?thesis by (intro exI [of _ "d @ zeros (n - ?k)"] exI [of _ "[]"] exI [of _ 0]) (simp add: decimal_text_def point_text_def)
  next
    case inside
    then have t: "place_point d n = take (nat n) d @ ''.'' @ drop (nat n) d" by (simp add: place_point_def)
    have "drop (nat n) d \<noteq> []" "take (nat n) d \<noteq> []" using inside d(2) by auto
    with t td inside show ?thesis
      by (intro exI [of _ "take (nat n) d"] exI [of _ "drop (nat n) d"] exI [of _ 0]) (simp add: decimal_text_def point_text_def)
  next
    case small
    then have t: "place_point d n = ''0.'' @ zeros (- n) @ d" using k by (simp add: place_point_def)
    have "scaled (''0'' @ zeros (- n) @ d) (0 - int (length (zeros (- n) @ d))) = scaled d (n - ?k)"
      using scaled_leading [of "Suc (nat (- n))" d "0 - int (length (zeros (- n) @ d))"] small by (simp add: zeros_def)
    with t d show ?thesis
      by (intro exI [of _ "''0''"] exI [of _ "zeros (- n) @ d"] exI [of _ 0]) (simp add: decimal_text_def point_text_def is_digit_def)
  next
    case scientific
    let ?s = "(if n > 0 then CHR ''+'' else CHR ''-'') # show_nat (nat \<bar>n - 1\<bar>)"
    have p: "parse_i32 ?s = Some (n - 1)"
      using parse_signed [of "nat \<bar>n - 1\<bar>"] n by (auto simp: nat_less_iff)
    have t: "place_point d n = take 1 d @ point_text (drop 1 d) @ CHR ''e'' # ?s"
      using scientific d(2) by (cases d) (auto simp: place_point_def Let_def point_text_def)
    have "take 1 d \<noteq> []" "take 1 d @ drop 1 d = d" using d(2) by (cases d; simp)+
    with t td p k show ?thesis
      by (intro exI [of _ "take 1 d"] exI [of _ "drop 1 d"] exI [of _ "n - 1"]) (simp add: decimal_text_def of_nat_diff)
  qed
qed

text \<open>Ryu's output for a positive double: digits with a point and an exponent, of the size a double needs.\<close>

definition ryu_text :: "string \<Rightarrow> rat \<Rightarrow> bool" where
  "ryu_text t q \<longleftrightarrow> 0 < q \<and> (\<exists>i f e. decimal_text t i f e \<and> q = scaled (i @ f) (e - int (length f)) \<and>
     \<bar>e\<bar> \<le> 400 \<and> length i + length f \<le> 40) \<and> (\<forall>d n. significant t = Some (d, n) \<longrightarrow> length d \<le> 17)"

lemma ryu_significant:
  assumes "ryu_text t q"
  obtains d n where "significant t = Some (d, n)" "digits_only d" "d \<noteq> []" "hd d \<noteq> CHR ''0''" "last d \<noteq> CHR ''0''"
    "q = scaled d (n - int (length d))" "length d \<le> 17" "\<bar>n\<bar> \<le> 440"
proof -
  from assms obtain i f e where t: "decimal_text t i f e" and q: "q = scaled (i @ f) (e - int (length f))"
    and b: "\<bar>e\<bar> \<le> 400" "length i + length f \<le> 40" and pos: "0 < q" and l: "\<And>d n. significant t = Some (d, n) \<Longrightarrow> length d \<le> 17"
    unfolding ryu_text_def by blast
  from significant_digits [OF t q pos] obtain d n where r: "significant t = Some (d, n)" "digits_only d" "d \<noteq> []" "hd d \<noteq> CHR ''0''"
    "last d \<noteq> CHR ''0''" "q = scaled d (n - int (length d))" "length d \<le> length i + length f"
    "e - int (length f) < n" "n \<le> e + int (length i)" by blast
  with b show thesis by (intro that [OF r(1-6) l [OF r(1)]]) linarith
qed

lemma positive_text:
  assumes "ryu_text t q"
  shows "\<exists>u. map_option (\<lambda>(d, n). place_point d n) (significant t) = Some u \<and> denotes u q"
proof -
  from assms obtain d n where r: "significant t = Some (d, n)" "digits_only d" "d \<noteq> []" "q = scaled d (n - int (length d))" "\<bar>n\<bar> \<le> 440"
    by (rule ryu_significant)
  from place_point_text [OF r(2,3), of n] r(4,5) have "denotes (place_point d n) q" unfolding denotes_def by fastforce
  with r(1) show ?thesis by simp
qed

lemma positive_text_unique:
  assumes "ryu_text t q" and "ryu_text t' q"
  shows "significant t = significant t'"
proof -
  from assms(1) obtain d n where r: "significant t = Some (d, n)" "digits_only d" "d \<noteq> []" "hd d \<noteq> CHR ''0''" "last d \<noteq> CHR ''0''"
    "q = scaled d (n - int (length d))" by (rule ryu_significant)
  from assms(2) obtain d' n' where r': "significant t' = Some (d', n')" "digits_only d'" "d' \<noteq> []" "hd d' \<noteq> CHR ''0''" "last d' \<noteq> CHR ''0''"
    "q = scaled d' (n' - int (length d'))" by (rule ryu_significant)
  from scaled_unique [OF r(2-5) r'(2-5) trans [OF r(6) [symmetric] r'(6)]] have "d = d'" "n - int (length d) = n' - int (length d')" by auto
  with r(1) r'(1) show ?thesis by simp
qed

lemma denotes_unique:
  assumes "denotes t q" and "denotes t q'" and "0 < q" and "0 < q'"
  shows "q = q'"
proof -
  from assms(1) obtain i f e where t: "decimal_text t i f e" "q = scaled (i @ f) (e - int (length f))" by (auto simp: denotes_def)
  from assms(2) obtain i' f' e' where t': "decimal_text t i' f' e'" "q' = scaled (i' @ f') (e' - int (length f'))" by (auto simp: denotes_def)
  obtain d n where "significant t = Some (d, n)" "q = scaled d (n - int (length d))" using significant_digits [OF t assms(3)] by metis
  moreover obtain d' n' where "significant t = Some (d', n')" "q' = scaled d' (n' - int (length d'))" using significant_digits [OF t' assms(4)] by metis
  ultimately show ?thesis by simp
qed

lemma show_nat_width: "m < 10 ^ Suc k \<Longrightarrow> length (show_nat m) \<le> Suc k"
proof (induction k arbitrary: m)
  case 0
  then show ?case by (subst show_nat.simps) simp
next
  case (Suc k)
  then have "m div 10 < 10 ^ Suc k" by (simp add: less_mult_imp_div_less mult.commute)
  with Suc.IH show ?case by (subst show_nat.simps) auto
qed

lemma place_point_length:
  assumes "d \<noteq> []" and "\<bar>n\<bar> \<le> 440" and "length d \<le> 17"
  shows "length (place_point d n) \<le> 24"
proof -
  have m: "length (show_nat (nat \<bar>n - 1\<bar>)) \<le> 3" using show_nat_width [of "nat \<bar>n - 1\<bar>" 2] assms(2) by simp
  have z: "length (zeros k) = nat k" for k by (simp add: zeros_def)
  show ?thesis using assms m unfolding place_point_def Let_def by (auto simp: z)
qed

lemma digit_zero: "d < 10 \<Longrightarrow> digit_char d = CHR ''0'' \<Longrightarrow> d = 0"
proof -
  assume d: "d < 10" "digit_char d = CHR ''0''"
  have "digit_char 0 = CHR ''0''" by code_simp
  with d digit_char_inj [of d 0] show "d = 0" by simp
qed

lemma show_nat_hd: "n > 0 \<Longrightarrow> hd (show_nat n) \<noteq> CHR ''0''"
proof (induction n rule: show_nat.induct)
  case (1 n)
  show ?case using 1 digit_zero [of n] show_nat_nonempty [of "n div 10"] by (subst show_nat.simps) (auto simp: div_greater_zero_iff)
qed

text \<open>An integer below \<open>10\<^sup>2\<^sup>1\<close> is printed in full.\<close>

lemma place_point_nat:
  assumes "digits_only d" "d \<noteq> []" "hd d \<noteq> CHR ''0''" "last d \<noteq> CHR ''0''"
    and "scaled d (n - int (length d)) = of_nat m" and "0 < m" and "m < 10 ^ 21"
  shows "place_point d n = show_nat m"
proof -
  let ?b = "trim_zeros_end (show_nat m)"
  obtain z where z: "show_nat m = ?b @ replicate z (CHR ''0'')" using trim_zeros_end_split by blast
  have "scaled (show_nat m) 0 = of_nat m" by (simp add: scaled_def)
  then have s: "scaled ?b (int z) = of_nat m" using z scaled_zeros [of ?b z 0] by simp
  have ne: "?b \<noteq> []" using s assms(6) by (auto simp: scaled_def)
  have "digits_only (show_nat m)" using show_nat_digits [of _ m] by (auto simp: list_all_iff)
  then have dg: "digits_only ?b" using z by (metis list_all_append)
  have hd: "hd ?b \<noteq> CHR ''0''" using show_nat_hd [OF assms(6)] z ne by (metis hd_append2)
  from scaled_unique [OF assms(1-4) dg ne hd trim_zeros_end_last [OF ne], of "n - int (length d)" "int z"] s assms(5)
  have e: "d = ?b" "n - int (length d) = int z" by auto
  have "length (show_nat m) = length d + z" using z e(1) by (metis length_append length_replicate)
  moreover have "length (show_nat m) \<le> 21" using show_nat_width [of m 20] assms(7) by simp
  ultimately have "place_point d n = d @ zeros (int z)" using e(2) by (simp add: place_point_def)
  also have "\<dots> = show_nat m" using z e(1) by (simp add: zeros_def)
  finally show ?thesis .
qed

definition num_char :: "char \<Rightarrow> bool" where
  "num_char c \<longleftrightarrow> is_digit c \<or> c \<in> set ''+-.e''"

lemma place_point_chars:
  assumes "digits_only d" and "d \<noteq> []"
  shows "list_all num_char (place_point d n) \<and> place_point d n \<noteq> [] \<and> is_digit (hd (place_point d n))"
proof -
  have s: "list_all num_char (show_nat m)" for m using show_nat_digits [of _ m] by (auto simp: list_all_iff num_char_def)
  have t: "list_all num_char (take m d)" "list_all num_char (drop m d)" "list_all num_char d" for m
    using assms(1) by (auto simp: list_all_iff num_char_def dest: in_set_takeD in_set_dropD)
  have z: "list_all num_char (zeros m)" for m by (simp add: zeros_def list_all_iff num_char_def is_digit_def)
  have h: "is_digit (hd d)" "is_digit (CHR ''0'')" using assms by (cases d; simp add: is_digit_def)+
  have k: "num_char (CHR ''.'')" "num_char (CHR ''e'')" "num_char (CHR ''+'')" "num_char (CHR ''-'')" "num_char (CHR ''0'')"
    by (simp_all add: num_char_def is_digit_def)
  obtain c r where d: "d = c # r" using assms(2) by (cases d) auto
  have "list_all num_char (place_point d n)" using s t z k by (simp add: place_point_def Let_def)
  moreover have "place_point d n \<noteq> [] \<and> is_digit (hd (place_point d n))"
    using h unfolding place_point_def Let_def by (auto simp: d take_Cons')
  ultimately show ?thesis by blast
qed

end
