(* ===== verification/Jcs_Canonical.thy ===== *)
theory Jcs_Canonical
  imports Jcs_Number Demo_Ext
begin

text \<open>
  The canonical text of a value determines it: the texts are self-delimiting, so an array or an
  object is read back member by member whatever follows it.
\<close>

section \<open>Values the program holds\<close>

definition f64_finite :: "64 word \<Rightarrow> bool" where
  "f64_finite x \<longleftrightarrow> take_bit 11 (drop_bit 52 x) \<noteq> 0x7FF"

fun num_ok :: "jnum \<Rightarrow> bool" where
  "num_ok (PosInt n) \<longleftrightarrow> n \<le> u64_max"
| "num_ok (NegInt i) \<longleftrightarrow> - (2 ^ 63) \<le> i \<and> i < 0"
| "num_ok (Float x) \<longleftrightarrow> f64_finite x"

fun json_ok :: "json \<Rightarrow> bool" and list_ok :: "json list \<Rightarrow> bool" and members_ok :: "(string \<times> json) list \<Rightarrow> bool" where
  "json_ok (JArray vs) \<longleftrightarrow> list_ok vs"
| "json_ok (JObject m) \<longleftrightarrow> bm_wf m \<and> members_ok m"
| "json_ok (JNumber n) \<longleftrightarrow> num_ok n"
| "json_ok _ \<longleftrightarrow> True"
| "list_ok [] \<longleftrightarrow> True"
| "list_ok (v # vs) \<longleftrightarrow> json_ok v \<and> list_ok vs"
| "members_ok [] \<longleftrightarrow> True"
| "members_ok ((k, v) # m) \<longleftrightarrow> json_ok v \<and> members_ok m"

lemma list_ok_iff: "list_ok vs \<longleftrightarrow> (\<forall>v \<in> set vs. json_ok v)"
  by (induction vs) auto

lemma members_ok_iff: "members_ok m \<longleftrightarrow> (\<forall>a \<in> set m. json_ok (snd a))"
  by (induction m) auto

text \<open>The shortest decimal that reads as a double: zero for both zeros, and what Ryu's digits of the
  magnitude denote, with the sign.\<close>

definition shortest_decimal :: "jcs_ext \<Rightarrow> 64 word \<Rightarrow> rat \<Rightarrow> bool" where
  "shortest_decimal j x q \<longleftrightarrow>
     (if f64_zero x then q = 0 else ryu_text (j_ryu j (take_bit 63 x)) (if bit x 63 then - q else q))"

text \<open>The same number: doubles by their bits, but for the sign of zero; integers by their value; and an
  integer is the same as a double when it is the double's shortest decimal.\<close>

fun same_number :: "jcs_ext \<Rightarrow> jnum \<Rightarrow> jnum \<Rightarrow> bool" where
  "same_number j (Float x) (Float y) \<longleftrightarrow> x = y \<or> f64_zero x \<and> f64_zero y"
| "same_number j (Float x) (PosInt n) \<longleftrightarrow> shortest_decimal j x (of_nat n)"
| "same_number j (Float x) (NegInt i) \<longleftrightarrow> shortest_decimal j x (of_int i)"
| "same_number j (PosInt n) (Float x) \<longleftrightarrow> shortest_decimal j x (of_nat n)"
| "same_number j (NegInt i) (Float x) \<longleftrightarrow> shortest_decimal j x (of_int i)"
| "same_number j (PosInt n) (PosInt m) \<longleftrightarrow> n = m"
| "same_number j (NegInt i) (NegInt k) \<longleftrightarrow> i = k"
| "same_number j (PosInt n) (NegInt i) \<longleftrightarrow> False"
| "same_number j (NegInt i) (PosInt n) \<longleftrightarrow> False"

text \<open>The same value, its numbers taken as numbers.\<close>

fun same_json :: "jcs_ext \<Rightarrow> json \<Rightarrow> json \<Rightarrow> bool"
  and same_list :: "jcs_ext \<Rightarrow> json list \<Rightarrow> json list \<Rightarrow> bool"
  and same_members :: "jcs_ext \<Rightarrow> (string \<times> json) list \<Rightarrow> (string \<times> json) list \<Rightarrow> bool" where
  "same_json j (JArray vs) w \<longleftrightarrow> (case w of JArray ws \<Rightarrow> same_list j vs ws | _ \<Rightarrow> False)"
| "same_json j (JObject m) w \<longleftrightarrow> (case w of JObject m' \<Rightarrow> same_members j m m' | _ \<Rightarrow> False)"
| "same_json j (JNumber n) w \<longleftrightarrow> (case w of JNumber n' \<Rightarrow> same_number j n n' | _ \<Rightarrow> False)"
| "same_json j JNull w \<longleftrightarrow> w = JNull"
| "same_json j (JBool b) w \<longleftrightarrow> w = JBool b"
| "same_json j (JString s) w \<longleftrightarrow> w = JString s"
| "same_list j [] ws \<longleftrightarrow> ws = []"
| "same_list j (v # vs) ws \<longleftrightarrow> (case ws of [] \<Rightarrow> False | w # ws' \<Rightarrow> same_json j v w \<and> same_list j vs ws')"
| "same_members j [] ms \<longleftrightarrow> ms = []"
| "same_members j ((k, v) # m) ms \<longleftrightarrow> (case ms of [] \<Rightarrow> False | (k', w) # m' \<Rightarrow> k = k' \<and> same_json j v w \<and> same_members j m m')"

definition same_member :: "jcs_ext \<Rightarrow> string \<times> json \<Rightarrow> string \<times> json \<Rightarrow> bool" where
  "same_member j a b \<longleftrightarrow> fst a = fst b \<and> same_json j (snd a) (snd b)"

lemma same_list_iff: "same_list j vs ws \<longleftrightarrow> list_all2 (same_json j) vs ws"
  by (induction vs arbitrary: ws) (auto split: list.splits)

lemma same_members_iff: "same_members j m ms \<longleftrightarrow> list_all2 (same_member j) m ms"
  by (induction m arbitrary: ms) (auto simp: same_member_def split: list.splits)

text \<open>Documented of serde and Ryu: a string's text is quoted and self-delimiting, an integer's is its
  decimal digits, and Ryu's output for a positive double denotes a positive number that is no other
  double's.\<close>

definition jcs_laws :: "jcs_ext \<Rightarrow> bool" where
  "jcs_laws j \<longleftrightarrow> (\<forall>s. \<exists>r. j_str j s = CHR 0x22 # r) \<and> (\<forall>a b r s. j_str j a @ r = j_str j b @ s \<longrightarrow> a = b) \<and>
     (\<forall>n. j_int j (PosInt n) = show_nat n) \<and> (\<forall>i < 0. j_int j (NegInt i) = CHR ''-'' # show_nat (nat (- i))) \<and>
     (\<forall>x. f64_finite x \<longrightarrow> \<not> f64_zero x \<longrightarrow> \<not> bit x 63 \<longrightarrow> (\<exists>q. ryu_text (j_ryu j x) q)) \<and>
     (\<forall>x y q. ryu_text (j_ryu j x) q \<longrightarrow> ryu_text (j_ryu j y) q \<longrightarrow> \<not> bit x 63 \<longrightarrow> \<not> bit y 63 \<longrightarrow> x = y)"

section \<open>Number texts\<close>

lemma take_bit_63:
  fixes x :: "64 word"
  shows "\<not> bit (take_bit 63 x) 63" "f64_zero (take_bit 63 x) \<longleftrightarrow> f64_zero x" "f64_finite (take_bit 63 x) \<longleftrightarrow> f64_finite x"
proof -
  show "\<not> bit (take_bit 63 x) 63" by (simp add: bit_take_bit_iff)
  show "f64_zero (take_bit 63 x) \<longleftrightarrow> f64_zero x" by (simp add: f64_zero_def)
  have "take_bit 11 (drop_bit 52 (take_bit 63 x)) = take_bit 11 (drop_bit 52 x)"
    by (rule bit_eqI) (auto simp: bit_take_bit_iff bit_drop_bit_eq)
  then show "f64_finite (take_bit 63 x) \<longleftrightarrow> f64_finite x" by (simp add: f64_finite_def)
qed

lemma positive_double:
  assumes "jcs_laws j" and "f64_finite x" and "\<not> f64_zero x"
  obtains q d n where "ryu_text (j_ryu j (take_bit 63 x)) q" "significant (j_ryu j (take_bit 63 x)) = Some (d, n)" "digits_only d" "d \<noteq> []"
    "length d \<le> 17" "\<bar>n\<bar> \<le> 440"
proof -
  have "\<exists>q. ryu_text (j_ryu j (take_bit 63 x)) q" using assms take_bit_63 [of x] unfolding jcs_laws_def by blast
  then obtain q where q: "ryu_text (j_ryu j (take_bit 63 x)) q" ..
  then obtain d n where "significant (j_ryu j (take_bit 63 x)) = Some (d, n)" "digits_only d" "d \<noteq> []" "length d \<le> 17" "\<bar>n\<bar> \<le> 440"
    by (rule ryu_significant)
  with q show thesis by (rule that)
qed

text \<open>The double as the code prints it, by its magnitude.\<close>

lemma take_bit_positive:
  assumes "\<not> bit x 63"
  shows "take_bit 63 x = (x :: 64 word)"
proof (rule bit_eqI)
  fix n assume "possible_bit TYPE(64 word) n"
  then have "n < 63 \<or> n = 63" by (auto simp: possible_bit_word)
  with assms show "bit (take_bit 63 x) n \<longleftrightarrow> bit x n" by (auto simp: bit_take_bit_iff)
qed

lemma ecmascript_magnitude:
  "ecmascript_number j x = (if f64_zero x then Some ''0'' else
     map_option (\<lambda>(d, n). (if bit x 63 then ''-'' else []) @ place_point d n) (significant (j_ryu j (take_bit 63 x))))"
  by (auto simp: ecmascript_number_def take_bit_positive option.map_comp comp_def case_prod_unfold)

lemma write_number_text:
  assumes "jcs_laws j" and "num_ok n"
  obtains t where "write_number j n = Some t" "list_all num_char t" "t \<noteq> []" "is_digit (hd t) \<or> hd t = CHR ''-''"
proof (cases n)
  case (PosInt k)
  have "write_number j n = Some (show_nat k)" using assms(1) PosInt by (simp add: write_number_def jcs_laws_def)
  moreover have "is_digit (hd (show_nat k))" using show_nat_digits show_nat_nonempty hd_in_set by blast
  ultimately show ?thesis using that [of "show_nat k"] show_nat_digits [of _ k] show_nat_nonempty [of k]
    by (auto simp: list_all_iff num_char_def)
next
  case (NegInt i)
  have "write_number j n = Some (CHR ''-'' # show_nat (nat (- i)))" using assms NegInt by (simp add: write_number_def jcs_laws_def)
  then show ?thesis using that show_nat_digits [of _ "nat (- i)"] by (auto simp: list_all_iff num_char_def)
next
  case (Float x)
  show ?thesis
  proof (cases "f64_zero x")
    case True
    with Float that [of "''0''"] show ?thesis by (simp add: write_number_def ecmascript_number_def num_char_def is_digit_def)
  next
    case False
    from assms(2) Float have "f64_finite x" by simp
    from positive_double [OF assms(1) this False] obtain d e where d: "significant (j_ryu j (take_bit 63 x)) = Some (d, e)" "digits_only d" "d \<noteq> []"
      by metis
    have "num_char (CHR ''-'')" by (simp add: num_char_def)
    with place_point_chars [OF d(2,3), of e] d(1) False Float that [of "(if bit x 63 then ''-'' else []) @ place_point d e"]
    show ?thesis by (auto simp: write_number_def ecmascript_magnitude)
  qed
qed

text \<open>The decimal a number is printed as.\<close>

fun number_is :: "jcs_ext \<Rightarrow> jnum \<Rightarrow> rat \<Rightarrow> bool" where
  "number_is j (PosInt n) q \<longleftrightarrow> q = of_nat n"
| "number_is j (NegInt i) q \<longleftrightarrow> q = of_int i"
| "number_is j (Float x) q \<longleftrightarrow> shortest_decimal j x q"

text \<open>A text that reads as the decimal: a sign for a negative one, and digits that denote its magnitude.\<close>

definition signed_text :: "string \<Rightarrow> rat \<Rightarrow> bool" where
  "signed_text t q \<longleftrightarrow> (if q = 0 then t = ''0'' else if q < 0 then \<exists>u. t = CHR ''-'' # u \<and> denotes u (- q) else denotes t q)"

lemma denotes_digit:
  assumes "denotes t q"
  shows "t \<noteq> [] \<and> hd t \<noteq> CHR ''-''"
proof -
  from assms obtain i f e where t: "decimal_text t i f e" by (auto simp: denotes_def)
  then have "i \<noteq> []" "is_digit (hd i)" "\<exists>r. t = i @ r" by (cases i; auto simp: decimal_text_def)+
  then show ?thesis by (auto simp: is_digit_def)
qed

lemma denotes_zero: "denotes ''0'' q \<Longrightarrow> q = 0"
proof (rule ccontr)
  assume d: "denotes ''0'' q" "q \<noteq> 0"
  from d(1) obtain i f e where t: "decimal_text ''0'' i f e" "q = scaled (i @ f) (e - int (length f))" by (auto simp: denotes_def)
  have "0 \<le> q" unfolding t(2) by (simp add: scaled_def)
  with d(2) significant_digits [OF t] obtain w n where w: "significant ''0'' = Some (w, n)" "w \<noteq> []" by (metis order_le_less)
  have "significant ''0'' = Some ([], 0)" by code_simp
  with w show False by simp
qed

lemma signed_text_unique:
  assumes "signed_text t q" and "signed_text t r"
  shows "q = r"
proof -
  have n: "\<not> denotes (CHR ''-'' # u) p" for u p using denotes_digit by fastforce
  consider "q = 0" "r = 0" | "q = 0" "r < 0" | "q = 0" "0 < r" | "q < 0" "r = 0" | "q < 0" "r < 0" | "q < 0" "0 < r" | "0 < q" "r = 0" | "0 < q" "r < 0" | "0 < q" "0 < r"
    by linarith
  then show ?thesis
  proof cases
    case 5
    with assms obtain u where "denotes u (- q)" "denotes u (- r)" by (auto simp: signed_text_def)
    from denotes_unique [OF this] 5 show ?thesis by simp
  next
    case 9
    with assms denotes_unique [of t q r] show ?thesis by (simp add: signed_text_def)
  qed (use assms n denotes_zero in \<open>auto simp: signed_text_def\<close>)
qed

lemma denotes_show: "denotes (show_nat n) (of_nat n)"
  unfolding denotes_def using show_nat_digits [of _ n] show_nat_nonempty [of n]
  by (intro exI [of _ "show_nat n"] exI [of _ "[]"] exI [of _ 0]) (auto simp: decimal_text_def point_text_def scaled_def list_all_iff)

lemma int_text:
  assumes "jcs_laws j"
  shows "\<exists>t. write_number j (PosInt n) = Some t \<and> signed_text t (of_nat n)"
    and "i < 0 \<Longrightarrow> \<exists>t. write_number j (NegInt i) = Some t \<and> signed_text t (of_int i)"
proof -
  have "show_nat 0 = ''0''" by code_simp
  then show "\<exists>t. write_number j (PosInt n) = Some t \<and> signed_text t (of_nat n)"
    using assms denotes_show [of n] by (auto simp: jcs_laws_def write_number_def signed_text_def)
next
  assume i: "i < 0"
  then have "denotes (show_nat (nat (- i))) (- of_int i)" using denotes_show [of "nat (- i)"] by (simp add: of_nat_nat)
  with i assms show "\<exists>t. write_number j (NegInt i) = Some t \<and> signed_text t (of_int i)"
    by (auto simp: jcs_laws_def write_number_def signed_text_def)
qed

lemma float_text:
  assumes "shortest_decimal j x q"
  shows "\<exists>t. write_number j (Float x) = Some t \<and> signed_text t q"
proof (cases "f64_zero x")
  case True
  with assms show ?thesis by (simp add: shortest_decimal_def write_number_def ecmascript_number_def signed_text_def)
next
  case False
  let ?q = "if bit x 63 then - q else q"
  from False assms have r: "ryu_text (j_ryu j (take_bit 63 x)) ?q" by (simp add: shortest_decimal_def)
  from positive_text [OF r] obtain d n where "significant (j_ryu j (take_bit 63 x)) = Some (d, n)" "denotes (place_point d n) ?q" by auto
  moreover have "0 < ?q" using r by (simp add: ryu_text_def)
  ultimately show ?thesis using False by (auto simp: write_number_def ecmascript_magnitude signed_text_def split: if_splits)
qed

lemma number_text:
  assumes "jcs_laws j" and "num_ok n"
  obtains q t where "number_is j n q" "write_number j n = Some t" "signed_text t q"
proof (cases n)
  case (PosInt k)
  with int_text(1) [OF assms(1), of k] that show ?thesis by auto
next
  case (NegInt i)
  with int_text(2) [OF assms(1), of i] assms(2) that show ?thesis by auto
next
  case (Float x)
  have "\<exists>q. shortest_decimal j x q"
  proof (cases "f64_zero x")
    case False
    from assms(2) Float have "f64_finite x" by simp
    from positive_double [OF assms(1) this False] obtain q where "ryu_text (j_ryu j (take_bit 63 x)) q" by metis
    with False show ?thesis by (intro exI [of _ "if bit x 63 then - q else q"]) (simp add: shortest_decimal_def)
  qed (simp add: shortest_decimal_def)
  with float_text [of j x] Float that show ?thesis by auto
qed

text \<open>Two numbers with the same decimal have the same text, and the same text means the same number.\<close>

lemma float_int_text:
  assumes "shortest_decimal j x q" and "\<bar>q\<bar> = of_nat m" and "m \<le> u64_max"
  shows "write_number j (Float x) = Some ((if q < 0 then ''-'' else []) @ show_nat m)"
proof (cases "f64_zero x")
  case True
  have "show_nat 0 = ''0''" by code_simp
  with True assms show ?thesis by (simp add: shortest_decimal_def write_number_def ecmascript_number_def)
next
  case False
  let ?q = "if bit x 63 then - q else q"
  from False assms(1) have r: "ryu_text (j_ryu j (take_bit 63 x)) ?q" by (simp add: shortest_decimal_def)
  then have pos: "0 < ?q" by (simp add: ryu_text_def)
  then have q: "?q = of_nat m" "bit x 63 \<longleftrightarrow> q < 0" using assms(2) by (auto split: if_splits)
  from r obtain d n where d: "significant (j_ryu j (take_bit 63 x)) = Some (d, n)" "digits_only d" "d \<noteq> []" "hd d \<noteq> CHR ''0''" "last d \<noteq> CHR ''0''"
    "?q = scaled d (n - int (length d))" by (rule ryu_significant)
  have "place_point d n = show_nat m"
    using d(6) q(1) pos assms(3) by (intro place_point_nat [OF d(2-5)]) auto
  with d(1) False q(2) show ?thesis by (simp add: write_number_def ecmascript_magnitude)
qed

lemma shortest_same:
  assumes "jcs_laws j" and "shortest_decimal j x q" and "shortest_decimal j y q"
  shows "x = y \<or> f64_zero x \<and> f64_zero y"
proof (cases "f64_zero x \<or> f64_zero y")
  case True
  with assms(2,3) show ?thesis by (auto simp: shortest_decimal_def ryu_text_def split: if_splits)
next
  case False
  with assms(2,3) have r: "ryu_text (j_ryu j (take_bit 63 x)) (if bit x 63 then - q else q)" "ryu_text (j_ryu j (take_bit 63 y)) (if bit y 63 then - q else q)"
    by (simp_all add: shortest_decimal_def)
  then have b: "bit x 63 = bit y 63" by (auto simp: ryu_text_def split: if_splits)
  have law: "\<forall>x y q. ryu_text (j_ryu j x) q \<longrightarrow> ryu_text (j_ryu j y) q \<longrightarrow> \<not> bit x 63 \<longrightarrow> \<not> bit y 63 \<longrightarrow> x = y"
    using assms(1) unfolding jcs_laws_def by (elim conjE)
  from law [rule_format, OF r(1) r(2) [folded b] take_bit_63(1) take_bit_63(1)] have m: "take_bit 63 x = take_bit 63 y" .
  have "x = y"
  proof (rule bit_eqI)
    fix n assume "possible_bit TYPE(64 word) n"
    then have "n < 63 \<or> n = 63" by (auto simp: possible_bit_word)
    then show "bit x n \<longleftrightarrow> bit y n" using b m by (metis bit_take_bit_iff)
  qed
  then show ?thesis ..
qed

lemma same_number_decimal:
  assumes "jcs_laws j" and "num_ok n" and "num_ok n'"
  shows "same_number j n n' \<longleftrightarrow> (\<exists>q. number_is j n q \<and> number_is j n' q)"
proof (cases n)
  case f: (Float x)
  show ?thesis
  proof (cases n')
    case (Float y)
    obtain q where q: "shortest_decimal j x q" using number_text [OF assms(1,2)] f by auto
    have "shortest_decimal j x 0 \<and> shortest_decimal j y 0" if "f64_zero x" "f64_zero y" using that by (simp add: shortest_decimal_def)
    with Float f q shortest_same [OF assms(1), of x _ y] show ?thesis by auto
  qed (use f in auto)
next
  case p: (PosInt k)
  have "(of_nat k :: rat) \<noteq> of_int i" if "i < 0" for i
    using that of_int_less_0_iff [of i, where 'a = rat] of_nat_0_le_iff [of k, where 'a = rat] by linarith
  then show ?thesis using assms(3) p by (cases n') auto
next
  case p: (NegInt k)
  have "(of_nat m :: rat) \<noteq> of_int k" for m
    using p assms(2) of_int_less_0_iff [of k, where 'a = rat] of_nat_0_le_iff [of m, where 'a = rat] by simp
  then show ?thesis using p by (cases n') (auto dest: sym)
qed

lemma same_number_text:
  assumes "jcs_laws j" and "num_ok n" and "num_ok n'"
  shows "write_number j n = write_number j n' \<longleftrightarrow> same_number j n n'"
proof
  assume e: "write_number j n = write_number j n'"
  obtain q t where q: "number_is j n q" "write_number j n = Some t" "signed_text t q" by (rule number_text [OF assms(1,2)])
  obtain r u where r: "number_is j n' r" "write_number j n' = Some u" "signed_text u r" by (rule number_text [OF assms(1,3)])
  from e q r signed_text_unique [of t q r] show "same_number j n n'" by (auto simp: same_number_decimal [OF assms])
next
  have i: "write_number j (PosInt k) = Some (show_nat k)" "i < 0 \<Longrightarrow> write_number j (NegInt i) = Some (''-'' @ show_nat (nat (- i)))" for k i
    using assms(1) by (simp_all add: jcs_laws_def write_number_def)
  have p: "write_number j (Float x) = Some (show_nat k)" if "shortest_decimal j x (of_nat k)" "k \<le> u64_max" for x k
    using float_int_text [OF that(1) _ that(2)] by simp
  have m: "write_number j (Float x) = Some (''-'' @ show_nat (nat (- i)))" if "shortest_decimal j x (of_int i)" "- (2 ^ 63) \<le> i" "i < 0" for x i
    using float_int_text [OF that(1), of "nat (- i)"] that(2,3) by (simp add: of_nat_nat nat_le_iff)
  have z: "write_number j (Float x) = Some ''0''" if "f64_zero x" for x using that by (simp add: write_number_def ecmascript_number_def)
  assume "same_number j n n'"
  then show "write_number j n = write_number j n'" using assms(2,3)
    by (cases "(j, n, n')" rule: same_number.cases) (auto simp: i p m z)
qed

section \<open>A text determines its value\<close>

lemma those_eq_Some: "those xs = Some ys \<longleftrightarrow> xs = map Some ys"
proof (induction xs arbitrary: ys)
  case (Cons x xs)
  then show ?case by (cases ys) (auto split: option.splits)
qed auto

definition stop :: "string \<Rightarrow> bool" where
  "stop r \<longleftrightarrow> r = [] \<or> \<not> num_char (hd r)"

definition closing :: "char \<Rightarrow> bool" where
  "closing c \<longleftrightarrow> c = CHR '']'' \<or> c = CHR ''}''"

lemma stop_chars [simp]: "stop (CHR '','' # r)" "closing c \<Longrightarrow> stop (c # r)"
  by (auto simp: stop_def num_char_def is_digit_def closing_def)

fun more :: "string list \<Rightarrow> string" where
  "more [] = ''''"
| "more (t # ts) = CHR '','' # t @ more ts"

lemma commas_more: "commas (t # ts) = t @ more ts"
  by (induction ts arbitrary: t) simp_all

lemma stop_more: "closing c \<Longrightarrow> stop (more ts @ c # r)"
  by (cases ts) simp_all

text \<open>\<open>W\<close> gives the text of an element; \<open>S\<close> is what equal texts make of two elements.\<close>

definition delimits :: "('a \<Rightarrow> string option) \<Rightarrow> ('a \<Rightarrow> 'a \<Rightarrow> bool) \<Rightarrow> ('a \<Rightarrow> bool) \<Rightarrow> 'a \<Rightarrow> bool" where
  "delimits W S ok v \<longleftrightarrow> (\<forall>w t u r s. ok w \<longrightarrow> W v = Some t \<longrightarrow> W w = Some u \<longrightarrow> t @ r = u @ s \<longrightarrow> stop r \<longrightarrow> stop s \<longrightarrow> S v w \<and> r = s)"

lemma more_prefix:
  assumes "\<forall>v \<in> set vs. delimits W S ok v" and "\<forall>w \<in> set ws. ok w" and "map W vs = map Some ts" and "map W ws = map Some us"
    and "closing c" and "more ts @ c # r = more us @ c # s"
  shows "list_all2 S vs ws \<and> r = s"
  using assms
proof (induction vs arbitrary: ws ts us)
  case Nil
  then have ts: "ts = []" by simp
  show ?case
  proof (cases us)
    case Nil
    with ts Nil.prems show ?thesis by simp
  next
    case (Cons u us')
    with ts Nil.prems(6) \<open>closing c\<close> show ?thesis by (auto simp: closing_def)
  qed
next
  case (Cons v vs)
  obtain t ts' where ts: "ts = t # ts'" "W v = Some t" "map W vs = map Some ts'" using Cons.prems(3) by (cases ts) auto
  show ?case
  proof (cases us)
    case Nil
    with ts Cons.prems(5,6) show ?thesis by (auto simp: closing_def)
  next
    case (Cons u us')
    then obtain w ws' where ws: "ws = w # ws'" "W w = Some u" "map W ws' = map Some us'" using Cons.prems(4) by (cases ws) auto
    have e: "t @ more ts' @ c # r = u @ more us' @ c # s" using Cons.prems(6) ts Cons by simp
    from Cons.prems(1,2) ts(2) ws e stop_more [OF Cons.prems(5)] have h: "S v w" "more ts' @ c # r = more us' @ c # s"
      unfolding delimits_def by (metis list.set_intros(1))+
    from Cons.IH [OF _ _ ts(3) ws(3) Cons.prems(5) h(2)] Cons.prems(1,2) ws(1) have "list_all2 S vs ws' \<and> r = s" by simp
    with h(1) ws(1) show ?thesis by simp
  qed
qed

lemma commas_prefix:
  assumes "\<forall>v \<in> set vs. delimits W S ok v" and "\<forall>w \<in> set ws. ok w" and "map W vs = map Some ts" and "map W ws = map Some us"
    and "closing c" and "\<forall>t \<in> set ts \<union> set us. t \<noteq> [] \<and> hd t \<noteq> c" and "commas ts @ c # r = commas us @ c # s"
  shows "list_all2 S vs ws \<and> r = s"
proof (cases "ts = [] \<or> us = []")
  case True
  have "ts = [] \<and> us = []"
  proof (rule ccontr)
    assume "\<not> (ts = [] \<and> us = [])"
    with True consider t ts' where "ts = t # ts'" "us = []" | u us' where "us = u # us'" "ts = []" by (metis list.exhaust)
    then show False
    proof cases
      case 1
      then have "t @ more ts' @ c # r = c # s" "t \<noteq> [] \<and> hd t \<noteq> c" using assms(6,7) by (auto simp: commas_more)
      then show False by (cases t) auto
    next
      case 2
      then have "u @ more us' @ c # s = c # r" "u \<noteq> [] \<and> hd u \<noteq> c" using assms(6,7) by (auto simp: commas_more)
      then show False by (cases u) auto
    qed
  qed
  with assms(3,4,7) show ?thesis by simp
next
  case False
  then obtain t ts' u us' where t: "ts = t # ts'" "us = u # us'" by (metis list.exhaust)
  have "more ts @ c # r = more us @ c # s" using assms(7) t by (simp add: commas_more)
  then show ?thesis using more_prefix [OF assms(1-5)] by blast
qed

text \<open>The character a value's text starts with.\<close>

fun lead :: "json \<Rightarrow> char \<Rightarrow> bool" where
  "lead JNull c \<longleftrightarrow> c = CHR ''n''"
| "lead (JBool b) c \<longleftrightarrow> c = (if b then CHR ''t'' else CHR ''f'')"
| "lead (JString s) c \<longleftrightarrow> c = CHR 0x22"
| "lead (JNumber n) c \<longleftrightarrow> is_digit c \<or> c = CHR ''-''"
| "lead (JArray vs) c \<longleftrightarrow> c = CHR ''[''"
| "lead (JObject m) c \<longleftrightarrow> c = CHR ''{''"

lemma write_lead:
  assumes "jcs_laws j" and "json_ok v" and "write_canonical j v = Some t"
  shows "\<exists>c r. t = c # r \<and> lead v c"
proof (cases v)
  case (JString s)
  have "\<exists>r. j_str j s = CHR 0x22 # r" using assms(1) by (simp add: jcs_laws_def)
  with JString assms(3) show ?thesis by auto
next
  case (JNumber n)
  with assms(2) have "num_ok n" by simp
  from write_number_text [OF assms(1) this] JNumber assms(3) show ?thesis by (metis lead.simps(4) list.exhaust_sel option.inject write_canonical.simps(4))
qed (use assms(3) in \<open>auto split: if_splits\<close>)

lemma closing_lead: "lead v c \<Longrightarrow> \<not> closing c"
  by (cases v) (auto simp: closing_def is_digit_def split: if_splits)

definition member_text :: "jcs_ext \<Rightarrow> string \<times> json \<Rightarrow> string option" where
  "member_text j a = map_option (\<lambda>t. j_str j (fst a) @ CHR '':'' # t) (write_canonical j (snd a))"

lemma member_text_case: "(\<lambda>(k, v). map_option (\<lambda>t. j_str j k @ CHR '':'' # t) (write_canonical j v)) = member_text j"
  by (auto simp: member_text_def)

lemma str_prefix:
  assumes "jcs_laws j" and "j_str j a @ r = j_str j b @ s"
  shows "a = b \<and> r = s"
proof -
  have "a = b" using assms unfolding jcs_laws_def by blast
  with assms(2) show ?thesis by simp
qed

lemma member_delimits:
  assumes "jcs_laws j" and "delimits (write_canonical j) (same_json j) json_ok (snd a)"
  shows "delimits (member_text j) (same_member j) (\<lambda>b. json_ok (snd b)) a"
  unfolding delimits_def
proof (intro allI impI)
  fix b t u r s assume a: "json_ok (snd b)" "member_text j a = Some t" "member_text j b = Some u" "t @ r = u @ s" "stop r" "stop s"
  then obtain t' u' where t: "write_canonical j (snd a) = Some t'" "t = j_str j (fst a) @ CHR '':'' # t'"
    "write_canonical j (snd b) = Some u'" "u = j_str j (fst b) @ CHR '':'' # u'" by (auto simp: member_text_def)
  then have "j_str j (fst a) @ CHR '':'' # t' @ r = j_str j (fst b) @ CHR '':'' # u' @ s" using a(4) by simp
  from str_prefix [OF assms(1) this] have "fst a = fst b" "t' @ r = u' @ s" by auto
  with assms(2) a t show "same_member j a b \<and> r = s" unfolding delimits_def same_member_def by blast
qed

text \<open>The members of two objects agree in canonical order exactly when they agree.\<close>

lemma list_all2_insort:
  assumes "list_all2 R xs ys" and "\<And>a b. R a b \<Longrightarrow> f a = f b" and "R x y"
  shows "list_all2 R (insort_key f x xs) (insort_key f y ys)"
  using assms(1)
proof (induction xs ys rule: list_all2_induct)
  case (Cons a xs b ys)
  with assms(2) [OF Cons(1)] assms(2) [OF assms(3)] assms(3) show ?case by auto
qed (use assms(3) in simp)

lemma list_all2_sort:
  assumes "list_all2 R xs ys" and "\<And>a b. R a b \<Longrightarrow> f a = f b"
  shows "list_all2 R (sort_key f xs) (sort_key f ys)"
  using assms(1) by (induction xs ys rule: list_all2_induct) (auto intro!: list_all2_insort assms(2))

lemma same_canonical: "list_all2 (same_member j) m m' \<Longrightarrow> list_all2 (same_member j) (canonical_members m) (canonical_members m')"
  unfolding canonical_members_def by (rule list_all2_sort) (auto simp: same_member_def)

lemma canonical_same:
  assumes "bm_wf m" and "bm_wf m'" and "list_all2 (same_member j) (canonical_members m) (canonical_members m')"
  shows "list_all2 (same_member j) m m'"
proof -
  have keys: "map fst (canonical_members m) = map fst (canonical_members m')"
    using assms(3) by (induction rule: list_all2_induct) (auto simp: same_member_def)
  then have "fst ` set m = fst ` set m'" by (metis set_canonical_members set_map)
  then have fm: "map fst m = map fst m'" using assms(1,2) unfolding bm_wf_def
    by (intro strict_sorted_equal) auto
  have inj: "v = w" if "(k, v) \<in> set m'" "(k, w) \<in> set m'" for k v w
    using that assms(2) unfolding bm_wf_def by (metis eq_key_imp_eq_value strict_sorted_iff)
  have "same_member j (m ! i) (m' ! i)" if i: "i < length m" for i
  proof -
    have "m ! i \<in> set (canonical_members m)" using i by simp
    then obtain n where n: "n < length (canonical_members m)" "canonical_members m ! n = m ! i" by (metis in_set_conv_nth)
    with assms(3) have s: "same_member j (m ! i) (canonical_members m' ! n)" "n < length (canonical_members m')"
      by (metis list_all2_conv_all_nth)+
    then have mem: "canonical_members m' ! n \<in> set m'" by (metis nth_mem set_canonical_members)
    have l: "length m = length m'" using fm by (metis length_map)
    have mi: "m' ! i \<in> set m'" "fst (m' ! i) = fst (m ! i)" using i l nth_map [of i m fst] nth_map [of i m' fst] fm by simp_all
    let ?c = "canonical_members m' ! n"
    have f: "fst ?c = fst (m' ! i)" using s(1) mi(2) by (simp add: same_member_def)
    have "(fst ?c, snd ?c) \<in> set m'" "(fst ?c, snd (m' ! i)) \<in> set m'" using mem mi(1) by simp (metis f mi(1) prod.collapse)
    then have "?c = m' ! i" using inj f by (metis prod_eqI)
    with s(1) show ?thesis by simp
  qed
  moreover have "length m = length m'" using fm by (metis length_map)
  ultimately show ?thesis by (simp add: list_all2_conv_all_nth)
qed

lemma texts_ok:
  assumes "jcs_laws j" and "\<forall>v \<in> set vs. json_ok v" and "map (write_canonical j) vs = map Some ts" and "closing c"
  shows "\<forall>t \<in> set ts. t \<noteq> [] \<and> hd t \<noteq> c"
proof
  fix t assume "t \<in> set ts"
  then have "Some t \<in> set (map (write_canonical j) vs)" unfolding assms(3) by simp
  then obtain v where v: "v \<in> set vs" "write_canonical j v = Some t" by auto
  with assms(2) write_lead [OF assms(1) _ v(2)] obtain d r where "t = d # r" "lead v d" by blast
  with closing_lead assms(4) show "t \<noteq> [] \<and> hd t \<noteq> c" by auto
qed

lemma member_texts_ok:
  assumes "jcs_laws j" and "map (member_text j) m = map Some ts" and "closing c"
  shows "\<forall>t \<in> set ts. t \<noteq> [] \<and> hd t \<noteq> c"
proof
  fix t assume "t \<in> set ts"
  then have "Some t \<in> set (map (member_text j) m)" unfolding assms(2) by simp
  then obtain a where "member_text j a = Some t" by force
  then obtain u where "t = j_str j (fst a) @ CHR '':'' # u" by (auto simp: member_text_def)
  moreover have "\<exists>r. j_str j (fst a) = CHR 0x22 # r" using assms(1) by (simp add: jcs_laws_def)
  ultimately show "t \<noteq> [] \<and> hd t \<noteq> c" using assms(3) by (auto simp: closing_def)
qed

lemma number_prefix:
  assumes "list_all num_char t" and "list_all num_char u" and "t @ r = u @ s" and "stop r" and "stop s"
  shows "t = u \<and> r = s"
proof -
  have tw: "takeWhile num_char (t @ r) = t" if "list_all num_char t" "stop r" for t r
    using that by (induction t) (auto simp: stop_def takeWhile_eq_Nil_iff)
  from tw [OF assms(1,4)] tw [OF assms(2,5)] assms(3) have "t = u" by simp
  with assms(3) show ?thesis by simp
qed

lemma lead_unique:
  assumes "lead v c" and "lead w c"
  shows "(v = JNull \<longleftrightarrow> w = JNull) \<and> (\<forall>b. v = JBool b \<longleftrightarrow> w = JBool b) \<and> ((\<exists>s. v = JString s) \<longleftrightarrow> (\<exists>s. w = JString s)) \<and>
    ((\<exists>n. v = JNumber n) \<longleftrightarrow> (\<exists>n. w = JNumber n)) \<and> ((\<exists>vs. v = JArray vs) \<longleftrightarrow> (\<exists>vs. w = JArray vs)) \<and>
    ((\<exists>m. v = JObject m) \<longleftrightarrow> (\<exists>m. w = JObject m))"
  using assms by (cases v; cases w) (auto simp: is_digit_def split: if_splits)

lemma array_prefix:
  assumes j: "jcs_laws j" and oks: "\<forall>v \<in> set vs. json_ok v" "\<forall>v \<in> set ws. json_ok v"
    and del: "\<forall>x \<in> set vs. delimits (write_canonical j) (same_json j) json_ok x"
    and t: "write_canonical j (JArray vs) = Some t" and u: "write_canonical j (JArray ws) = Some u" and e: "t @ r = u @ s"
  shows "list_all2 (same_json j) vs ws" and "r = s"
proof -
  from t u obtain ts us where ts: "map (write_canonical j) vs = map Some ts" "t = ''['' @ commas ts @ '']''"
    "map (write_canonical j) ws = map Some us" "u = ''['' @ commas us @ '']''" by (auto simp: those_eq_Some)
  have cl: "closing (CHR '']'')" by (simp add: closing_def)
  from commas_prefix [OF del oks(2) ts(1,3) cl, of r s] texts_ok [OF j oks(1) ts(1) cl] texts_ok [OF j oks(2) ts(3) cl] e ts(2,4)
  show "list_all2 (same_json j) vs ws" "r = s" by auto
qed

lemma object_prefix:
  assumes j: "jcs_laws j" and del: "\<forall>a \<in> set m. delimits (write_canonical j) (same_json j) json_ok (snd a)"
    and oks: "\<forall>a \<in> set m'. json_ok (snd a)" "bm_wf m" "bm_wf m'"
    and t: "write_canonical j (JObject m) = Some t" and u: "write_canonical j (JObject m') = Some u" and e: "t @ r = u @ s"
  shows "list_all2 (same_member j) m m'" and "r = s"
proof -
  from t u obtain ts us where ts: "map (member_text j) (canonical_members m) = map Some ts" "t = ''{'' @ commas ts @ ''}''"
    "map (member_text j) (canonical_members m') = map Some us" "u = ''{'' @ commas us @ ''}''"
    by (auto simp: those_eq_Some member_text_case)
  have dm: "\<forall>a \<in> set (canonical_members m). delimits (member_text j) (same_member j) (\<lambda>b. json_ok (snd b)) a"
    using del member_delimits [OF j] by simp
  have cl: "closing (CHR ''}'')" by (simp add: closing_def)
  have "\<forall>b \<in> set (canonical_members m'). json_ok (snd b)" using oks(1) by simp
  from commas_prefix [OF dm this ts(1,3) cl, of r s] member_texts_ok [OF j ts(1) cl] member_texts_ok [OF j ts(3) cl] e ts(2,4)
  have "list_all2 (same_member j) (canonical_members m) (canonical_members m') \<and> r = s" by auto
  with canonical_same [OF oks(2,3)] show "list_all2 (same_member j) m m'" "r = s" by auto
qed

text \<open>Values are told apart by their texts, whatever follows them.\<close>

lemma value_delimits:
  assumes j: "jcs_laws j" and "json_ok v"
  shows "delimits (write_canonical j) (same_json j) json_ok v"
  using assms(2)
proof (induction v rule: measure_induct_rule [of size])
  case (less v)
  show ?case unfolding delimits_def
  proof (intro allI impI)
    fix w t u r s
    assume w: "json_ok w" and t: "write_canonical j v = Some t" and u: "write_canonical j w = Some u" and e: "t @ r = u @ s"
      and st: "stop r" "stop s"
    obtain c t' where c: "t = c # t'" "lead v c" using write_lead [OF j less.prems t] by blast
    obtain c' u' where c': "u = c' # u'" "lead w c'" using write_lead [OF j w u] by blast
    from c c' e have "lead w c" by simp
    note lu = lead_unique [OF c(2) this]
    show "same_json j v w \<and> r = s"
    proof (cases v)
      case JNull
      with lu have "w = JNull" by blast
      with JNull t u e show ?thesis by simp
    next
      case (JBool b)
      with lu have "w = JBool b" by blast
      with JBool t u e show ?thesis by (simp split: if_splits)
    next
      case (JString a)
      with lu obtain b where b: "w = JString b" by blast
      with JString t u e str_prefix [OF j, of a r b s] show ?thesis by simp
    next
      case (JNumber n)
      with lu obtain n' where n': "w = JNumber n'" by blast
      with JNumber less.prems w write_number_text [OF j, of n] write_number_text [OF j, of n'] t u
      have "list_all num_char t" "list_all num_char u" by (metis json_ok.simps(3) option.inject write_canonical.simps(4))+
      from number_prefix [OF this e st] t u JNumber n' same_number_text [OF j, of n n'] less.prems w show ?thesis by simp
    next
      case (JArray vs)
      with lu obtain ws where ws: "w = JArray ws" by blast
      have "size x < size v" if "x \<in> set vs" for x using that JArray by (simp add: size_list_estimation' less_Suc_eq_le)
      then have "\<forall>x \<in> set vs. delimits (write_canonical j) (same_json j) json_ok x"
        using less.IH less.prems JArray by (simp add: list_ok_iff)
      from array_prefix [OF j _ _ this t [unfolded JArray] u [unfolded ws] e] less.prems w JArray ws
      show ?thesis by (simp add: list_ok_iff same_list_iff)
    next
      case (JObject m)
      with lu obtain m' where m': "w = JObject m'" by blast
      have "size (snd a) < size v" if "a \<in> set m" for a
      proof -
        have "size_prod (\<lambda>_. 0) size a \<le> size_list (size_prod (\<lambda>_. 0) size) m" using that by (intro size_list_estimation') auto
        with JObject show ?thesis by (cases a) simp
      qed
      then have "\<forall>a \<in> set m. delimits (write_canonical j) (same_json j) json_ok (snd a)"
        using less.IH less.prems JObject by (auto simp: members_ok_iff)
      from object_prefix [OF j this _ _ _ t [unfolded JObject] u [unfolded m'] e] less.prems w JObject m'
      show ?thesis by (auto simp: members_ok_iff same_members_iff)
    qed
  qed
qed

section \<open>Every value has a text, and the spelling of its numbers is not in it\<close>

lemma those_total: "\<forall>x \<in> set xs. \<exists>y. f x = Some y \<Longrightarrow> \<exists>ys. those (map f xs) = Some ys"
  by (induction xs) auto

lemma write_total:
  assumes "jcs_laws j" and "json_ok v"
  shows "\<exists>t. write_canonical j v = Some t"
  using assms
proof (induction j v rule: write_canonical.induct)
  case (4 j n)
  then have "num_ok n" by simp
  from write_number_text [OF "4.prems"(1) this] show ?case by (metis write_canonical.simps(4))
next
  case (5 j vs)
  then have "\<exists>ts. those (map (write_canonical j) vs) = Some ts" by (intro those_total) (auto simp: list_ok_iff)
  then show ?case by auto
next
  case (6 j m)
  have "\<exists>t. member_text j a = Some t" if "a \<in> set m" for a
    using "6.IH" [of a "fst a" "snd a"] "6.prems" that by (auto simp: members_ok_iff member_text_def)
  then have "\<exists>ts. those (map (member_text j) (canonical_members m)) = Some ts" by (intro those_total) simp
  then show ?case by (auto simp: member_text_case)
qed simp_all

lemma map_list_all2: "list_all2 R xs ys \<Longrightarrow> (\<And>a b. a \<in> set xs \<Longrightarrow> b \<in> set ys \<Longrightarrow> R a b \<Longrightarrow> f a = f b) \<Longrightarrow> map f xs = map f ys"
  by (induction rule: list_all2_induct) auto

lemma same_write: "jcs_laws j \<Longrightarrow> json_ok v \<Longrightarrow> json_ok w \<Longrightarrow> same_json j v w \<Longrightarrow> write_canonical j v = write_canonical j w"
proof (induction j v arbitrary: w rule: write_canonical.induct)
  case (4 j n)
  then show ?case by (cases w) (auto simp: same_number_text)
next
  case (5 j vs)
  then obtain ws where ws: "w = JArray ws" "list_all2 (same_json j) vs ws" by (cases w) (auto simp: same_list_iff)
  then have "map (write_canonical j) vs = map (write_canonical j) ws" using "5.IH" "5.prems" by (intro map_list_all2 [of "same_json j"]) (auto simp: list_ok_iff)
  with ws(1) show ?case by simp
next
  case (6 j m)
  then obtain m' where m': "w = JObject m'" "list_all2 (same_member j) m m'" by (cases w) (auto simp: same_members_iff)
  have one: "member_text j a = member_text j b" if "a \<in> set m" "b \<in> set m'" "same_member j a b" for a b
    using "6.IH" [of a "fst a" "snd a" "snd b"] "6.prems" m'(1) that by (simp add: same_member_def member_text_def members_ok_iff)
  have "list_all2 (same_member j) (canonical_members m) (canonical_members m')" by (rule same_canonical [OF m'(2)])
  then have "map (member_text j) (canonical_members m) = map (member_text j) (canonical_members m')"
    by (rule map_list_all2) (simp add: one)
  with m'(1) show ?case by (simp add: member_text_case)
qed auto

section \<open>An instance\<close>

text \<open>Strings in hex, integers in decimal, and a one-to-one printing of the positive doubles with at most
  seventeen digits and an exponent.\<close>

definition demo_digits :: "nat \<Rightarrow> nat" where
  "demo_digits x = 10 * (x div 7209) + (x mod 7209) div 801 + 1"

definition demo_exponent :: "nat \<Rightarrow> int" where
  "demo_exponent x = int (x mod 801) - 400"

definition demo_ryu :: "64 word \<Rightarrow> string" where
  "demo_ryu w = (let x = unat w; e = demo_exponent x in
     show_nat (demo_digits x) @ ''e'' @ (if e < 0 then CHR ''-'' else CHR ''+'') # show_nat (nat \<bar>e\<bar>))"

definition demo_jcs :: jcs_ext where
  "demo_jcs = \<lparr>j_str = (\<lambda>s. CHR 0x22 # field s), j_int = (\<lambda>n. case n of PosInt k \<Rightarrow> show_nat k | NegInt i \<Rightarrow> CHR ''-'' # show_nat (nat (- i)) | Float _ \<Rightarrow> ''0''),
     j_ryu = demo_ryu\<rparr>"

lemma demo_split: "x = (demo_digits x - 1) div 10 * 7209 + (demo_digits x - 1) mod 10 * 801 + nat (demo_exponent x + 400)"
proof -
  have "(x mod 7209) div 801 < 9" by (simp add: less_mult_imp_div_less)
  then have "(demo_digits x - 1) div 10 = x div 7209" "(demo_digits x - 1) mod 10 = (x mod 7209) div 801" by (simp_all add: demo_digits_def)
  moreover have "nat (demo_exponent x + 400) = (x mod 7209) mod 801" by (simp add: demo_exponent_def mod_mod_cancel)
  ultimately show ?thesis by (metis (no_types, opaque_lifting) add.assoc div_mult_mod_eq)
qed

lemma demo_last: "last (show_nat (demo_digits x)) \<noteq> CHR ''0''"
proof -
  have "demo_digits x mod 10 = (x mod 7209) div 801 + 1" "(x mod 7209) div 801 < 9"
    by (simp_all add: demo_digits_def less_mult_imp_div_less mod_add_left_eq [symmetric])
  then have m: "demo_digits x mod 10 \<noteq> 0" by simp
  have "last (show_nat n) = digit_char (n mod 10)" for n by (subst show_nat.simps) simp
  then show ?thesis using m digit_zero [of "demo_digits x mod 10"] by auto
qed

lemma demo_text: "decimal_text (demo_ryu w) (show_nat (demo_digits (unat w))) [] (demo_exponent (unat w))"
proof -
  have "nat \<bar>demo_exponent (unat w)\<bar> < 2 ^ 31" by (simp add: demo_exponent_def nat_less_iff) 
  from parse_signed [OF this] show ?thesis using show_nat_nonempty show_nat_digits
    by (auto simp: decimal_text_def demo_ryu_def Let_def point_text_def list_all_iff)
qed

lemma demo_digits_bound: "demo_digits (unat (w :: 64 word)) < 10 ^ 17 \<or> bit w 63"
proof (cases "bit w 63")
  case False
  then have "take_bit 63 w = w" by (rule take_bit_positive)
  then have "unat w < 2 ^ 63" by (metis take_bit_nat_less_exp unsigned_take_bit_eq)
  then have "unat w div 7209 < 9999999999999998" "unat w mod 7209 div 801 < 9" by (simp_all add: less_mult_imp_div_less)
  then have "demo_digits (unat w) < 10 ^ 17" unfolding demo_digits_def by simp
  then show ?thesis ..
qed simp

lemma demo_ryu_text:
  assumes "\<not> bit w 63"
  shows "ryu_text (demo_ryu w) (scaled (show_nat (demo_digits (unat w))) (demo_exponent (unat w)))"
proof -
  let ?d = "show_nat (demo_digits (unat w))" and ?e = "demo_exponent (unat w)"
  have pos: "0 < demo_digits (unat w)" by (simp add: demo_digits_def)
  have len: "length ?d \<le> 17" using show_nat_width [of "demo_digits (unat w)" 16] demo_digits_bound [of w] assms by simp
  have e: "\<bar>?e\<bar> \<le> 400" by (simp add: demo_exponent_def abs_le_iff)
  have q: "0 < scaled ?d ?e" using pos by (simp add: scaled_def)
  have "length x \<le> 17" if sg: "significant (demo_ryu w) = Some (x, n)" for x n
  proof -
    have "0 < scaled (?d @ []) (?e - int (length []))" using q by simp
    then obtain x' n' where "significant (demo_ryu w) = Some (x', n')" "length x' \<le> length ?d"
      by (rule significant_digits [OF demo_text refl]) (rule that, simp_all)
    with sg len show ?thesis by simp
  qed
  moreover have "\<exists>i f k. decimal_text (demo_ryu w) i f k \<and> scaled ?d ?e = scaled (i @ f) (k - int (length f)) \<and> \<bar>k\<bar> \<le> 400 \<and> length i + length f \<le> 40"
    using demo_text [of w] e len by (intro exI [of _ ?d] exI [of _ "[]"] exI [of _ ?e]) simp
  ultimately show ?thesis using q unfolding ryu_text_def by blast
qed

lemma demo_ryu_inj:
  assumes "\<not> bit x 63" and "\<not> bit y 63" and "ryu_text (demo_ryu x) q" and "ryu_text (demo_ryu y) q"
  shows "x = y"
proof -
  have val: "q = scaled (show_nat (demo_digits (unat w))) (demo_exponent (unat w))"
    if "\<not> bit w 63" "ryu_text (demo_ryu w) q" for w
  proof -
    note r = demo_ryu_text [OF that(1)]
    from positive_text [OF r] positive_text [OF that(2)] obtain t where "denotes t q"
      "denotes t (scaled (show_nat (demo_digits (unat w))) (demo_exponent (unat w)))" by auto
    with denotes_unique r that(2) show ?thesis unfolding ryu_text_def by blast
  qed
  have n: "digits_only (show_nat k)" "show_nat k \<noteq> []" for k using show_nat_digits show_nat_nonempty by (auto simp: list_all_iff)
  have h: "hd (show_nat (demo_digits k)) \<noteq> CHR ''0''" for k by (rule show_nat_hd) (simp add: demo_digits_def)
  from val [OF assms(1,3)] val [OF assms(2,4)]
    scaled_unique [OF n(1) n(2) h demo_last n(1) n(2) h demo_last, of "unat x" "demo_exponent (unat x)" "unat y" "demo_exponent (unat y)"]
  have "show_nat (demo_digits (unat x)) = show_nat (demo_digits (unat y))" "demo_exponent (unat x) = demo_exponent (unat y)" by auto
  then have "unat x = unat y" using show_nat_inj demo_split by metis
  then show ?thesis by (simp add: word_unat_eq_iff)
qed

lemma demo_jcs_laws: "jcs_laws demo_jcs"
proof -
  have f: "j_str demo_jcs = (\<lambda>s. CHR 0x22 # field s)" "j_ryu demo_jcs = demo_ryu" "j_int demo_jcs (PosInt n) = show_nat n"
    "j_int demo_jcs (NegInt i) = CHR ''-'' # show_nat (nat (- i))" for n i
    by (simp_all add: demo_jcs_def)
  have "a = b" if "(CHR 0x22 # field a) @ r = (CHR 0x22 # field b) @ s" for a b r s :: string
  proof -
    from that have "take_field (field a @ r) = take_field (field b @ s)" by simp
    then show ?thesis by simp
  qed
  moreover have "\<exists>q. ryu_text (demo_ryu x) q" if "\<not> bit x 63" for x using demo_ryu_text [OF that] by blast
  moreover have "\<exists>r. CHR 0x22 # field s = CHR 0x22 # r" for s by blast
  ultimately show ?thesis unfolding jcs_laws_def f using demo_ryu_inj by (intro conjI allI impI refl) meson+
qed

section \<open>Properties\<close>

text \<open>C34: the canonical form of a value is defined, and two values have the same one exactly when they are
  the same value, numbers compared as numbers and not by their spelling: doubles are the same when they
  are the same double or both zero, integers when they are equal, and an integer is the same as a double
  exactly when it is the shortest decimal that reads as the double. The order in which members were
  sent never shows. So a digest that does not collide on the two
  forms binds the value it was taken over.\<close>

theorem canonical_form_exact:
  assumes "jcs_laws j" and "json_ok v" and "json_ok w"
  shows "canonicalize j v \<noteq> None \<and> (canonicalize j v = canonicalize j w \<longleftrightarrow> same_json j v w) \<and>
    (inj_on (\<lambda>t. x_hex x (x_sha256 x t)) {the (canonicalize j v), the (canonicalize j w)} \<longrightarrow>
       (digest x j v = digest x j w \<longleftrightarrow> same_json j v w))"
proof -
  obtain t u where t: "write_canonical j v = Some t" "write_canonical j w = Some u"
    using write_total [OF assms(1)] assms(2,3) by blast
  have "same_json j v w" if "t = u"
    using value_delimits [OF assms(1,2)] assms(3) t that unfolding delimits_def stop_def by blast
  with same_write [OF assms] t have "t = u \<longleftrightarrow> same_json j v w" by auto
  with t show ?thesis by (auto simp: canonicalize_def digest_def inj_on_def)
qed

theorem canonical_form_exact_witness:
  "canonicalize demo_jcs (JObject [(''a'', JNumber (Float 0)), (''b'', JArray [JNull])]) =
     canonicalize demo_jcs (JObject [(''a'', JNumber (PosInt 0)), (''b'', JArray [JNull])]) \<and>
   canonicalize demo_jcs (JNumber (Float 1)) \<noteq> canonicalize demo_jcs (JNumber (Float 0x8000000000000001))"
proof -
  have "json_ok (JObject [(''a'', JNumber (Float 0)), (''b'', JArray [JNull])])" "json_ok (JObject [(''a'', JNumber (PosInt 0)), (''b'', JArray [JNull])])"
    by (simp_all add: bm_wf_def f64_finite_def)
  note c = canonical_form_exact [OF demo_jcs_laws this]
  have "same_json demo_jcs (JObject [(''a'', JNumber (Float 0)), (''b'', JArray [JNull])]) (JObject [(''a'', JNumber (PosInt 0)), (''b'', JArray [JNull])])"
    by (simp add: shortest_decimal_def f64_zero_def)
  with c have "canonicalize demo_jcs (JObject [(''a'', JNumber (Float 0)), (''b'', JArray [JNull])]) =
     canonicalize demo_jcs (JObject [(''a'', JNumber (PosInt 0)), (''b'', JArray [JNull])])" by blast
  moreover have "f64_finite 1" "f64_finite 0x8000000000000001" "\<not> f64_zero 1" "(1 :: 64 word) \<noteq> 0x8000000000000001" by code_simp+
  then have "canonicalize demo_jcs (JNumber (Float 1)) \<noteq> canonicalize demo_jcs (JNumber (Float 0x8000000000000001))"
    using canonical_form_exact [OF demo_jcs_laws, of "JNumber (Float 1)" "JNumber (Float 0x8000000000000001)"] by simp
  ultimately show ?thesis ..
qed

text \<open>A finite double is printed as ECMAScript prints it: the text of a positive one denotes exactly the
  number Ryu's digits denote, the text of a negative one is that of its magnitude after a sign, both
  zeros are \<open>0\<close>, and two doubles of the same sign share a text only when they are equal.\<close>

theorem number_text_exact:
  assumes "jcs_laws j" and "f64_finite x" and "f64_finite y" and "\<not> f64_zero x" and "\<not> f64_zero y" and "bit x 63 = bit y 63"
  shows "(\<exists>q t. 0 < q \<and> ryu_text (j_ryu j (take_bit 63 x)) q \<and> denotes t q \<and>
      ecmascript_number j x = Some ((if bit x 63 then ''-'' else '''') @ t)) \<and>
    (ecmascript_number j x = ecmascript_number j y \<longleftrightarrow> x = y)"
proof -
  obtain q where q: "ryu_text (j_ryu j (take_bit 63 x)) q" using positive_double [OF assms(1,2,4)] by metis
  obtain q' where q': "ryu_text (j_ryu j (take_bit 63 y)) q'" using positive_double [OF assms(1,3,5)] by metis
  obtain t where t: "map_option (\<lambda>(d, n). place_point d n) (significant (j_ryu j (take_bit 63 x))) = Some t" "denotes t q"
    using positive_text [OF q] by blast
  obtain t' where t': "map_option (\<lambda>(d, n). place_point d n) (significant (j_ryu j (take_bit 63 y))) = Some t'" "denotes t' q'"
    using positive_text [OF q'] by blast
  have pos: "0 < q" "0 < q'" using q q' by (auto simp: ryu_text_def)
  have ex: "ecmascript_number j x = Some ((if bit x 63 then ''-'' else '''') @ t)" "ecmascript_number j y = Some ((if bit y 63 then ''-'' else '''') @ t')"
    using t(1) t'(1) assms(4,5) by (auto simp: ecmascript_magnitude)
  have "x = y" if "t = t'"
  proof -
    have "q = q'" using denotes_unique [OF t(2) _ pos] t'(2) that by simp
    with q q' assms(1) take_bit_63(1) have m: "take_bit 63 x = take_bit 63 y" unfolding jcs_laws_def by metis
    show ?thesis
    proof (rule bit_eqI)
      fix n assume "possible_bit TYPE(64 word) n"
      then have "n < 63 \<or> n = 63" by (auto simp: possible_bit_word)
      then show "bit x n \<longleftrightarrow> bit y n" using assms(6) m by (metis bit_take_bit_iff)
    qed
  qed
  with ex assms(6) pos(1) q t(2) show ?thesis by auto
qed

theorem number_text_exact_witness:
  "ecmascript_number demo_jcs 1 \<noteq> ecmascript_number demo_jcs 2"
proof -
  have "f64_finite 1" "f64_finite 2" "\<not> f64_zero 1" "\<not> f64_zero 2" "bit (1 :: 64 word) 63 = bit (2 :: 64 word) 63" "(1 :: 64 word) \<noteq> 2"
    by code_simp+
  with number_text_exact [OF demo_jcs_laws, of 1 2] show ?thesis by blast
qed

text \<open>C35: printing a finite double never fails, slices only inside its digits, and gives between 1 and 25
  characters, all of them characters of a JSON number.\<close>

theorem number_text_bounds:
  assumes "jcs_laws j" and "f64_finite x"
  shows "\<exists>t. ecmascript_number j x = Some t \<and> 1 \<le> length t \<and> length t \<le> 25 \<and> list_all num_char t"
proof (cases "f64_zero x")
  case True
  then show ?thesis by (simp add: ecmascript_number_def num_char_def is_digit_def)
next
  case False
  from positive_double [OF assms False] obtain d n where d: "significant (j_ryu j (take_bit 63 x)) = Some (d, n)" "digits_only d" "d \<noteq> []"
    "length d \<le> 17" "\<bar>n\<bar> \<le> 440" by metis
  have "num_char (CHR ''-'')" by (simp add: num_char_def)
  with place_point_chars [OF d(2,3), of n] place_point_length [OF d(3,5,4)] d(1) False show ?thesis
    by (cases "place_point d n") (auto simp: ecmascript_magnitude)
qed

theorem number_text_bounds_witness: "\<exists>t. ecmascript_number demo_jcs 1 = Some t \<and> length t \<le> 25"
proof -
  have "f64_finite 1" by code_simp
  from number_text_bounds [OF demo_jcs_laws this] show ?thesis by blast
qed

end
