(* ===== verification/Server_Text.thy ===== *)
theory Server_Text
  imports Identity Jcs Head_Commit
begin

text \<open>
  The text a refusal may echo. A string is its UTF-8 bytes, so the characters Rust iterates with
  \<open>str::chars\<close> are the byte sequences \<open>str_chars\<close> cuts it into; \<open>bounded\<close>
  (\<open>decern-server/src/decide.rs\<close>), \<open>brief\<close> and \<open>printable\<close> (\<open>caller.rs\<close>)
  keep a bounded number of them and no control character, whatever the caller sent.
\<close>

section \<open>The code\<close>

function str_chars :: "string \<Rightarrow> string list" where
  "str_chars s =
     (if s = [] then []
      else let n = utf8_width (map of_char s) in if n = 0 then [] else take n s # str_chars (drop n s))"
  by pat_completeness auto
termination
  by (relation "measure length") auto

declare str_chars.simps [simp del]

text \<open>\<open>char::is_control\<close>: the category Cc.\<close>

definition is_control :: "string \<Rightarrow> bool" where
  "is_control c \<longleftrightarrow> (let v = scalar_value (length c) (map of_char c) in v < 0x20 \<or> 0x7F \<le> v \<and> v \<le> 0x9F)"

definition ellipsis :: string where
  "ellipsis = [CHR 0xE2, CHR 0x80, CHR 0xA6]"

definition bounded :: "string \<Rightarrow> nat \<Rightarrow> string" where
  "bounded s n =
     (let kept = filter (\<lambda>c. \<not> is_control c) (str_chars s) in
      concat (take n kept) @ (if length kept > n then ellipsis else []))"

definition max_echo :: nat where
  "max_echo = 64"

definition brief :: "string \<Rightarrow> string" where
  "brief s =
     (let kept = filter (\<lambda>c. \<not> is_control c) (str_chars (trim s)) in
      concat (take max_echo kept) @ (if length kept > max_echo then ellipsis else []))"

definition printable :: "string \<Rightarrow> string" where
  "printable s =
     concat (take max_echo (filter (\<lambda>c. length c = 1 \<and> CHR '' '' \<le> hd c \<and> hd c \<le> CHR ''~'') (str_chars s)))"

section \<open>Characters\<close>

text \<open>One character: a sequence \<open>str_chars\<close> does not cut.\<close>

definition one_char :: "string \<Rightarrow> bool" where
  "one_char c \<longleftrightarrow> c \<noteq> [] \<and> utf8_width (map of_char c) = length c"

lemma str_chars_Nil [simp]: "str_chars [] = []"
  by (simp add: str_chars.simps)

lemma utf8_width_take:
  assumes "utf8_width b = n" and "n \<noteq> 0"
  shows "utf8_width (take n b) = n"
proof -
  have h: "hd (take n b) = hd b" using assms(2) by (cases b; cases n) simp_all
  have c: "i < n \<Longrightarrow> cont_byte (take n b) i = cont_byte b i" for i by (simp add: cont_byte_def)
  have s: "1 < n \<Longrightarrow> second_byte (take n b) lo hi = second_byte b lo hi" for lo hi by (simp add: second_byte_def)
  note w = assms [unfolded utf8_width_def Let_def]
  consider "hd b < 0x80" | "\<not> hd b < 0x80" "0xC2 \<le> hd b \<and> hd b \<le> 0xDF"
    | "\<not> hd b < 0x80" "\<not> (0xC2 \<le> hd b \<and> hd b \<le> 0xDF)" "0xE0 \<le> hd b \<and> hd b \<le> 0xEF"
    | "\<not> hd b < 0x80" "\<not> (0xC2 \<le> hd b \<and> hd b \<le> 0xDF)" "\<not> (0xE0 \<le> hd b \<and> hd b \<le> 0xEF)" "0xF0 \<le> hd b \<and> hd b \<le> 0xF4"
    | "\<not> hd b < 0x80" "\<not> (0xC2 \<le> hd b \<and> hd b \<le> 0xDF)" "\<not> (0xE0 \<le> hd b \<and> hd b \<le> 0xEF)" "\<not> (0xF0 \<le> hd b \<and> hd b \<le> 0xF4)"
    by blast
  then show ?thesis
  proof cases
    case 1
    then show ?thesis using w h by (simp add: utf8_width_def)
  next
    case 2
    then have "n = 2 \<and> cont_byte b 1" using w by (simp split: if_splits)
    with 2 h c show ?thesis by (simp add: utf8_width_def Let_def)
  next
    case 3
    then have "n = 3" "second_byte b (if hd b = 0xE0 then 0xA0 else 0x80) (if hd b = 0xED then 0x9F else 0xBF)" "cont_byte b 2"
      using w by (simp_all only: if_False if_True) (metis (full_types))+
    with 3 h c s show ?thesis unfolding utf8_width_def Let_def h by (simp only: if_False if_True) simp
  next
    case 4
    then have "n = 4" "second_byte b (if hd b = 0xF0 then 0x90 else 0x80) (if hd b = 0xF4 then 0x8F else 0xBF)" "cont_byte b 2" "cont_byte b 3"
      using w by (simp_all only: if_False if_True) (metis (full_types))+
    with 4 h c s show ?thesis unfolding utf8_width_def Let_def h by (simp only: if_False if_True) simp
  next
    case 5
    then show ?thesis using w by (simp only: if_False if_True)
  qed
qed

lemma str_chars_one: "c \<in> set (str_chars s) \<Longrightarrow> one_char c"
proof (induction s rule: str_chars.induct)
  case (1 s)
  let ?n = "utf8_width (map of_char s)"
  show ?case
  proof (cases "s = [] \<or> ?n = 0")
    case True
    then have "str_chars s = []" by (subst str_chars.simps) auto
    with 1(2) show ?thesis by simp
  next
    case False
    with 1(2) consider "c = take ?n s" | "c \<in> set (str_chars (drop ?n s))" by (auto simp: str_chars.simps [of s] Let_def)
    then show ?thesis
    proof cases
      case 1
      have "?n \<le> length s" using utf8_width_le [of "map of_char s"] False by simp
      with 1 False utf8_width_take [of "map of_char s" ?n] show ?thesis by (simp add: one_char_def take_map)
    next
      case 2
      with 1(1) False show ?thesis by blast
    qed
  qed
qed

lemma str_chars_append: "one_char c \<Longrightarrow> str_chars (c @ s) = c # str_chars s"
  using utf8_width_append [of "map of_char c" "map of_char s"]
  by (subst str_chars.simps) (auto simp: one_char_def)

lemma str_chars_concat: "\<forall>c \<in> set cs. one_char c \<Longrightarrow> str_chars (concat cs) = cs"
  by (induction cs) (simp_all add: str_chars_append)

lemma str_chars_valid: "utf8_ok s \<Longrightarrow> concat (str_chars s) = s"
proof (induction s rule: str_chars.induct)
  case (1 s)
  show ?case
  proof (cases "s = []")
    case False
    with 1(2) have w: "utf8_width (map of_char s) \<noteq> 0" "utf8_ok (drop (utf8_width (map of_char s)) s)"
      by (auto simp: utf8_ok_def utf8_codes.simps [of "map of_char s"] Let_def drop_map split: if_splits)
    with 1(1) [OF False refl w(1)] False show ?thesis by (simp add: str_chars.simps [of s] Let_def)
  qed simp
qed

lemma one_char_utf8: "one_char c \<Longrightarrow> utf8_ok c"
  by (simp add: one_char_def utf8_ok_def utf8_codes.simps [of "map of_char c"] utf8_codes.simps [of "[]"])

lemma utf8_concat: "\<forall>c \<in> set cs. one_char c \<Longrightarrow> utf8_ok (concat cs)"
  by (induction cs) (simp_all add: utf8_append one_char_utf8)

lemma one_char_ellipsis: "one_char ellipsis"
  by (simp add: one_char_def ellipsis_def utf8_width_def cont_byte_def second_byte_def)

lemma ellipsis_not_control: "\<not> is_control ellipsis"
  by (simp add: is_control_def ellipsis_def scalar_value_def)

text \<open>Both echoes keep a prefix of the characters and mark a cut.\<close>

lemma echo_chars:
  assumes "kept = filter (\<lambda>c. \<not> is_control c) (str_chars s)"
    and "t = concat (take n kept) @ (if length kept > n then ellipsis else [])"
  shows "str_chars t = take n kept @ (if length kept > n then [ellipsis] else []) \<and> utf8_ok t"
proof -
  let ?cs = "take n kept @ (if length kept > n then [ellipsis] else [])"
  have "\<forall>c \<in> set kept. one_char c" using assms(1) by (auto dest: str_chars_one)
  then have "\<forall>c \<in> set ?cs. one_char c" by (auto simp: one_char_ellipsis dest!: in_set_takeD)
  with str_chars_concat [of ?cs] utf8_concat [of ?cs] assms(2) show ?thesis by auto
qed

lemma bounded_chars:
  "str_chars (bounded s n) =
    (let kept = filter (\<lambda>c. \<not> is_control c) (str_chars s) in take n kept @ (if length kept > n then [ellipsis] else []))"
  "utf8_ok (bounded s n)"
  using echo_chars [where s = s and n = n, OF refl refl] by (simp_all add: bounded_def Let_def)

lemma brief_chars:
  "str_chars (brief s) =
    (let kept = filter (\<lambda>c. \<not> is_control c) (str_chars (trim s)) in take max_echo kept @ (if length kept > max_echo then [ellipsis] else []))"
  "utf8_ok (brief s)"
  using echo_chars [where s = "trim s" and n = max_echo, OF refl refl] by (simp_all add: brief_def Let_def)

section \<open>Properties\<close>

text \<open>What a refusal echoes of the caller's text is bounded in characters and cut between
  characters: a detail keeps at most the number asked for and one mark of the cut, a principal's name
  64 and the mark, a header echo 64 printable ASCII characters; each is valid UTF-8 and none holds a
  control character, and a valid text within the bound and without them comes out as it went in.\<close>

theorem echo_bounds:
  "length (str_chars (bounded s n)) \<le> n + 1 \<and> length (str_chars (brief s)) \<le> 65 \<and> length (printable s) \<le> 64 \<and>
   utf8_ok (bounded s n) \<and> utf8_ok (brief s) \<and> list_all (\<lambda>c. CHR '' '' \<le> c \<and> c \<le> CHR ''~'') (printable s) \<and>
   list_all (\<lambda>c. \<not> is_control c) (str_chars (bounded s n) @ str_chars (brief s)) \<and>
   (utf8_ok s \<longrightarrow> list_all (\<lambda>c. \<not> is_control c) (str_chars s) \<longrightarrow> length (str_chars s) \<le> n \<longrightarrow> bounded s n = s)"
proof (intro conjI impI)
  let ?P = "\<lambda>c :: string. length c = 1 \<and> CHR '' '' \<le> hd c \<and> hd c \<le> CHR ''~''"
  show "length (str_chars (bounded s n)) \<le> n + 1" by (simp add: bounded_chars Let_def)
  show "length (str_chars (brief s)) \<le> 65" by (simp add: brief_chars Let_def max_echo_def)
  have one: "length (concat cs) = length cs" if "\<forall>c \<in> set cs. length c = 1" for cs :: "string list"
    using that by (induction cs) auto
  have "\<forall>c \<in> set (take max_echo (filter ?P (str_chars s))). length c = 1" by (auto dest!: in_set_takeD)
  from one [OF this] have "length (printable s) = length (take max_echo (filter ?P (str_chars s)))" by (simp add: printable_def)
  then show "length (printable s) \<le> 64" by (simp add: max_echo_def)
  have "CHR '' '' \<le> c \<and> c \<le> CHR ''~''" if "c \<in> set d" "?P d" for c d using that by (cases d) auto
  then show "list_all (\<lambda>c. CHR '' '' \<le> c \<and> c \<le> CHR ''~'') (printable s)"
    by (fastforce simp: printable_def list_all_iff dest!: in_set_takeD)
  show "list_all (\<lambda>c. \<not> is_control c) (str_chars (bounded s n) @ str_chars (brief s))"
    by (auto simp: bounded_chars brief_chars Let_def list_all_iff ellipsis_not_control dest!: in_set_takeD)
  assume "utf8_ok s" "list_all (\<lambda>c. \<not> is_control c) (str_chars s)" "length (str_chars s) \<le> n"
  then show "bounded s n = s" by (simp add: bounded_def list_all_iff filter_True str_chars_valid)
qed (simp_all add: bounded_chars brief_chars)

theorem echo_bounds_witness:
  "bounded [CHR ''a'', CHR 0xC3, CHR 0xA9, CHR ''b''] 3 = [CHR ''a'', CHR 0xC3, CHR 0xA9, CHR ''b'']"
proof -
  have "utf8_ok [CHR ''a'', CHR 0xC3, CHR 0xA9, CHR ''b'']" and
    "str_chars [CHR ''a'', CHR 0xC3, CHR 0xA9, CHR ''b''] = [[CHR ''a''], [CHR 0xC3, CHR 0xA9], [CHR ''b'']]" by code_simp+
  moreover have "list_all (\<lambda>c. \<not> is_control c) [[CHR ''a''], [CHR 0xC3, CHR 0xA9], [CHR ''b'']]" by code_simp
  ultimately show ?thesis using echo_bounds [of "[CHR ''a'', CHR 0xC3, CHR 0xA9, CHR ''b'']" 3] by simp
qed

end
