(* ===== verification/Caller.thy ===== *)
theory Caller
  imports Server_Text
begin

text \<open>
  How a caller is established and what it may name: \<open>decern-server/src/caller.rs\<close>, with the
  refusals of \<open>decide.rs\<close> and the clock of \<open>state.rs\<close>. A response is its status and its
  body; a detail that quotes an error of another component carries that error. The posture that
  verifies a credential (bearer, signed request, SPIFFE, AAuth) is the record \<open>posture\<close>, one
  argument of \<open>guard\<close>, which treats all of them alike.
\<close>

section \<open>The code\<close>

datatype detail =
    DText string
  | DLedger ledger_error
  | DStore store_error
  | DIdentity identity_error

datatype resp_body = JsonBody json | Refused string detail | TextBody string

record response =
  rs_status :: nat
  rs_body :: resp_body

definition refused :: "nat \<Rightarrow> string \<Rightarrow> detail \<Rightarrow> response" where
  "refused status error detail = \<lparr>rs_status = status, rs_body = Refused error detail\<rparr>"

subsection \<open>Refusals\<close>

record refusal =
  rf_status :: nat
  rf_error :: string
  rf_detail :: string

definition refusal_new :: "nat \<Rightarrow> string \<Rightarrow> string \<Rightarrow> refusal" where
  "refusal_new status error detail = \<lparr>rf_status = status, rf_error = error, rf_detail = bounded detail 512\<rparr>"

definition unavailable :: "string \<Rightarrow> string \<Rightarrow> refusal" where
  "unavailable = refusal_new 503"

definition unprocessable :: "string \<Rightarrow> string \<Rightarrow> refusal" where
  "unprocessable = refusal_new 422"

definition invalid_request :: "string \<Rightarrow> refusal" where
  "invalid_request detail = refusal_new 400 ''invalid_request'' detail"

definition payload_too_large :: "string \<Rightarrow> string \<Rightarrow> refusal" where
  "payload_too_large = refusal_new 413"

definition context_too_large_text :: string where
  "context_too_large_text = ''context exceeds 64 KiB, properties included''"

definition context_too_large_refusal :: refusal where
  "context_too_large_refusal = refusal_new 413 ''context_too_large'' context_too_large_text"

definition refusal_response :: "refusal \<Rightarrow> response" where
  "refusal_response r = refused (rf_status r) (rf_error r) (DText (rf_detail r))"

definition clock_unavailable :: refusal where
  "clock_unavailable = unavailable ''clock_unavailable'' ''the server's clock reads before 1970''"

subsection \<open>Callers\<close>

datatype bind = AnyPrincipal | SelfOnly

record authenticated =
  au_subject :: string
  au_client_id :: string
  au_issuer :: "string option"
  au_bind :: bind

type_synonym caller = "authenticated option"

definition authenticated_new :: "string \<Rightarrow> string \<Rightarrow> string \<Rightarrow> authenticated" where
  "authenticated_new subject client_id issuer =
     \<lparr>au_subject = subject, au_client_id = client_id, au_issuer = Some issuer, au_bind = AnyPrincipal\<rparr>"

definition without_issuer :: "string \<Rightarrow> string \<Rightarrow> authenticated" where
  "without_issuer subject client_id =
     \<lparr>au_subject = subject, au_client_id = client_id, au_issuer = None, au_bind = AnyPrincipal\<rparr>"

definition self_only :: "authenticated \<Rightarrow> authenticated" where
  "self_only who = who\<lparr>au_bind := SelfOnly\<rparr>"

definition admits :: "authenticated \<Rightarrow> string \<Rightarrow> bool" where
  "admits who named = (case au_bind who of AnyPrincipal \<Rightarrow> True | SelfOnly \<Rightarrow> au_subject who = named)"

definition asserted_by_of :: "caller \<Rightarrow> asserted_by option" where
  "asserted_by_of caller =
     map_option (\<lambda>who. \<lparr>ab_sub = au_subject who, ab_client_id = au_client_id who, ab_iss = au_issuer who\<rparr>) caller"

definition refuse_unless_admits :: "caller \<Rightarrow> string \<Rightarrow> response option" where
  "refuse_unless_admits caller named =
     (case caller of
        None \<Rightarrow> None
      | Some who \<Rightarrow>
          if admits who named then None
          else Some (refused 403 ''caller_mismatch''
            (DText (''caller '' @ brief (au_subject who) @ '' cannot name principal '' @ brief named))))"

definition refuse_unless_pep :: "caller \<Rightarrow> string \<Rightarrow> response option" where
  "refuse_unless_pep caller what =
     (case caller of
        Some who \<Rightarrow>
          if au_bind who = SelfOnly
          then Some (refused 403 ''caller_mismatch''
            (DText (''caller '' @ brief (au_subject who) @ '' is bound to itself and cannot '' @ what @ ''; a PEP listed in --pep can'')))
          else None
      | None \<Rightarrow> None)"

definition refuse_description_unless_pep :: "caller \<Rightarrow> response option" where
  "refuse_description_unless_pep caller = refuse_unless_pep caller ''describe the subject, resource or action''"

subsection \<open>The guard\<close>

datatype denied = NoCredentials | InvalidCredential string | InsufficientScope string

definition denied_detail :: "denied \<Rightarrow> string" where
  "denied_detail d =
     (case d of NoCredentials \<Rightarrow> ''no credentials presented'' | InvalidCredential s \<Rightarrow> s | InsufficientScope s \<Rightarrow> s)"

definition denied_status :: "denied \<Rightarrow> nat" where
  "denied_status d = (case d of InsufficientScope _ \<Rightarrow> 403 | _ \<Rightarrow> 401)"

record 'q posture =
  po_reads_body :: bool
  po_authenticate :: "'q \<Rightarrow> nat \<Rightarrow> bytes \<Rightarrow> denied + authenticated"
  po_refuse :: "denied \<Rightarrow> response"

datatype 'q caller_auth = TrustedProxy | Postured "'q posture"

definition max_body_bytes :: nat where
  "max_body_bytes = 2 * 1024 * 1024"

definition body_too_large :: response where
  "body_too_large = \<lparr>rs_status = 413, rs_body = JsonBody (JObject [(''error'', JString ''payload too large'')])\<rparr>"

text \<open>What the layer hands on: the verified caller and the body the handler reads, or its own
  response. \<open>body\<close> is what reading the request gives, \<open>None\<close> when it cannot be read;
  under a trusted front the request passes as it is. \<open>clock\<close> is the reading the call finds.\<close>

definition guard ::
  "'q caller_auth \<Rightarrow> nat option \<Rightarrow> 'q \<Rightarrow> bytes option \<Rightarrow> response + (caller \<times> bytes option)" where
  "guard auth clock req body =
     (case auth of
        TrustedProxy \<Rightarrow> Inr (None, body)
      | Postured po \<Rightarrow>
          res_bind
            (if po_reads_body po then Inr None
             else case clock of
               None \<Rightarrow> Inl (refusal_response clock_unavailable)
             | Some now \<Rightarrow>
                 (case po_authenticate po req now [] of
                    Inr who \<Rightarrow> Inr (Some who)
                  | Inl d \<Rightarrow> Inl (po_refuse po d))) (\<lambda>early.
          res_bind
            (case body of
               Some b \<Rightarrow> if length b \<le> max_body_bytes then Inr b else Inl body_too_large
             | None \<Rightarrow> Inl body_too_large) (\<lambda>b.
          res_bind
            (case early of
               Some who \<Rightarrow> Inr who
             | None \<Rightarrow>
                 (case clock of
                    None \<Rightarrow> Inl (refusal_response clock_unavailable)
                  | Some now \<Rightarrow>
                      (case po_authenticate po req now b of
                         Inr who \<Rightarrow> Inr who
                       | Inl d \<Rightarrow> Inl (po_refuse po d)))) (\<lambda>who.
          Inr (Some who, Some b)))))"

section \<open>Lemmas\<close>

lemma refuse_unless_admits_None: "refuse_unless_admits caller named = None \<longleftrightarrow> (\<forall>who. caller = Some who \<longrightarrow> admits who named)"
  by (auto simp: refuse_unless_admits_def split: option.splits)

lemma refuse_unless_pep_None: "refuse_unless_pep caller what = None \<longleftrightarrow> (\<forall>who. caller = Some who \<longrightarrow> au_bind who = AnyPrincipal)"
  by (cases caller; cases "au_bind (the caller)") (auto simp: refuse_unless_pep_def)

section \<open>Properties\<close>

text \<open>Under every posture but a trusted front, a request reaches its handler exactly when its
  credential was verified at the server's own time and its body was read whole within 2 MiB: the
  handler is given the identity that verification returned, and, where the credential covers the body,
  the very bytes it was checked against.\<close>

theorem guard_admits_verified:
  "guard (Postured po) clock req body = Inr (caller, seen) \<longleftrightarrow>
     (\<exists>who now b. caller = Some who \<and> clock = Some now \<and> body = Some b \<and> seen = Some b \<and> length b \<le> max_body_bytes \<and>
        po_authenticate po req now (if po_reads_body po then b else []) = Inr who)"
  by (cases clock; cases body) (auto simp: guard_def res_simps split: if_splits sum.splits)

end
