(* ===== verification/Recording.thy ===== *)
theory Recording
  imports Caller Sharded_Runs Ledger_Machine
begin

text \<open>
  What the handlers share and how they record: \<open>decern-server/src/state.rs\<close> and
  \<open>record.rs\<close>. The world a handler runs in is the single-file ledger behind its mutex, the head
  store of a sharded one and the mission registry; a call takes the outcomes of the environment for
  it (\<open>env\<close>): which file operations of its append fail, and the registry as its first and
  its later calls find it. A decision under a mission is settled under the ledger's lock, so the
  entry that lands is the one the registry still backs. In the sharded case the entry is settled
  inside the section; the refresh of the registry handle's cache that this read may do is not kept,
  as every read checks the cache against the file again.

  The contract of both backends towards the handlers is the locale \<open>recorder\<close>.
\<close>

section \<open>The code\<close>

datatype backend = SingleBackend | ShardedBackend sharded

text \<open>Third-party code the server calls, beside that of the ledger and of identities: a JSON object
  of bytes, the bytes of a value, strict Ed25519 verification, and the texts of doubles, of serde's
  refusals and of \<open>{:?}\<close>.\<close>

record srv_ext =
  sx_id :: id_ext
  sx_jcs :: jcs_ext
  sx_object :: "bytes \<Rightarrow> jmap option"
  sx_to_vec :: "json \<Rightarrow> bytes option"
  sx_verify_strict :: "bytes \<Rightarrow> bytes \<Rightarrow> bytes \<Rightarrow> bool"
  sx_show_f64 :: "int \<Rightarrow> string"
  sx_serde_text :: "json \<Rightarrow> string"
  sx_debug :: "string \<Rightarrow> string"

abbreviation sx_base :: "srv_ext \<Rightarrow> ext" where
  "sx_base sx \<equiv> ix_base (sx_id sx)"

record ('s, 'p, 'e, 'c, 'r) app_state =
  st_ext :: srv_ext
  st_cedar :: "('s, 'p, 'e, 'c, 'r) cedar"
  st_kernel :: "('s, 'p, 'e) kernel"
  st_model :: model
  st_backend :: backend
  st_type_aliases :: "(string, string) bmap"
  st_require_mission :: bool
  st_standing_issuers :: "bytes list"
  st_authority_digest :: string

definition model_type :: "('s, 'p, 'e, 'c, 'r) app_state \<Rightarrow> string \<Rightarrow> string" where
  "model_type st request_type = unwrap_or request_type (bm_get (st_type_aliases st) request_type)"

record ('h, 'm) world =
  w_single :: "disk \<times> ledger"
  w_poisoned :: bool
  w_heads :: 'h
  w_missions :: 'm

record ('h, 'm) env =
  en_clock :: "nat option"
  en_io :: io
  en_heads :: "'h head_store"
  en_registry :: "'m mission_registry"
  en_registry_later :: "'m mission_registry"

definition on_missions :: "('m, 'err, 'a) sres \<Rightarrow> (('h, 'm) world, 'err, 'a) sres" where
  "on_missions op w = (case op (w_missions w) of (r, m) \<Rightarrow> (r, w\<lparr>w_missions := m\<rparr>))"

definition on_single :: "(disk \<times> ledger, 'err, 'a) sres \<Rightarrow> (('h, 'm) world, 'err, 'a) sres" where
  "on_single op w = (case op (w_single w) of (r, s) \<Rightarrow> (r, w\<lparr>w_single := s\<rparr>))"

definition on_heads :: "('h, 'err, 'a) sres \<Rightarrow> (('h, 'm) world, 'err, 'a) sres" where
  "on_heads op w = (case op (w_heads w) of (r, h) \<Rightarrow> (r, w\<lparr>w_heads := h\<rparr>))"

subsection \<open>Shards\<close>

type_synonym shard = "(string + string) option"

text \<open>\<open>UNATTRIBUTED_SHARD\<close> is the kernel's reserved tenant; its \<open>{:?}\<close> form.\<close>

definition reserved_debug :: string where
  "reserved_debug = CHR 0x22 # reserved_tenant @ [CHR 0x22]"

definition resolve_shard :: "directory \<Rightarrow> string \<Rightarrow> string + string" where
  "resolve_shard dir subject_id =
     (case bm_get (principals dir) subject_id of
        Some p \<Rightarrow>
          if p_tenant p \<noteq> '''' then
            (if p_tenant p = reserved_tenant
             then Inl (''subject '' @ subject_id @ '''s tenant collides with the reserved shard '' @ reserved_debug)
             else Inr (p_tenant p))
          else Inr reserved_tenant
      | None \<Rightarrow> Inr reserved_tenant)"

definition shard_for :: "backend \<Rightarrow> directory \<Rightarrow> string \<Rightarrow> shard" where
  "shard_for backend dir subject_id =
     (case backend of ShardedBackend _ \<Rightarrow> Some (resolve_shard dir subject_id) | SingleBackend \<Rightarrow> None)"

definition resolver_err :: "string \<Rightarrow> ledger_error" where
  "resolver_err err = Io ''<sharded ledger, shard resolver>'' err"

definition resolved :: "shard \<Rightarrow> ledger_error + string" where
  "resolved shard =
     (case shard of
        Some (Inr s) \<Rightarrow> Inr s
      | Some (Inl err) \<Rightarrow> Inl (resolver_err err)
      | None \<Rightarrow> Inl (resolver_err ''shard unresolved for sharded backend''))"

text \<open>The shard of a record about a tenant's resource.\<close>

definition shard_for_tenant :: "backend \<Rightarrow> string option \<Rightarrow> shard" where
  "shard_for_tenant backend tenant =
     (case backend of
        SingleBackend \<Rightarrow> None
      | ShardedBackend _ \<Rightarrow>
          Some (case tenant of
            Some t \<Rightarrow>
              if t = '''' then Inr reserved_tenant
              else if t = reserved_tenant
              then Inl (''the resource's tenant collides with the reserved shard '' @ reserved_debug)
              else Inr t
          | None \<Rightarrow> Inr reserved_tenant))"

definition reserved_tenant_collision :: "directory \<Rightarrow> string option" where
  "reserved_tenant_collision dir =
     (case List.find (\<lambda>p. p_tenant p = reserved_tenant) (bm_values (principals dir)) of
        Some p \<Rightarrow> Some (''principal '' @ p_id p)
      | None \<Rightarrow>
     (case List.find (\<lambda>r. r_tenant r = reserved_tenant) (bm_values (resources dir)) of
        Some r \<Rightarrow> Some (''resource '' @ r_id r)
      | None \<Rightarrow>
     (case List.find (\<lambda>q. o_tenant q = reserved_tenant) (bm_values (orgs dir)) of
        Some q \<Rightarrow> Some (''org '' @ o_id q)
      | None \<Rightarrow> None)))"

subsection \<open>Recording\<close>

definition poisoned :: ledger_error where
  "poisoned = Io ''ledger'' ''ledger mutex poisoned; refusing to serve''"

definition terminated_reason :: "string \<Rightarrow> string" where
  "terminated_reason s256 = ''mission '' @ s256 @ '' was terminated before this decision was recorded''"

definition settle :: "'m mission_registry \<Rightarrow> entry \<Rightarrow> ('m, ledger_error, entry) sres" where
  "settle missions e =
     (case (if e_decision e then map_option mr_s256 (e_mission e) else None) of
        None \<Rightarrow> s_ret e
      | Some s256 \<Rightarrow>
          s_bind (s_err (\<lambda>err. Io ''mission registry'' (store_text err)) (mr_status missions s256)) (\<lambda>status.
          s_ret (if (case status of Some m \<Rightarrow> me_terminated m | None \<Rightarrow> False)
                 then e\<lparr>e_decision := False, e_reasons := [terminated_reason s256]\<rparr>
                 else e)))"

definition lock_single :: "(('h, 'm) world, ledger_error, unit) sres" where
  "lock_single w = (res_guard (\<not> w_poisoned w) poisoned, w)"

definition record_decision ::
  "('s, 'p, 'e, 'c, 'r) app_state \<Rightarrow> ('h, 'm) env \<Rightarrow> shard \<Rightarrow> entry \<Rightarrow> (('h, 'm) world, ledger_error, entry) sres" where
  "record_decision st en shard e =
     (let x = sx_base (st_ext st); missions = en_registry_later en in
      case st_backend st of
        SingleBackend \<Rightarrow>
          s_bind lock_single (\<lambda>_.
          s_bind (on_missions (settle missions e)) (\<lambda>e'.
          s_bind (on_single (ledger_append x (en_io en) e')) (\<lambda>r. s_ret (lr_entry r))))
      | ShardedBackend L \<Rightarrow>
          s_bind (s_look (\<lambda>_. resolved shard)) (\<lambda>sh w.
          s_bind (on_heads (append_revised x L (en_heads en) sh e (\<lambda>e. fst (settle missions e (w_missions w)))))
            (\<lambda>r. s_ret (lr_entry r)) w))"

text \<open>A batch: every item with the environment of its own calls, and the fault plan of the exchange's
  last sync. The iteration stops at the first entry that cannot be settled.\<close>

fun settle_all :: "(('h, 'm) env \<times> shard \<times> entry) list \<Rightarrow> (('h, 'm) world, ledger_error, (io \<times> entry) list) sres" where
  "settle_all [] = s_ret []"
| "settle_all ((en, sh, e) # ds) =
     s_bind (on_missions (settle (en_registry_later en) e)) (\<lambda>e'.
     s_bind (settle_all ds) (\<lambda>es. s_ret ((en_io en, e') # es)))"

fun record_each ::
  "('s, 'p, 'e, 'c, 'r) app_state \<Rightarrow> (('h, 'm) env \<times> shard \<times> entry) list \<Rightarrow> (('h, 'm) world, ledger_error, entry list) sres" where
  "record_each st [] = s_ret []"
| "record_each st ((en, sh, e) # ds) =
     s_bind (record_decision st en sh e) (\<lambda>r. s_bind (record_each st ds) (\<lambda>rs. s_ret (r # rs)))"

definition record_decisions ::
  "('s, 'p, 'e, 'c, 'r) app_state \<Rightarrow> io \<Rightarrow> (('h, 'm) env \<times> shard \<times> entry) list \<Rightarrow> (('h, 'm) world, ledger_error, entry list) sres" where
  "record_decisions st io decided =
     (case st_backend st of
        SingleBackend \<Rightarrow>
          s_bind lock_single (\<lambda>_.
          s_bind (settle_all decided) (\<lambda>entries.
          s_bind (on_single (append_all (sx_base (st_ext st)) entries io)) (\<lambda>records. s_ret (map lr_entry records))))
      | ShardedBackend _ \<Rightarrow> record_each st decided)"

definition append_to_backend ::
  "('s, 'p, 'e, 'c, 'r) app_state \<Rightarrow> ('h, 'm) env \<Rightarrow> shard \<Rightarrow> entry \<Rightarrow> (('h, 'm) world, ledger_error, unit) sres" where
  "append_to_backend st en shard e =
     (let x = sx_base (st_ext st) in
      case st_backend st of
        SingleBackend \<Rightarrow>
          s_bind lock_single (\<lambda>_. s_bind (on_single (ledger_append x (en_io en) e)) (\<lambda>_. s_ret ()))
      | ShardedBackend L \<Rightarrow>
          s_bind (s_look (\<lambda>_. resolved shard)) (\<lambda>sh.
          s_bind (on_heads (sharded_append x L (en_heads en) sh e)) (\<lambda>_. s_ret ())))"

subsection \<open>Answers\<close>

definition jobj :: "(string \<times> json) list \<Rightarrow> json" where
  "jobj kvs = JObject (bm_of_list kvs)"

definition jstrings :: "string list \<Rightarrow> json" where
  "jstrings ss = JArray (map JString ss)"

definition evaluation_body :: "bool \<Rightarrow> string list \<Rightarrow> string list \<Rightarrow> json" where
  "evaluation_body decision reasons errors =
     (let ctx = (if reasons \<noteq> [] then [(''reasons'', jstrings reasons)] else []) @
                (if errors \<noteq> [] then [(''errors'', jstrings (map (\<lambda>e. bounded e 512) errors))] else []) in
      jobj ((''decision'', JBool decision) # (if ctx \<noteq> [] then [(''context'', jobj ctx)] else [])))"

definition not_recorded :: "ledger_error \<Rightarrow> response" where
  "not_recorded e = refused 503 ''not recorded; refusing to serve'' (DLedger e)"

definition ok_json :: "json \<Rightarrow> response" where
  "ok_json v = \<lparr>rs_status = 200, rs_body = JsonBody v\<rparr>"

definition record_or_503 :: "(('h, 'm) world, ledger_error, unit) sres \<Rightarrow> ('h, 'm) world \<Rightarrow> response option \<times> ('h, 'm) world" where
  "record_or_503 land w = (case land w of (Inl e, w') \<Rightarrow> (Some (not_recorded e), w') | (Inr _, w') \<Rightarrow> (None, w'))"

definition record_and_respond ::
  "string list \<Rightarrow> (('h, 'm) world, ledger_error, entry) sres \<Rightarrow> ('h, 'm) world \<Rightarrow> response \<times> ('h, 'm) world" where
  "record_and_respond errors record w =
     (case record w of
        (Inl e, w') \<Rightarrow> (not_recorded e, w')
      | (Inr entry, w') \<Rightarrow> (ok_json (evaluation_body (e_decision entry) (e_reasons entry) errors), w'))"

section \<open>Lemmas\<close>

lemma settle_same: "\<not> e_decision e \<or> e_mission e = None \<Longrightarrow> settle missions e g = (Inr e, g)"
  by (auto simp: settle_def s_ret_def)

lemma settle_Inr:
  assumes "settle missions e g = (Inr e', g')"
  shows "e' = e \<or> (\<exists>m. e_mission e = Some m \<and> e' = e\<lparr>e_decision := False, e_reasons := [terminated_reason (mr_s256 m)]\<rparr>)"
    and "e_decision e' \<Longrightarrow> e_mission e = Some m \<Longrightarrow> \<exists>found. mr_status missions (mr_s256 m) g = (Inr found, g') \<and>
      (\<forall>q. found = Some q \<longrightarrow> \<not> me_terminated q)"
proof -
  have c: "e_decision e \<Longrightarrow> e_mission e = Some m \<Longrightarrow> \<exists>found. mr_status missions (mr_s256 m) g = (Inr found, g') \<and>
      e' = (if (case found of Some q \<Rightarrow> me_terminated q | None \<Rightarrow> False)
        then e\<lparr>e_decision := False, e_reasons := [terminated_reason (mr_s256 m)]\<rparr> else e)" for m
    using assms by (auto simp: settle_def s_simps)
  have n: "\<not> e_decision e \<or> e_mission e = None \<Longrightarrow> e' = e" using assms settle_same [of e missions g] by auto
  show "e' = e \<or> (\<exists>m. e_mission e = Some m \<and> e' = e\<lparr>e_decision := False, e_reasons := [terminated_reason (mr_s256 m)]\<rparr>)"
    using c n by (cases "e_mission e"; cases "e_decision e") (fastforce split: if_splits)+
  assume d: "e_decision e'" and m: "e_mission e = Some m"
  from n d have "e_decision e" by auto
  from c [OF this m] obtain found where f: "mr_status missions (mr_s256 m) g = (Inr found, g')"
    "e' = (if (case found of Some q \<Rightarrow> me_terminated q | None \<Rightarrow> False)
        then e\<lparr>e_decision := False, e_reasons := [terminated_reason (mr_s256 m)]\<rparr> else e)" by blast
  with d have "\<forall>q. found = Some q \<longrightarrow> \<not> me_terminated q" by auto
  with f(1) show "\<exists>found. mr_status missions (mr_s256 m) g = (Inr found, g') \<and> (\<forall>q. found = Some q \<longrightarrow> \<not> me_terminated q)" by blast
qed

lemma resolve_shard_Inr:
  "resolve_shard dir i = Inr sh \<longleftrightarrow>
    (case bm_get (principals dir) i of
       Some p \<Rightarrow> if p_tenant p = '''' then sh = reserved_tenant else p_tenant p \<noteq> reserved_tenant \<and> sh = p_tenant p
     | None \<Rightarrow> sh = reserved_tenant)"
  by (auto simp: resolve_shard_def split: option.splits)

section \<open>The contract of a backend\<close>

text \<open>The log a record goes to: the one file, or the shard.\<close>

definition place :: "('s, 'p, 'e, 'c, 'r) app_state \<Rightarrow> shard \<Rightarrow> ledger_error + string" where
  "place st shard = (case st_backend st of SingleBackend \<Rightarrow> Inr '''' | ShardedBackend _ \<Rightarrow> resolved shard)"

text \<open>A log grew by at most one line, and it holds one of the entries asked for.\<close>

definition grew :: "ext \<Rightarrow> (entry \<Rightarrow> bool) \<Rightarrow> (string \<Rightarrow> string list) \<Rightarrow> (string \<Rightarrow> string list) \<Rightarrow> string \<Rightarrow> string list \<Rightarrow> bool" where
  "grew x P logs logs' name new \<longleftrightarrow> logs' = logs(name := logs name @ new) \<and> length new \<le> 1 \<and> (\<forall>line \<in> set new. \<exists>e. P e \<and> holds_entry x line e)"

lemma grew_none: "grew x P logs logs name []"
  by (simp add: grew_def)

locale recorder =
  fixes x :: ext and st :: "('s, 'p, 'e, 'c, 'r) app_state"
    and fit :: "('h, 'm) env \<Rightarrow> bool" and ok :: "('h, 'm) world \<Rightarrow> bool" and logs :: "('h, 'm) world \<Rightarrow> string \<Rightarrow> string list"
  assumes record_law: "ok w \<Longrightarrow> fit en \<Longrightarrow> record_decision st en sh e w = (r, w') \<Longrightarrow>
      ok w' \<and> (case place st sh of
        Inl _ \<Rightarrow> isl r \<and> logs w' = logs w
      | Inr name \<Rightarrow> \<exists>new. grew x (\<lambda>e'. fst (settle (en_registry_later en) e (w_missions w)) = Inr e') (logs w) (logs w') name new \<and>
          (\<forall>e'. r = Inr e' \<longrightarrow> (\<exists>line n e0. new = [line] \<and> carries x line e' \<and> e' = e0\<lparr>e_seq := n\<rparr> \<and>
             fst (settle (en_registry_later en) e (w_missions w)) = Inr e0)))"
    and append_law: "ok w \<Longrightarrow> fit en \<Longrightarrow> append_to_backend st en sh e w = (q, w') \<Longrightarrow>
      ok w' \<and> w_missions w' = w_missions w \<and> (case place st sh of
        Inl _ \<Rightarrow> isl q \<and> logs w' = logs w
      | Inr name \<Rightarrow> \<exists>new. grew x (\<lambda>e'. e' = e) (logs w) (logs w') name new \<and> (q = Inr () \<longrightarrow> (\<exists>line. new = [line])))"
    and missions_law: "ok (w\<lparr>w_missions := g\<rparr>) = ok w" "logs (w\<lparr>w_missions := g\<rparr>) = logs w"

section \<open>The single file\<close>

definition single_ok :: "ext \<Rightarrow> ('h, 'm) world \<Rightarrow> bool" where
  "single_ok x w \<longleftrightarrow> led_ok x (w_single w)"

definition single_logs :: "ext \<Rightarrow> ('h, 'm) world \<Rightarrow> string \<Rightarrow> string list" where
  "single_logs x w = (\<lambda>_. [])('''' := led_log x (w_single w))"

lemma on_single_append:
  assumes "single_ok x w" and "on_single (ledger_append x io e) w = (r, w')"
  shows "single_ok x w' \<and> w_missions w' = w_missions w \<and>
    (\<exists>new. grew x (\<lambda>e'. e' = e) (single_logs x w) (single_logs x w') '''' new \<and>
      (\<forall>rec. r = Inr rec \<longrightarrow> (\<exists>line n. new = [line] \<and> carries x line (lr_entry rec) \<and> lr_entry rec = e\<lparr>e_seq := n\<rparr>)))"
proof -
  obtain d L where w: "w_single w = (d, L)" by force
  obtain d' L' where a: "ledger_append x io e (d, L) = (r, (d', L'))" and w': "w' = w\<lparr>w_single := (d', L')\<rparr>"
    using assms(2) w by (auto simp: on_single_def split: prod.splits)
  have ok: "led_ok x (d, L)" using assms(1) w by (simp add: single_ok_def)
  note k = append_ok [OF ok a]
  from k obtain new where new: "log_lines x d' L' = log_lines x d L @ new" "length new \<le> 1" "\<forall>line \<in> set new. carries x line (e\<lparr>e_seq := l_next_seq L\<rparr>)" by blast
  have "grew x (\<lambda>e'. e' = e) (single_logs x w) (single_logs x w') '''' new"
    using new w w' by (auto simp: grew_def single_logs_def led_log_def holds_entry_def fun_eq_iff)
  moreover have "\<exists>line n. new = [line] \<and> carries x line (lr_entry rec) \<and> lr_entry rec = e\<lparr>e_seq := n\<rparr>" if "r = Inr rec" for rec
    using append_recorded [OF ok a [unfolded that]] new(1) by auto
  ultimately show ?thesis using k w' by (auto simp: single_ok_def)
qed

interpretation single_file: recorder "sx_base (st_ext st)" "st\<lparr>st_backend := SingleBackend\<rparr>" "\<lambda>_. True"
    "single_ok (sx_base (st_ext st))" "single_logs (sx_base (st_ext st))" for st :: "('s, 'p, 'e, 'c, 'r) app_state"
proof (unfold_locales, goal_cases)
  case (1 w en sh e r w')
  let ?x = "sx_base (st_ext st)" and ?s = "settle (en_registry_later en) e (w_missions w)"
  have same: "\<exists>new. grew ?x P (single_logs ?x w) (single_logs ?x v) '''' new \<and> (\<forall>e'. Inl z = Inr e' \<longrightarrow> Q new e')"
    if "w_single v = w_single w" for P Q z and v :: "('f, 'g) world"
    by (rule exI [of _ "[]"]) (use that in \<open>simp add: grew_def single_logs_def\<close>)
  show ?case
  proof (cases "w_poisoned w")
    case True
    with 1(3) have "r = Inl poisoned" "w' = w" by (simp_all add: record_decision_def Let_def s_bind_def lock_single_def)
    with 1(1) same [of w] show ?thesis by (simp add: place_def)
  next
    case False
    obtain q g where q: "?s = (q, g)" by force
    show ?thesis
    proof (cases q)
      case (Inl z)
      with 1(3) q False have "r = Inl z" "w' = w\<lparr>w_missions := g\<rparr>"
        by (simp_all add: record_decision_def Let_def s_bind_def lock_single_def on_missions_def)
      with 1(1) same [of w'] show ?thesis by (simp add: place_def single_ok_def)
    next
      case (Inr e0)
      let ?w = "w\<lparr>w_missions := g\<rparr>"
      obtain q2 w2 where a: "on_single (ledger_append ?x (en_io en) e0) ?w = (q2, w2)" by force
      from 1(3) q False Inr a have r: "w' = w2" "\<And>e'. r = Inr e' \<Longrightarrow> \<exists>rec. q2 = Inr rec \<and> e' = lr_entry rec"
        by (auto simp: record_decision_def Let_def s_bind_def lock_single_def on_missions_def s_ret_def split: sum.splits)
      have "single_ok ?x ?w" "single_logs ?x ?w = single_logs ?x w" using 1(1) by (simp_all add: single_ok_def single_logs_def)
      with on_single_append [OF _ a] obtain new where n: "single_ok ?x w2" "grew ?x (\<lambda>e'. e' = e0) (single_logs ?x w) (single_logs ?x w2) '''' new"
          "\<And>rec. q2 = Inr rec \<Longrightarrow> \<exists>line n. new = [line] \<and> carries ?x line (lr_entry rec) \<and> lr_entry rec = e0\<lparr>e_seq := n\<rparr>" by auto
      have "grew ?x (\<lambda>e'. fst ?s = Inr e') (single_logs ?x w) (single_logs ?x w') '''' new" using n(2) r(1) q Inr by (simp add: grew_def)
      moreover have "\<forall>e'. r = Inr e' \<longrightarrow> (\<exists>line n e0. new = [line] \<and> carries ?x line e' \<and> e' = e0\<lparr>e_seq := n\<rparr> \<and> fst ?s = Inr e0)"
        using r(2) n(3) q Inr by fastforce
      ultimately show ?thesis using n(1) r(1) by (auto simp: place_def)
    qed
  qed
next
  case (2 w en sh e r w')
  let ?x = "sx_base (st_ext st)"
  show ?case
  proof (cases "w_poisoned w")
    case True
    with 2(3) have "r = Inl poisoned" "w' = w" by (simp_all add: append_to_backend_def Let_def s_bind_def lock_single_def)
    with 2(1) grew_none [of ?x _ "single_logs ?x w" "''''"] show ?thesis by (auto simp: place_def)
  next
    case False
    obtain q2 w2 where a: "on_single (ledger_append ?x (en_io en) e) w = (q2, w2)" by force
    with 2(3) False have r: "w' = w2" "r = Inr () \<Longrightarrow> \<exists>rec. q2 = Inr rec"
      by (auto simp: append_to_backend_def Let_def s_bind_def lock_single_def s_ret_def split: sum.splits)
    from on_single_append [OF 2(1) a] r show ?thesis by (fastforce simp: place_def)
  qed
qed (simp_all add: single_ok_def single_logs_def)

section \<open>The shards\<close>

definition sharded_ok :: "ext \<Rightarrow> sharded \<Rightarrow> head_ext \<Rightarrow> string \<Rightarrow> bytes list \<Rightarrow> (disk, 'm) world \<Rightarrow> bool" where
  "sharded_ok x L hx root K w \<longleftrightarrow> ext_ok x \<and> label_law x \<and> x_public x (sl_key L) \<in> set K \<and>
     durable_heads.sound_store hx root x K (w_heads w)"

definition sharded_logs :: "head_ext \<Rightarrow> string \<Rightarrow> (disk, 'm) world \<Rightarrow> string \<Rightarrow> string list" where
  "sharded_logs hx root w = (\<lambda>sh. snd (file_heads hx root (w_heads w) sh))"

definition on_files :: "head_ext \<Rightarrow> string \<Rightarrow> (disk, 'm) env \<Rightarrow> bool" where
  "on_files hx root en \<longleftrightarrow> (\<exists>pl. en_heads en = file_store hx root pl)"

lemma on_heads_append:
  assumes "sharded_ok x L hx root K w" and "on_files hx root en"
    and "on_heads (append_revised x L (en_heads en) sh e revise) w = (r, w')"
  shows "sharded_ok x L hx root K w' \<and> w_missions w' = w_missions w \<and>
    (\<exists>new. grew x (\<lambda>e'. revise e = Inr e') (sharded_logs hx root w) (sharded_logs hx root w') sh new \<and>
      (\<forall>rec. r = Inr rec \<longrightarrow> (\<exists>line n e0. new = [line] \<and> carries x line (lr_entry rec) \<and> lr_entry rec = e0\<lparr>e_seq := n\<rparr> \<and> revise e = Inr e0)))"
proof -
  from assms(2) obtain pl where pl: "en_heads en = file_store hx root pl" by (auto simp: on_files_def)
  obtain h where a: "append_revised x L (file_store hx root pl) sh e revise (w_heads w) = (r, h)" and w': "w' = w\<lparr>w_heads := h\<rparr>"
    using assms(3) pl by (auto simp: on_heads_def split: prod.splits)
  note ok = assms(1) [unfolded sharded_ok_def]
  have k: "durable_heads.sound_store hx root x K h \<and> durable_heads.one_step hx root sh (w_heads w) h \<and>
    (\<forall>rec. r = Inr rec \<longrightarrow> (\<exists>e' c line. revise e = Inr e' \<and> lr_entry rec = e'\<lparr>e_seq := length (snd (file_heads hx root (w_heads w) sh))\<rparr> \<and>
      file_heads hx root h sh = (Some c, snd (file_heads hx root (w_heads w) sh) @ [line]) \<and> carries x line (lr_entry rec))) \<and>
    landed x (\<lambda>e'. revise e = Inr e') (file_heads hx root (w_heads w) sh) (file_heads hx root h sh)"
    using durable_heads.append_keeps [OF _ _ _ _ a] ok by blast
  then obtain new where new: "snd (file_heads hx root h sh) = snd (file_heads hx root (w_heads w) sh) @ new" "length new \<le> 1"
      "\<forall>line \<in> set new. \<exists>e'. revise e = Inr e' \<and> holds_entry x line e'"
    by (fastforce simp: landed_def holds_entry_def)
  have "file_heads hx root h t = file_heads hx root (w_heads w) t" if "t \<noteq> sh" for t
    using k that by (simp add: durable_heads.one_step_def)
  with new w' have g: "grew x (\<lambda>e'. revise e = Inr e') (sharded_logs hx root w) (sharded_logs hx root w') sh new"
    by (auto simp: grew_def sharded_logs_def fun_eq_iff)
  have "\<exists>line n e0. new = [line] \<and> carries x line (lr_entry rec) \<and> lr_entry rec = e0\<lparr>e_seq := n\<rparr> \<and> revise e = Inr e0" if "r = Inr rec" for rec
    using k that new(1) by fastforce
  with g k ok w' show ?thesis by (auto simp: sharded_ok_def)
qed

interpretation sharded_files: recorder "sx_base (st_ext st)" "st\<lparr>st_backend := ShardedBackend L\<rparr>" "on_files hx root"
    "sharded_ok (sx_base (st_ext st)) L hx root K" "sharded_logs hx root"
  for st :: "('s, 'p, 'e, 'c, 'r) app_state" and L hx root K
proof (unfold_locales, goal_cases)
  case (1 w en sh e r w')
  let ?revise = "\<lambda>e. fst (settle (en_registry_later en) e (w_missions w))"
  show ?case
  proof (cases "resolved sh")
    case (Inl z)
    with 1(3) have "r = Inl z" "w' = w" by (simp_all add: record_decision_def Let_def s_bind_def s_look_def)
    with Inl 1(1) show ?thesis by (simp add: place_def)
  next
    case (Inr name)
    obtain q w2 where a: "on_heads (append_revised (sx_base (st_ext st)) L (en_heads en) name e ?revise) w = (q, w2)" by force
    with 1(3) Inr have r: "w' = w2" "\<And>e'. r = Inr e' \<Longrightarrow> \<exists>rec. q = Inr rec \<and> e' = lr_entry rec"
      by (auto simp: record_decision_def Let_def s_bind_def s_look_def s_ret_def split: sum.splits)
    from on_heads_append [OF 1(1,2) a] r Inr show ?thesis by (fastforce simp: place_def)
  qed
next
  case (2 w en sh e r w')
  show ?case
  proof (cases "resolved sh")
    case (Inl z)
    with 2(3) have "r = Inl z" "w' = w" by (simp_all add: append_to_backend_def Let_def s_bind_def s_look_def)
    with Inl 2(1) show ?thesis by (simp add: place_def)
  next
    case (Inr name)
    obtain q w2 where a: "on_heads (append_revised (sx_base (st_ext st)) L (en_heads en) name e Inr) w = (q, w2)" by force
    with 2(3) Inr have r: "w' = w2" "r = Inr () \<Longrightarrow> \<exists>rec. q = Inr rec"
      by (auto simp: append_to_backend_def sharded_append_def Let_def s_bind_def s_look_def s_ret_def split: sum.splits)
    from on_heads_append [OF 2(1,2) a] r Inr show ?thesis by (fastforce simp: place_def grew_def)
  qed
qed (simp_all add: sharded_ok_def sharded_logs_def)

end
