(* ===== verification/Challenge.thy ===== *)
theory Challenge
  imports Recording
begin

text \<open>
  A challenge from the party a decision was about: \<open>decern-server/src/challenge.rs\<close>, and the
  JWS reading it shares with the caller postures, \<open>jose.rs\<close>. A standing token is a compact JWS
  verified against the issuer keys of the deployment.

  A \<open>NumericDate\<close> is a double. It is kept as its exact value in units of the smallest
  positive double, so a comparison of doubles is a comparison of integers; the server's time
  becomes a double rounded to nearest, ties to even.
\<close>

section \<open>Doubles\<close>

definition f64_unit :: int where
  "f64_unit = 2 ^ 1074"

text \<open>The value of a finite double, from its bits.\<close>

definition f64_of_bits :: "64 word \<Rightarrow> int" where
  "f64_of_bits w =
     (let u = uint w; e = nat (u div 2 ^ 52 mod 2 ^ 11); m = u mod 2 ^ 52;
          v = (if e = 0 then m else (m + 2 ^ 52) * 2 ^ (e - 1))
      in if u \<ge> 2 ^ 63 then - v else v)"

text \<open>The bits of an integer beyond the 53 a double keeps.\<close>

fun excess_bits :: "nat \<Rightarrow> nat" where
  "excess_bits n = (if n < 2 ^ 53 then 0 else Suc (excess_bits (n div 2)))"

declare excess_bits.simps [simp del]

definition round_to_f64 :: "nat \<Rightarrow> nat" where
  "round_to_f64 n =
     (let k = excess_bits n; q = n div 2 ^ k; r = n mod 2 ^ k in
      (if 2 * r > 2 ^ k \<or> 2 * r = 2 ^ k \<and> odd q then q + 1 else q) * 2 ^ k)"

definition f64_of_u64 :: "nat \<Rightarrow> int" where
  "f64_of_u64 n = int (round_to_f64 n) * f64_unit"

text \<open>\<open>Number::as_f64\<close>.\<close>

definition as_f64 :: "json \<Rightarrow> int option" where
  "as_f64 v =
     (case v of
        JNumber (PosInt n) \<Rightarrow> Some (f64_of_u64 n)
      | JNumber (NegInt i) \<Rightarrow> Some (- f64_of_u64 (nat (- i)))
      | JNumber (Float w) \<Rightarrow> Some (f64_of_bits w)
      | _ \<Rightarrow> None)"

text \<open>\<open>exp as u64\<close>: truncated, saturating.\<close>

definition f64_as_u64 :: "int \<Rightarrow> nat" where
  "f64_as_u64 v = min u64_max (nat (v div f64_unit))"

section \<open>JOSE\<close>

definition decode_object :: "srv_ext \<Rightarrow> string \<Rightarrow> string \<Rightarrow> string + jmap" where
  "decode_object sx part what =
     res_bind (ok_or (ix_unb64u (sx_id sx) part) (what @ '' is not base64url'')) (\<lambda>b.
     ok_or (sx_object sx b) (what @ '' is not JSON''))"

definition audience_contains :: "json option \<Rightarrow> string \<Rightarrow> bool" where
  "audience_contains aud want =
     (case aud of
        Some (JString s) \<Rightarrow> s = want
      | Some (JArray xs) \<Rightarrow> list_ex (\<lambda>v. as_str v = Some want) xs
      | _ \<Rightarrow> False)"

definition refuse_crit :: "jmap \<Rightarrow> string \<Rightarrow> string + unit" where
  "refuse_crit header what =
     res_guard (bm_get header ''crit'' = None)
       (what @ '' names a critical header extension this server does not implement'')"

definition numeric_date :: "jmap \<Rightarrow> string \<Rightarrow> string \<Rightarrow> string + int option" where
  "numeric_date claims name what =
     (case bm_get claims name of
        None \<Rightarrow> Inr None
      | Some v \<Rightarrow> res_map Some (ok_or (as_f64 v) (what @ '' '' @ name @ '' is not a number'')))"

section \<open>Standing\<close>

datatype challenge_error = MalformedChallenge string | StandingNotProved string | NotBound string

definition challenge_detail :: "challenge_error \<Rightarrow> string" where
  "challenge_detail e = (case e of MalformedChallenge d \<Rightarrow> d | StandingNotProved d \<Rightarrow> d | NotBound d \<Rightarrow> d)"

definition challenge_kind :: "challenge_error \<Rightarrow> string" where
  "challenge_kind e =
     (case e of
        MalformedChallenge _ \<Rightarrow> ''malformed_challenge''
      | StandingNotProved _ \<Rightarrow> ''standing_not_proved''
      | NotBound _ \<Rightarrow> ''challenge_not_bound_to_decision'')"

record standing =
  sd_decision_ref :: string
  sd_decision_subject :: string
  sd_exp :: nat
  sd_affected_party_role :: "string option"

record challenge =
  cg_standing :: standing
  cg_decision_ref :: string
  cg_basis :: "string list"
  cg_evidence :: "json option"
  cg_requested_effect :: string

datatype outcome = AffirmPriorDecision string | ChallengeClassified string

definition into_record :: "outcome \<Rightarrow> string \<times> string" where
  "into_record out =
     (case out of
        AffirmPriorDecision b \<Rightarrow> (''affirm_prior_decision'', b)
      | ChallengeClassified b \<Rightarrow> (''challenge_classified'', b))"

definition bases_on_the_facts :: "string list" where
  "bases_on_the_facts = [''factual-error'', ''category-mismatch'', ''change-in-circumstances'']"

text \<open>Removing a key from a context, and what was there.\<close>

definition take_key :: "string \<Rightarrow> json \<Rightarrow> json option \<times> json" where
  "take_key k ctx = (case ctx of JObject m \<Rightarrow> (bm_get m k, JObject (bm_remove k m)) | _ \<Rightarrow> (None, ctx))"

definition take_raw :: "json \<Rightarrow> json option \<times> json" where
  "take_raw ctx =
     (case take_key ''subject_side_challenge'' ctx of
        (v, ctx') \<Rightarrow> (if v = Some JNull then None else v, ctx'))"

definition ascii_lower :: "string \<Rightarrow> string" where
  "ascii_lower s =
     map (\<lambda>c. let n = of_char c :: nat in if 65 \<le> n \<and> n \<le> 90 then char_of (n + 32) else c) s"

definition string_claim :: "jmap \<Rightarrow> string \<Rightarrow> challenge_error + string" where
  "string_claim claims name =
     ok_or (Option.bind (bm_get claims name) as_str) (StandingNotProved (''standing_token has no '' @ name))"

text \<open>Three of the checks of \<open>verify_standing\<close>: the algorithm, the type, and \<open>nbf\<close>.\<close>

definition refuse_alg :: "jmap \<Rightarrow> challenge_error + unit" where
  "refuse_alg header =
     (case Option.bind (bm_get header ''alg'') as_str of
        Some alg \<Rightarrow> res_guard (alg = ''EdDSA'') (StandingNotProved (''standing_token algorithm '' @ alg @ '' is not accepted here''))
      | None \<Rightarrow> Inl (StandingNotProved ''standing_token names no algorithm''))"

definition refuse_access_token :: "jmap \<Rightarrow> challenge_error + unit" where
  "refuse_access_token header =
     (case Option.bind (bm_get header ''typ'') as_str of
        Some typ \<Rightarrow> res_guard (ascii_lower typ \<notin> {''at+jwt'', ''application/at+jwt''})
          (StandingNotProved ''an access token is not a standing token'')
      | None \<Rightarrow> Inr ())"

definition refuse_early :: "srv_ext \<Rightarrow> jmap \<Rightarrow> nat \<Rightarrow> challenge_error + unit" where
  "refuse_early sx claims now =
     res_bind (map_err StandingNotProved (numeric_date claims ''nbf'' ''standing_token'')) (\<lambda>nbf.
       case nbf of
         Some nbf \<Rightarrow> res_guard (nbf \<le> f64_of_u64 now) (StandingNotProved (''standing_token is not valid before '' @ sx_show_f64 sx nbf))
       | None \<Rightarrow> Inr ())"

definition verify_standing :: "srv_ext \<Rightarrow> string \<Rightarrow> bytes list \<Rightarrow> nat \<Rightarrow> challenge_error + standing" where
  "verify_standing sx token issuer_keys now =
     res_bind (res_guard (issuer_keys \<noteq> [])
       (StandingNotProved ''this deployment accepts no standing issuers, so standing cannot be proved'')) (\<lambda>_.
     res_bind (case split_on (CHR ''.'') token of
         [h, p, s] \<Rightarrow> Inr (h, p, s) | _ \<Rightarrow> Inl (StandingNotProved ''standing_token is not a compact JWS''))
       (\<lambda>(header_b64, payload_b64, sig_b64).
     res_bind (map_err StandingNotProved (decode_object sx header_b64 ''header'')) (\<lambda>header.
     res_bind (refuse_alg header) (\<lambda>_.
     res_bind (refuse_access_token header) (\<lambda>_.
     res_bind (map_err StandingNotProved (refuse_crit header ''standing_token'')) (\<lambda>_.
     res_bind (ok_or (ix_unb64u (sx_id sx) sig_b64) (StandingNotProved ''signature is not base64url'')) (\<lambda>sig.
     res_bind (res_guard (length sig = 64) (StandingNotProved ''signature is not 64 bytes'')) (\<lambda>_.
     res_bind (res_guard (list_ex (\<lambda>k. sx_verify_strict sx k (header_b64 @ CHR ''.'' # payload_b64) sig) issuer_keys)
       (StandingNotProved ''standing_token is not signed by an issuer this deployment trusts'')) (\<lambda>_.
     res_bind (map_err StandingNotProved (decode_object sx payload_b64 ''claims'')) (\<lambda>claims.
     res_bind (map_err StandingNotProved (numeric_date claims ''exp'' ''standing_token'')) (\<lambda>exp.
     res_bind (ok_or exp (StandingNotProved ''standing_token has no exp'')) (\<lambda>exp.
     res_bind (res_guard (f64_of_u64 now < exp) (StandingNotProved (''standing_token expired at '' @ sx_show_f64 sx exp))) (\<lambda>_.
     res_bind (refuse_early sx claims now) (\<lambda>_.
     res_bind (string_claim claims ''decision_ref'') (\<lambda>decision_ref.
     res_bind (string_claim claims ''decision_subject'') (\<lambda>decision_subject.
     Inr \<lparr>sd_decision_ref = decision_ref, sd_decision_subject = decision_subject, sd_exp = f64_as_u64 exp,
          sd_affected_party_role = Option.bind (bm_get claims ''affected_party_role'') as_str\<rparr>))))))))))))))))"

definition parse_basis :: "json option \<Rightarrow> challenge_error + string list" where
  "parse_basis v =
     res_bind (case v of
         Some (JString s) \<Rightarrow> Inr [s]
       | Some (JArray a) \<Rightarrow>
           (if list_all is_string a then Inr (List.map_filter as_str a)
            else Inl (MalformedChallenge ''challenge_basis items must be strings''))
       | _ \<Rightarrow> Inl (MalformedChallenge ''challenge_basis is required'')) (\<lambda>basis.
     res_bind (res_guard (basis \<noteq> []) (MalformedChallenge ''challenge_basis must name at least one basis'')) (\<lambda>_.
     Inr basis))"

definition parse_challenge :: "srv_ext \<Rightarrow> json \<Rightarrow> bytes list \<Rightarrow> nat \<Rightarrow> challenge_error + challenge" where
  "parse_challenge sx raw issuer_keys now =
     res_bind (ok_or (as_object raw) (MalformedChallenge ''challenge must be an object'')) (\<lambda>obj.
     res_bind (ok_or (Option.bind (bm_get obj ''standing_token'') as_str) (MalformedChallenge ''standing_token is required'')) (\<lambda>token.
     res_bind (ok_or (Option.bind (bm_get obj ''decision_ref'') as_str) (MalformedChallenge ''decision_ref is required'')) (\<lambda>decision_ref.
     res_bind (parse_basis (bm_get obj ''challenge_basis'')) (\<lambda>basis.
     res_bind (ok_or (Option.bind (bm_get obj ''requested_effect'') as_str) (MalformedChallenge ''requested_effect is required'')) (\<lambda>effect.
     res_bind (verify_standing sx token issuer_keys now) (\<lambda>standing.
     res_bind (res_guard (sd_decision_ref standing = decision_ref)
       (NotBound (''standing proves the party for decision '' @ sd_decision_ref standing @ '', the challenge names '' @ decision_ref))) (\<lambda>_.
     Inr \<lparr>cg_standing = standing, cg_decision_ref = decision_ref, cg_basis = basis,
          cg_evidence = bm_get obj ''challenge_evidence'', cg_requested_effect = effect\<rparr>)))))))"

fun join_with :: "string \<Rightarrow> string list \<Rightarrow> string" where
  "join_with sep [] = []"
| "join_with sep [s] = s"
| "join_with sep (s # t # ss) = s @ sep @ join_with sep (t # ss)"

definition answer_to :: "challenge \<Rightarrow> string list \<Rightarrow> outcome" where
  "answer_to c about =
     (if sd_decision_subject (cg_standing c) \<notin> set about
      then AffirmPriorDecision ''the challenge's standing names no party the decision's record is about''
      else case List.find (\<lambda>b. b \<in> set bases_on_the_facts) (cg_basis c) of
        Some b \<Rightarrow> ChallengeClassified b
      | None \<Rightarrow> AffirmPriorDecision
          (''no basis given ('' @ join_with '', '' (cg_basis c) @ '') bears on the facts the decision was made from''))"

section \<open>Lemmas\<close>

lemma take_key_JObject [simp]: "take_key k (JObject m) = (bm_get m k, JObject (bm_remove k m))"
  by (simp add: take_key_def)

text \<open>An integer of at most 53 bits is a double as it stands.\<close>

lemma round_to_f64_exact: "n < 2 ^ 53 \<Longrightarrow> round_to_f64 n = n"
  by (simp add: round_to_f64_def excess_bits.simps [of n])

lemma f64_of_u64_mono_small: "a < 2 ^ 53 \<Longrightarrow> b < 2 ^ 53 \<Longrightarrow> f64_of_u64 a < f64_of_u64 b \<longleftrightarrow> a < b"
  by (simp add: f64_of_u64_def round_to_f64_exact f64_unit_def)

lemma excess_bits_bound: "n div 2 ^ excess_bits n < 2 ^ 53"
proof (induction n rule: excess_bits.induct)
  case (1 n)
  show ?case
  proof (cases "n < 2 ^ 53")
    case True
    then show ?thesis by (simp add: excess_bits.simps [of n])
  next
    case False
    with 1 have "n div 2 div 2 ^ excess_bits (n div 2) < 2 ^ 53" by blast
    moreover have "excess_bits n = Suc (excess_bits (n div 2))" using False by (simp add: excess_bits.simps [of n])
    ultimately show ?thesis by (simp add: div_mult2_eq)
  qed
qed

lemma join_split_on: "join_with [d] (split_on d t) = t"
proof (induction t)
  case (Cons c t)
  obtain seg segs where "split_on d t = seg # segs" using split_on_nonempty [of d t] by (cases "split_on d t") auto
  with Cons show ?case by (cases segs) auto
qed simp

lemma split_on_three: "split_on d t = [h, p, s] \<Longrightarrow> t = h @ d # p @ d # s"
  using join_split_on [of d t] by simp

lemma str_at: "Option.bind (bm_get m k) as_str = Some v \<longleftrightarrow> bm_get m k = Some (JString v)"
  by (simp add: bind_eq_Some_conv as_str_eq_Some)

lemma numeric_date_Inr [res_simps]:
  "numeric_date claims name what = Inr d \<longleftrightarrow>
    (case d of None \<Rightarrow> bm_get claims name = None | Some v \<Rightarrow> Option.bind (bm_get claims name) as_f64 = Some v)"
  by (cases d) (auto simp: numeric_date_def res_simps bind_eq_Some_conv split: option.splits)

lemma refuse_alg_Inr [res_simps]: "refuse_alg header = Inr u \<longleftrightarrow> bm_get header ''alg'' = Some (JString ''EdDSA'')"
  by (auto simp: refuse_alg_def str_at res_simps split: option.splits)

lemma refuse_access_token_Inr [res_simps]:
  "refuse_access_token header = Inr u \<longleftrightarrow>
    (\<forall>typ. bm_get header ''typ'' = Some (JString typ) \<longrightarrow> ascii_lower typ \<notin> {''at+jwt'', ''application/at+jwt''})"
  by (cases "Option.bind (bm_get header ''typ'') as_str") (auto simp: refuse_access_token_def str_at res_simps)

lemma refuse_early_Inr [res_simps]:
  "refuse_early sx claims now = Inr u \<longleftrightarrow>
    (\<forall>v. bm_get claims ''nbf'' = Some v \<longrightarrow> (\<exists>nbf. as_f64 v = Some nbf \<and> nbf \<le> f64_of_u64 now))"
proof (cases "bm_get claims ''nbf''")
  case (Some v)
  then show ?thesis by (cases "as_f64 v") (auto simp: refuse_early_def numeric_date_def map_err_def res_guard_def)
qed (simp add: refuse_early_def numeric_date_def map_err_def)

lemma verify_standing_Inr:
  assumes "verify_standing sx token keys now = Inr sd"
  shows "\<exists>h p s sig header claims exp.
    token = h @ CHR ''.'' # p @ CHR ''.'' # s \<and> ix_unb64u (sx_id sx) s = Some sig \<and>
    (\<exists>k \<in> set keys. sx_verify_strict sx k (h @ CHR ''.'' # p) sig) \<and>
    decode_object sx h ''header'' = Inr header \<and> decode_object sx p ''claims'' = Inr claims \<and>
    bm_get header ''alg'' = Some (JString ''EdDSA'') \<and> bm_get header ''crit'' = None \<and>
    (\<forall>typ. bm_get header ''typ'' = Some (JString typ) \<longrightarrow> ascii_lower typ \<notin> {''at+jwt'', ''application/at+jwt''}) \<and>
    Option.bind (bm_get claims ''exp'') as_f64 = Some exp \<and> f64_of_u64 now < exp \<and>
    (\<forall>v. bm_get claims ''nbf'' = Some v \<longrightarrow> (\<exists>nbf. as_f64 v = Some nbf \<and> nbf \<le> f64_of_u64 now)) \<and>
    bm_get claims ''decision_ref'' = Some (JString (sd_decision_ref sd)) \<and>
    bm_get claims ''decision_subject'' = Some (JString (sd_decision_subject sd))"
proof -
  from assms obtain h p s where t: "split_on (CHR ''.'') token = [h, p, s]"
    by (auto simp: verify_standing_def res_simps split: list.splits)
  from assms t obtain header sig claims exp where "ix_unb64u (sx_id sx) s = Some sig"
      "list_ex (\<lambda>k. sx_verify_strict sx k (h @ CHR ''.'' # p) sig) keys"
      "decode_object sx h ''header'' = Inr header" "decode_object sx p ''claims'' = Inr claims"
      "refuse_alg header = Inr ()" "refuse_access_token header = Inr ()" "bm_get header ''crit'' = None"
      "Option.bind (bm_get claims ''exp'') as_f64 = Some exp" "f64_of_u64 now < exp" "refuse_early sx claims now = Inr ()"
      "bm_get claims ''decision_ref'' = Some (JString (sd_decision_ref sd))"
      "bm_get claims ''decision_subject'' = Some (JString (sd_decision_subject sd))"
    by (auto simp: verify_standing_def refuse_crit_def string_claim_def str_at res_simps
      simp del: refuse_alg_Inr refuse_access_token_Inr refuse_early_Inr)
  with split_on_three [OF t] show ?thesis
    unfolding refuse_alg_Inr refuse_access_token_Inr refuse_early_Inr list_ex_iff by blast
qed

section \<open>Properties\<close>

text \<open>C40: a challenge is taken up only with standing proved: one of the deployment's issuer keys signed
  the token's header and claims with EdDSA, the token is no access token and names no critical
  extension, it is not expired and already valid at the server's time, and its claims name the decision
  the challenge names; what the challenge records as its party is what the signed claims say.\<close>

theorem challenge_standing_proved:
  assumes "parse_challenge sx raw keys now = Inr c"
  shows "\<exists>h p s sig header claims exp.
    jget_str raw ''standing_token'' = Some (h @ CHR ''.'' # p @ CHR ''.'' # s) \<and> ix_unb64u (sx_id sx) s = Some sig \<and>
    (\<exists>k \<in> set keys. sx_verify_strict sx k (h @ CHR ''.'' # p) sig) \<and>
    decode_object sx h ''header'' = Inr header \<and> decode_object sx p ''claims'' = Inr claims \<and>
    bm_get header ''alg'' = Some (JString ''EdDSA'') \<and> bm_get header ''crit'' = None \<and>
    (\<forall>typ. bm_get header ''typ'' = Some (JString typ) \<longrightarrow> ascii_lower typ \<notin> {''at+jwt'', ''application/at+jwt''}) \<and>
    Option.bind (bm_get claims ''exp'') as_f64 = Some exp \<and> f64_of_u64 now < exp \<and>
    (\<forall>v. bm_get claims ''nbf'' = Some v \<longrightarrow> (\<exists>nbf. as_f64 v = Some nbf \<and> nbf \<le> f64_of_u64 now)) \<and>
    bm_get claims ''decision_ref'' = Some (JString (cg_decision_ref c)) \<and>
    bm_get claims ''decision_subject'' = Some (JString (sd_decision_subject (cg_standing c))) \<and>
    jget_str raw ''decision_ref'' = Some (cg_decision_ref c) \<and> cg_basis c \<noteq> []"
proof -
  from assms obtain obj token where o: "raw = JObject obj" "bm_get obj ''standing_token'' = Some (JString token)"
    "bm_get obj ''decision_ref'' = Some (JString (cg_decision_ref c))" "cg_basis c \<noteq> []"
    and v: "verify_standing sx token keys now = Inr (cg_standing c)" and e: "sd_decision_ref (cg_standing c) = cg_decision_ref c"
    by (auto simp: parse_challenge_def parse_basis_def res_simps as_object_eq_Some str_at)
  have r: "jget_str raw ''standing_token'' = Some token" "jget_str raw ''decision_ref'' = Some (cg_decision_ref c)"
    using o by (simp_all add: jget_str_def)
  from verify_standing_Inr [OF v] o(4) show ?thesis by (simp only: r option.inject e) blast
qed

text \<open>A deployment that trusts the issuer \<open>K\<close>, and a token it signed for the party \<open>dana\<close>.\<close>

definition demo_claims :: jmap where
  "demo_claims = [(''decision_ref'', JString ''d1''), (''decision_subject'', JString ''dana''), (''exp'', JNumber (PosInt 9))]"

definition demo_srv :: srv_ext where
  "demo_srv = \<lparr>sx_id = demo_id, sx_jcs = \<lparr>j_str = (\<lambda>s. s), j_int = (\<lambda>_. ''0''), j_ryu = (\<lambda>_. ''0'')\<rparr>,
     sx_object = (\<lambda>b. if b = ''h'' then Some [(''alg'', JString ''EdDSA'')] else if b = ''p'' then Some demo_claims else None),
     sx_to_vec = (\<lambda>_. Some ''{}''), sx_verify_strict = (\<lambda>k _ _. k = ''K''), sx_show_f64 = (\<lambda>_. ''0''),
     sx_serde_text = (\<lambda>_. ''not valid''), sx_debug = (\<lambda>s. s)\<rparr>"

definition demo_standing_token :: string where
  "demo_standing_token = hex_encode ''h'' @ CHR ''.'' # hex_encode ''p'' @ CHR ''.'' # hex_encode (replicate 64 (CHR ''s''))"

definition demo_challenge :: json where
  "demo_challenge = JObject [(''challenge_basis'', JString ''factual-error''), (''decision_ref'', JString ''d1''),
     (''requested_effect'', JString ''review''), (''standing_token'', JString demo_standing_token)]"

lemma demo_parse_challenge:
  "parse_challenge demo_srv demo_challenge [''K''] 5 =
    Inr \<lparr>cg_standing = \<lparr>sd_decision_ref = ''d1'', sd_decision_subject = ''dana'', sd_exp = 9, sd_affected_party_role = None\<rparr>,
      cg_decision_ref = ''d1'', cg_basis = [''factual-error''], cg_evidence = None, cg_requested_effect = ''review''\<rparr>"
proof -
  have l: "ix_unb64u demo_id (ix_b64u demo_id b) = Some b" "CHR ''.'' \<notin> set (ix_b64u demo_id b)" for b
    using demo_id_laws unfolding id_laws_def list_all_iff by blast+
  then have d: "hex_decode (hex_encode b) = Some b" and n: "CHR ''.'' \<notin> set (hex_encode b)" for b by (simp_all add: demo_id_def)
  have t: "split_on (CHR ''.'') demo_standing_token = [hex_encode ''h'', hex_encode ''p'', hex_encode (replicate 64 (CHR ''s''))]"
    unfolding demo_standing_token_def split_on_at [OF n] split_on_plain [OF n] ..
  have e: "f64_as_u64 (f64_of_u64 9) = 9" by (simp add: f64_as_u64_def f64_of_u64_def round_to_f64_exact f64_unit_def)
  have "verify_standing demo_srv demo_standing_token [''K''] 5 =
      Inr \<lparr>sd_decision_ref = ''d1'', sd_decision_subject = ''dana'', sd_exp = 9, sd_affected_party_role = None\<rparr>"
    unfolding verify_standing_def t using d e
    by (simp add: decode_object_def demo_srv_def demo_id_def map_err_def refuse_alg_def refuse_access_token_def refuse_crit_def
      numeric_date_def demo_claims_def as_f64_def f64_of_u64_mono_small refuse_early_def string_claim_def del: hex_encode.simps)
  then show ?thesis by (simp add: parse_challenge_def demo_challenge_def as_object_def parse_basis_def)
qed

theorem challenge_standing_proved_witness:
  "\<exists>c h p s sig. parse_challenge demo_srv demo_challenge [''K''] 5 = Inr c \<and> sd_decision_subject (cg_standing c) = ''dana'' \<and>
    jget_str demo_challenge ''standing_token'' = Some (h @ CHR ''.'' # p @ CHR ''.'' # s) \<and>
    sx_verify_strict demo_srv ''K'' (h @ CHR ''.'' # p) sig"
  using challenge_standing_proved [OF demo_parse_challenge] demo_parse_challenge by (simp, blast)

end
