(* ===== verification/Decide.thy ===== *)
theory Decide
  imports Challenge
begin

text \<open>
  The decision layer, \<open>decern-server/src/decide.rs\<close>, and the place a request takes on the
  blocking pool, \<open>blocking.rs\<close>. A request is admitted, prepared, decided by the kernel, its
  challenge answered, and its record built; the answer is served only once that record has landed.
  A refusal or a panic on the way is a value of \<open>stop\<close>.

  The three structures a request is read into derive serde's \<open>Deserialize\<close>, which takes an
  object by its names, and an array by position; \<open>de_ref\<close>, \<open>de_action\<close> and
  \<open>de_request\<close> are that reading of a JSON value.
\<close>

section \<open>Requests\<close>

record req_ref =
  rr_ty :: string
  rr_id :: string
  rr_properties :: "jmap option"

record req_action =
  ra_name :: string
  ra_properties :: "jmap option"

record decide_req =
  dq_subject :: req_ref
  dq_action :: req_action
  dq_resource :: req_ref
  dq_context :: "jmap option"

text \<open>An optional object: absent and \<open>null\<close> are none, any other value is refused.\<close>

definition de_map :: "json option \<Rightarrow> jmap option option" where
  "de_map v =
     (case v of
        None \<Rightarrow> Some None
      | Some JNull \<Rightarrow> Some None
      | Some (JObject m) \<Rightarrow> Some (Some m)
      | _ \<Rightarrow> None)"

fun de_ref :: "json \<Rightarrow> req_ref option" where
  "de_ref (JObject m) =
     (case (bm_get m ''type'', bm_get m ''id'', de_map (bm_get m ''properties'')) of
        (Some (JString t), Some (JString i), Some p) \<Rightarrow> Some \<lparr>rr_ty = t, rr_id = i, rr_properties = p\<rparr>
      | _ \<Rightarrow> None)"
| "de_ref (JArray vs) =
     (case vs of
        JString t # JString i # rest \<Rightarrow>
          (case rest of
             [] \<Rightarrow> Some \<lparr>rr_ty = t, rr_id = i, rr_properties = None\<rparr>
           | [v] \<Rightarrow> map_option (\<lambda>p. \<lparr>rr_ty = t, rr_id = i, rr_properties = p\<rparr>) (de_map (Some v))
           | _ \<Rightarrow> None)
      | _ \<Rightarrow> None)"
| "de_ref _ = None"

fun de_action :: "json \<Rightarrow> req_action option" where
  "de_action (JObject m) =
     (case (bm_get m ''name'', de_map (bm_get m ''properties'')) of
        (Some (JString n), Some p) \<Rightarrow> Some \<lparr>ra_name = n, ra_properties = p\<rparr>
      | _ \<Rightarrow> None)"
| "de_action (JArray vs) =
     (case vs of
        JString n # rest \<Rightarrow>
          (case rest of
             [] \<Rightarrow> Some \<lparr>ra_name = n, ra_properties = None\<rparr>
           | [v] \<Rightarrow> map_option (\<lambda>p. \<lparr>ra_name = n, ra_properties = p\<rparr>) (de_map (Some v))
           | _ \<Rightarrow> None)
      | _ \<Rightarrow> None)"
| "de_action _ = None"

text \<open>A request from the object that holds its fields.\<close>

definition de_request :: "jmap \<Rightarrow> decide_req option" where
  "de_request m =
     Option.bind (Option.bind (bm_get m ''subject'') de_ref) (\<lambda>subject.
     Option.bind (Option.bind (bm_get m ''action'') de_action) (\<lambda>action.
     Option.bind (Option.bind (bm_get m ''resource'') de_ref) (\<lambda>resource.
     Option.bind (de_map (bm_get m ''context'')) (\<lambda>context.
     Some \<lparr>dq_subject = subject, dq_action = action, dq_resource = resource, dq_context = context\<rparr>))))"

section \<open>What the server derives\<close>

definition resolve_sponsor :: "directory \<Rightarrow> string \<Rightarrow> party option" where
  "resolve_sponsor dir subject_id =
     (if \<not> contains dir subject_id then None
      else (let chain = ancestors_of dir subject_id in
        Some \<lparr>pa_kind = ''Principal'', pa_id = (if chain = [] then subject_id else last chain)\<rparr>))"

definition de_decision_subject :: "json \<Rightarrow> decision_subject option" where
  "de_decision_subject v =
     (let opt = (\<lambda>f. case f of None \<Rightarrow> Some None | Some JNull \<Rightarrow> Some None | Some (JString s) \<Rightarrow> Some (Some s) | _ \<Rightarrow> None) in
      case v of
        JString h \<Rightarrow> Some \<lparr>ds_handle = h, ds_scheme = None, ds_purpose = None\<rparr>
      | JObject m \<Rightarrow>
          (case (bm_get m ''handle'', opt (bm_get m ''scheme''), opt (bm_get m ''purpose'')) of
             (Some (JString h), Some s, Some p) \<Rightarrow> Some \<lparr>ds_handle = h, ds_scheme = s, ds_purpose = p\<rparr>
           | _ \<Rightarrow> None)
      | _ \<Rightarrow> None)"

text \<open>What is refused or kept of a decision subject once it is out of the context.\<close>

definition kept_subject :: "srv_ext \<Rightarrow> json option \<Rightarrow> string \<Rightarrow> string option \<Rightarrow> string + decision_subject option" where
  "kept_subject sx raw subject_id resource_owner =
     (case raw of
        None \<Rightarrow> Inr None
      | Some JNull \<Rightarrow> Inr None
      | Some v \<Rightarrow>
          (case de_decision_subject v of
             None \<Rightarrow> Inl (''decision_subject must be a handle or an object with one: '' @ sx_serde_text sx v)
           | Some ds \<Rightarrow>
               if is_blank (ds_handle ds) then Inl ''decision_subject handle must not be empty''
               else if CHR ''@'' \<in> set (ds_handle ds)
               then Inl (''decision_subject handle must be a pseudonymous reference, not an address a party '' @
                         ''could be identified or contacted by'')
               else if ds_handle ds = subject_id \<or> Some (ds_handle ds) = resource_owner then Inr None
               else Inr (Some ds)))"

definition take_decision_subject ::
  "srv_ext \<Rightarrow> json \<Rightarrow> string \<Rightarrow> string option \<Rightarrow> (string + decision_subject option) \<times> json" where
  "take_decision_subject sx ctx subject_id resource_owner =
     (case take_key ''decision_subject'' ctx of (raw, ctx') \<Rightarrow> (kept_subject sx raw subject_id resource_owner, ctx'))"

section \<open>Admission\<close>

definition named_decision_subject :: "json option \<Rightarrow> string option" where
  "named_decision_subject raw =
     Option.bind raw (\<lambda>v. case as_str v of Some s \<Rightarrow> Some s | None \<Rightarrow> jget_str v ''handle'')"

definition says_something :: "jmap option \<Rightarrow> bool" where
  "says_something p = (case p of Some m \<Rightarrow> m \<noteq> [] | None \<Rightarrow> False)"

definition request_facts :: "decide_req \<Rightarrow> string option \<times> bool \<times> string option" where
  "request_facts req =
     (Some (rr_id (dq_subject req)),
      list_ex says_something [rr_properties (dq_subject req), rr_properties (dq_resource req), ra_properties (dq_action req)],
      Option.bind (dq_context req) (\<lambda>c. named_decision_subject (bm_get c ''decision_subject'')))"

definition admit_named :: "caller \<Rightarrow> string option \<Rightarrow> bool \<Rightarrow> string option \<Rightarrow> response option" where
  "admit_named caller subject_id describes decision_subject =
     (case Option.bind subject_id (refuse_unless_admits caller) of
        Some refusal \<Rightarrow> Some refusal
      | None \<Rightarrow>
     (case Option.bind decision_subject (refuse_unless_admits caller) of
        Some refusal \<Rightarrow> Some refusal
      | None \<Rightarrow> if describes then refuse_description_unless_pep caller else None))"

definition admit_request :: "caller \<Rightarrow> decide_req \<Rightarrow> response option" where
  "admit_request caller req =
     (case request_facts req of (subject_id, describes, decision_subject) \<Rightarrow>
        admit_named caller subject_id describes decision_subject)"

section \<open>Preparing\<close>

definition max_context_bytes :: nat where
  "max_context_bytes = 64 * 1024"

definition max_name_bytes :: nat where
  "max_name_bytes = 1024"

definition name_too_large :: "(string \<times> string) list \<Rightarrow> refusal option" where
  "name_too_large names =
     map_option (\<lambda>(field, _). payload_too_large ''name_too_large'' (field @ '' exceeds 1 KiB''))
       (List.find (\<lambda>(_, v). length v > max_name_bytes) names)"

definition context_too_large :: "srv_ext \<Rightarrow> json \<Rightarrow> bool" where
  "context_too_large sx context \<longleftrightarrow>
     \<not> (case sx_to_vec sx context of Some b \<Rightarrow> length b \<le> max_context_bytes | None \<Rightarrow> False)"

fun describe :: "(string \<times> jmap option) list \<Rightarrow> jmap \<Rightarrow> jmap" where
  "describe [] ctx = ctx"
| "describe ((key, properties) # ds) ctx =
     (let ctx' = bm_remove key ctx in
      describe ds (case properties of Some p \<Rightarrow> bm_insert key (JObject p) ctx' | None \<Rightarrow> ctx'))"

definition kernel_context :: "jmap \<Rightarrow> (string \<times> jmap option) list \<Rightarrow> nat \<Rightarrow> json" where
  "kernel_context context described now_s =
     JObject (describe described (bm_remove ''asserted_by'' (bm_insert ''now'' (JNumber (PosInt now_s)) context)))"

definition prepare_context ::
  "srv_ext \<Rightarrow> caller \<Rightarrow> nat option \<Rightarrow> jmap \<Rightarrow> (string \<times> jmap option) list \<Rightarrow> refusal + (json \<times> nat \<times> asserted_by option)" where
  "prepare_context sx caller clock context described =
     res_bind (ok_or clock clock_unavailable) (\<lambda>now_s.
     (let ctx = kernel_context context described now_s in
      if context_too_large sx ctx then Inl context_too_large_refusal
      else Inr (ctx, now_s, asserted_by_of caller)))"

subsection \<open>Missions\<close>

datatype mission_bind = BindNone | BindOk mission_ref | BindDeny "string list"

definition strip_client_approval_flags :: "json \<Rightarrow> json" where
  "strip_client_approval_flags ctx =
     (case ctx of JObject m \<Rightarrow> JObject (bm_remove ''consent'' (bm_remove ''human_approved'' m)) | _ \<Rightarrow> ctx)"

definition scope_for_action :: "string \<Rightarrow> string option" where
  "scope_for_action action =
     (if action = ''Read'' then Some ''read''
      else if action = ''MoveMoney'' then Some ''move_money''
      else if action = ''AccessPII'' then Some ''pii:read''
      else None)"

text \<open>\<open>ctx[k] = v\<close>: \<open>null\<close> becomes an object; on any other value the code would panic, and the
  context is an object wherever it does this (\<open>prepared_object\<close>).\<close>

definition jset :: "string \<Rightarrow> json \<Rightarrow> json \<Rightarrow> json" where
  "jset k v ctx = (case ctx of JObject m \<Rightarrow> JObject (bm_insert k v m) | JNull \<Rightarrow> JObject [(k, v)] | _ \<Rightarrow> ctx)"

definition apply_mission_context :: "json \<Rightarrow> string \<Rightarrow> json" where
  "apply_mission_context ctx action =
     (let ctx = strip_client_approval_flags ctx in
      if action = ''MoveMoney'' then jset ''human_approved'' (JBool True) ctx else ctx)"

text \<open>The checks of \<open>bound_mission\<close> on the registered entry and the model.\<close>

definition mission_backs :: "directory \<Rightarrow> string \<Rightarrow> string \<Rightarrow> string \<Rightarrow> string \<Rightarrow> nat \<Rightarrow> mission_entry \<Rightarrow> string + unit" where
  "mission_backs dir subject_id action approver s256 now entry =
     (let named = (\<lambda>t. ''mission '' @ s256 @ t) in
      res_bind (res_guard (\<not> me_terminated entry) (named '' is terminated'')) (\<lambda>_.
      res_bind (res_guard (now < me_expiry entry) (named '' is expired'')) (\<lambda>_.
      res_bind (res_guard (me_approver entry = approver)
        (named ('' approver mismatch (registry '' @ me_approver entry @ '', request '' @ approver @ '')''))) (\<lambda>_.
      res_bind (res_guard (me_agent entry \<noteq> '''')
        (named '' has no agent on file (re-approve to enable decision-under-mission)'')) (\<lambda>_.
      res_bind (res_guard (me_agent entry = subject_id)
        (named ('' authorizes agent '' @ me_agent entry @ '', not subject '' @ subject_id))) (\<lambda>_.
      res_bind (res_guard (me_approver entry \<noteq> me_agent entry)
        (named '' was approved by its own agent, which approves nothing'')) (\<lambda>_.
      res_bind (ok_or (scope_for_action action)
        (''action '' @ action @ '' has no scope mapping, so mission '' @ s256 @ '' cannot be shown to approve it'')) (\<lambda>scope.
      res_bind (res_guard (scope \<in> set (me_approved_tools entry))
        (named ('' does not approve tool/scope `'' @ scope @ ''` for action '' @ action))) (\<lambda>_.
      res_bind (case (bm_get (principals dir) (me_approver entry), bm_get (principals dir) subject_id) of
          (Some approver_rec, Some subject_rec) \<Rightarrow>
            if p_tenant approver_rec = p_tenant subject_rec then Inr approver_rec
            else Inl (named ('' was not approved by a principal of subject '' @ subject_id @ '''s tenant''))
        | _ \<Rightarrow> Inl (named ('' was not approved by a principal of subject '' @ subject_id @ '''s tenant''))) (\<lambda>approver_rec.
      res_guard (\<not> revoked dir (me_approver entry) \<and> int now \<le> i64_max \<and> int now \<le> p_expiry approver_rec \<and>
          scope \<in> set (p_scopes approver_rec))
        (named ('''s approver '' @ me_approver entry @
          '' no longer holds what it approved: it is revoked, expired, or without `'' @ scope @ ''`''))))))))))))"

definition bound_mission ::
  "'m mission_registry \<Rightarrow> directory \<Rightarrow> string \<Rightarrow> string \<Rightarrow> json \<Rightarrow> nat \<Rightarrow> ('m, string, mission_ref) sres" where
  "bound_mission registry dir subject_id action mission now =
     s_bind (s_look (\<lambda>_. ok_or (as_object mission) ''context.mission must be an object {approver,s256}'')) (\<lambda>obj.
     (let approver = unwrap_or '''' (Option.bind (bm_get obj ''approver'') as_str);
          s256 = unwrap_or '''' (Option.bind (bm_get obj ''s256'') as_str) in
      s_bind (s_look (\<lambda>_. res_guard (approver \<noteq> '''' \<and> s256 \<noteq> '''') ''context.mission requires non-empty approver and s256'')) (\<lambda>_.
      s_bind (s_err (\<lambda>e. ''mission registry unavailable: '' @ store_text e) (mr_status registry s256)) (\<lambda>found.
      s_bind (s_look (\<lambda>_. ok_or found (''mission '' @ s256 @ '' names no registered approval''))) (\<lambda>entry.
      s_bind (s_look (\<lambda>_. mission_backs dir subject_id action approver s256 now entry)) (\<lambda>_.
      s_ret \<lparr>mr_approver = approver, mr_s256 = s256\<rparr>))))))"

text \<open>What an absent mission comes to.\<close>

definition no_mission_bind :: "bool \<Rightarrow> string \<Rightarrow> mission_bind" where
  "no_mission_bind require action =
     (if require then BindDeny [''context.mission is required (--require-mission)'']
      else if action = ''MoveMoney'' then BindDeny [''context.mission is required for MoveMoney'']
      else BindNone)"

definition bind_mission ::
  "'m mission_registry \<Rightarrow> directory \<Rightarrow> bool \<Rightarrow> string \<Rightarrow> string \<Rightarrow> json \<Rightarrow> nat \<Rightarrow> 'm \<Rightarrow> mission_bind \<times> 'm" where
  "bind_mission registry dir require subject_id action ctx now g =
     (case jget ctx ''mission'' of
        Some mission \<Rightarrow>
          if mission = JNull then (no_mission_bind require action, g)
          else (case bound_mission registry dir subject_id action mission now g of
             (Inr reference, g') \<Rightarrow> (BindOk reference, g')
           | (Inl refusal, g') \<Rightarrow> (BindDeny [refusal], g'))
      | None \<Rightarrow> (no_mission_bind require action, g))"

subsection \<open>The request made ready\<close>

record mission_outcome =
  mo_bound :: "mission_ref option"
  mo_errors :: "string list"
  mo_named :: "json option"

record prepared =
  pr_now_s :: nat
  pr_subject :: entity_ref
  pr_action :: string
  pr_resource :: entity_ref
  pr_ctx :: json
  pr_asserted_by :: "asserted_by option"
  pr_mission :: mission_outcome
  pr_challenge :: "json option"
  pr_decision_subject :: "decision_subject option"

definition filter_properties :: "jmap option \<Rightarrow> jmap option" where
  "filter_properties p = (if says_something p then p else None)"

definition resource_owner :: "directory \<Rightarrow> string \<Rightarrow> string option" where
  "resource_owner dir i = map_option r_owner (bm_get (resources dir) i)"

text \<open>The mission a request named, as the pair the auditor sees.\<close>

definition named_pair :: "json \<Rightarrow> json" where
  "named_pair m =
     (let field = (\<lambda>name. bounded (unwrap_or '''' (jget_str m name)) 256) in
      JObject [(''approver'', JString (field ''approver'')), (''s256'', JString (field ''s256''))])"

text \<open>The context after the mission was bound or refused.\<close>

definition mission_context :: "mission_bind \<Rightarrow> json \<Rightarrow> string \<Rightarrow> json" where
  "mission_context bound ctx action =
     (case bound of
        BindNone \<Rightarrow> ctx
      | BindOk _ \<Rightarrow> apply_mission_context ctx action
      | BindDeny _ \<Rightarrow> strip_client_approval_flags ctx)"

definition prepare_decision ::
  "('s, 'p, 'e, 'c, 'r) app_state \<Rightarrow> 'm mission_registry \<Rightarrow> nat option \<Rightarrow> caller \<Rightarrow> decide_req \<Rightarrow> ('m, refusal, prepared) sres" where
  "prepare_decision st registry clock caller req g =
     (let subject = dq_subject req; resource = dq_resource req; act = dq_action req; dir = k_directory (st_kernel st) in
      case name_too_large [(''subject.type'', rr_ty subject), (''subject.id'', rr_id subject),
          (''resource.type'', rr_ty resource), (''resource.id'', rr_id resource), (''action.name'', ra_name act)] of
        Some refusal \<Rightarrow> (Inl refusal, g)
      | None \<Rightarrow>
     (case prepare_context (st_ext st) caller clock (unwrap_or [] (dq_context req))
          [(''subject'', filter_properties (rr_properties subject)), (''resource'', filter_properties (rr_properties resource)),
           (''action'', filter_properties (ra_properties act))] of
        Inl refusal \<Rightarrow> (Inl refusal, g)
      | Inr (ctx0, now_s, asserted_by) \<Rightarrow>
     (case bind_mission registry dir (st_require_mission st) (rr_id subject) (ra_name act) ctx0 now_s g of
        (bound, g') \<Rightarrow>
     (let ctx1 = mission_context bound ctx0 (ra_name act) in
      case take_key ''mission'' ctx1 of (mission, ctx2) \<Rightarrow>
     (case take_raw ctx2 of (challenge, ctx3) \<Rightarrow>
     (case take_decision_subject (st_ext st) ctx3 (rr_id subject) (resource_owner dir (rr_id resource)) of
        (Inl detail, _) \<Rightarrow> (Inl (unprocessable ''decision_subject'' detail), g')
      | (Inr ds, ctx4) \<Rightarrow>
          (Inr \<lparr>pr_now_s = now_s, pr_subject = \<lparr>er_ty = model_type st (rr_ty subject), er_id = rr_id subject\<rparr>,
             pr_action = ra_name act, pr_resource = \<lparr>er_ty = model_type st (rr_ty resource), er_id = rr_id resource\<rparr>,
             pr_ctx = fst (prune_undeclared_context (st_kernel st) (ra_name act) ctx4), pr_asserted_by = asserted_by,
             pr_mission = \<lparr>mo_bound = (case bound of BindOk r \<Rightarrow> Some r | _ \<Rightarrow> None),
               mo_errors = (case bound of BindDeny errs \<Rightarrow> errs | _ \<Rightarrow> []), mo_named = map_option named_pair mission\<rparr>,
             pr_challenge = challenge, pr_decision_subject = ds\<rparr>, g')))))))"

section \<open>Deciding\<close>

definition decide_prepared :: "('s, 'p, 'e, 'c, 'r) app_state \<Rightarrow> prepared \<Rightarrow> check_response" where
  "decide_prepared st p =
     (let r = check (st_cedar st) (st_kernel st) (pr_subject p) (pr_action p) (pr_resource p) (pr_ctx p);
          errs = mo_errors (pr_mission p) in
      if errs \<noteq> [] then r\<lparr>cr_decision := False, cr_reasons := [], cr_errors := cr_errors r @ errs\<rparr> else r)"

datatype stop = Refuse refusal | Panic

definition server_digest :: "srv_ext \<Rightarrow> json \<Rightarrow> stop + string" where
  "server_digest sx v = ok_or (digest (sx_base sx) (sx_jcs sx) v) Panic"

definition answer_challenge :: "('s, 'p, 'e, 'c, 'r) app_state \<Rightarrow> prepared \<Rightarrow> stop + challenge_record option" where
  "answer_challenge st p =
     (case pr_challenge p of
        None \<Rightarrow> Inr None
      | Some raw \<Rightarrow>
          res_bind (map_err (\<lambda>e. Refuse (unprocessable (challenge_kind e) (challenge_detail e)))
            (parse_challenge (st_ext st) raw (st_standing_issuers st) (pr_now_s p))) (\<lambda>c.
          (let owner = resource_owner (k_directory (st_kernel st)) (er_id (pr_resource p));
               about = (case pr_decision_subject p of
                  Some ds \<Rightarrow> [ds_handle ds]
                | None \<Rightarrow> er_id (pr_subject p) # (case owner of Some i \<Rightarrow> [i] | None \<Rightarrow> []))
           in case into_record (answer_to c about) of (outcome, outcome_basis) \<Rightarrow>
          res_bind (case cg_evidence c of None \<Rightarrow> Inr None | Some v \<Rightarrow> res_map Some (server_digest (st_ext st) v)) (\<lambda>evidence.
          Inr (Some \<lparr>ch_decision_ref = cg_decision_ref c, ch_decision_subject = sd_decision_subject (cg_standing c),
             ch_basis = cg_basis c, ch_requested_effect = cg_requested_effect c, ch_outcome = outcome,
             ch_outcome_basis = outcome_basis, ch_evidence_digest = evidence\<rparr>)))))"

definition decision_subject_json :: "decision_subject \<Rightarrow> json" where
  "decision_subject_json ds =
     jobj ((''handle'', JString (ds_handle ds)) #
       (case ds_scheme ds of Some s \<Rightarrow> [(''scheme'', JString s)] | None \<Rightarrow> []) @
       (case ds_purpose ds of Some s \<Rightarrow> [(''purpose'', JString s)] | None \<Rightarrow> []))"

definition entity_json :: "entity_ref \<Rightarrow> json" where
  "entity_json r = jobj [(''type'', JString (er_ty r)), (''id'', JString (er_id r))]"

definition opt_json :: "('a \<Rightarrow> json) \<Rightarrow> 'a option \<Rightarrow> json" where
  "opt_json f v = (case v of Some a \<Rightarrow> f a | None \<Rightarrow> JNull)"

text \<open>The parameters a decision is bound to.\<close>

definition parameters_json :: "prepared \<Rightarrow> json \<Rightarrow> json" where
  "parameters_json p ctx =
     jobj [(''subject'', entity_json (pr_subject p)), (''action'', JString (pr_action p)),
       (''resource'', entity_json (pr_resource p)), (''context'', ctx),
       (''mission'', opt_json (\<lambda>m. jobj [(''approver'', JString (mr_approver m)), (''s256'', JString (mr_s256 m))]) (mo_bound (pr_mission p))),
       (''decision_subject'', opt_json decision_subject_json (pr_decision_subject p))]"

definition sat_mul64 :: "nat \<Rightarrow> nat \<Rightarrow> nat" where
  "sat_mul64 a b = min u64_max (a * b)"

definition recorded_context :: "prepared \<Rightarrow> json" where
  "recorded_context p = (case mo_named (pr_mission p) of Some named \<Rightarrow> jset ''mission'' named (pr_ctx p) | None \<Rightarrow> pr_ctx p)"

definition record_of ::
  "('s, 'p, 'e, 'c, 'r) app_state \<Rightarrow> prepared \<Rightarrow> check_response \<Rightarrow> challenge_record option \<Rightarrow> stop + (entry \<times> shard)" where
  "record_of st p r challenge =
     (let dir = k_directory (st_kernel st); ctx = recorded_context p in
      res_bind (server_digest (st_ext st) (parameters_json p ctx)) (\<lambda>parameters_digest.
      Inr (\<lparr>e_seq = 0, e_ts_ms = sat_mul64 (pr_now_s p) 1000, e_subject_type = er_ty (pr_subject p), e_subject_id = er_id (pr_subject p),
         e_action = pr_action p, e_resource_type = er_ty (pr_resource p), e_resource_id = er_id (pr_resource p),
         e_context = ctx, e_decision = cr_decision r, e_reasons = cr_reasons r, e_edge = Attenuate,
         e_sponsor = resolve_sponsor dir (er_id (pr_subject p)), e_sponsor_source = Derived,
         e_mission = mo_bound (pr_mission p), e_decision_subject = pr_decision_subject p, e_asserted_by = pr_asserted_by p,
         e_notice_required = (pr_decision_subject p \<noteq> None), e_challenge = challenge,
         e_digests = bm_of_list [(''parameters'', parameters_digest), (''authority'', st_authority_digest st)]\<rparr>,
        shard_for (st_backend st) dir (er_id (pr_subject p)))))"

record evaluated =
  ev_decision :: bool
  ev_reasons :: "string list"
  ev_errors :: "string list"
  ev_entry :: entry
  ev_shard :: shard

definition evaluate_one ::
  "('s, 'p, 'e, 'c, 'r) app_state \<Rightarrow> ('h, 'm) env \<Rightarrow> caller \<Rightarrow> decide_req \<Rightarrow> (('h, 'm) world, stop, evaluated) sres" where
  "evaluate_one st en caller req =
     s_bind (on_missions (s_err Refuse (prepare_decision st (en_registry en) (en_clock en) caller req))) (\<lambda>p.
     (let r = decide_prepared st p in
      s_bind (s_look (\<lambda>_. answer_challenge st p)) (\<lambda>challenge.
      s_bind (s_look (\<lambda>_. record_of st p r challenge)) (\<lambda>(entry, shard).
      s_ret \<lparr>ev_decision = cr_decision r, ev_reasons = cr_reasons r, ev_errors = cr_errors r, ev_entry = entry, ev_shard = shard\<rparr>))))"

text \<open>\<open>None\<close> is a panic in the work.\<close>

definition decide_one ::
  "('s, 'p, 'e, 'c, 'r) app_state \<Rightarrow> ('h, 'm) env \<Rightarrow> caller \<Rightarrow> decide_req \<Rightarrow> ('h, 'm) world \<Rightarrow> response option \<times> ('h, 'm) world" where
  "decide_one st en caller req w =
     (case admit_request caller req of
        Some refusal \<Rightarrow> (Some refusal, w)
      | None \<Rightarrow>
     (case evaluate_one st en caller req w of
        (Inl (Refuse refusal), w') \<Rightarrow> (Some (refusal_response refusal), w')
      | (Inl Panic, w') \<Rightarrow> (None, w')
      | (Inr e, w') \<Rightarrow>
          (case record_and_respond (ev_errors e) (record_decision st en (ev_shard e) (ev_entry e)) w' of
             (resp, w'') \<Rightarrow> (Some resp, w''))))"

section \<open>The blocking pool\<close>

definition max_blocking :: nat where
  "max_blocking = 512"

definition busy :: "nat \<Rightarrow> response" where
  "busy cap = refused 503 ''server_busy''
     (DText (show_nat cap @ '' requests are already being decided, searched, recorded, audited or read as a Mission; try again''))"

text \<open>\<open>taken\<close> is how many places other requests hold when this one asks.\<close>

definition off_the_executor ::
  "nat \<Rightarrow> nat \<Rightarrow> string \<Rightarrow> ('w \<Rightarrow> response option \<times> 'w) \<Rightarrow> 'w \<Rightarrow> response \<times> 'w" where
  "off_the_executor cap taken error work w =
     (if taken < cap then
        (case work w of
           (Some response, w') \<Rightarrow> (response, w')
         | (None, w') \<Rightarrow> (refused 503 error (DText ''the request did not complete''), w'))
      else (busy cap, w))"

definition decide ::
  "('s, 'p, 'e, 'c, 'r) app_state \<Rightarrow> ('h, 'm) env \<Rightarrow> nat \<Rightarrow> caller \<Rightarrow> string + decide_req \<Rightarrow> ('h, 'm) world \<Rightarrow> response \<times> ('h, 'm) world" where
  "decide st en taken caller req w =
     (case req of
        Inl body_text \<Rightarrow> (refusal_response (invalid_request body_text), w)
      | Inr req \<Rightarrow> off_the_executor max_blocking taken ''decision_unavailable'' (decide_one st en caller req) w)"

end
