(* ===== verification/Decisions.thy ===== *)
theory Decisions
  imports Decide
begin

text \<open>
  What holds of a decision the server makes: whom a caller may name, what the kernel is given to
  decide on, what a mission must be to back a decision, and that what is served is what was recorded.
  The last is proved once for every backend, in the locale \<open>recorder\<close>.
\<close>

section \<open>Maps\<close>

lemma bm_ext:
  assumes "bm_wf a" and "bm_wf b" and "\<And>k. bm_get a k = bm_get b k"
  shows "a = b"
proof -
  have "set a = set b" using bm_get_eq_Some [OF assms(1)] bm_get_eq_Some [OF assms(2)] assms(3) by auto
  moreover have "sorted (map fst a)" "distinct (map fst a)" "sorted (map fst b)" "distinct (map fst b)"
    using assms(1,2) by (simp_all add: bm_wf_def strict_sorted_iff)
  ultimately show ?thesis by (intro map_sorted_distinct_set_unique [of fst]) (auto simp: distinct_map)
qed

lemma bm_wf_remove [simp]: "bm_wf m \<Longrightarrow> bm_wf (bm_remove k m)"
  by (simp add: bm_remove_def)

section \<open>Pruning\<close>

lemma prune_plain: "\<not> is_object v \<Longrightarrow> prune s v path = (v, [])"
  by (cases s; cases v) (simp_all add: is_object_def)

lemma prune_attrs_get:
  "bm_get (fst (prune_attrs attrs obj path)) k = Some u \<Longrightarrow>
    \<exists>u0. bm_get obj k = Some u0 \<and> (is_object u0 \<or> u = u0)"
proof (induction attrs arbitrary: obj)
  case (Cons a attrs)
  obtain key child where a: "a = (key, child)" by force
  show ?case
  proof (cases "bm_get obj key")
    case None
    with Cons a show ?thesis by simp
  next
    case (Some v)
    obtain v' d where p: "prune child v (at_path path key) = (v', d)" by force
    obtain obj' ds where q: "prune_attrs attrs (bm_insert key v' obj) path = (obj', ds)" by force
    with Cons.prems a Some p have "bm_get obj' k = Some u" by simp
    with Cons.IH [of "bm_insert key v' obj"] q obtain u0 where u0: "bm_get (bm_insert key v' obj) k = Some u0" "is_object u0 \<or> u = u0" by auto
    show ?thesis
    proof (cases "k = key")
      case True
      with u0(1) have "u0 = v'" by simp
      with u0(2) Some True p prune_plain [of v child "at_path path key"] show ?thesis by (cases "is_object v") auto
    next
      case False
      with u0 show ?thesis by auto
    qed
  qed
qed simp

lemma bm_get_remove_keys: "bm_get (remove_keys ks m) k = Some u \<Longrightarrow> bm_get m k = Some u"
proof -
  have "bm_get (filter (\<lambda>(k, v). k \<notin> set ks) m) k = (if k \<in> set ks then None else bm_get m k)"
    by (induction m) (auto split: if_splits)
  then show "bm_get (remove_keys ks m) k = Some u \<Longrightarrow> bm_get m k = Some u" by (simp add: remove_keys_filter split: if_splits)
qed

lemma prune_get:
  assumes "jget (fst (prune s v path)) k = Some u"
  shows "\<exists>u0. jget v k = Some u0 \<and> (is_object u0 \<or> u = u0)"
proof (cases s)
  case (Record attrs)
  show ?thesis
  proof (cases v)
    case (JObject obj)
    with assms Record have "bm_get (fst (prune_attrs attrs (remove_keys (filter (\<lambda>k. bm_get attrs k = None) (bm_keys obj)) obj) path)) k = Some u"
      by (simp add: Let_def split: prod.splits)
    from prune_attrs_get [OF this] JObject show ?thesis by (auto dest: bm_get_remove_keys)
  qed (use assms Record in \<open>simp_all add: jget_def\<close>)
qed (use assms in simp)

lemma prune_undeclared_is_prune: "\<exists>s. fst (prune_undeclared_context k action v) = fst (prune s v [])"
proof (cases "bm_get (k_context_shape k) action")
  case None
  then have "fst (prune_undeclared_context k action v) = fst (prune (Record [(''now'', Opaque)]) v [])"
    by (simp add: prune_undeclared_context_def case_prod_beta del: prune.simps)
  then show ?thesis by blast
next
  case (Some s)
  then have "fst (prune_undeclared_context k action v) = fst (prune s v [])"
    by (simp add: prune_undeclared_context_def case_prod_beta del: prune.simps)
  then show ?thesis by blast
qed

lemma pruned_get:
  assumes "jget (fst (prune_undeclared_context k action v)) key = Some u"
  shows "\<exists>u0. jget v key = Some u0 \<and> (is_object u0 \<or> u = u0)"
  using assms prune_get prune_undeclared_is_prune [of k action v] by metis

text \<open>The keys an action's declared context lets through: those of the record it declares, everything
  where it declares no record, and only the clock for an action the schema does not have.\<close>

definition declares_key :: "('s, 'p, 'e) kernel \<Rightarrow> string \<Rightarrow> string \<Rightarrow> bool" where
  "declares_key k action key \<longleftrightarrow>
     (case bm_get (k_context_shape k) action of
        None \<Rightarrow> key = ''now''
      | Some Opaque \<Rightarrow> True
      | Some (Record attrs) \<Rightarrow> bm_get attrs key \<noteq> None)"

lemma prune_attrs_dom: "bm_get (fst (prune_attrs attrs obj path)) k = None \<longleftrightarrow> bm_get obj k = None"
proof (induction attrs arbitrary: obj)
  case (Cons a attrs)
  obtain key child where a: "a = (key, child)" by force
  show ?case
  proof (cases "bm_get obj key")
    case (Some v)
    obtain v' d where p: "prune child v (at_path path key) = (v', d)" by force
    obtain obj' ds where q: "prune_attrs attrs (bm_insert key v' obj) path = (obj', ds)" by force
    from Cons.IH [of "bm_insert key v' obj"] q have "bm_get obj' k = None \<longleftrightarrow> bm_get (bm_insert key v' obj) k = None" by simp
    with a Some p q show ?thesis by (cases "k = key") simp_all
  qed (use Cons.IH a in simp)
qed simp

lemma prune_dom:
  "jget (fst (prune s (JObject m) path)) key = None \<longleftrightarrow>
    bm_get m key = None \<or> (case s of Record attrs \<Rightarrow> bm_get attrs key = None | Opaque \<Rightarrow> False)"
proof (cases s)
  case (Record attrs)
  let ?u = "filter (\<lambda>k. bm_get attrs k = None) (bm_keys m)"
  have "bm_get (filter (\<lambda>(k, v). k \<notin> set ks) m) key = (if key \<in> set ks then None else bm_get m key)" for ks and m :: jmap
    by (induction m) (auto split: if_splits)
  from this [of ?u m] have "bm_get (remove_keys ?u m) key = None \<longleftrightarrow> bm_get m key = None \<or> key \<in> set ?u"
    unfolding remove_keys_filter by presburger
  moreover have "bm_get m key = None \<or> key \<in> set (bm_keys m)" by (cases "bm_get m key") (auto simp: bm_keys_def dest!: bm_get_SomeD intro: rev_image_eqI)
  ultimately show ?thesis using Record prune_attrs_dom [of attrs "remove_keys ?u m" path key] by (auto simp: Let_def split: prod.splits)
qed simp

lemma pruned_dom:
  "jget (fst (prune_undeclared_context k action (JObject m))) key = None \<longleftrightarrow> bm_get m key = None \<or> \<not> declares_key k action key"
  by (auto simp: prune_undeclared_context_def declares_key_def case_prod_beta prune_dom simp del: prune.simps split: option.splits declared.splits)

lemma prune_object: "is_object v \<Longrightarrow> is_object (fst (prune s v path))"
  by (cases s; cases v) (auto simp: is_object_def Let_def split: prod.splits)

lemma pruned_object: "is_object v \<Longrightarrow> is_object (fst (prune_undeclared_context k action v))"
  using prune_object prune_undeclared_is_prune [of k action v] by metis

section \<open>The context\<close>

text \<open>The keys the server takes out of, or writes over, what a caller sent.\<close>

definition server_keys :: "string set" where
  "server_keys = {''now'', ''asserted_by'', ''subject'', ''resource'', ''action'', ''subject_side_challenge'', ''decision_subject''}"

lemma bm_get_describe:
  "bm_get (describe ds ctx) k =
    (if k \<in> fst ` set ds then
       map_option JObject (Option.bind (map_of (rev ds) k) (\<lambda>p. p))
     else bm_get ctx k)"
proof (induction ds ctx rule: describe.induct)
  case (2 key properties ds ctx)
  have n: "map_of (rev ds) j = None \<longleftrightarrow> j \<notin> fst ` set ds" for j by (simp add: map_of_eq_None_iff)
  show ?case
  proof (cases "k \<in> fst ` set ds")
    case True
    then obtain p where "map_of (rev ds) k = Some p" using n [of k] by auto
    with True 2 show ?thesis by (cases properties) (simp_all add: Let_def map_add_def)
  next
    case False
    then have "map_of (rev ds) k = None" using n [of k] by simp
    with False 2 show ?thesis by (cases properties; cases "k = key") (simp_all add: Let_def map_add_def)
  qed
qed simp

lemma bm_wf_describe: "bm_wf ctx \<Longrightarrow> bm_wf (describe ds ctx)"
  by (induction ds ctx rule: describe.induct) (auto simp: Let_def split: option.splits)

lemma kernel_context_get:
  assumes "fst ` set ds = {''subject'', ''resource'', ''action''}"
  shows "jget (kernel_context c ds now) ''now'' = Some (JNumber (PosInt now))"
    and "jget (kernel_context c ds now) ''asserted_by'' = None"
    and "k \<notin> server_keys \<Longrightarrow> jget (kernel_context c ds now) k = bm_get c k"
  using assms by (auto simp: kernel_context_def bm_get_describe server_keys_def)

text \<open>Two contexts that differ in the server's own keys only are the same once these are out.\<close>

lemma kernel_context_rest:
  assumes "bm_wf c" and "bm_wf c'" and "\<And>k. k \<notin> server_keys \<Longrightarrow> bm_get c k = bm_get c' k"
    and "fst ` set ds = {''subject'', ''resource'', ''action''}"
  shows "\<exists>m m'. kernel_context c ds now = JObject m \<and> kernel_context c' ds now = JObject m' \<and> bm_wf m \<and> bm_wf m' \<and>
    (\<forall>k. k \<noteq> ''subject_side_challenge'' \<longrightarrow> k \<noteq> ''decision_subject'' \<longrightarrow> bm_get m k = bm_get m' k)"
proof -
  let ?m = "\<lambda>c. describe ds (bm_remove ''asserted_by'' (bm_insert ''now'' (JNumber (PosInt now)) c))"
  have "bm_get (?m c) k = bm_get (?m c') k" if k: "k \<noteq> ''subject_side_challenge''" "k \<noteq> ''decision_subject''" for k
  proof (cases "k \<in> fst ` set ds \<or> k = ''now'' \<or> k = ''asserted_by''")
    case True
    then show ?thesis by (auto simp: bm_get_describe)
  next
    case False
    then have "k \<notin> server_keys" using k assms(4) by (simp add: server_keys_def)
    with False assms(3) show ?thesis by (simp add: bm_get_describe)
  qed
  moreover have "bm_wf (?m c)" "bm_wf (?m c')" using assms(1,2) by (simp_all add: bm_wf_describe)
  ultimately show ?thesis unfolding kernel_context_def by blast
qed

text \<open>What is left of an object without a set of keys.\<close>

lemma strip_flags_JObject: "strip_client_approval_flags (JObject m) = JObject (bm_remove ''consent'' (bm_remove ''human_approved'' m))"
  by (simp add: strip_client_approval_flags_def)

lemma mission_context_JObject:
  "\<exists>f. \<forall>m. mission_context b (JObject m) a = JObject (f m) \<and> (bm_wf m \<longrightarrow> bm_wf (f m)) \<and>
    (\<forall>m' k. bm_get m k = bm_get m' k \<longrightarrow> bm_get (f m) k = bm_get (f m') k) \<and>
    (\<forall>k. k \<noteq> ''human_approved'' \<longrightarrow> k \<noteq> ''consent'' \<longrightarrow> bm_get (f m) k = bm_get m k) \<and>
    (b \<noteq> BindNone \<longrightarrow> bm_get (f m) ''consent'' = None \<and>
      bm_get (f m) ''human_approved'' = (if (\<exists>r. b = BindOk r) \<and> a = ''MoveMoney'' then Some (JBool True) else None))"
proof -
  let ?s = "\<lambda>m :: jmap. bm_remove ''consent'' (bm_remove ''human_approved'' m)"
  let ?f = "\<lambda>m. case b of BindNone \<Rightarrow> m | BindOk _ \<Rightarrow> if a = ''MoveMoney'' then bm_insert ''human_approved'' (JBool True) (?s m) else ?s m
    | BindDeny _ \<Rightarrow> ?s m"
  show ?thesis
    by (rule exI [of _ ?f], cases b) (auto simp: mission_context_def apply_mission_context_def strip_flags_JObject jset_def Let_def)
qed

section \<open>Preparing\<close>

text \<open>The three descriptions a request carries.\<close>

abbreviation descriptions :: "decide_req \<Rightarrow> (string \<times> jmap option) list" where
  "descriptions req \<equiv> [(''subject'', filter_properties (rr_properties (dq_subject req))),
     (''resource'', filter_properties (rr_properties (dq_resource req))), (''action'', filter_properties (ra_properties (dq_action req)))]"

lemma prepare_context_Inr [res_simps]:
  "prepare_context sx caller clock c ds = Inr (ctx, now, ab) \<longleftrightarrow>
    clock = Some now \<and> ctx = kernel_context c ds now \<and> \<not> context_too_large sx ctx \<and> ab = asserted_by_of caller"
  by (auto simp: prepare_context_def Let_def res_simps split: if_splits)

lemma prepare_Inr:
  assumes "prepare_decision st reg clock caller req g = (Inr p, g')"
  obtains now bound ctx4 mission challenge where "clock = Some now" "pr_now_s p = now"
    "bind_mission reg (k_directory (st_kernel st)) (st_require_mission st) (rr_id (dq_subject req)) (ra_name (dq_action req))
      (kernel_context (unwrap_or [] (dq_context req)) (descriptions req) now) now g = (bound, g')"
    "mission = fst (take_key ''mission'' (mission_context bound (kernel_context (unwrap_or [] (dq_context req)) (descriptions req) now) (ra_name (dq_action req))))"
    "ctx4 = snd (take_key ''decision_subject'' (snd (take_raw (snd (take_key ''mission''
      (mission_context bound (kernel_context (unwrap_or [] (dq_context req)) (descriptions req) now) (ra_name (dq_action req))))))))"
    "pr_ctx p = fst (prune_undeclared_context (st_kernel st) (ra_name (dq_action req)) ctx4)"
    "pr_subject p = \<lparr>er_ty = model_type st (rr_ty (dq_subject req)), er_id = rr_id (dq_subject req)\<rparr>"
    "pr_resource p = \<lparr>er_ty = model_type st (rr_ty (dq_resource req)), er_id = rr_id (dq_resource req)\<rparr>"
    "pr_action p = ra_name (dq_action req)" "pr_asserted_by p = asserted_by_of caller"
    "mo_bound (pr_mission p) = (case bound of BindOk r \<Rightarrow> Some r | _ \<Rightarrow> None)"
    "mo_errors (pr_mission p) = (case bound of BindDeny errs \<Rightarrow> errs | _ \<Rightarrow> [])"
    "mo_named (pr_mission p) = map_option named_pair mission"
    "kept_subject (st_ext st) (fst (take_key ''decision_subject'' (snd (take_raw (snd (take_key ''mission''
      (mission_context bound (kernel_context (unwrap_or [] (dq_context req)) (descriptions req) now) (ra_name (dq_action req)))))))))
      (rr_id (dq_subject req)) (resource_owner (k_directory (st_kernel st)) (rr_id (dq_resource req))) = Inr (pr_decision_subject p)"
proof -
  from assms obtain now where c: "clock = Some now"
    by (auto simp: prepare_decision_def res_simps Let_def split: option.splits sum.splits)
  let ?k = "kernel_context (unwrap_or [] (dq_context req)) (descriptions req) now"
  obtain bound g1 where b: "bind_mission reg (k_directory (st_kernel st)) (st_require_mission st) (rr_id (dq_subject req))
    (ra_name (dq_action req)) ?k now g = (bound, g1)" by force
  show ?thesis
    by (rule that [OF c, of bound]) (use assms c b in \<open>auto simp: prepare_decision_def res_simps take_decision_subject_def Let_def
      split: option.splits sum.splits prod.splits\<close>)
qed

lemma take_raw_JObject:
  "take_raw (JObject m) =
    (if bm_get m ''subject_side_challenge'' = Some JNull then None else bm_get m ''subject_side_challenge'',
     JObject (bm_remove ''subject_side_challenge'' m))"
  by (simp add: take_raw_def)

lemma prepared_context:
  assumes "prepare_decision st reg clock caller req g = (Inr p, g')"
  obtains now bound m where "clock = Some now" "pr_now_s p = now"
    "pr_ctx p = fst (prune_undeclared_context (st_kernel st) (ra_name (dq_action req))
      (JObject (bm_remove ''decision_subject'' (bm_remove ''subject_side_challenge'' (bm_remove ''mission'' m)))))"
    "mission_context bound (kernel_context (unwrap_or [] (dq_context req)) (descriptions req) now) (ra_name (dq_action req)) = JObject m"
    "mo_bound (pr_mission p) = (case bound of BindOk r \<Rightarrow> Some r | _ \<Rightarrow> None)"
    "mo_errors (pr_mission p) = (case bound of BindDeny errs \<Rightarrow> errs | _ \<Rightarrow> [])"
proof -
  from assms show ?thesis
  proof (rule prepare_Inr)
    fix now bound ctx4 mission
    let ?k = "kernel_context (unwrap_or [] (dq_context req)) (descriptions req) now" and ?a = "ra_name (dq_action req)"
    assume h: "clock = Some now" "pr_now_s p = now"
      "ctx4 = snd (take_key ''decision_subject'' (snd (take_raw (snd (take_key ''mission'' (mission_context bound ?k ?a))))))"
      "pr_ctx p = fst (prune_undeclared_context (st_kernel st) ?a ctx4)"
      "mo_bound (pr_mission p) = (case bound of BindOk r \<Rightarrow> Some r | _ \<Rightarrow> None)"
      "mo_errors (pr_mission p) = (case bound of BindDeny errs \<Rightarrow> errs | _ \<Rightarrow> [])"
    obtain m0 where "?k = JObject m0" by (simp add: kernel_context_def)
    with mission_context_JObject [of bound ?a] obtain m where m: "mission_context bound ?k ?a = JObject m" by metis
    have "ctx4 = JObject (bm_remove ''decision_subject'' (bm_remove ''subject_side_challenge'' (bm_remove ''mission'' m)))"
      using h(3) by (simp add: m take_raw_JObject)
    with h m show ?thesis using that [of now m bound] by simp
  qed
qed

lemma prepared_parties:
  assumes "prepare_decision st reg clock caller req g = (Inr p, g')"
  shows "pr_subject p = \<lparr>er_ty = model_type st (rr_ty (dq_subject req)), er_id = rr_id (dq_subject req)\<rparr>"
    and "pr_resource p = \<lparr>er_ty = model_type st (rr_ty (dq_resource req)), er_id = rr_id (dq_resource req)\<rparr>"
    and "pr_action p = ra_name (dq_action req)" and "pr_asserted_by p = asserted_by_of caller"
  using assms by (auto elim: prepare_Inr)

text \<open>\<open>ctx[k] = v\<close> is only ever done on an object.\<close>

lemma prepared_object:
  assumes "prepare_decision st reg clock caller req g = (Inr p, g')"
  shows "is_object (pr_ctx p)"
proof -
  from assms obtain m where "pr_ctx p = fst (prune_undeclared_context (st_kernel st) (ra_name (dq_action req)) (JObject m))"
    by (rule prepared_context)
  moreover have "is_object (JObject m)" by (simp add: is_object_def)
  ultimately show ?thesis by (simp add: pruned_object)
qed

section \<open>Evaluating\<close>

lemma evaluate_one_Inr:
  assumes "evaluate_one st en caller req w = (Inr e, w')"
  obtains p g ch where "prepare_decision st (en_registry en) (en_clock en) caller req (w_missions w) = (Inr p, g)" "w' = w\<lparr>w_missions := g\<rparr>"
    "answer_challenge st p = Inr ch" "record_of st p (decide_prepared st p) ch = Inr (ev_entry e, ev_shard e)"
    "ev_decision e = cr_decision (decide_prepared st p)" "ev_reasons e = cr_reasons (decide_prepared st p)"
    "ev_errors e = cr_errors (decide_prepared st p)"
proof -
  from assms obtain p g where p: "prepare_decision st (en_registry en) (en_clock en) caller req (w_missions w) = (Inr p, g)"
    by (auto simp: evaluate_one_def on_missions_def s_simps Let_def split: prod.splits)
  with assms obtain ch where c: "answer_challenge st p = Inr ch"
    by (auto simp: evaluate_one_def on_missions_def s_bind_def s_err_def s_look_def Let_def split: sum.splits)
  show ?thesis
    by (rule that [OF p _ c]) (use assms p c in \<open>auto simp: evaluate_one_def on_missions_def s_bind_def s_err_def s_look_def s_ret_def Let_def
      split: sum.splits\<close>)
qed

lemma record_of_Inr:
  assumes "record_of st p r ch = Inr (e, sh)"
  shows "e_decision e = cr_decision r" "e_reasons e = cr_reasons r" "e_subject_id e = er_id (pr_subject p)" "e_action e = pr_action p"
    "e_resource_id e = er_id (pr_resource p)" "e_mission e = mo_bound (pr_mission p)" "e_asserted_by e = pr_asserted_by p"
    "e_decision_subject e = pr_decision_subject p" "e_context e = recorded_context p" "e_challenge e = ch"
    "e_sponsor e = resolve_sponsor (k_directory (st_kernel st)) (er_id (pr_subject p))"
    "sh = shard_for (st_backend st) (k_directory (st_kernel st)) (er_id (pr_subject p))"
  using assms by (auto simp: record_of_def Let_def res_simps)

lemma decide_prepared_denies: "mo_errors (pr_mission p) \<noteq> [] \<Longrightarrow> \<not> cr_decision (decide_prepared st p)"
  by (simp add: decide_prepared_def Let_def)

section \<open>Missions that back a decision\<close>

text \<open>What a mission must be: live, granted by the named approver to this very subject, covering the
  action, within one tenant, and by an approver who still holds what it granted.\<close>

definition backed :: "directory \<Rightarrow> string \<Rightarrow> string \<Rightarrow> nat \<Rightarrow> mission_ref \<Rightarrow> mission_entry \<Rightarrow> bool" where
  "backed dir subject action now r m \<longleftrightarrow>
     \<not> me_terminated m \<and> now < me_expiry m \<and> me_approver m = mr_approver r \<and> me_agent m = subject \<and> mr_approver r \<noteq> subject \<and>
     (\<exists>scope a s. scope_for_action action = Some scope \<and> scope \<in> set (me_approved_tools m) \<and>
        bm_get (principals dir) (mr_approver r) = Some a \<and> bm_get (principals dir) subject = Some s \<and> p_tenant a = p_tenant s \<and>
        \<not> revoked dir (mr_approver r) \<and> int now \<le> p_expiry a \<and> scope \<in> set (p_scopes a))"

lemma mission_backs_Inr:
  assumes "mission_backs dir subject action approver s256 now m = Inr u"
  shows "backed dir subject action now \<lparr>mr_approver = approver, mr_s256 = s256\<rparr> m"
  using assms by (auto simp: mission_backs_def backed_def Let_def res_simps split: option.splits if_splits)

lemma bind_mission_Ok:
  assumes "bind_mission reg dir require subject action ctx now g = (BindOk r, g')"
  shows "\<exists>m. mr_status reg (mr_s256 r) g = (Inr (Some m), g') \<and> backed dir subject action now r m"
  using assms unfolding bind_mission_def
  by (auto simp: no_mission_bind_def bound_mission_def s_simps Let_def res_simps split: option.splits if_splits prod.splits sum.splits
      dest!: mission_backs_Inr)

lemma bind_mission_None:
  assumes "bind_mission reg dir require subject action ctx now g = (BindNone, g')"
  shows "\<not> require \<and> action \<noteq> ''MoveMoney'' \<and> (jget ctx ''mission'' = None \<or> jget ctx ''mission'' = Some JNull)"
  using assms by (auto simp: bind_mission_def no_mission_bind_def split: option.splits if_splits prod.splits sum.splits)

section \<open>Served as recorded\<close>

text \<open>An Allow under a mission that the registry, read in state \<open>g\<close>, does not report terminated.\<close>

definition still_backed :: "'m mission_registry \<Rightarrow> 'm \<Rightarrow> entry \<Rightarrow> bool" where
  "still_backed reg g e \<longleftrightarrow> (\<forall>r. e_decision e \<longrightarrow> e_mission e = Some r \<longrightarrow>
     (\<exists>found g'. mr_status reg (mr_s256 r) g = (Inr found, g') \<and> (\<forall>q. found = Some q \<longrightarrow> \<not> me_terminated q)))"

text \<open>The statuses of the refusals on the way to a decision.\<close>

lemma refusal_statuses:
  "rf_status (payload_too_large k t) = 413" "rf_status clock_unavailable = 503" "rf_status context_too_large_refusal = 413"
  "rf_status (unprocessable k t) = 422"
  by (simp_all add: payload_too_large_def clock_unavailable_def unavailable_def context_too_large_refusal_def unprocessable_def refusal_new_def)

lemma name_too_large_status: "name_too_large names = Some rf \<Longrightarrow> rf_status rf = 413"
  by (auto simp: name_too_large_def refusal_statuses)

lemma prepare_context_status: "prepare_context sx caller clock c ds = Inl rf \<Longrightarrow> rf_status rf \<in> {413, 503}"
  by (cases clock) (auto simp: prepare_context_def Let_def ok_or_def refusal_statuses split: if_splits)

lemma prepare_decision_status:
  assumes "prepare_decision st reg clock caller req g = (Inl rf, g')"
  shows "rf_status rf \<in> {413, 422, 503}"
proof (cases "name_too_large [(''subject.type'', rr_ty (dq_subject req)), (''subject.id'', rr_id (dq_subject req)),
    (''resource.type'', rr_ty (dq_resource req)), (''resource.id'', rr_id (dq_resource req)), (''action.name'', ra_name (dq_action req))]")
  case (Some r)
  with assms name_too_large_status [OF Some] show ?thesis by (simp add: prepare_decision_def Let_def)
next
  case None
  show ?thesis
  proof (cases "prepare_context (st_ext st) caller clock (unwrap_or [] (dq_context req)) (descriptions req)")
    case (Inl r)
    with assms None prepare_context_status [OF Inl] show ?thesis by (auto simp: prepare_decision_def Let_def)
  next
    case (Inr q)
    with assms None show ?thesis
      by (auto simp: prepare_decision_def Let_def refusal_statuses split: prod.splits sum.splits)
  qed
qed

lemma answer_challenge_status: "answer_challenge st p = Inl (Refuse rf) \<Longrightarrow> rf_status rf = 422"
  by (auto simp: answer_challenge_def server_digest_def res_bind_eq_Inl map_err_def ok_or_def refusal_statuses Let_def
      split: option.splits sum.splits prod.splits)

lemma record_of_Inl: "record_of st p r ch = Inl z \<Longrightarrow> z = Panic"
  by (auto simp: record_of_def Let_def server_digest_def res_bind_eq_Inl ok_or_def split: option.splits)

lemma evaluate_one_status:
  assumes "evaluate_one st en caller req w = (Inl (Refuse rf), w')"
  shows "rf_status rf \<in> {413, 422, 503}"
proof -
  obtain v g where p: "prepare_decision st (en_registry en) (en_clock en) caller req (w_missions w) = (v, g)" by force
  show ?thesis
  proof (cases v)
    case (Inl r)
    with assms p prepare_decision_status [OF p [unfolded Inl]] show ?thesis by (auto simp: evaluate_one_def on_missions_def s_bind_def s_err_def)
  next
    case (Inr q)
    show ?thesis
    proof (cases "answer_challenge st q")
      case (Inl z)
      with assms p Inr answer_challenge_status [of st q rf] show ?thesis
        by (auto simp: evaluate_one_def on_missions_def s_bind_def s_err_def s_look_def Let_def)
    next
      case (Inr ch)
      with assms p \<open>v = Inr q\<close> record_of_Inl [of st q "decide_prepared st q" ch "Refuse rf"] show ?thesis
        by (auto simp: evaluate_one_def on_missions_def s_bind_def s_err_def s_look_def s_ret_def Let_def split: sum.splits prod.splits)
    qed
  qed
qed

lemma admit_request_status: "admit_request caller req = Some r \<Longrightarrow> rs_status r = 403"
  by (auto simp: admit_request_def admit_named_def request_facts_def refuse_unless_admits_def refuse_description_unless_pep_def
      refuse_unless_pep_def refused_def split: option.splits if_splits bind_splits prod.splits)

context recorder
begin

lemma decide_one_cases:
  assumes "decide_one st en caller req w = (q, w')"
  obtains (refused) r where "admit_request caller req = Some r" "q = Some r" "w' = w"
  | (stopped) z where "admit_request caller req = None" "evaluate_one st en caller req w = (Inl z, w')"
      "q = (case z of Refuse r \<Rightarrow> Some (refusal_response r) | Panic \<Rightarrow> None)"
  | (recorded) e w1 r where "admit_request caller req = None" "evaluate_one st en caller req w = (Inr e, w1)"
      "record_decision st en (ev_shard e) (ev_entry e) w1 = (r, w')"
      "q = Some (case r of Inl z \<Rightarrow> not_recorded z | Inr y \<Rightarrow> ok_json (evaluation_body (e_decision y) (e_reasons y) (ev_errors e)))"
proof (cases "admit_request caller req")
  case (Some r)
  with assms show ?thesis by (intro refused [of r]) (simp_all add: decide_one_def)
next
  case None
  obtain v w1 where v: "evaluate_one st en caller req w = (v, w1)" by force
  show ?thesis
  proof (cases v)
    case (Inl z)
    with None v assms show ?thesis by (intro stopped [of z]) (auto simp: decide_one_def split: stop.splits)
  next
    case (Inr e)
    obtain r w2 where r: "record_decision st en (ev_shard e) (ev_entry e) w1 = (r, w2)" by force
    from None v Inr r assms show ?thesis
      by (intro recorded [of e w1 r]) (auto simp: decide_one_def record_and_respond_def split: sum.splits)
  qed
qed

lemma evaluate_keeps:
  assumes "evaluate_one st en caller req w = (v, w1)"
  shows "ok w1 = ok w" and "logs w1 = logs w"
proof -
  obtain v0 g where p: "prepare_decision st (en_registry en) (en_clock en) caller req (w_missions w) = (v0, g)" by force
  from assms p have "w1 = w\<lparr>w_missions := g\<rparr>"
    by (auto simp: evaluate_one_def on_missions_def s_bind_def s_err_def s_look_def s_ret_def Let_def split: sum.splits)
  then show "ok w1 = ok w" "logs w1 = logs w" by (simp_all add: missions_law)
qed

lemma recorded_line:
  assumes "ok w" and "fit en" and "record_decision st en sh e w = (Inr y, w')"
  shows "ok w' \<and> (\<exists>name line n e0 g. place st sh = Inr name \<and> logs w' = (logs w)(name := logs w name @ [line]) \<and> carries x line y \<and>
    y = e0\<lparr>e_seq := n\<rparr> \<and> settle (en_registry_later en) e (w_missions w) = (Inr e0, g))"
proof (cases "place st sh")
  case (Inl z)
  with record_law [OF assms] show ?thesis by simp
next
  case (Inr name)
  let ?s = "settle (en_registry_later en) e (w_missions w)"
  from record_law [OF assms] Inr have "ok w'" and
    "\<exists>new. grew x (\<lambda>e'. fst ?s = Inr e') (logs w) (logs w') name new \<and>
      (\<forall>e'. Inr y = (Inr e' :: ledger_error + entry) \<longrightarrow> (\<exists>line n e0. new = [line] \<and> carries x line e' \<and> e' = e0\<lparr>e_seq := n\<rparr> \<and> fst ?s = Inr e0))"
    by simp_all
  then obtain new where gr: "grew x (\<lambda>e'. fst ?s = Inr e') (logs w) (logs w') name new" and
    "\<forall>e'. Inr y = (Inr e' :: ledger_error + entry) \<longrightarrow> (\<exists>line n e0. new = [line] \<and> carries x line e' \<and> e' = e0\<lparr>e_seq := n\<rparr> \<and> fst ?s = Inr e0)"
    by (elim exE conjE)
  from this(2) [rule_format, OF refl] obtain line n e0 where "new = [line]" "carries x line y" "y = e0\<lparr>e_seq := n\<rparr>" "fst ?s = Inr e0"
    by (elim exE conjE)
  note this gr
  then have "logs w' = (logs w)(name := logs w name @ [line])" "?s = (Inr e0, snd ?s)" by (simp_all add: grew_def prod_eq_iff)
  with \<open>ok w'\<close> Inr \<open>carries x line y\<close> \<open>y = e0\<lparr>e_seq := n\<rparr>\<close> show ?thesis by blast
qed

text \<open>A request that is not answered with a decision left its log as it was, or with the one line of the
  decision that could not be reported as recorded.\<close>

lemma unserved_leaves:
  assumes "ok w" and "fit en" and "decide_one st en caller req w = (q, w')" and "\<forall>r. q = Some r \<longrightarrow> rs_status r \<noteq> 200"
  shows "ok w' \<and> (\<forall>r. q = Some r \<longrightarrow> rs_status r \<in> {403, 413, 422, 503}) \<and>
    (logs w' = logs w \<or> (\<exists>z ev w1 e0 name line. q = Some (not_recorded z) \<and> admit_request caller req = None \<and>
       evaluate_one st en caller req w = (Inr ev, w1) \<and>
       fst (settle (en_registry_later en) (ev_entry ev) (w_missions w1)) = Inr e0 \<and> place st (ev_shard ev) = Inr name \<and>
       logs w' = (logs w)(name := logs w name @ [line]) \<and> holds_entry x line e0))"
  using assms(3)
proof (cases rule: decide_one_cases)
  case (refused r)
  with assms(1) admit_request_status [of caller req r] show ?thesis by simp
next
  case (stopped z)
  have "\<forall>r. q = Some r \<longrightarrow> rs_status r \<in> {403, 413, 422, 503}"
  proof (cases z)
    case (Refuse rf)
    with evaluate_one_status [OF stopped(2) [unfolded Refuse]] stopped(3) show ?thesis by (auto simp: refusal_response_def refused_def)
  qed (use stopped(3) in simp)
  with evaluate_keeps [OF stopped(2)] assms(1) show ?thesis by simp
next
  case (recorded ev w1 r)
  let ?s = "settle (en_registry_later en) (ev_entry ev) (w_missions w1)"
  note k = evaluate_keeps [OF recorded(2)]
  obtain z where z: "r = Inl z" "q = Some (not_recorded z)"
    using recorded(4) assms(4) by (cases r) (auto simp: ok_json_def)
  have st: "rs_status (not_recorded z) = 503" by (simp add: not_recorded_def refused_def)
  have "ok w1" using k assms(1) by simp
  note law = record_law [OF this assms(2) recorded(3)]
  show ?thesis
  proof (cases "place st (ev_shard ev)")
    case (Inl y)
    with law k z st show ?thesis by simp
  next
    case (Inr name)
    with law obtain new where n: "ok w'" "grew x (\<lambda>e'. fst ?s = Inr e') (logs w1) (logs w') name new" by auto
    show ?thesis
    proof (cases new)
      case Nil
      with n k z st show ?thesis by (simp add: grew_def)
    next
      case (Cons line rest)
      with n(2) obtain e0 where e0: "new = [line]" "fst ?s = Inr e0" "holds_entry x line e0" by (auto simp: grew_def)
      moreover have "logs w' = (logs w)(name := logs w name @ [line])" using n(2) e0(1) k by (simp add: grew_def)
      ultimately show ?thesis using n(1) z st recorded(1,2) Inr by (intro conjI disjI2) (simp, simp, blast)
    qed
  qed
qed

text \<open>A decision is answered 200 only when its record is the one new line of its log, an Allow under a
  mission only while the mission, read again under the log's lock, is not terminated.\<close>

lemma served_recorded:
  assumes "ok w" and "fit en" and "decide_one st en caller req w = (Some resp, w')" and "rs_status resp = 200"
  shows "ok w' \<and> (\<exists>name line e errs. place st (shard_for (st_backend st) (k_directory (st_kernel st)) (rr_id (dq_subject req))) = Inr name \<and>
    logs w' = (logs w)(name := logs w name @ [line]) \<and> carries x line e \<and>
    resp = ok_json (evaluation_body (e_decision e) (e_reasons e) errs) \<and>
    e_subject_id e = rr_id (dq_subject req) \<and> e_action e = ra_name (dq_action req) \<and> e_resource_id e = rr_id (dq_resource req) \<and>
    e_asserted_by e = asserted_by_of caller \<and>
    still_backed (en_registry_later en) (w_missions (snd (evaluate_one st en caller req w))) e)"
  using assms(3)
proof (cases rule: decide_one_cases)
  case (refused r)
  with assms(4) admit_request_status [of caller req r] show ?thesis by simp
next
  case (stopped z)
  then obtain rf where z: "z = Refuse rf" "resp = refusal_response rf" by (cases z) auto
  have "rf_status rf \<noteq> 200" using evaluate_one_status [OF stopped(2) [unfolded z(1)]] by auto
  with assms(4) z(2) show ?thesis by (simp add: refusal_response_def refused_def)
next
  case (recorded e w1 r)
  from recorded(4) assms(4) obtain y where y: "r = Inr y" "resp = ok_json (evaluation_body (e_decision y) (e_reasons y) (ev_errors e))"
    by (cases r) (auto simp: not_recorded_def refused_def)
  note k = evaluate_keeps [OF recorded(2)]
  from recorded(2) show ?thesis
  proof (rule evaluate_one_Inr)
    fix p g ch assume pr: "prepare_decision st (en_registry en) (en_clock en) caller req (w_missions w) = (Inr p, g)"
      and ro: "record_of st p (decide_prepared st p) ch = Inr (ev_entry e, ev_shard e)"
    note q = prepared_parties [OF pr]
    note ro' = record_of_Inr [OF ro]
    from recorded_line [OF _ assms(2) recorded(3) [unfolded y(1)]] assms(1) k obtain name line n e0 g1 where
      n: "ok w'" "place st (ev_shard e) = Inr name" and gr: "logs w' = (logs w)(name := logs w name @ [line])"
      and l: "carries x line y" "y = e0\<lparr>e_seq := n\<rparr>" and s: "settle (en_registry_later en) (ev_entry e) (w_missions w1) = (Inr e0, g1)"
      by auto
    have "e_mission (ev_entry e) = e_mission y" "e_decision y = e_decision e0" using settle_Inr(1) [OF s] l(2) by auto
    with settle_Inr(2) [OF s] recorded(2) have sb: "still_backed (en_registry_later en) (w_missions (snd (evaluate_one st en caller req w))) y"
      unfolding still_backed_def by auto
    from settle_Inr(1) [OF s] l(2) have "e_subject_id y = e_subject_id (ev_entry e)" "e_action y = e_action (ev_entry e)"
      "e_resource_id y = e_resource_id (ev_entry e)" "e_asserted_by y = e_asserted_by (ev_entry e)" by auto
    with ro' q have "e_subject_id y = rr_id (dq_subject req)" "e_action y = ra_name (dq_action req)" "e_resource_id y = rr_id (dq_resource req)"
      "e_asserted_by y = asserted_by_of caller" by simp_all
    with n gr l(1) y(2) ro'(12) q(1) sb show ?thesis by auto
  qed
qed

end

end
