(* ===== verification/Served.thy ===== *)
theory Served
  imports Decisions Jcs_Canonical
begin

text \<open>
  The properties of the decision endpoint. Each is stated over the code's own definitions and rests
  on the lemmas of \<open>Decisions\<close>; those about a record are the facts of the two
  interpretations of \<open>recorder\<close>.
\<close>

section \<open>The context of a mission\<close>

lemma mission_context_same:
  assumes "mission_context b (JObject m0) a = JObject m" and "k \<noteq> ''human_approved''" and "k \<noteq> ''consent''"
  shows "bm_get m k = bm_get m0 k"
  using assms by (cases b) (auto simp: mission_context_def apply_mission_context_def strip_flags_JObject jset_def Let_def split: if_splits)

lemma mission_context_flags:
  assumes "mission_context b (JObject m0) a = JObject m" and "b \<noteq> BindNone"
  shows "bm_get m ''consent'' = None"
    and "bm_get m ''human_approved'' = (if (\<exists>r. b = BindOk r) \<and> a = ''MoveMoney'' then Some (JBool True) else None)"
  using assms by (cases b; auto simp: mission_context_def apply_mission_context_def strip_flags_JObject jset_def Let_def split: if_splits)+

lemma mission_context_object: "\<exists>m. mission_context b (kernel_context c ds now) a = JObject m"
  by (cases b) (simp_all add: mission_context_def kernel_context_def apply_mission_context_def strip_flags_JObject jset_def Let_def)

lemma request_context_get:
  assumes "mission_context b (kernel_context c (descriptions req) now) a = JObject m"
  shows "bm_get m ''now'' = Some (JNumber (PosInt now))" and "bm_get m ''asserted_by'' = None"
    and "bm_get m ''subject'' = map_option JObject (filter_properties (rr_properties (dq_subject req)))"
    and "bm_get m ''resource'' = map_option JObject (filter_properties (rr_properties (dq_resource req)))"
    and "bm_get m ''action'' = map_option JObject (filter_properties (ra_properties (dq_action req)))"
    and "b \<noteq> BindNone \<Longrightarrow> bm_get m ''consent'' = None"
    and "b \<noteq> BindNone \<Longrightarrow> bm_get m ''human_approved'' = (if (\<exists>r. b = BindOk r) \<and> a = ''MoveMoney'' then Some (JBool True) else None)"
    and "bm_get m ''decision_subject'' = bm_get c ''decision_subject''"
proof -
  obtain m0 where k: "kernel_context c (descriptions req) now = JObject m0" by (simp add: kernel_context_def)
  note same = mission_context_same [OF assms [unfolded k]] and flags = mission_context_flags [OF assms [unfolded k]]
  have m0: "m0 = describe (descriptions req) (bm_remove ''asserted_by'' (bm_insert ''now'' (JNumber (PosInt now)) c))"
    using k by (simp add: kernel_context_def)
  show "bm_get m ''now'' = Some (JNumber (PosInt now))" "bm_get m ''asserted_by'' = None"
    "bm_get m ''subject'' = map_option JObject (filter_properties (rr_properties (dq_subject req)))"
    "bm_get m ''resource'' = map_option JObject (filter_properties (rr_properties (dq_resource req)))"
    "bm_get m ''action'' = map_option JObject (filter_properties (ra_properties (dq_action req)))"
    "bm_get m ''decision_subject'' = bm_get c ''decision_subject''"
    by (simp_all add: same m0 bm_get_describe del: describe.simps)
qed (use assms in \<open>auto simp: kernel_context_def dest: mission_context_flags\<close>)

lemma prepared_lookup:
  assumes "prepare_decision st reg clock caller req g = (Inr p, g')"
  obtains bound m where "clock = Some (pr_now_s p)"
    "mission_context bound (kernel_context (unwrap_or [] (dq_context req)) (descriptions req) (pr_now_s p)) (ra_name (dq_action req)) = JObject m"
    "mo_bound (pr_mission p) = (case bound of BindOk r \<Rightarrow> Some r | _ \<Rightarrow> None)"
    "mo_errors (pr_mission p) = (case bound of BindDeny errs \<Rightarrow> errs | _ \<Rightarrow> [])"
    "\<forall>q u. jget (pr_ctx p) q = Some u \<longrightarrow> q \<notin> {''mission'', ''subject_side_challenge'', ''decision_subject''} \<and>
      (\<exists>u0. bm_get m q = Some u0 \<and> (is_object u0 \<or> u = u0))"
    "\<forall>q. q \<notin> {''mission'', ''subject_side_challenge'', ''decision_subject''} \<longrightarrow>
      (jget (pr_ctx p) q = None \<longleftrightarrow> bm_get m q = None \<or> \<not> declares_key (st_kernel st) (ra_name (dq_action req)) q)"
  using assms
proof (rule prepared_context)
  fix now bound m
  assume h: "clock = Some now" "pr_now_s p = now" "pr_ctx p = fst (prune_undeclared_context (st_kernel st) (ra_name (dq_action req))
      (JObject (bm_remove ''decision_subject'' (bm_remove ''subject_side_challenge'' (bm_remove ''mission'' m)))))"
    "mission_context bound (kernel_context (unwrap_or [] (dq_context req)) (descriptions req) now) (ra_name (dq_action req)) = JObject m"
    "mo_bound (pr_mission p) = (case bound of BindOk r \<Rightarrow> Some r | _ \<Rightarrow> None)"
    "mo_errors (pr_mission p) = (case bound of BindDeny errs \<Rightarrow> errs | _ \<Rightarrow> [])"
  have "\<forall>q u. jget (pr_ctx p) q = Some u \<longrightarrow> q \<notin> {''mission'', ''subject_side_challenge'', ''decision_subject''} \<and>
      (\<exists>u0. bm_get m q = Some u0 \<and> (is_object u0 \<or> u = u0))"
  proof (intro allI impI)
    fix q u assume "jget (pr_ctx p) q = Some u"
    from pruned_get [OF this [unfolded h(3)]] show "q \<notin> {''mission'', ''subject_side_challenge'', ''decision_subject''} \<and>
      (\<exists>u0. bm_get m q = Some u0 \<and> (is_object u0 \<or> u = u0))" by (auto split: if_splits)
  qed
  moreover have "\<forall>q. q \<notin> {''mission'', ''subject_side_challenge'', ''decision_subject''} \<longrightarrow>
      (jget (pr_ctx p) q = None \<longleftrightarrow> bm_get m q = None \<or> \<not> declares_key (st_kernel st) (ra_name (dq_action req)) q)"
    unfolding h(3) pruned_dom by simp
  ultimately show thesis by (rule that [OF h(1) [folded h(2)] h(4) [folded h(2)] h(5,6)])
qed

lemma bind_mission_cong:
  "jget ctx ''mission'' = jget ctx' ''mission'' \<Longrightarrow>
    bind_mission reg dir require subject action ctx now g = bind_mission reg dir require subject action ctx' now g"
  by (simp add: bind_mission_def)

text \<open>What the kernel is given does not depend on a challenge or a decision subject.\<close>

lemma mission_context_rest:
  assumes "bm_wf m" and "bm_wf m'" and "\<forall>k. k \<noteq> ''subject_side_challenge'' \<longrightarrow> k \<noteq> ''decision_subject'' \<longrightarrow> bm_get m k = bm_get m' k"
  shows "snd (take_key ''decision_subject'' (snd (take_raw (snd (take_key ''mission'' (mission_context b (JObject m) a)))))) =
    snd (take_key ''decision_subject'' (snd (take_raw (snd (take_key ''mission'' (mission_context b (JObject m') a))))))"
proof -
  from mission_context_JObject [of b a] obtain f where
    f: "\<And>m. mission_context b (JObject m) a = JObject (f m)" "\<And>m. bm_wf m \<Longrightarrow> bm_wf (f m)"
      "\<And>m m' k. bm_get m k = bm_get m' k \<Longrightarrow> bm_get (f m) k = bm_get (f m') k" by metis
  let ?r = "\<lambda>m :: jmap. bm_remove ''decision_subject'' (bm_remove ''subject_side_challenge'' (bm_remove ''mission'' m))"
  have "?r (f m) = ?r (f m')"
  proof (rule bm_ext)
    show "bm_get (?r (f m)) k = bm_get (?r (f m')) k" for k using assms(3) f(3) [of m k m'] by simp
  qed (use assms(1,2) f(2) in simp_all)
  then show ?thesis by (simp add: f(1) take_raw_JObject)
qed

lemma bind_mission_Deny: "bind_mission reg dir require subject action ctx now g = (BindDeny errs, g') \<Longrightarrow> errs \<noteq> []"
  by (auto simp: bind_mission_def no_mission_bind_def split: option.splits if_splits prod.splits sum.splits)

section \<open>A caller bound to itself\<close>

lemma admit_request_None:
  assumes "admit_request (Some who) req = None" and "au_bind who = SelfOnly"
  shows "rr_id (dq_subject req) = au_subject who" and "\<not> says_something (rr_properties (dq_subject req))"
    and "\<not> says_something (rr_properties (dq_resource req))" and "\<not> says_something (ra_properties (dq_action req))"
    and "\<And>h. named_decision_subject (bm_get (unwrap_or [] (dq_context req)) ''decision_subject'') = Some h \<Longrightarrow> h = au_subject who"
proof -
  from assms have a: "refuse_unless_admits (Some who) (rr_id (dq_subject req)) = None"
    "Option.bind (Option.bind (dq_context req) (\<lambda>c. named_decision_subject (bm_get c ''decision_subject''))) (refuse_unless_admits (Some who)) = None"
    "\<not> list_ex says_something [rr_properties (dq_subject req), rr_properties (dq_resource req), ra_properties (dq_action req)]"
    by (auto simp: admit_request_def admit_named_def request_facts_def refuse_description_unless_pep_def refuse_unless_pep_def
        split: option.splits if_splits)
  then show "rr_id (dq_subject req) = au_subject who" "\<not> says_something (rr_properties (dq_subject req))"
    "\<not> says_something (rr_properties (dq_resource req))" "\<not> says_something (ra_properties (dq_action req))"
    using assms(2) by (simp_all add: refuse_unless_admits_None admits_def)
  fix h assume "named_decision_subject (bm_get (unwrap_or [] (dq_context req)) ''decision_subject'') = Some h"
  then have "Option.bind (dq_context req) (\<lambda>c. named_decision_subject (bm_get c ''decision_subject'')) = Some h"
    by (cases "dq_context req") (simp_all add: named_decision_subject_def)
  with a(2) assms(2) show "h = au_subject who" by (simp add: refuse_unless_admits_None admits_def)
qed

lemma recorded_context_get: "is_object (pr_ctx p) \<Longrightarrow> k \<noteq> ''mission'' \<Longrightarrow> jget (recorded_context p) k = jget (pr_ctx p) k"
  by (cases "pr_ctx p") (simp_all add: recorded_context_def jset_def is_object_def split: option.splits)

text \<open>A decision subject that is the subject itself is not kept.\<close>

lemma kept_subject_self:
  assumes "kept_subject sx raw i owner = Inr ds" and "\<And>h. named_decision_subject raw = Some h \<Longrightarrow> h = i"
  shows "ds = None"
proof (cases raw)
  case (Some v)
  have "ds_handle d = i" if "de_decision_subject v = Some d" for d
    using assms(2) Some that
    by (auto simp: de_decision_subject_def named_decision_subject_def jget_str_def as_str_def Let_def split: json.splits option.splits)
  with assms(1) Some show ?thesis by (auto simp: kept_subject_def split: json.splits option.splits if_splits)
qed (use assms(1) in \<open>simp add: kept_subject_def\<close>)

section \<open>A demonstration server\<close>

definition demo_person :: "string \<Rightarrow> string list \<Rightarrow> principal_rec" where
  "demo_person i scopes = \<lparr>p_id = i, p_kind = '''', p_tenant = ''acme'', p_expiry = 80, p_scopes = scopes, p_delegator = None,
     p_org = None, p_roles = [], p_jurisdictions = [], p_revoked = False\<rparr>"

definition demo_people :: directory where
  "demo_people = \<lparr>principals = [(''alice'', demo_person ''alice'' [''read'']), (''root'', demo_person ''root'' [])], resources = [], orgs = []\<rparr>"

definition demo_site :: srv_ext where
  "demo_site = demo_srv\<lparr>sx_jcs := demo_jcs\<rparr>"

definition demo_state :: "backend \<Rightarrow> (unit, unit, json, json, euid \<times> euid \<times> json) app_state" where
  "demo_state backend = \<lparr>st_ext = demo_site, st_cedar = demo_cedar,
     st_kernel = \<lparr>k_schema = (), k_context_shape = [(''Read'', Record [(''now'', Opaque)])], k_context_union = Opaque, k_policies = [],
       k_entities = JNull, k_directory = demo_people\<rparr>,
     st_model = demo_model, st_backend = backend, st_type_aliases = [], st_require_mission = True, st_standing_issuers = [],
     st_authority_digest = ''''\<rparr>"

definition demo_mission_json :: json where
  "demo_mission_json = JObject [(''approver'', JString ''alice''), (''s256'', JString ''m'')]"

definition demo_request :: "jmap \<Rightarrow> decide_req" where
  "demo_request c = \<lparr>dq_subject = \<lparr>rr_ty = ''Principal'', rr_id = ''root'', rr_properties = None\<rparr>,
     dq_action = \<lparr>ra_name = ''Read'', ra_properties = None\<rparr>,
     dq_resource = \<lparr>rr_ty = ''Resource'', rr_id = ''doc'', rr_properties = None\<rparr>, dq_context = Some c\<rparr>"

definition demo_missions :: memory_missions where
  "demo_missions = \<lparr>mm_map = [(''m'', \<lparr>me_approver = ''alice'', me_expiry = 90, me_terminated = False, me_agent = ''root'',
     me_approved_tools = [''read'']\<rparr>)], mm_poisoned = False\<rparr>"

definition demo_mission_ctx :: jmap where
  "demo_mission_ctx = [(''mission'', demo_mission_json)]"

lemmas demo_server_simps = demo_person_def demo_people_def demo_state_def demo_mission_json_def demo_request_def demo_missions_def demo_mission_ctx_def

text \<open>The demonstration request is answered under the mission, at five seconds.\<close>

definition demo_after :: "mission_bind \<Rightarrow> caller \<Rightarrow> prepared" where
  "demo_after bound caller = \<lparr>pr_now_s = 5, pr_subject = \<lparr>er_ty = ''Principal'', er_id = ''root''\<rparr>, pr_action = ''Read'',
     pr_resource = \<lparr>er_ty = ''Resource'', er_id = ''doc''\<rparr>, pr_ctx = JObject [(''now'', JNumber (PosInt 5))], pr_asserted_by = asserted_by_of caller,
     pr_mission = \<lparr>mo_bound = (case bound of BindOk r \<Rightarrow> Some r | _ \<Rightarrow> None), mo_errors = (case bound of BindDeny errs \<Rightarrow> errs | _ \<Rightarrow> []),
       mo_named = Some (named_pair demo_mission_json)\<rparr>,
     pr_challenge = None, pr_decision_subject = None\<rparr>"

abbreviation demo_bound :: "caller \<Rightarrow> prepared" where
  "demo_bound \<equiv> demo_after (BindOk \<lparr>mr_approver = ''alice'', mr_s256 = ''m''\<rparr>)"

lemma demo_binds:
  "bind_mission memory_registry demo_people True ''root'' ''Read'' (JObject [(''mission'', demo_mission_json), (''now'', JNumber (PosInt 5))]) 5
    demo_missions = (BindOk \<lparr>mr_approver = ''alice'', mr_s256 = ''m''\<rparr>, demo_missions)"
  by code_simp

lemma demo_names: "name_too_large [(''subject.type'', ''Principal''), (''subject.id'', ''root''), (''resource.type'', ''Resource''),
      (''resource.id'', ''doc''), (''action.name'', ''Read'')] = None"
  by (simp add: name_too_large_def max_name_bytes_def)

lemma demo_canonical: "\<exists>t. canonicalize (sx_jcs demo_site) (parameters_json (demo_after bound caller) (recorded_context (demo_after bound caller))) = Some t"
proof -
  have "json_ok (parameters_json (demo_after bound caller) (recorded_context (demo_after bound caller)))"
    by (cases bound) (simp_all add: parameters_json_def jobj_def entity_json_def opt_json_def recorded_context_def jset_def named_pair_def demo_after_def
      bm_of_list_def Let_def bm_wf_def)
  with write_total [OF demo_jcs_laws] show ?thesis by (simp add: canonicalize_def demo_site_def)
qed

lemma demo_prepares:
  assumes "bind_mission reg demo_people True ''root'' ''Read'' (JObject [(''mission'', demo_mission_json), (''now'', JNumber (PosInt 5))]) 5 g = (bound, g')"
  shows "prepare_decision (demo_state backend) reg (Some 5) caller (demo_request demo_mission_ctx) g = (Inr (demo_after bound caller), g')"
proof -
  have c: "prepare_context demo_site caller (Some 5) demo_mission_ctx [(''subject'', None), (''resource'', None), (''action'', None)] =
      Inr (JObject [(''mission'', demo_mission_json), (''now'', JNumber (PosInt 5))], 5, asserted_by_of caller)"
    by (simp add: prepare_context_def kernel_context_def demo_mission_ctx_def context_too_large_def max_context_bytes_def demo_site_def demo_srv_def
      bm_remove_def bm_retain_def)
  have t: "take_decision_subject demo_site (JObject [(''now'', JNumber (PosInt 5))]) ''root'' None = (Inr None, JObject [(''now'', JNumber (PosInt 5))])"
    by (simp add: take_decision_subject_def kept_subject_def bm_remove_def bm_retain_def)
  have m: "mission_context bound (JObject [(''mission'', demo_mission_json), (''now'', JNumber (PosInt 5))]) ''Read'' =
      JObject [(''mission'', demo_mission_json), (''now'', JNumber (PosInt 5))]"
    by (cases bound) (simp_all add: mission_context_def apply_mission_context_def strip_flags_JObject bm_remove_def bm_retain_def)
  have "fst (prune_undeclared_context (st_kernel (demo_state backend)) ''Read'' (JObject [(''now'', JNumber (PosInt 5))])) = JObject [(''now'', JNumber (PosInt 5))]"
    by code_simp
  moreover have "resource_owner demo_people ''doc'' = None" by (simp add: resource_owner_def demo_people_def)
  ultimately show ?thesis
    using demo_names c assms t m
    by (simp add: prepare_decision_def Let_def demo_request_def demo_state_def filter_properties_def says_something_def
      take_raw_JObject bm_remove_def bm_retain_def model_type_def demo_after_def)
qed

lemmas demo_prepared = demo_prepares [OF demo_binds]

text \<open>The server's environment in the demonstration: nothing fails, and the registry is in memory.\<close>

definition demo_env :: "(disk, memory_missions) env" where
  "demo_env = \<lparr>en_clock = Some 5, en_io = no_faults, en_heads = demo_heads calm, en_registry = memory_registry, en_registry_later = memory_registry\<rparr>"

definition demo_world :: "(disk, memory_missions) world" where
  "demo_world = \<lparr>w_single = (demo_disk1, demo_ledger), w_poisoned = False, w_heads = demo_root, w_missions = demo_missions\<rparr>"

lemma demo_evaluates:
  "\<exists>e. evaluate_one (demo_state backend) demo_env caller (demo_request demo_mission_ctx) demo_world = (Inr e, demo_world) \<and> e_decision (ev_entry e) \<and>
    e_mission (ev_entry e) = Some \<lparr>mr_approver = ''alice'', mr_s256 = ''m''\<rparr> \<and> ev_shard e = shard_for backend demo_people ''root''"
proof -
  let ?st = "demo_state backend" and ?p = "demo_bound caller"
  have c: "answer_challenge ?st ?p = Inr None" by (simp add: answer_challenge_def demo_after_def)
  have d: "cr_decision (decide_prepared ?st ?p)"
    by (simp add: decide_prepared_def check_def uid_def demo_state_def demo_after_def demo_cedar_def is_object_def as_u64_def Let_def)
  obtain t where "canonicalize (sx_jcs demo_site) (parameters_json ?p (recorded_context ?p)) = Some t" using demo_canonical by blast
  then obtain e where "record_of ?st ?p (decide_prepared ?st ?p) None = Inr (e, shard_for backend demo_people ''root'')" "e_decision e"
      "e_mission e = Some \<lparr>mr_approver = ''alice'', mr_s256 = ''m''\<rparr>"
    using d by (simp add: record_of_def server_digest_def digest_def Let_def demo_state_def demo_after_def)
  with c demo_prepared show ?thesis
    by (simp add: evaluate_one_def on_missions_def s_bind_def s_err_def s_look_def s_ret_def Let_def demo_env_def demo_world_def)
qed

section \<open>Properties\<close>

text \<open>C12: the kernel decides on the server's facts: the context it is given is always an object, with the
  server's clock exactly where the action's declared context has one and never another; it carries
  neither the caller's claim of who asserts nor the mission, the challenge and the decision subject; a
  party is described in it exactly where the action declares that and the request's properties of the
  party say something; and once a mission is bound or refused an approval flag is there only as the
  server set it.\<close>

theorem kernel_sees_server_facts:
  assumes "prepare_decision st reg clock caller req g = (Inr p, g')"
  shows "clock = Some (pr_now_s p) \<and> is_object (pr_ctx p) \<and>
    jget (pr_ctx p) ''now'' = (if declares_key (st_kernel st) (pr_action p) ''now'' then Some (JNumber (PosInt (pr_now_s p))) else None) \<and>
    (\<forall>k \<in> {''asserted_by'', ''mission'', ''subject_side_challenge'', ''decision_subject''}. jget (pr_ctx p) k = None) \<and>
    (jget (pr_ctx p) ''subject'' \<noteq> None \<longleftrightarrow> says_something (rr_properties (dq_subject req)) \<and> declares_key (st_kernel st) (pr_action p) ''subject'') \<and>
    (jget (pr_ctx p) ''resource'' \<noteq> None \<longleftrightarrow> says_something (rr_properties (dq_resource req)) \<and> declares_key (st_kernel st) (pr_action p) ''resource'') \<and>
    (jget (pr_ctx p) ''action'' \<noteq> None \<longleftrightarrow> says_something (ra_properties (dq_action req)) \<and> declares_key (st_kernel st) (pr_action p) ''action'') \<and>
    (mo_bound (pr_mission p) \<noteq> None \<or> mo_errors (pr_mission p) \<noteq> [] \<longrightarrow> jget (pr_ctx p) ''consent'' = None \<and>
      (\<forall>v. jget (pr_ctx p) ''human_approved'' = Some v \<longrightarrow>
        v = JBool True \<and> mo_bound (pr_mission p) \<noteq> None \<and> pr_action p = ''MoveMoney''))"
proof -
  from assms obtain bound m where
    l: "clock = Some (pr_now_s p)"
      "mission_context bound (kernel_context (unwrap_or [] (dq_context req)) (descriptions req) (pr_now_s p)) (ra_name (dq_action req)) = JObject m"
      "mo_bound (pr_mission p) = (case bound of BindOk r \<Rightarrow> Some r | _ \<Rightarrow> None)"
      "mo_errors (pr_mission p) = (case bound of BindDeny errs \<Rightarrow> errs | _ \<Rightarrow> [])"
    and got: "\<forall>q u. jget (pr_ctx p) q = Some u \<longrightarrow> q \<notin> {''mission'', ''subject_side_challenge'', ''decision_subject''} \<and>
      (\<exists>u0. bm_get m q = Some u0 \<and> (is_object u0 \<or> u = u0))"
    and dom: "\<forall>q. q \<notin> {''mission'', ''subject_side_challenge'', ''decision_subject''} \<longrightarrow>
      (jget (pr_ctx p) q = None \<longleftrightarrow> bm_get m q = None \<or> \<not> declares_key (st_kernel st) (ra_name (dq_action req)) q)"
    by (rule prepared_lookup)
  note got = got [rule_format] and dom = dom [rule_format]
  note m = request_context_get [OF l(2)] and a = prepared_parties(3) [OF assms]
  have none: "jget (pr_ctx p) q = None" if "bm_get m q = None \<or> q \<in> {''mission'', ''subject_side_challenge'', ''decision_subject''}" for q
    using that got [of q] by (cases "jget (pr_ctx p) q") fastforce+
  have says: "jget (pr_ctx p) q \<noteq> None \<longleftrightarrow> says_something P \<and> declares_key (st_kernel st) (pr_action p) q"
    if "q \<in> {''subject'', ''resource'', ''action''}" "bm_get m q = map_option JObject (filter_properties P)" for q P
    using dom [of q] that a by (auto simp: filter_properties_def says_something_def split: if_splits option.splits)
  have fl: "jget (pr_ctx p) ''consent'' = None \<and> (\<forall>v. jget (pr_ctx p) ''human_approved'' = Some v \<longrightarrow>
      v = JBool True \<and> mo_bound (pr_mission p) \<noteq> None \<and> pr_action p = ''MoveMoney'')"
    if "mo_bound (pr_mission p) \<noteq> None \<or> mo_errors (pr_mission p) \<noteq> []"
  proof -
    have b: "bound \<noteq> BindNone" using that l(3,4) by auto
    have "v = JBool True \<and> mo_bound (pr_mission p) \<noteq> None \<and> pr_action p = ''MoveMoney''" if v: "jget (pr_ctx p) ''human_approved'' = Some v" for v
      using got [OF v] m(7) [OF b] l(3) a by (auto simp: is_object_def split: if_splits)
    with none [of "''consent''"] m(6) [OF b] show ?thesis by simp
  qed
  show ?thesis
  proof (intro conjI)
    show "clock = Some (pr_now_s p)" by (rule l(1))
    show "is_object (pr_ctx p)" by (rule prepared_object [OF assms])
    show "jget (pr_ctx p) ''now'' = (if declares_key (st_kernel st) (pr_action p) ''now'' then Some (JNumber (PosInt (pr_now_s p))) else None)"
      using got [of "''now''"] dom [of "''now''"] m(1) a by (cases "jget (pr_ctx p) ''now''") (auto simp: is_object_def)
    show "\<forall>k \<in> {''asserted_by'', ''mission'', ''subject_side_challenge'', ''decision_subject''}. jget (pr_ctx p) k = None"
      using none [of "''asserted_by''"] none [of "''mission''"] none [of "''subject_side_challenge''"] none [of "''decision_subject''"] m(2) by simp
  qed (rule says [OF _ m(3)] says [OF _ m(4)] says [OF _ m(5)], simp | intro impI fl, assumption)+
qed

theorem kernel_sees_server_facts_witness:
  "jget (pr_ctx (demo_bound None)) ''now'' = Some (JNumber (PosInt 5)) \<and> mo_bound (pr_mission (demo_bound None)) \<noteq> None \<and>
    jget (pr_ctx (demo_bound None)) ''mission'' = None \<and> jget (pr_ctx (demo_bound None)) ''consent'' = None"
proof -
  have "jget (pr_ctx (demo_bound None)) ''now'' = Some (JNumber (PosInt 5))" "mo_bound (pr_mission (demo_bound None)) \<noteq> None" by (simp_all add: demo_after_def)
  with kernel_sees_server_facts [OF demo_prepared] show ?thesis by simp
qed

text \<open>C11: what a caller says under the server's own keys never decides: two requests that differ only in
  the keys the server writes over, takes out or answers beside the decision -- the clock, the
  descriptions, who asserts, the challenge, the decision subject -- are decided alike.\<close>

theorem descriptive_keys_never_decide:
  assumes "prepare_decision st reg clock caller (req\<lparr>dq_context := Some c\<rparr>) g = (Inr p, g1)"
    and "prepare_decision st reg clock caller (req\<lparr>dq_context := Some c'\<rparr>) g = (Inr p', g2)"
    and "bm_wf c" and "bm_wf c'" and "\<And>k. k \<notin> server_keys \<Longrightarrow> bm_get c k = bm_get c' k"
  shows "decide_prepared st p = decide_prepared st p' \<and> g1 = g2"
proof -
  let ?a = "ra_name (dq_action req)" and ?ds = "descriptions req"
  from assms(1) obtain now b where h: "clock = Some now"
    "bind_mission reg (k_directory (st_kernel st)) (st_require_mission st) (rr_id (dq_subject req)) ?a (kernel_context c ?ds now) now g = (b, g1)"
    "pr_ctx p = fst (prune_undeclared_context (st_kernel st) ?a (snd (take_key ''decision_subject'' (snd (take_raw (snd (take_key ''mission''
      (mission_context b (kernel_context c ?ds now) ?a))))))))" "mo_errors (pr_mission p) = (case b of BindDeny errs \<Rightarrow> errs | _ \<Rightarrow> [])"
    by (rule prepare_Inr) simp
  from assms(2) h(1) obtain b' where h': 
    "bind_mission reg (k_directory (st_kernel st)) (st_require_mission st) (rr_id (dq_subject req)) ?a (kernel_context c' ?ds now) now g = (b', g2)"
    "pr_ctx p' = fst (prune_undeclared_context (st_kernel st) ?a (snd (take_key ''decision_subject'' (snd (take_raw (snd (take_key ''mission''
      (mission_context b' (kernel_context c' ?ds now) ?a))))))))" "mo_errors (pr_mission p') = (case b' of BindDeny errs \<Rightarrow> errs | _ \<Rightarrow> [])"
    by - (rule prepare_Inr, assumption, simp)
  have ds: "fst ` set ?ds = {''subject'', ''resource'', ''action''}" by auto
  have "\<exists>m m'. kernel_context c ?ds now = JObject m \<and> kernel_context c' ?ds now = JObject m' \<and> bm_wf m \<and> bm_wf m' \<and>
    (\<forall>k. k \<noteq> ''subject_side_challenge'' \<longrightarrow> k \<noteq> ''decision_subject'' \<longrightarrow> bm_get m k = bm_get m' k)"
    by (rule kernel_context_rest [OF assms(3,4) _ ds]) (rule assms(5))
  then obtain m m' where m: "kernel_context c ?ds now = JObject m" "kernel_context c' ?ds now = JObject m'"
    "bm_wf m" "bm_wf m'" "\<forall>k. k \<noteq> ''subject_side_challenge'' \<longrightarrow> k \<noteq> ''decision_subject'' \<longrightarrow> bm_get m k = bm_get m' k" by (elim exE conjE)
  have "jget (JObject m) ''mission'' = jget (JObject m') ''mission''" using m(5) by simp
  from bind_mission_cong [OF this] have "(b, g1) = (b', g2)" unfolding h(2) [symmetric] h'(1) [symmetric] m(1,2) .
  then have b: "b = b'" "g1 = g2" by simp_all
  from mission_context_rest [OF m(3-5), of b ?a] show ?thesis
    using h(3,4) h'(2,3) b m(1,2) prepared_parties [OF assms(1)] prepared_parties [OF assms(2)] by (simp add: decide_prepared_def)
qed

theorem descriptive_keys_never_decide_witness:
  "\<exists>p p' g1 g2. prepare_decision (demo_state SingleBackend) memory_registry (Some 5) None (demo_request demo_mission_ctx) demo_missions = (Inr p, g1) \<and>
    prepare_decision (demo_state SingleBackend) memory_registry (Some 5) None (demo_request ((''asserted_by'', JString ''eve'') # demo_mission_ctx)) demo_missions = (Inr p', g2) \<and>
    decide_prepared (demo_state SingleBackend) p = decide_prepared (demo_state SingleBackend) p'"
proof -
  have c: "bm_wf demo_mission_ctx" "bm_wf ((''asserted_by'', JString ''eve'') # demo_mission_ctx)"
    by (simp_all add: bm_wf_def demo_mission_ctx_def)
  have k: "bm_get demo_mission_ctx k = bm_get ((''asserted_by'', JString ''eve'') # demo_mission_ctx) k" if "k \<notin> server_keys" for k
    using that by (auto simp: server_keys_def)
  have r: "(demo_request [])\<lparr>dq_context := Some c\<rparr> = demo_request c" for c by (simp add: demo_request_def)
  have "kernel_context ((''asserted_by'', JString ''eve'') # demo_mission_ctx) ds 5 = kernel_context demo_mission_ctx ds 5" for ds
    by (simp add: kernel_context_def demo_mission_ctx_def bm_remove_def bm_retain_def)
  then have "prepare_context demo_site None (Some 5) ((''asserted_by'', JString ''eve'') # demo_mission_ctx) ds =
      prepare_context demo_site None (Some 5) demo_mission_ctx ds" for ds by (simp add: prepare_context_def Let_def)
  then have "prepare_decision (demo_state SingleBackend) memory_registry (Some 5) None (demo_request ((''asserted_by'', JString ''eve'') # demo_mission_ctx)) demo_missions =
      prepare_decision (demo_state SingleBackend) memory_registry (Some 5) None (demo_request demo_mission_ctx) demo_missions"
    by (simp add: prepare_decision_def demo_request_def Let_def demo_names demo_state_def)
  with demo_prepared have q: "prepare_decision (demo_state SingleBackend) memory_registry (Some 5) None (demo_request ((''asserted_by'', JString ''eve'') # demo_mission_ctx))
      demo_missions = (Inr (demo_bound None), demo_missions)" by simp
  have "decide_prepared (demo_state SingleBackend) (demo_bound None) = decide_prepared (demo_state SingleBackend) (demo_bound None) \<and> demo_missions = demo_missions"
    by (rule descriptive_keys_never_decide [where req = "demo_request []", unfolded r, OF demo_prepared q c]) (rule k)
  with demo_prepared q show ?thesis by blast
qed

text \<open>C5: where a mission is required -- of every decision, of moving money, or because the request
  names one -- the kernel's Allow is recorded under a mission the registry held at that moment: live,
  granted to this very subject by another principal of its tenant, for this action's scope, which
  that approver still holds.\<close>

theorem mission_backs_decision:
  assumes "evaluate_one st en caller req w = (Inr e, w')" and "e_decision (ev_entry e)"
    and "st_require_mission st \<or> ra_name (dq_action req) = ''MoveMoney'' \<or>
      (\<exists>c v. dq_context req = Some c \<and> bm_get c ''mission'' = Some v \<and> v \<noteq> JNull)"
  shows "\<exists>r m now. e_mission (ev_entry e) = Some r \<and> en_clock en = Some now \<and>
    mr_status (en_registry en) (mr_s256 r) (w_missions w) = (Inr (Some m), w_missions w') \<and>
    backed (k_directory (st_kernel st)) (rr_id (dq_subject req)) (ra_name (dq_action req)) now r m"
  using assms(1)
proof (rule evaluate_one_Inr)
  fix p g ch
  assume pr: "prepare_decision st (en_registry en) (en_clock en) caller req (w_missions w) = (Inr p, g)" and w': "w' = w\<lparr>w_missions := g\<rparr>"
    and ro: "record_of st p (decide_prepared st p) ch = Inr (ev_entry e, ev_shard e)"
  note ro' = record_of_Inr [OF ro]
  let ?k = "kernel_context (unwrap_or [] (dq_context req)) (descriptions req)"
  from pr obtain now bound where b: "en_clock en = Some now" "bind_mission (en_registry en) (k_directory (st_kernel st)) (st_require_mission st)
      (rr_id (dq_subject req)) (ra_name (dq_action req)) (?k now) now (w_missions w) = (bound, g)"
    "mo_bound (pr_mission p) = (case bound of BindOk r \<Rightarrow> Some r | _ \<Rightarrow> None)"
    "mo_errors (pr_mission p) = (case bound of BindDeny errs \<Rightarrow> errs | _ \<Rightarrow> [])" by (rule prepare_Inr)
  show ?thesis
  proof (cases bound)
    case BindNone
    have "fst ` set (descriptions req) = {''subject'', ''resource'', ''action''}" "''mission'' \<notin> server_keys" by (auto simp: server_keys_def)
    then have "jget (?k now) ''mission'' = bm_get (unwrap_or [] (dq_context req)) ''mission''" by (rule kernel_context_get(3))
    with bind_mission_None [OF b(2) [unfolded BindNone]] assms(3) show ?thesis by auto
  next
    case (BindOk r)
    with bind_mission_Ok [OF b(2) [unfolded BindOk]] b ro'(6) w' show ?thesis by auto
  next
    case (BindDeny errs)
    have "errs \<noteq> []" using bind_mission_Deny [OF b(2) [unfolded BindDeny]] .
    with BindDeny b(4) ro'(1) assms(2) decide_prepared_denies [of p st] show ?thesis by simp
  qed
qed

theorem mission_backs_decision_witness:
  "\<exists>e r m. evaluate_one (demo_state SingleBackend) demo_env None (demo_request demo_mission_ctx) demo_world = (Inr e, demo_world) \<and>
    e_mission (ev_entry e) = Some r \<and> backed demo_people ''root'' ''Read'' 5 r m"
proof -
  obtain e where e: "evaluate_one (demo_state SingleBackend) demo_env None (demo_request demo_mission_ctx) demo_world = (Inr e, demo_world)" "e_decision (ev_entry e)"
    using demo_evaluates by blast
  have "st_require_mission (demo_state SingleBackend)" "k_directory (st_kernel (demo_state SingleBackend)) = demo_people" by (simp_all add: demo_state_def)
  with mission_backs_decision [OF e] e(1) show ?thesis by (auto simp: demo_request_def demo_env_def)
qed

text \<open>C6: at the single decision endpoint a caller bound to itself decides for itself alone: a request of it
  that is admitted, and evaluated at all, gives an entry for the record that is about the caller, in its own
  name, with no description of a party and no other decision subject. (A batch admits its items on
  another reading of them; see \<open>batch_admission_gap\<close>.)\<close>

theorem self_bound_caller:
  assumes "au_bind who = SelfOnly" and "admit_request (Some who) req = None" and "evaluate_one st en (Some who) req w = (Inr e, w')"
  shows "e_subject_id (ev_entry e) = au_subject who \<and> e_decision_subject (ev_entry e) = None \<and>
    e_asserted_by (ev_entry e) = Some \<lparr>ab_sub = au_subject who, ab_client_id = au_client_id who, ab_iss = au_issuer who\<rparr> \<and>
    (\<forall>k \<in> {''subject'', ''resource'', ''action''}. jget (e_context (ev_entry e)) k = None)"
  using assms(3)
proof (rule evaluate_one_Inr)
  fix p g ch
  assume pr: "prepare_decision st (en_registry en) (en_clock en) (Some who) req (w_missions w) = (Inr p, g)"
    and ro: "record_of st p (decide_prepared st p) ch = Inr (ev_entry e, ev_shard e)"
  note ro' = record_of_Inr [OF ro] and q = prepared_parties [OF pr] and ad = admit_request_None [OF assms(2,1)]
  have "pr_decision_subject p = None"
    using pr
  proof (rule prepare_Inr)
    fix now bound
    let ?m = "mission_context bound (kernel_context (unwrap_or [] (dq_context req)) (descriptions req) now) (ra_name (dq_action req))"
    assume k: "kept_subject (st_ext st) (fst (take_key ''decision_subject'' (snd (take_raw (snd (take_key ''mission'' ?m))))))
      (rr_id (dq_subject req)) (resource_owner (k_directory (st_kernel st)) (rr_id (dq_resource req))) = Inr (pr_decision_subject p)"
    obtain m where m: "?m = JObject m" using mission_context_object by blast
    have "fst (take_key ''decision_subject'' (snd (take_raw (snd (take_key ''mission'' ?m))))) = bm_get (unwrap_or [] (dq_context req)) ''decision_subject''"
      using request_context_get(8) [OF m] by (simp add: m take_raw_JObject)
    with k ad(1,5) show ?thesis by (intro kept_subject_self) simp_all
  qed
  moreover have "jget (pr_ctx p) k = None" if "k \<in> {''subject'', ''resource'', ''action''}" for k
    using pr
  proof (rule prepared_lookup)
    fix bound m
    assume m: "mission_context bound (kernel_context (unwrap_or [] (dq_context req)) (descriptions req) (pr_now_s p)) (ra_name (dq_action req)) = JObject m"
      and got: "\<forall>q u. jget (pr_ctx p) q = Some u \<longrightarrow> q \<notin> {''mission'', ''subject_side_challenge'', ''decision_subject''} \<and>
        (\<exists>u0. bm_get m q = Some u0 \<and> (is_object u0 \<or> u = u0))"
    from request_context_get(3-5) [OF m] that ad(2-4) have "bm_get m k = None" by (auto simp: filter_properties_def)
    then show ?thesis using got [rule_format, of k] by (cases "jget (pr_ctx p) k") simp_all
  qed
  then have "\<forall>k \<in> {''subject'', ''resource'', ''action''}. jget (recorded_context p) k = None"
    by (simp add: recorded_context_get [OF prepared_object [OF pr]])
  ultimately show ?thesis using ro' q ad(1) by (simp add: asserted_by_of_def)
qed

definition demo_self :: authenticated where
  "demo_self = self_only (authenticated_new ''root'' ''app'' ''idp'')"

theorem self_bound_caller_witness:
  "\<exists>e. evaluate_one (demo_state SingleBackend) demo_env (Some demo_self) (demo_request demo_mission_ctx) demo_world = (Inr e, demo_world) \<and>
    e_subject_id (ev_entry e) = ''root'' \<and> e_decision_subject (ev_entry e) = None"
proof -
  obtain e where e: "evaluate_one (demo_state SingleBackend) demo_env (Some demo_self) (demo_request demo_mission_ctx) demo_world = (Inr e, demo_world)"
    using demo_evaluates by blast
  have "au_bind demo_self = SelfOnly" "au_subject demo_self = ''root''" by (simp_all add: demo_self_def self_only_def authenticated_new_def)
  moreover have "admit_request (Some demo_self) (demo_request demo_mission_ctx) = None" by code_simp
  ultimately show ?thesis using self_bound_caller [OF _ _ e] e by auto
qed

text \<open>C2: on one file, a decision is served only as recorded: a request is answered 200 only when the log
  grew by exactly one line, which carries an entry with the request's subject, action and resource and
  the caller that asserted it, the answer is that entry's decision and reasons, and an Allow under a
  mission is one that the registry, read again under the ledger's lock, does not report terminated.\<close>

theorem served_as_recorded_single:
  assumes "st_backend st = SingleBackend" and "single_ok (sx_base (st_ext st)) w"
    and "decide_one st en caller req w = (Some resp, w')" and "rs_status resp = 200"
  shows "single_ok (sx_base (st_ext st)) w' \<and> (\<exists>line e errs.
    led_log (sx_base (st_ext st)) (w_single w') = led_log (sx_base (st_ext st)) (w_single w) @ [line] \<and> carries (sx_base (st_ext st)) line e \<and>
    resp = ok_json (evaluation_body (e_decision e) (e_reasons e) errs) \<and>
    e_subject_id e = rr_id (dq_subject req) \<and> e_action e = ra_name (dq_action req) \<and> e_resource_id e = rr_id (dq_resource req) \<and>
    e_asserted_by e = asserted_by_of caller \<and>
    still_backed (en_registry_later en) (w_missions (snd (evaluate_one st en caller req w))) e)"
proof -
  have st: "st\<lparr>st_backend := SingleBackend\<rparr> = st" using assms(1) by simp
  from single_file.served_recorded [of st, unfolded st, OF assms(2) TrueI assms(3,4)] obtain name line e errs where
    s: "single_ok (sx_base (st_ext st)) w'" "place st (shard_for (st_backend st) (k_directory (st_kernel st)) (rr_id (dq_subject req))) = Inr name"
      "single_logs (sx_base (st_ext st)) w' = (single_logs (sx_base (st_ext st)) w)(name := single_logs (sx_base (st_ext st)) w name @ [line])"
      "carries (sx_base (st_ext st)) line e" "resp = ok_json (evaluation_body (e_decision e) (e_reasons e) errs)"
      "e_subject_id e = rr_id (dq_subject req)" "e_action e = ra_name (dq_action req)" "e_resource_id e = rr_id (dq_resource req)"
      "e_asserted_by e = asserted_by_of caller"
      "still_backed (en_registry_later en) (w_missions (snd (evaluate_one st en caller req w))) e" by (elim exE conjE)
  from s(2) assms(1) have "name = ''''" by (simp add: place_def)
  with fun_cong [OF s(3), of "''''"] have "led_log (sx_base (st_ext st)) (w_single w') = led_log (sx_base (st_ext st)) (w_single w) @ [line]"
    by (simp add: single_logs_def)
  with s show ?thesis by blast
qed

lemma demo_single_ok: "single_ok (sx_base (st_ext (demo_state SingleBackend))) demo_world"
proof -
  have "sx_base (st_ext (demo_state SingleBackend)) = demo_ext" by (simp add: demo_state_def demo_site_def demo_srv_def demo_id_def)
  moreover have "led_ok demo_ext (demo_disk1, demo_ledger)" using demo_ext_ok demo_inv by (simp add: led_ok_def demo_ledger_def)
  ultimately show ?thesis by (simp add: single_ok_def demo_world_def)
qed

lemma demo_settles:
  assumes "e_mission e = Some \<lparr>mr_approver = ''alice'', mr_s256 = ''m''\<rparr>"
  shows "settle memory_registry e demo_missions = (Inr e, demo_missions)"
  using assms by (simp add: settle_def s_bind_def s_err_def s_ret_def memory_registry_def memory_status_def demo_missions_def)

lemma demo_append_any: "\<exists>rec s. ledger_append demo_ext no_faults e (demo_disk1, demo_ledger) = (Inr rec, s)"
proof -
  have "\<exists>rec line. make_record demo_ext demo_ledger e = Inr (rec, line)"
    by (simp add: make_record_def demo_ext_def demo_record_json_def map_err_def Let_def)
  then obtain rec line where "make_record demo_ext demo_ledger e = Inr (rec, line)" by blast
  moreover have "\<not> l_failed demo_ledger" "l_rollover demo_ledger = None" "\<not> l_sync demo_ledger" by (simp_all add: demo_ledger_def)
  ultimately show ?thesis
    by (simp add: ledger_append_def s_bind_def s_look_def s_ret_def maybe_roll_over_def rebase_opened_def write_line_def on_ledger_def Let_def)
qed

lemma demo_records:
  assumes "e_mission e = Some \<lparr>mr_approver = ''alice'', mr_s256 = ''m''\<rparr>"
  shows "\<exists>y w'. record_decision (demo_state SingleBackend) demo_env sh e demo_world = (Inr y, w')"
proof -
  have "sx_base (st_ext (demo_state SingleBackend)) = demo_ext" by (simp add: demo_state_def demo_site_def demo_srv_def demo_id_def)
  with demo_settles [OF assms] demo_append_any [of e] show ?thesis
    by (auto simp: record_decision_def demo_state_def demo_env_def demo_world_def Let_def s_bind_def s_ret_def lock_single_def res_guard_def
      on_missions_def on_single_def)
qed

text \<open>What is evaluated is answered 200 once its record lands.\<close>

lemma demo_serves:
  assumes "\<And>e. e_mission e = Some \<lparr>mr_approver = ''alice'', mr_s256 = ''m''\<rparr> \<Longrightarrow>
    \<exists>y w'. record_decision (demo_state backend) demo_env (shard_for backend demo_people ''root'') e demo_world = (Inr y, w')"
  shows "\<exists>resp w'. decide_one (demo_state backend) demo_env None (demo_request demo_mission_ctx) demo_world = (Some resp, w') \<and> rs_status resp = 200"
proof -
  obtain e where e: "evaluate_one (demo_state backend) demo_env None (demo_request demo_mission_ctx) demo_world = (Inr e, demo_world)"
    "e_mission (ev_entry e) = Some \<lparr>mr_approver = ''alice'', mr_s256 = ''m''\<rparr>" "ev_shard e = shard_for backend demo_people ''root''"
    using demo_evaluates by blast
  from assms [OF e(2)] e(3) obtain y w' where "record_decision (demo_state backend) demo_env (ev_shard e) (ev_entry e) demo_world = (Inr y, w')" by auto
  moreover have "admit_request None (demo_request demo_mission_ctx) = None"
    by (simp add: admit_request_def request_facts_def admit_named_def refuse_unless_admits_def demo_request_def demo_mission_ctx_def
      named_decision_subject_def says_something_def)
  ultimately show ?thesis using e(1) by (simp add: decide_one_def record_and_respond_def ok_json_def)
qed

theorem served_as_recorded_single_witness:
  "\<exists>resp w' line e. decide_one (demo_state SingleBackend) demo_env None (demo_request demo_mission_ctx) demo_world = (Some resp, w') \<and>
    led_log demo_ext (w_single w') = led_log demo_ext (w_single demo_world) @ [line] \<and> carries demo_ext line e \<and> e_subject_id e = ''root''"
proof -
  have x: "sx_base (st_ext (demo_state SingleBackend)) = demo_ext" by (simp add: demo_state_def demo_site_def demo_srv_def demo_id_def)
  from demo_serves [OF demo_records] obtain resp w' where d: "decide_one (demo_state SingleBackend) demo_env None (demo_request demo_mission_ctx) demo_world = (Some resp, w')"
    "rs_status resp = 200" by blast
  have "st_backend (demo_state SingleBackend) = SingleBackend" by (simp add: demo_state_def)
  from served_as_recorded_single [OF this demo_single_ok d] d(1) show ?thesis by (auto simp: x demo_request_def)
qed

text \<open>C7: on shards the same holds of the shard of the subject's tenant: only that shard's log grew, by
  the one line that carries what was answered.\<close>

theorem served_as_recorded_sharded:
  assumes "st_backend st = ShardedBackend L" and "sharded_ok (sx_base (st_ext st)) L hx base K w" and "on_files hx base en"
    and "decide_one st en caller req w = (Some resp, w')" and "rs_status resp = 200"
  shows "sharded_ok (sx_base (st_ext st)) L hx base K w' \<and> (\<exists>shard line e errs.
    resolve_shard (k_directory (st_kernel st)) (rr_id (dq_subject req)) = Inr shard \<and>
    sharded_logs hx base w' = (sharded_logs hx base w)(shard := sharded_logs hx base w shard @ [line]) \<and> carries (sx_base (st_ext st)) line e \<and>
    resp = ok_json (evaluation_body (e_decision e) (e_reasons e) errs) \<and>
    e_subject_id e = rr_id (dq_subject req) \<and> e_action e = ra_name (dq_action req) \<and> e_resource_id e = rr_id (dq_resource req) \<and>
    e_asserted_by e = asserted_by_of caller \<and>
    still_backed (en_registry_later en) (w_missions (snd (evaluate_one st en caller req w))) e)"
proof -
  have st: "st\<lparr>st_backend := ShardedBackend L\<rparr> = st" using assms(1) by simp
  have p: "place st (shard_for (st_backend st) (k_directory (st_kernel st)) i) = Inr name \<longleftrightarrow>
      resolve_shard (k_directory (st_kernel st)) i = Inr name" for i name
    using assms(1) by (auto simp: place_def shard_for_def resolved_def split: sum.splits)
  from sharded_files.served_recorded [of st L, unfolded st, OF assms(2-5)] show ?thesis unfolding p .
qed

lemma demo_sharded_append: "\<exists>rec d1. sharded_append demo_ext first_process (demo_heads calm) ''acme'' e demo_root = (Inr rec, d1)"
proof (rule append_calm [where K = demo_ring])
  show "verify_lines demo_ext (map Inr (snd (file_heads demo_head_ext ''h'' demo_root ''acme''))) demo_ring None =
      Inr (\<lparr>vr_entries = 0, vr_root = None, vr_signatures_checked = True, vr_signers = []\<rparr>, None)"
    by (simp add: verify_lines_def init_vstate_def report_of_def)
qed (use demo_heads_ok demo_ext_ok demo_label_law demo_json_total demo_prints demo_keys in \<open>simp_all add: may_extend_def\<close>)

text \<open>A revision that changes nothing appends the entry as it is.\<close>

lemma append_unrevised: "revise e = Inr e \<Longrightarrow> append_revised x L S sh e revise = sharded_append x L S sh e"
  by (simp only: append_revised_def sharded_append_def head_body_def)

theorem served_as_recorded_sharded_witness:
  "\<exists>resp w' line e. decide_one (demo_state (ShardedBackend first_process)) demo_env None (demo_request demo_mission_ctx) demo_world = (Some resp, w') \<and>
    sharded_logs demo_head_ext ''h'' w' = (\<lambda>_. [])(''acme'' := [line]) \<and> carries demo_ext line e \<and> e_subject_id e = ''root''"
proof -
  let ?b = "ShardedBackend first_process"
  have x: "sx_base (st_ext (demo_state ?b)) = demo_ext" by (simp add: demo_state_def demo_site_def demo_srv_def demo_id_def)
  have rs: "resolve_shard demo_people ''root'' = Inr ''acme''" by (simp add: resolve_shard_def demo_people_def demo_person_def reserved_tenant_def)
  have "\<exists>y w'. record_decision (demo_state ?b) demo_env (shard_for ?b demo_people ''root'') e demo_world = (Inr y, w')"
    if "e_mission e = Some \<lparr>mr_approver = ''alice'', mr_s256 = ''m''\<rparr>" for e
    using demo_settles [OF that] demo_sharded_append [of e] x rs
    by (auto simp: record_decision_def demo_state_def demo_env_def demo_world_def Let_def s_bind_def s_ret_def s_look_def shard_for_def resolved_def
      on_heads_def append_unrevised)
  from demo_serves [OF this] obtain resp w' where d: "decide_one (demo_state ?b) demo_env None (demo_request demo_mission_ctx) demo_world = (Some resp, w')"
    "rs_status resp = 200" by blast
  have ok: "sharded_ok (sx_base (st_ext (demo_state ?b))) first_process demo_head_ext ''h'' demo_ring demo_world"
    using demo_ext_ok demo_label_law demo_heads_ok demo_sound demo_keys
    by (simp add: x sharded_ok_def durable_heads.sound_store_def demo_world_def)
  have "on_files demo_head_ext ''h'' demo_env" by (auto simp: on_files_def demo_env_def)
  moreover have "sharded_logs demo_head_ext ''h'' demo_world = (\<lambda>_. [])" by (simp add: sharded_logs_def demo_world_def)
  moreover have "st_backend (demo_state ?b) = ?b" "k_directory (st_kernel (demo_state ?b)) = demo_people" by (simp_all add: demo_state_def)
  ultimately show ?thesis using served_as_recorded_sharded [OF _ ok _ d] d(1) rs by (auto simp: x demo_request_def)
qed

text \<open>C36: a request on one file that is not answered with a decision leaves none behind: it is refused with
  403, 413, 422 or 503 (or, on a panic, answered by the runtime), and the log is as it was, whatever
  failed. The one exception is a recording that failed: the answer is then the 503 that says so, and the
  log may have the one line of that very decision, as it was settled against the registry.\<close>

theorem unserved_leaves_no_decision:
  assumes "st_backend st = SingleBackend" and "single_ok (sx_base (st_ext st)) w"
    and "decide_one st en caller req w = (q, w')" and "\<forall>r. q = Some r \<longrightarrow> rs_status r \<noteq> 200"
  shows "single_ok (sx_base (st_ext st)) w' \<and> (\<forall>r. q = Some r \<longrightarrow> rs_status r \<in> {403, 413, 422, 503}) \<and>
    (led_log (sx_base (st_ext st)) (w_single w') = led_log (sx_base (st_ext st)) (w_single w) \<or>
     (\<exists>z ev w1 e line. q = Some (not_recorded z) \<and> admit_request caller req = None \<and> evaluate_one st en caller req w = (Inr ev, w1) \<and>
        fst (settle (en_registry_later en) (ev_entry ev) (w_missions w1)) = Inr e \<and> holds_entry (sx_base (st_ext st)) line e \<and>
        led_log (sx_base (st_ext st)) (w_single w') = led_log (sx_base (st_ext st)) (w_single w) @ [line]))"
proof -
  let ?x = "sx_base (st_ext st)"
  have st: "st\<lparr>st_backend := SingleBackend\<rparr> = st" using assms(1) by simp
  have l: "led_log ?x (w_single v) = single_logs ?x v ''''" for v :: "('f, 'g) world" by (simp add: single_logs_def)
  note u = single_file.unserved_leaves [of st, unfolded st, OF assms(2) TrueI assms(3,4)]
  from u have "single_logs ?x w' = single_logs ?x w \<or> (\<exists>z ev w1 e name line. q = Some (not_recorded z) \<and> admit_request caller req = None \<and>
       evaluate_one st en caller req w = (Inr ev, w1) \<and> fst (settle (en_registry_later en) (ev_entry ev) (w_missions w1)) = Inr e \<and>
       place st (ev_shard ev) = Inr name \<and> single_logs ?x w' = (single_logs ?x w)(name := single_logs ?x w name @ [line]) \<and> holds_entry ?x line e)"
    by (elim conjE)
  then show ?thesis
  proof (elim disjE exE conjE)
    fix z ev w1 e name line
    assume h: "q = Some (not_recorded z)" "admit_request caller req = None" "evaluate_one st en caller req w = (Inr ev, w1)"
      "fst (settle (en_registry_later en) (ev_entry ev) (w_missions w1)) = Inr e" "holds_entry ?x line e"
      and n: "place st (ev_shard ev) = Inr name" "single_logs ?x w' = (single_logs ?x w)(name := single_logs ?x w name @ [line])"
    have "name = ''''" using n(1) assms(1) by (simp add: place_def)
    then have "led_log ?x (w_single w') = led_log ?x (w_single w) @ [line]" using n(2) by (simp add: l)
    with h u show ?thesis by blast
  qed (use u in \<open>simp add: l\<close>)
qed

theorem unserved_leaves_no_decision_witness:
  "\<exists>resp w'. decide_one (demo_state SingleBackend) demo_env (Some (self_only (authenticated_new ''eve'' ''app'' ''idp''))) (demo_request demo_mission_ctx)
      demo_world = (Some resp, w') \<and> rs_status resp \<in> {403, 413, 422, 503} \<and>
    led_log demo_ext (w_single w') = led_log demo_ext (w_single demo_world)"
proof -
  let ?eve = "Some (self_only (authenticated_new ''eve'' ''app'' ''idp''))"
  have x: "sx_base (st_ext (demo_state SingleBackend)) = demo_ext" by (simp add: demo_state_def demo_site_def demo_srv_def demo_id_def)
  have "admit_request ?eve (demo_request demo_mission_ctx) \<noteq> None"
    by (simp add: admit_request_def request_facts_def admit_named_def refuse_unless_admits_def admits_def self_only_def authenticated_new_def demo_request_def)
  then obtain r where r: "admit_request ?eve (demo_request demo_mission_ctx) = Some r" by blast
  then have d: "decide_one (demo_state SingleBackend) demo_env ?eve (demo_request demo_mission_ctx) demo_world = (Some r, demo_world)"
    by (simp add: decide_one_def)
  have "st_backend (demo_state SingleBackend) = SingleBackend" by (simp add: demo_state_def)
  from unserved_leaves_no_decision [OF this demo_single_ok d] admit_request_status [OF r] r d show ?thesis by (auto simp: x)
qed

end
