(* ===== verification/Batch.thy ===== *)
theory Batch
  imports Decisions
begin

text \<open>
  Several evaluations in one exchange, \<open>decern-server/src/batch.rs\<close>: the defaults, admission
  read in place, the bounds, the stopping rule, and recording before anything is served. Every item
  comes with the environment of its own calls; \<open>io\<close> is that of the last sync of a batch that is
  recorded at once. The vectors \<open>decided\<close> and \<open>decided_items\<close> of the code, which grow
  together, are one list.
\<close>

section \<open>The code\<close>

definition max_evaluations :: nat where
  "max_evaluations = 1000"

definition max_recorded_bytes :: nat where
  "max_recorded_bytes = 16 * 1024 * 1024"

definition batch_keys :: "string list" where
  "batch_keys = [''subject'', ''action'', ''resource'', ''context'']"

record batch_req =
  bq_subject :: "json option"
  bq_action :: "json option"
  bq_resource :: "json option"
  bq_context :: "json option"
  bq_evaluations :: "json list option"
  bq_options :: "string option option"

definition default_for :: "batch_req \<Rightarrow> string \<Rightarrow> json option" where
  "default_for req0 key =
     (if key = ''subject'' then bq_subject req0
      else if key = ''action'' then bq_action req0
      else if key = ''resource'' then bq_resource req0
      else if key = ''context'' then bq_context req0
      else None)"

definition json_len :: "srv_ext \<Rightarrow> json \<Rightarrow> nat" where
  "json_len sx v = (case sx_to_vec sx v of Some b \<Rightarrow> length b | None \<Rightarrow> u64_max)"

definition sum_saturating :: "nat list \<Rightarrow> nat" where
  "sum_saturating ns = foldl sat_add64 0 ns"

definition recorded_bytes :: "srv_ext \<Rightarrow> batch_req \<Rightarrow> json list \<Rightarrow> (string \<Rightarrow> bool) \<Rightarrow> nat" where
  "recorded_bytes sx req0 items oversize_default =
     sum_saturating (map (\<lambda>item. sum_saturating (map (\<lambda>key.
       case jget item key of
         Some ov \<Rightarrow> json_len sx ov
       | None \<Rightarrow> if oversize_default key then 0 else (case default_for req0 key of Some v \<Rightarrow> json_len sx v | None \<Rightarrow> 0)) batch_keys)) items)"

datatype semantic = ExecuteAll | DenyOnFirstDeny | PermitOnFirstPermit

definition semantic_parse :: "srv_ext \<Rightarrow> string option \<Rightarrow> string + semantic" where
  "semantic_parse sx name =
     (case name of
        None \<Rightarrow> Inr ExecuteAll
      | Some n \<Rightarrow>
          if n = ''execute_all'' then Inr ExecuteAll
          else if n = ''deny_on_first_deny'' then Inr DenyOnFirstDeny
          else if n = ''permit_on_first_permit'' then Inr PermitOnFirstPermit
          else Inl (''options.evaluations_semantic '' @ sx_debug sx n @
                    '' is not one of execute_all, deny_on_first_deny, permit_on_first_permit''))"

definition batch_field :: "batch_req \<Rightarrow> jmap \<Rightarrow> string \<Rightarrow> json option" where
  "batch_field req0 item key = (case bm_get item key of Some v \<Rightarrow> Some v | None \<Rightarrow> default_for req0 key)"

text \<open>Admission's facts of an item, read in place.\<close>

definition batch_facts :: "batch_req \<Rightarrow> json \<Rightarrow> string option \<times> bool \<times> string option" where
  "batch_facts req0 item =
     (case as_object item of
        None \<Rightarrow> (None, False, None)
      | Some obj \<Rightarrow>
          (Option.bind (Option.bind (batch_field req0 obj ''subject'') (\<lambda>s. jget s ''id'')) as_str,
           list_ex (\<lambda>key. case Option.bind (Option.bind (batch_field req0 obj key) (\<lambda>party. jget party ''properties'')) as_object of
               Some m \<Rightarrow> m \<noteq> [] | None \<Rightarrow> False) [''subject'', ''resource'', ''action''],
           named_decision_subject (Option.bind (batch_field req0 obj ''context'') (\<lambda>c. jget c ''decision_subject''))))"

fun trim_start_matches :: "string \<Rightarrow> string" where
  "trim_start_matches (a # b # s) = (if a = CHR '':'' \<and> b = CHR '' '' then trim_start_matches s else a # b # s)"
| "trim_start_matches s = s"

definition at_item :: "nat option \<Rightarrow> string \<Rightarrow> string" where
  "at_item i what = (case i of Some n \<Rightarrow> ''evaluations['' @ show_nat n @ '']'' @ what | None \<Rightarrow> trim_start_matches what)"

text \<open>The object the request of an item is read from.\<close>

definition merged_object :: "batch_req \<Rightarrow> jmap \<Rightarrow> jmap" where
  "merged_object req0 obj =
     bm_of_list (List.map_filter (\<lambda>key. map_option (Pair key) (batch_field req0 obj key)) batch_keys)"

definition merged :: "srv_ext \<Rightarrow> batch_req \<Rightarrow> nat option \<Rightarrow> json \<Rightarrow> string + decide_req" where
  "merged sx req0 i item =
     (case as_object item of
        None \<Rightarrow> Inl (at_item i '' is not an object'')
      | Some obj \<Rightarrow>
          (case de_request (merged_object req0 obj) of
             Some req \<Rightarrow> Inr req
           | None \<Rightarrow> Inl (at_item i ('': '' @ sx_serde_text sx (JObject (merged_object req0 obj))))))"

definition undecided :: "nat \<Rightarrow> string \<Rightarrow> string \<Rightarrow> json" where
  "undecided status code message =
     jobj [(''decision'', JBool False),
       (''context'', jobj [(''error'', jobj [(''status'', JNumber (PosInt status)), (''code'', JString code), (''message'', JString message)])])]"

record answer =
  an_decision :: bool
  an_body :: json
  an_errors :: "string list"
  an_record :: "(shard \<times> entry) option"

definition undecided_answer :: "nat \<Rightarrow> string \<Rightarrow> string \<Rightarrow> answer" where
  "undecided_answer status code message =
     \<lparr>an_decision = False, an_body = undecided status code message, an_errors = [], an_record = None\<rparr>"

text \<open>An item answered; the error is a panic.\<close>

definition answer_item ::
  "('s, 'p, 'e, 'c, 'r) app_state \<Rightarrow> ('h, 'm) env \<Rightarrow> caller \<Rightarrow> batch_req \<Rightarrow> nat \<Rightarrow> json \<Rightarrow> bool \<Rightarrow> (('h, 'm) world, unit, answer) sres" where
  "answer_item st en caller req0 i item inherits_an_oversize_default w =
     (if inherits_an_oversize_default then (Inr (undecided_answer 413 ''context_too_large'' context_too_large_text), w)
      else case merged (st_ext st) req0 (Some i) item of
        Inl detail \<Rightarrow> (Inr (undecided_answer 400 ''invalid_request'' detail), w)
      | Inr req \<Rightarrow>
          (case evaluate_one st en caller req w of
             (Inl (Refuse refusal), w') \<Rightarrow> (Inr (undecided_answer (rf_status refusal) (rf_error refusal) (rf_detail refusal)), w')
           | (Inl Panic, w') \<Rightarrow> (Inl (), w')
           | (Inr e, w') \<Rightarrow>
               (Inr \<lparr>an_decision = ev_decision e, an_body = evaluation_body (ev_decision e) (ev_reasons e) (ev_errors e),
                  an_errors = ev_errors e, an_record = Some (ev_shard e, ev_entry e)\<rparr>, w')))"

definition stops :: "semantic \<Rightarrow> bool \<Rightarrow> bool" where
  "stops semantic decision =
     (case semantic of ExecuteAll \<Rightarrow> False | DenyOnFirstDeny \<Rightarrow> \<not> decision | PermitOnFirstPermit \<Rightarrow> decision)"

text \<open>The loop over the items. It hands back the results and, with their places in these, the
  decisions still to be recorded; its error is the response to answer with, or a panic.\<close>

fun answer_items ::
  "('s, 'p, 'e, 'c, 'r) app_state \<Rightarrow> caller \<Rightarrow> batch_req \<Rightarrow> semantic \<Rightarrow> (string \<Rightarrow> bool) \<Rightarrow> nat \<Rightarrow> (('h, 'm) env \<times> json) list \<Rightarrow>
   (('h, 'm) world, response option, json list \<times> (nat \<times> string list \<times> ('h, 'm) env \<times> shard \<times> entry) list) sres" where
  "answer_items st caller req0 semantic oversize i [] = s_ret ([], [])"
| "answer_items st caller req0 semantic oversize i ((en, item) # rest) =
     (let inherits = list_ex (\<lambda>key. oversize key \<and> \<not> (case as_object item of Some obj \<Rightarrow> bm_get obj key \<noteq> None | None \<Rightarrow> False)) batch_keys in
      s_bind (s_err (\<lambda>_. None) (answer_item st en caller req0 i item inherits)) (\<lambda>a.
      s_bind
        (case an_record a of
           None \<Rightarrow> s_ret (an_decision a, an_body a, [])
         | Some (shard, entry) \<Rightarrow>
             if semantic = ExecuteAll then s_ret (an_decision a, an_body a, [(i, an_errors a, en, shard, entry)])
             else s_bind (s_err (\<lambda>e. Some (not_recorded e)) (record_decision st en shard entry)) (\<lambda>recorded.
               s_ret (e_decision recorded, evaluation_body (e_decision recorded) (e_reasons recorded) (an_errors a), [])))
        (\<lambda>(decision, body, held).
      if stops semantic decision then s_ret ([body], held)
      else s_bind (answer_items st caller req0 semantic oversize (Suc i) rest) (\<lambda>(results, decided). s_ret (body # results, held @ decided)))))"

fun settle_results :: "(nat \<times> string list \<times> 'x) list \<Rightarrow> entry list \<Rightarrow> json list \<Rightarrow> json list" where
  "settle_results ((spot, errors, _) # ds) (e # es) results =
     settle_results ds es (results[spot := evaluation_body (e_decision e) (e_reasons e) errors])"
| "settle_results _ _ results = results"

definition evaluations_body :: "json list \<Rightarrow> json" where
  "evaluations_body results = jobj [(''evaluations'', JArray results)]"

text \<open>Admission of every item, before any is evaluated.\<close>

fun admit_items :: "caller \<Rightarrow> batch_req \<Rightarrow> json list \<Rightarrow> response option" where
  "admit_items caller req0 [] = None"
| "admit_items caller req0 (item # items) =
     (case batch_facts req0 item of (subject_id, describes, decision_subject) \<Rightarrow>
      case admit_named caller subject_id describes decision_subject of
        Some refusal \<Rightarrow> Some refusal
      | None \<Rightarrow> admit_items caller req0 items)"

text \<open>What follows the loop: the decisions held back land, as one step where the ledger is one
  file, and each is answered as recorded.\<close>

definition finish_batch ::
  "('s, 'p, 'e, 'c, 'r) app_state \<Rightarrow> io \<Rightarrow> json list \<Rightarrow> (nat \<times> string list \<times> ('h, 'm) env \<times> shard \<times> entry) list \<Rightarrow>
   (('h, 'm) world, response option, json list) sres" where
  "finish_batch st io results decided =
     (if decided = [] then s_ret results
      else s_bind (s_err (\<lambda>e. Some (not_recorded e)) (record_decisions st io (map (\<lambda>(spot, errors, d). d) decided))) (\<lambda>recorded.
        s_ret (settle_results decided recorded results)))"

definition evaluate_all ::
  "('s, 'p, 'e, 'c, 'r) app_state \<Rightarrow> (nat \<Rightarrow> ('h, 'm) env) \<Rightarrow> io \<Rightarrow> caller \<Rightarrow> batch_req \<Rightarrow> ('h, 'm) world \<Rightarrow> response option \<times> ('h, 'm) world" where
  "evaluate_all st ens io caller req0 w =
     (case semantic_parse (st_ext st) (Option.bind (bq_options req0) (\<lambda>n. n)) of
        Inl detail \<Rightarrow> (Some (refusal_response (invalid_request detail)), w)
      | Inr semantic \<Rightarrow>
     (let items = unwrap_or [] (bq_evaluations req0) in
      if items = [] then
        (case merged (st_ext st) req0 None (JObject []) of
           Inr req \<Rightarrow> decide_one st (ens 0) caller req w
         | Inl detail \<Rightarrow> (Some (refusal_response (invalid_request detail)), w))
      else if length items > max_evaluations then
        (Some (refusal_response (invalid_request (''evaluations: '' @ show_nat (length items) @ '' items; at most '' @
           show_nat max_evaluations @ '' in one request''))), w)
      else case admit_items caller req0 items of
        Some refusal \<Rightarrow> (Some refusal, w)
      | None \<Rightarrow>
     (let oversize = (\<lambda>key. case default_for req0 key of Some v \<Rightarrow> context_too_large (st_ext st) v | None \<Rightarrow> False) in
      if recorded_bytes (st_ext st) req0 items oversize > max_recorded_bytes then
        (Some (refusal_response (payload_too_large ''batch_too_large'' ''the evaluations would record more than 16 MiB'')), w)
      else
        (case s_bind (answer_items st caller req0 semantic oversize 0 (zip (map ens [0..<length items]) items))
            (\<lambda>(results, decided). finish_batch st io results decided) w of
           (Inl resp, w') \<Rightarrow> (resp, w')
         | (Inr results, w') \<Rightarrow> (Some (ok_json (evaluations_body results)), w')))))"

definition evaluations ::
  "('s, 'p, 'e, 'c, 'r) app_state \<Rightarrow> (nat \<Rightarrow> ('h, 'm) env) \<Rightarrow> io \<Rightarrow> nat \<Rightarrow> caller \<Rightarrow> string + batch_req \<Rightarrow> ('h, 'm) world \<Rightarrow>
   response \<times> ('h, 'm) world" where
  "evaluations st ens io taken caller req w =
     (case req of
        Inl body_text \<Rightarrow> (refusal_response (invalid_request body_text), w)
      | Inr req0 \<Rightarrow> off_the_executor max_blocking taken ''decision_unavailable'' (evaluate_all st ens io caller req0) w)"

end
