(* ===== verification/Batches.thy ===== *)
theory Batches
  imports Batch Served
begin

text \<open>
  What holds of an exchange of several evaluations: admission reads of an item what its evaluation
  reads, where the item is written as objects; every decision lands before any is served; and the
  stopping rule. That the second needs of a backend beyond the contract \<open>recorder\<close> is the
  law on recording several decisions, in the locale \<open>batch_recorder\<close>.
\<close>

section \<open>Admission\<close>

lemma bm_get_fold_insert: "bm_get (fold (\<lambda>(k, v) m. bm_insert k v m) kvs m) k = (case map_of (rev kvs) k of Some v \<Rightarrow> Some v | None \<Rightarrow> bm_get m k)"
  by (induction kvs arbitrary: m) (auto simp: map_add_def split: option.splits)

lemma bm_get_of_list: "bm_get (bm_of_list kvs) k = map_of (rev kvs) k"
  by (simp add: bm_of_list_def bm_get_fold_insert split: option.split)

lemma map_of_map_filter: "map_of (List.map_filter (\<lambda>k. map_option (Pair k) (f k)) ks) k = (if k \<in> set ks then f k else None)"
  by (induction ks) (auto simp: List.map_filter_simps split: option.splits)

lemma rev_map_filter: "rev (List.map_filter f xs) = List.map_filter f (rev xs)"
  by (simp add: List.map_filter_def rev_map rev_filter)

lemma merged_object_get: "key \<in> set batch_keys \<Longrightarrow> bm_get (merged_object req0 obj) key = batch_field req0 obj key"
  by (simp add: merged_object_def bm_get_of_list rev_map_filter map_of_map_filter)

lemma de_ref_object:
  assumes "de_ref (JObject m) = Some r"
  shows "bm_get m ''id'' = Some (JString (rr_id r))" and "de_map (bm_get m ''properties'') = Some (rr_properties r)"
  using assms by (auto split: option.splits json.splits)

lemma de_action_object: "de_action (JObject m) = Some r \<Longrightarrow> de_map (bm_get m ''properties'') = Some (ra_properties r)"
  by (auto split: option.splits json.splits)

lemma de_map_says:
  "de_map v = Some p \<Longrightarrow> says_something p \<longleftrightarrow> (case Option.bind v as_object of Some m \<Rightarrow> m \<noteq> [] | None \<Rightarrow> False)"
  by (auto simp: de_map_def says_something_def as_object_def split: option.splits json.splits)

lemma de_request_Some:
  assumes "de_request m = Some req"
  obtains s a r where "bm_get m ''subject'' = Some s" "de_ref s = Some (dq_subject req)" "bm_get m ''action'' = Some a"
    "de_action a = Some (dq_action req)" "bm_get m ''resource'' = Some r" "de_ref r = Some (dq_resource req)"
    "de_map (bm_get m ''context'') = Some (dq_context req)"
  using assms by (auto simp: de_request_def bind_eq_Some_conv)

lemma de_map_get: "de_map v = Some p \<Longrightarrow> Option.bind v (\<lambda>c. jget c k) = Option.bind p (\<lambda>m. bm_get m k)"
  by (auto simp: de_map_def jget_def split: option.splits json.splits)

lemma named_decision_subject_bind:
  "Option.bind p (\<lambda>c. named_decision_subject (bm_get c k)) = named_decision_subject (Option.bind p (\<lambda>c. bm_get c k))"
  by (cases p) (simp_all add: named_decision_subject_def)

lemma facts_agree:
  assumes "merged sx req0 i (JObject obj) = Inr req"
    and "\<forall>key \<in> {''subject'', ''resource'', ''action''}. \<forall>v. batch_field req0 obj key = Some v \<longrightarrow> is_object v"
  shows "batch_facts req0 (JObject obj) = request_facts req"
proof -
  from assms(1) have "de_request (merged_object req0 obj) = Some req" by (auto simp: merged_def as_object_def split: option.splits)
  then obtain s a r where q: "bm_get (merged_object req0 obj) ''subject'' = Some s" "de_ref s = Some (dq_subject req)"
    "bm_get (merged_object req0 obj) ''action'' = Some a" "de_action a = Some (dq_action req)"
    "bm_get (merged_object req0 obj) ''resource'' = Some r" "de_ref r = Some (dq_resource req)"
    "de_map (bm_get (merged_object req0 obj) ''context'') = Some (dq_context req)" by (rule de_request_Some)
  then have f: "batch_field req0 obj ''subject'' = Some s" "batch_field req0 obj ''action'' = Some a"
    "batch_field req0 obj ''resource'' = Some r" "de_map (batch_field req0 obj ''context'') = Some (dq_context req)"
    by (simp_all add: merged_object_get batch_keys_def)
  with assms(2) obtain ms ma mr where o: "s = JObject ms" "a = JObject ma" "r = JObject mr"
    by (cases s; cases a; cases r) (simp_all add: is_object_def)
  note d = de_ref_object [OF q(2) [unfolded o]] de_ref_object [OF q(6) [unfolded o]] de_action_object [OF q(4) [unfolded o]]
  show ?thesis
    using f(1-3) d(1) de_map_says [OF d(2)] de_map_says [OF d(4)] de_map_says [OF d(5)] de_map_get [OF f(4), of "''decision_subject''"]
    by (simp add: batch_facts_def request_facts_def as_object_def o jget_def as_str_def named_decision_subject_bind)
qed

text \<open>C37: admission and evaluation agree on an item whose parties are written as objects: whom it names,
  whether it describes a party and whom it names as the decision subject are the same read in place
  and read off the parsed request, which is what the exchange's admission rests on.\<close>

theorem batch_facts_agree:
  assumes "merged sx req0 i (JObject obj) = Inr req"
    and "\<forall>key \<in> {''subject'', ''resource'', ''action''}. \<forall>v. batch_field req0 obj key = Some v \<longrightarrow> is_object v"
  shows "batch_facts req0 (JObject obj) = request_facts req"
  by (rule facts_agree [OF assms])

definition demo_item :: jmap where
  "demo_item = [(''action'', JObject [(''name'', JString ''Read'')]), (''resource'', JObject [(''id'', JString ''doc''), (''type'', JString ''Resource'')]),
     (''subject'', JObject [(''id'', JString ''root''), (''type'', JString ''Principal'')])]"

definition demo_batch :: "json list \<Rightarrow> string \<Rightarrow> batch_req" where
  "demo_batch items semantic = \<lparr>bq_subject = None, bq_action = None, bq_resource = None, bq_context = Some (JObject demo_mission_ctx),
     bq_evaluations = Some items, bq_options = Some (Some semantic)\<rparr>"

theorem batch_facts_agree_witness:
  "\<exists>req. merged demo_site (demo_batch [] ''execute_all'') None (JObject demo_item) = Inr req \<and>
    batch_facts (demo_batch [] ''execute_all'') (JObject demo_item) = request_facts req"
proof -
  let ?top = "demo_batch [] ''execute_all''"
  have m: "merged demo_site ?top None (JObject demo_item) = Inr (demo_request demo_mission_ctx)" by code_simp
  have "\<forall>key \<in> {''subject'', ''resource'', ''action''}. \<forall>v. batch_field ?top demo_item key = Some v \<longrightarrow> is_object v"
    by (simp add: batch_field_def demo_item_def is_object_def)
  from batch_facts_agree [OF m this] m show ?thesis by blast
qed

text \<open>Written as an array, which the derived deserializer reads by position, a party is named to the
  evaluation and to nobody at admission: a caller bound to itself has a decision evaluated for another.\<close>

lemma batch_admission_gap:
  assumes "au_bind who = SelfOnly" and "au_subject who = ''alice''"
  shows "\<exists>item req. admit_items (Some who) (demo_batch [item] ''execute_all'') [item] = None \<and>
    merged sx (demo_batch [item] ''execute_all'') (Some 0) item = Inr req \<and>
    rr_id (dq_subject req) = ''bob'' \<and> \<not> admits who (rr_id (dq_subject req)) \<and> admit_request (Some who) req \<noteq> None"
proof -
  let ?item = "JObject [(''action'', JObject [(''name'', JString ''Read'')]), (''resource'', JObject [(''id'', JString ''doc''), (''type'', JString ''Resource'')]),
     (''subject'', JArray [JString ''Principal'', JString ''bob''])]"
  let ?req = "\<lparr>dq_subject = \<lparr>rr_ty = ''Principal'', rr_id = ''bob'', rr_properties = None\<rparr>, dq_action = \<lparr>ra_name = ''Read'', ra_properties = None\<rparr>,
     dq_resource = \<lparr>rr_ty = ''Resource'', rr_id = ''doc'', rr_properties = None\<rparr>, dq_context = Some demo_mission_ctx\<rparr>"
  have "admit_items (Some who) (demo_batch [?item] ''execute_all'') [?item] = None"
    by (simp add: batch_facts_def as_object_def batch_field_def jget_def admit_named_def demo_batch_def default_for_def demo_mission_ctx_def
      named_decision_subject_def)
  moreover have "merged sx (demo_batch [?item] ''execute_all'') (Some 0) ?item = Inr ?req"
    by (simp add: merged_def as_object_def merged_object_def batch_keys_def List.map_filter_simps batch_field_def default_for_def demo_batch_def
      bm_of_list_def de_request_def de_map_def)
  moreover have "\<not> admits who ''bob''" using assms by (simp add: admits_def)
  moreover then have "admit_request (Some who) ?req \<noteq> None"
    by (simp add: admit_request_def request_facts_def admit_named_def refuse_unless_admits_def)
  ultimately show ?thesis by (intro exI [of _ ?item] exI [of _ ?req]) simp
qed

section \<open>Recording several decisions\<close>

text \<open>What an entry is recorded as: itself, or the Deny of a mission that ended since.\<close>

definition settled :: "entry \<Rightarrow> entry \<Rightarrow> bool" where
  "settled e e' \<longleftrightarrow> (\<exists>n e0. e' = e0\<lparr>e_seq := n\<rparr> \<and>
     (e0 = e \<or> (\<exists>m. e_mission e = Some m \<and> e0 = e\<lparr>e_decision := False, e_reasons := [terminated_reason (mr_s256 m)]\<rparr>)))"

lemma settle_settled: "settle missions e g = (Inr e0, g') \<Longrightarrow> settled e (e0\<lparr>e_seq := n\<rparr>)"
  unfolding settled_def using settle_Inr(1) [of missions e g e0 g'] by blast

text \<open>The logs after the entries \<open>es\<close>, each carried by one new line, in order.\<close>

fun landed_all :: "ext \<Rightarrow> (string \<Rightarrow> string list) \<Rightarrow> entry list \<Rightarrow> (string \<Rightarrow> string list) \<Rightarrow> bool" where
  "landed_all x logs [] logs' \<longleftrightarrow> logs' = logs"
| "landed_all x logs (e # es) logs' \<longleftrightarrow> (\<exists>name line. carries x line e \<and> landed_all x (logs(name := logs name @ [line])) es logs')"

lemma landed_all_append: "landed_all x a es b \<Longrightarrow> landed_all x b fs c \<Longrightarrow> landed_all x a (es @ fs) c"
  by (induction es arbitrary: a) auto

lemma landed_all_lines:
  "list_all2 (\<lambda>line e. carries x line e) ls es \<Longrightarrow> landed_all x logs es (logs(name := logs name @ ls))"
proof (induction ls es arbitrary: logs rule: list_all2_induct)
  case (Cons l ls e es)
  from Cons.IH [of "logs(name := logs name @ [l])"] have "landed_all x (logs(name := logs name @ [l])) es (logs(name := logs name @ l # ls))"
    by (simp only: fun_upd_upd fun_upd_same append_assoc append.simps)
  with Cons.hyps(1) show ?case by (simp only: landed_all.simps) blast
qed simp

lemma landed_all_grows: "landed_all x a es b \<Longrightarrow> length (a n) \<le> length (b n)"
proof (induction es arbitrary: a)
  case (Cons e es)
  then obtain name line where "landed_all x (a(name := a name @ [line])) es b" by auto
  from Cons.IH [OF this] show ?case by (cases "n = name") auto
qed simp

text \<open>Where only one log is ever written, it grew by the lines of the entries, in order.\<close>

lemma landed_all_single:
  "landed_all x a es b \<Longrightarrow> (\<And>n. n \<noteq> name \<Longrightarrow> b n = []) \<Longrightarrow> \<exists>lines. b name = a name @ lines \<and> list_all2 (carries x) lines es"
proof (induction es arbitrary: a)
  case (Cons e es)
  then obtain n line where l: "carries x line e" "landed_all x (a(n := a n @ [line])) es b" by auto
  have n: "n = name" using landed_all_grows [OF l(2), of n] Cons.prems(2) [of n] by (cases "n = name") auto
  from Cons.IH [OF l(2) Cons.prems(2)] n obtain lines where "b name = a name @ line # lines" "list_all2 (carries x) lines es" by auto
  with l(1) show ?case by (intro exI [of _ "line # lines"]) simp
qed simp

locale batch_recorder = recorder +
  assumes records_law: "ok w \<Longrightarrow> \<forall>(en, sh, e) \<in> set ds. fit en \<Longrightarrow> record_decisions st io ds w = (r, w') \<Longrightarrow>
    ok w' \<and> (\<forall>es. r = Inr es \<longrightarrow> list_all2 settled (map (\<lambda>(en, sh, e). e) ds) es \<and> landed_all x (logs w) es (logs w'))"

context recorder
begin

lemma record_ok: "ok w \<Longrightarrow> fit en \<Longrightarrow> record_decision st en sh e w = (r, w') \<Longrightarrow> ok w'"
  using record_law by blast

lemma record_landed:
  assumes "ok w" and "fit en" and "record_decision st en sh e w = (Inr y, w')"
  shows "settled e y \<and> landed_all x (logs w) [y] (logs w')"
  using recorded_line [OF assms] settle_settled by auto

lemma record_each_law:
  assumes "ok w" and "\<forall>(en, sh, e) \<in> set ds. fit en" and "record_each st ds w = (r, w')"
  shows "ok w' \<and> (\<forall>es. r = Inr es \<longrightarrow> list_all2 settled (map (\<lambda>(en, sh, e). e) ds) es \<and> landed_all x (logs w) es (logs w'))"
  using assms
proof (induction ds arbitrary: w r w')
  case (Cons d ds)
  obtain en sh e where d: "d = (en, sh, e)" by (metis prod.exhaust)
  obtain q w1 where q: "record_decision st en sh e w = (q, w1)" by force
  have f: "fit en" "\<forall>(en, sh, e) \<in> set ds. fit en" using Cons.prems(2) d by auto
  note ok1 = record_ok [OF Cons.prems(1) f(1) q]
  show ?case
  proof (cases q)
    case (Inl z)
    with Cons.prems(3) d q ok1 show ?thesis by (auto simp: s_bind_def)
  next
    case (Inr y)
    obtain q2 w2 where q2: "record_each st ds w1 = (q2, w2)" by force
    note ih = Cons.IH [OF ok1 f(2) q2] and l = record_landed [OF Cons.prems(1) f(1) q [unfolded Inr]]
    from Cons.prems(3) d q Inr q2 have w': "w' = w2" and r: "\<And>es. r = Inr es \<Longrightarrow> \<exists>ys. q2 = Inr ys \<and> es = y # ys"
      by (auto simp: s_bind_def s_ret_def split: sum.splits)
    have "list_all2 settled (map (\<lambda>(en, sh, e). e) (d # ds)) es \<and> landed_all x (logs w) es (logs w')" if "r = Inr es" for es
    proof -
      from r [OF that] obtain ys where ys: "q2 = Inr ys" "es = [y] @ ys" by auto
      with ih w' have i: "list_all2 settled (map (\<lambda>(en, sh, e). e) ds) ys" "landed_all x (logs w1) ys (logs w')" by auto
      from landed_all_append [OF conjunct2 [OF l] i(2)] i(1) l ys(2) d show ?thesis by simp
    qed
    with ih w' show ?thesis by blast
  qed
qed (auto simp: s_ret_def)

end

section \<open>On one file\<close>

lemma settle_all_keeps:
  "settle_all ds w = (r, w') \<Longrightarrow> w_single w' = w_single w \<and> w_poisoned w' = w_poisoned w \<and>
    (\<forall>es. r = Inr es \<longrightarrow> list_all2 (\<lambda>(en, sh, e) (io, e0). \<forall>n. settled e (e0\<lparr>e_seq := n\<rparr>)) ds es)"
proof (induction ds arbitrary: w r w')
  case (Cons d ds)
  obtain en sh e where d: "d = (en, sh, e)" by (metis prod.exhaust)
  obtain q g where q: "settle (en_registry_later en) e (w_missions w) = (q, g)" by force
  show ?case
  proof (cases q)
    case (Inl z)
    with Cons.prems d q show ?thesis by (auto simp: s_bind_def on_missions_def)
  next
    case (Inr e')
    obtain q2 w2 where q2: "settle_all ds (w\<lparr>w_missions := g\<rparr>) = (q2, w2)" by force
    from Cons.IH [OF q2] Cons.prems d q Inr q2 settle_settled [OF q [unfolded Inr]] show ?thesis
      by (cases q2) (auto simp: s_bind_def on_missions_def s_ret_def)
  qed
qed (auto simp: s_ret_def)

lemma settled_lines:
  assumes "list_all2 (\<lambda>(en, sh, e) (io, e0). \<forall>n. settled e (e0\<lparr>e_seq := n\<rparr>)) ds es"
    and "list_all2 (\<lambda>rec ie. \<exists>n. lr_entry rec = (snd ie)\<lparr>e_seq := n\<rparr>) recs es"
  shows "list_all2 settled (map (\<lambda>(en, sh, e). e) ds) (map lr_entry recs)"
  using assms
proof (induction ds es arbitrary: recs rule: list_all2_induct)
  case (Cons d ds ie es)
  then obtain rec recs' where "recs = rec # recs'" "\<exists>n. lr_entry rec = (snd ie)\<lparr>e_seq := n\<rparr>"
    "list_all2 (\<lambda>rec ie. \<exists>n. lr_entry rec = (snd ie)\<lparr>e_seq := n\<rparr>) recs' es" by (auto simp: list_all2_Cons2)
  with Cons show ?case by (auto split: prod.splits)
qed simp

interpretation single_batch: batch_recorder "sx_base (st_ext st)" "st\<lparr>st_backend := SingleBackend\<rparr>" "\<lambda>_. True"
    "single_ok (sx_base (st_ext st))" "single_logs (sx_base (st_ext st))" for st :: "('s, 'p, 'e, 'c, 'r) app_state"
proof (unfold_locales, goal_cases)
  case (1 w ds io r w')
  let ?x = "sx_base (st_ext st)"
  show ?case
  proof (cases "w_poisoned w")
    case True
    with 1 show ?thesis by (auto simp: record_decisions_def s_bind_def lock_single_def)
  next
    case False
    obtain q w1 where q: "settle_all ds w = (q, w1)" by force
    note k = settle_all_keeps [OF q]
    show ?thesis
    proof (cases q)
      case (Inl z)
      with 1 False q k show ?thesis by (auto simp: record_decisions_def s_bind_def lock_single_def single_ok_def)
    next
      case (Inr es)
      obtain d L where w: "w_single w = (d, L)" by force
      obtain q2 d' L' where a: "append_all ?x es io (d, L) = (q2, (d', L'))" by (metis prod.exhaust)
      from 1(3) False q Inr k w a have r: "w' = w1\<lparr>w_single := (d', L')\<rparr>" "\<And>ys. r = Inr ys \<Longrightarrow> \<exists>recs. q2 = Inr recs \<and> ys = map lr_entry recs"
        by (auto simp: record_decisions_def s_bind_def lock_single_def on_single_def s_ret_def split: sum.splits)
      have "led_ok ?x (d, L)" using 1(1) w by (simp add: single_ok_def)
      from append_all_ok [OF this a] obtain new where n: "led_ok ?x (d', L')" "log_lines ?x d' L' = log_lines ?x d L @ new"
        "\<And>recs. q2 = Inr recs \<Longrightarrow> list_all2 (\<lambda>line rec. carries ?x line (lr_entry rec)) new recs \<and>
          list_all2 (\<lambda>rec ie. \<exists>n. lr_entry rec = (snd ie)\<lparr>e_seq := n\<rparr>) recs es" by blast
      have l: "single_logs ?x w' = (single_logs ?x w)('''' := single_logs ?x w '''' @ new)" using n(2) r(1) w by (simp add: single_logs_def led_log_def)
      have "list_all2 settled (map (\<lambda>(en, sh, e). e) ds) ys \<and> landed_all ?x (single_logs ?x w) ys (single_logs ?x w')" if ys: "r = Inr ys" for ys
      proof -
        from r(2) [OF ys] obtain recs where recs: "q2 = Inr recs" "ys = map lr_entry recs" by blast
        note m = n(3) [OF recs(1)]
        from m have "list_all2 (carries ?x) new ys" by (simp add: recs(2) list_all2_map2)
        from landed_all_lines [OF this] have "landed_all ?x (single_logs ?x w) ys (single_logs ?x w')" unfolding l .
        moreover from k Inr have "list_all2 (\<lambda>(en, sh, e) (io, e0). \<forall>n. settled e (e0\<lparr>e_seq := n\<rparr>)) ds es" by simp
        from settled_lines [OF this conjunct2 [OF m]] have "list_all2 settled (map (\<lambda>(en, sh, e). e) ds) ys" by (simp add: recs(2))
        ultimately show ?thesis by simp
      qed
      with n(1) r(1) show ?thesis by (simp add: single_ok_def)
    qed
  qed
qed

section \<open>On shards\<close>

interpretation sharded_batch: batch_recorder "sx_base (st_ext st)" "st\<lparr>st_backend := ShardedBackend L\<rparr>" "on_files hx base"
    "sharded_ok (sx_base (st_ext st)) L hx base K" "sharded_logs hx base"
  for st :: "('s, 'p, 'e, 'c, 'r) app_state" and L hx base K
  by unfold_locales (rule sharded_files.record_each_law, auto simp: record_decisions_def)


section \<open>The items\<close>

text \<open>A result is an item's refusal, or what was recorded of it.\<close>

definition refusal_result :: "json \<Rightarrow> bool" where
  "refusal_result r \<longleftrightarrow> (\<exists>status code message. r = undecided status code message)"

lemma refusal_result_undecided [simp]: "refusal_result (undecided status code message)"
  by (auto simp: refusal_result_def)

text \<open>What came of a place in the answer: nothing was decided, or an entry was recorded. A refusal allows
  nothing.\<close>

fun allows :: "entry option \<Rightarrow> bool" where
  "allows None \<longleftrightarrow> False"
| "allows (Some e) \<longleftrightarrow> e_decision e"

abbreviation recorded_entries :: "entry option list \<Rightarrow> entry list" where
  "recorded_entries outs \<equiv> List.map_filter (\<lambda>out. out) outs"

text \<open>Item \<open>i\<close> was refused, or it was evaluated as the request it is merged to, the entry \<open>e\<close> is what that
  evaluation was recorded as, and the result is the decision and the reasons of \<open>e\<close>.\<close>

fun item_answer ::
  "('s, 'p, 'e, 'c, 'r) app_state \<Rightarrow> ('h, 'm) env \<Rightarrow> caller \<Rightarrow> batch_req \<Rightarrow> nat \<Rightarrow> json \<Rightarrow> json \<Rightarrow> entry option \<Rightarrow> bool" where
  "item_answer st en caller req0 i item b None \<longleftrightarrow> refusal_result b"
| "item_answer st en caller req0 i item b (Some e) \<longleftrightarrow>
     (\<exists>req ev v v'. merged (st_ext st) req0 (Some i) item = Inr req \<and> evaluate_one st en caller req v = (Inr ev, v') \<and>
        settled (ev_entry ev) e \<and> b = evaluation_body (e_decision e) (e_reasons e) (ev_errors ev))"

text \<open>The results from place \<open>i\<close> on answer the items one by one.\<close>

fun answered ::
  "('s, 'p, 'e, 'c, 'r) app_state \<Rightarrow> caller \<Rightarrow> batch_req \<Rightarrow> nat \<Rightarrow> (('h, 'm) env \<times> json) list \<Rightarrow> json list \<Rightarrow> entry option list \<Rightarrow> bool" where
  "answered st caller req0 i items [] outs \<longleftrightarrow> outs = []"
| "answered st caller req0 i ((en, item) # items) (b # results) (out # outs) \<longleftrightarrow>
     item_answer st en caller req0 i item b out \<and> answered st caller req0 (Suc i) items results outs"
| "answered st caller req0 i _ _ _ \<longleftrightarrow> False"

lemma answered_nth:
  assumes "answered st caller req0 i items results outs"
  shows "length outs = length results \<and> length results \<le> length items \<and>
    (\<forall>j < length results. item_answer st (fst (items ! j)) caller req0 (i + j) (snd (items ! j)) (results ! j) (outs ! j))"
  using assms
proof (induction st caller req0 i items results outs rule: answered.induct)
  case (2 st caller req0 i en item items b results out outs)
  then show ?case by (auto simp: less_Suc_eq_0_disj)
qed auto

text \<open>The step of the loop after an item was answered.\<close>

definition land_item ::
  "('s, 'p, 'e, 'c, 'r) app_state \<Rightarrow> semantic \<Rightarrow> nat \<Rightarrow> ('h, 'm) env \<Rightarrow> answer \<Rightarrow>
   (('h, 'm) world, response option, bool \<times> json \<times> (nat \<times> string list \<times> ('h, 'm) env \<times> shard \<times> entry) list) sres" where
  "land_item st semantic i en a =
     (case an_record a of
        None \<Rightarrow> s_ret (an_decision a, an_body a, [])
      | Some (shard, entry) \<Rightarrow>
          if semantic = ExecuteAll then s_ret (an_decision a, an_body a, [(i, an_errors a, en, shard, entry)])
          else s_bind (s_err (\<lambda>e. Some (not_recorded e)) (record_decision st en shard entry)) (\<lambda>recorded.
            s_ret (e_decision recorded, evaluation_body (e_decision recorded) (e_reasons recorded) (an_errors a), [])))"

lemma answer_items_Cons:
  assumes "answer_items st caller req0 semantic oversize i ((en, item) # rest) w = (Inr (results, decided), w')"
  obtains inherits a w1 d b held w2 where "answer_item st en caller req0 i item inherits w = (Inr a, w1)"
    "land_item st semantic i en a w1 = (Inr (d, b, held), w2)" "stops semantic d" "results = [b]" "decided = held" "w' = w2"
  | inherits a w1 d b held w2 results1 decided1 where "answer_item st en caller req0 i item inherits w = (Inr a, w1)"
    "land_item st semantic i en a w1 = (Inr (d, b, held), w2)" "\<not> stops semantic d"
    "answer_items st caller req0 semantic oversize (Suc i) rest w2 = (Inr (results1, decided1), w')" "results = b # results1" "decided = held @ decided1"
proof -
  define inherits where "inherits = list_ex (\<lambda>key. oversize key \<and> \<not> (case as_object item of Some obj \<Rightarrow> bm_get obj key \<noteq> None | None \<Rightarrow> False)) batch_keys"
  from assms have s: "s_bind (s_err (\<lambda>_. None) (answer_item st en caller req0 i item inherits)) (\<lambda>a.
      s_bind (land_item st semantic i en a) (\<lambda>(decision, body, held).
      if stops semantic decision then s_ret ([body], held)
      else s_bind (answer_items st caller req0 semantic oversize (Suc i) rest) (\<lambda>(results, decided). s_ret (body # results, held @ decided)))) w
      = (Inr (results, decided), w')" by (simp add: land_item_def inherits_def Let_def)
  obtain q w1 where q: "answer_item st en caller req0 i item inherits w = (q, w1)" by force
  with s obtain a where a: "q = Inr a" by (cases q) (auto simp: s_bind_def s_err_def)
  obtain q2 w2 where q2: "land_item st semantic i en a w1 = (q2, w2)" by force
  with s q a obtain d b held where l: "q2 = Inr (d, b, held)" by (cases q2) (auto simp: s_bind_def s_err_def)
  show ?thesis
  proof (cases "stops semantic d")
    case True
    with s q a q2 l show ?thesis by (intro that(1) [of inherits a w1 d b held w2]) (auto simp: s_bind_def s_err_def s_ret_def)
  next
    case False
    obtain q3 w3 where q3: "answer_items st caller req0 semantic oversize (Suc i) rest w2 = (q3, w3)" by force
    with s q a q2 l False obtain rs ds where "q3 = Inr (rs, ds)" by (cases q3) (auto simp: s_bind_def s_err_def)
    with s q a q2 l False q3 show ?thesis
      by (intro that(2) [of inherits a w1 d b held w2 rs ds]) (auto simp: s_bind_def s_err_def s_ret_def)
  qed
qed

lemma answer_item_cases:
  assumes "answer_item st en caller req0 i item inherits w = (Inr a, w1)"
  obtains (refused) "an_record a = None" "refusal_result (an_body a)" "\<not> an_decision a"
  | (evaluated) req ev where "merged (st_ext st) req0 (Some i) item = Inr req" "evaluate_one st en caller req w = (Inr ev, w1)"
      "an_record a = Some (ev_shard ev, ev_entry ev)" "an_errors a = ev_errors ev"
  using assms by (auto simp: answer_item_def undecided_answer_def split: if_splits sum.splits prod.splits stop.splits)

lemma land_item_Inl: "land_item st semantic i en a w = (Inl z, w') \<Longrightarrow> \<exists>err. z = Some (not_recorded err)"
  by (auto simp: land_item_def s_bind_def s_err_def s_ret_def split: option.splits prod.splits if_splits sum.splits)

lemma answer_items_Inl:
  "answer_items st caller req0 semantic oversize i items w = (Inl z, w') \<Longrightarrow> z = None \<or> (\<exists>err. z = Some (not_recorded err))"
proof (induction items arbitrary: i w)
  case (Cons ie items)
  obtain en item where ie: "ie = (en, item)" by force
  obtain inherits where "s_bind (s_err (\<lambda>_. None) (answer_item st en caller req0 i item inherits)) (\<lambda>a.
      s_bind (land_item st semantic i en a) (\<lambda>(decision, body, held).
      if stops semantic decision then s_ret ([body], held)
      else s_bind (answer_items st caller req0 semantic oversize (Suc i) items) (\<lambda>(results, decided). s_ret (body # results, held @ decided)))) w
      = (Inl z, w')" using Cons.prems unfolding ie by (simp add: land_item_def Let_def)
  then show ?case
    by (auto simp: s_bind_def s_err_def s_ret_def split: prod.splits sum.splits if_splits dest: land_item_Inl Cons.IH)
qed (simp add: s_ret_def)

lemma finish_batch_Inl: "finish_batch st io results decided w = (Inl z, w') \<Longrightarrow> \<exists>err. z = Some (not_recorded err)"
  by (auto simp: finish_batch_def s_bind_def s_err_def s_ret_def split: prod.splits sum.splits if_splits)

text \<open>How an exchange with items comes to be answered.\<close>

lemma admit_items_status: "admit_items caller req0 items = Some r \<Longrightarrow> rs_status r \<noteq> 200"
  by (induction items) (auto simp: admit_named_def refuse_unless_admits_def refuse_description_unless_pep_def refuse_unless_pep_def
      refused_def split: option.splits if_splits bind_splits prod.splits)

lemma evaluate_all_ok:
  assumes "evaluate_all st ens io caller req0 w = (Some resp, w')" and "rs_status resp = 200" and "unwrap_or [] (bq_evaluations req0) \<noteq> []"
  obtains semantic oversize results decided w1 results' where
    "semantic_parse (st_ext st) (Option.bind (bq_options req0) (\<lambda>n. n)) = Inr semantic"
    "answer_items st caller req0 semantic oversize 0
      (zip (map ens [0..<length (unwrap_or [] (bq_evaluations req0))]) (unwrap_or [] (bq_evaluations req0))) w = (Inr (results, decided), w1)"
    "finish_batch st io results decided w1 = (Inr results', w')" "resp = ok_json (evaluations_body results')"
proof -
  let ?items = "unwrap_or [] (bq_evaluations req0)"
  let ?pairs = "zip (map ens [0..<length ?items]) ?items"
  have st: "rs_status (refusal_response (invalid_request d)) = 400" "rs_status (refusal_response (payload_too_large k t)) = 413"
    "rs_status (not_recorded z) = 503" for d k t z
    by (simp_all add: refusal_response_def refused_def invalid_request_def refusal_new_def payload_too_large_def not_recorded_def)
  from assms obtain semantic oversize where p: "semantic_parse (st_ext st) (Option.bind (bq_options req0) (\<lambda>n. n)) = Inr semantic" and
    e: "(case s_bind (answer_items st caller req0 semantic oversize 0 ?pairs) (\<lambda>(results, decided). finish_batch st io results decided) w of
        (Inl resp, w') \<Rightarrow> (resp, w') | (Inr results, w') \<Rightarrow> (Some (ok_json (evaluations_body results)), w')) = (Some resp, w')"
    using admit_items_status st unfolding evaluate_all_def Let_def by (auto split: sum.splits if_splits option.splits)
  obtain q w1 where q: "answer_items st caller req0 semantic oversize 0 ?pairs w = (q, w1)" by force
  have z: "z \<noteq> Some resp" if "z = None \<or> (\<exists>err. z = Some (not_recorded err))" for z using that assms(2) st(3) by auto
  with e q answer_items_Inl [of st caller req0 semantic oversize 0 ?pairs w] obtain results decided where a: "q = Inr (results, decided)"
    by (cases q) (auto simp: s_bind_def)
  obtain q2 w2 where q2: "finish_batch st io results decided w1 = (q2, w2)" by force
  with e q a z finish_batch_Inl [of st io results decided w1] obtain results' where "q2 = Inr results'" "resp = ok_json (evaluations_body results')" "w2 = w'"
    by (cases q2) (auto simp: s_bind_def)
  with that [OF p q [unfolded a]] q2 show ?thesis by simp
qed

text \<open>The decisions the loop holds back under \<open>execute_all\<close>, each for the place of its own item.\<close>

fun pending ::
  "('s, 'p, 'e, 'c, 'r) app_state \<Rightarrow> caller \<Rightarrow> batch_req \<Rightarrow> nat \<Rightarrow> (('h, 'm) env \<times> json) list \<Rightarrow> json list \<Rightarrow>
   (nat \<times> string list \<times> ('h, 'm) env \<times> shard \<times> entry) list \<Rightarrow> bool" where
  "pending st caller req0 i [] results ds \<longleftrightarrow> results = [] \<and> ds = []"
| "pending st caller req0 i ((en, item) # items) results ds \<longleftrightarrow> (\<exists>b results1. results = b # results1 \<and>
     (refusal_result b \<and> pending st caller req0 (Suc i) items results1 ds \<or>
      (\<exists>req ev v v' ds1. merged (st_ext st) req0 (Some i) item = Inr req \<and> evaluate_one st en caller req v = (Inr ev, v') \<and>
         ds = (i, ev_errors ev, en, ev_shard ev, ev_entry ev) # ds1 \<and> pending st caller req0 (Suc i) items results1 ds1)))"

lemma pending_length: "pending st caller req0 i items results ds \<Longrightarrow> length results = length items"
  by (induction items arbitrary: i results ds) auto

lemma pending_fits:
  "pending st caller req0 i items results ds \<Longrightarrow> \<forall>(en, item) \<in> set items. fit en \<Longrightarrow> \<forall>(spot, errs, en, z) \<in> set ds. fit en"
proof (induction items arbitrary: i results ds)
  case (Cons ie items)
  obtain en item where ie: "ie = (en, item)" by force
  from Cons.prems(1) [unfolded ie] obtain b results1 where
    c: "refusal_result b \<and> pending st caller req0 (Suc i) items results1 ds \<or>
      (\<exists>req ev v v' ds1. merged (st_ext st) req0 (Some i) item = Inr req \<and> evaluate_one st en caller req v = (Inr ev, v') \<and>
         ds = (i, ev_errors ev, en, ev_shard ev, ev_entry ev) # ds1 \<and> pending st caller req0 (Suc i) items results1 ds1)"
    by (simp only: pending.simps) blast
  have f: "fit en" "\<forall>(en, item) \<in> set items. fit en" using Cons.prems(2) ie by auto
  from c show ?case by (elim disjE exE conjE) (use Cons.IH [OF _ f(2)] f(1) in auto)
qed simp

text \<open>Once they are recorded every place has its own entry, and the entries are in the order of the items.\<close>

lemma pending_settles:
  assumes "pending st caller req0 i items results ds" and "list_all2 settled (map (\<lambda>(spot, errs, en, sh, e). e) ds) es" and "length pre = i"
  shows "\<exists>results' outs. settle_results ds es (pre @ results) = pre @ results' \<and> answered st caller req0 i items results' outs \<and>
    recorded_entries outs = es"
  using assms
proof (induction items arbitrary: i results ds es pre)
  case Nil
  then show ?case by (auto simp: List.map_filter_simps)
next
  case (Cons ie items)
  obtain en item where ie: "ie = (en, item)" by force
  from Cons.prems(1) [unfolded ie] obtain b results1 where r: "results = b # results1" and
    c: "refusal_result b \<and> pending st caller req0 (Suc i) items results1 ds \<or>
      (\<exists>req ev v v' ds1. merged (st_ext st) req0 (Some i) item = Inr req \<and> evaluate_one st en caller req v = (Inr ev, v') \<and>
         ds = (i, ev_errors ev, en, ev_shard ev, ev_entry ev) # ds1 \<and> pending st caller req0 (Suc i) items results1 ds1)"
    by (simp only: pending.simps) blast
  from c show ?case
  proof (elim disjE conjE exE)
    assume h: "refusal_result b" "pending st caller req0 (Suc i) items results1 ds"
    from Cons.IH [OF h(2) Cons.prems(2), of "pre @ [b]"] Cons.prems(3) obtain results' outs where
      "settle_results ds es ((pre @ [b]) @ results1) = (pre @ [b]) @ results'" "answered st caller req0 (Suc i) items results' outs" "recorded_entries outs = es"
      by auto
    with h(1) r ie show ?thesis by (intro exI [of _ "b # results'"] exI [of _ "None # outs"]) (simp add: List.map_filter_simps)
  next
    fix req ev v v' ds1
    assume h: "merged (st_ext st) req0 (Some i) item = Inr req" "evaluate_one st en caller req v = (Inr ev, v')"
      "ds = (i, ev_errors ev, en, ev_shard ev, ev_entry ev) # ds1" "pending st caller req0 (Suc i) items results1 ds1"
    from Cons.prems(2) h(3) obtain e es1 where e: "es = e # es1" "settled (ev_entry ev) e"
      "list_all2 settled (map (\<lambda>(spot, errs, en, sh, e). e) ds1) es1" by (auto simp: list_all2_Cons1)
    let ?b = "evaluation_body (e_decision e) (e_reasons e) (ev_errors ev)"
    from Cons.IH [OF h(4) e(3), of "pre @ [?b]"] Cons.prems(3) obtain results' outs where
      i: "settle_results ds1 es1 ((pre @ [?b]) @ results1) = (pre @ [?b]) @ results'" "answered st caller req0 (Suc i) items results' outs" "recorded_entries outs = es1"
      by auto
    have "(pre @ results)[i := ?b] = (pre @ [?b]) @ results1" using Cons.prems(3) r by (simp add: list_update_append)
    then have "settle_results ds es (pre @ results) = pre @ ?b # results'" using i(1) h(3) e(1) by simp
    moreover have "answered st caller req0 i (ie # items) (?b # results') (Some e # outs)" using i(2) h(1,2) e(2) ie by auto
    ultimately show ?thesis using i(3) e(1) by (intro exI [of _ "?b # results'"] exI [of _ "Some e # outs"]) (simp add: List.map_filter_simps)
  qed
qed

context batch_recorder
begin

lemma answer_item_keeps:
  assumes "answer_item st en caller req0 i item inherits w = (q, w1)"
  shows "ok w1 = ok w" and "logs w1 = logs w"
proof -
  have "w1 = w \<or> (\<exists>req v. evaluate_one st en caller req w = (v, w1))"
    using assms by (auto simp: answer_item_def split: if_splits sum.splits prod.splits stop.splits)
  then show "ok w1 = ok w" "logs w1 = logs w" using evaluate_keeps by blast+
qed

text \<open>One item under a short-circuit semantic: what was recorded is what is answered and what decides whether
  to go on.\<close>

lemma item_recorded:
  assumes "semantic \<noteq> ExecuteAll" and "ok w" and "fit en" and "answer_item st en caller req0 i item inherits w = (Inr a, w1)"
    and "land_item st semantic i en a w1 = (Inr (d, b, held), w2)"
  obtains out where "ok w2" "held = []" "d = allows out" "item_answer st en caller req0 i item b out"
    "landed_all x (logs w) (recorded_entries [out]) (logs w2)"
proof -
  note k = answer_item_keeps [OF assms(4)]
  from assms(4) show thesis
  proof (cases rule: answer_item_cases)
    case refused
    with assms(5) have "w2 = w1" "d = an_decision a" "b = an_body a" "held = []" by (simp_all add: land_item_def s_ret_def)
    with refused k assms(2) show thesis by (intro that [of None]) (simp_all add: List.map_filter_simps)
  next
    case (evaluated req ev)
    obtain q w3 where q: "record_decision st en (ev_shard ev) (ev_entry ev) w1 = (q, w3)" by force
    with assms(1,5) evaluated(3,4) obtain y where y: "q = Inr y" "d = e_decision y"
      "b = evaluation_body (e_decision y) (e_reasons y) (ev_errors ev)" "held = []" "w2 = w3"
      by (cases q) (auto simp: land_item_def s_bind_def s_err_def s_ret_def)
    have ok1: "ok w1" using k assms(2) by simp
    from record_landed [OF ok1 assms(3) q [unfolded y(1)]] have l: "settled (ev_entry ev) y" "landed_all x (logs w) [y] (logs w3)" using k by auto
    have "item_answer st en caller req0 i item b (Some y)" using evaluated(1,2) l(1) y(3) by auto
    with record_ok [OF ok1 assms(3) q] l(2) y show thesis by (intro that [of "Some y"]) (simp_all add: List.map_filter_simps del: landed_all.simps)
  qed
qed

lemma short_circuit:
  assumes "semantic \<noteq> ExecuteAll" and "ok w" and "\<forall>(en, item) \<in> set items. fit en"
    and "answer_items st caller req0 semantic oversize i items w = (Inr (results, decided), w')"
  shows "ok w' \<and> decided = [] \<and> (\<exists>outs. answered st caller req0 i items results outs \<and> landed_all x (logs w) (recorded_entries outs) (logs w') \<and>
    (items \<noteq> [] \<longrightarrow> outs \<noteq> []) \<and> (\<forall>out \<in> set (butlast outs). \<not> stops semantic (allows out)) \<and>
    (length outs < length items \<longrightarrow> stops semantic (allows (last outs))))"
  using assms(2-)
proof (induction items arbitrary: i w results decided)
  case Nil
  then show ?case by (auto simp: s_ret_def List.map_filter_simps)
next
  case (Cons ie items)
  obtain en item where ie: "ie = (en, item)" by force
  have f: "fit en" "\<forall>(en, item) \<in> set items. fit en" using Cons.prems(2) ie by auto
  from Cons.prems(3) [unfolded ie] show ?case
  proof (cases rule: answer_items_Cons)
    case (1 inherits a w1 d b held w2)
    obtain out where o: "ok w2" "held = []" "d = allows out" "item_answer st en caller req0 i item b out"
      "landed_all x (logs w) (recorded_entries [out]) (logs w2)" by (rule item_recorded [OF assms(1) Cons.prems(1) f(1) 1(1,2)])
    have "answered st caller req0 i (ie # items) [b] [out]" using o(4) ie by simp
    with o 1(3-6) show ?thesis by (intro conjI exI [of _ "[out]"]) simp_all
  next
    case (2 inherits a w1 d b held w2 results1 decided1)
    obtain out where o: "ok w2" "held = []" "d = allows out" "item_answer st en caller req0 i item b out"
      "landed_all x (logs w) (recorded_entries [out]) (logs w2)" by (rule item_recorded [OF assms(1) Cons.prems(1) f(1) 2(1,2)])
    from Cons.IH [OF o(1) f(2) 2(4)] obtain outs where h: "ok w'" "decided1 = []" "answered st caller req0 (Suc i) items results1 outs"
      "landed_all x (logs w2) (recorded_entries outs) (logs w')" "items \<noteq> [] \<longrightarrow> outs \<noteq> []" "\<forall>out \<in> set (butlast outs). \<not> stops semantic (allows out)"
      "length outs < length items \<longrightarrow> stops semantic (allows (last outs))" by blast
    have "answered st caller req0 i (ie # items) results (out # outs)" using o(4) h(3) ie 2(5) by simp
    moreover have "landed_all x (logs w) (recorded_entries (out # outs)) (logs w')"
      using landed_all_append [OF o(5) h(4)] by (cases out) (simp_all add: List.map_filter_simps)
    ultimately show ?thesis using o(2,3) h 2(3,6) by (intro conjI exI [of _ "out # outs"]) (cases outs; auto)+
  qed
qed

lemma execute_all:
  assumes "ok w" and "answer_items st caller req0 ExecuteAll oversize i items w = (Inr (results, decided), w')"
  shows "ok w' \<and> logs w' = logs w \<and> pending st caller req0 i items results decided"
  using assms
proof (induction items arbitrary: i w results decided)
  case Nil
  then show ?case by (simp add: s_ret_def)
next
  case (Cons ie items)
  obtain en item where ie: "ie = (en, item)" by force
  from Cons.prems(2) [unfolded ie] show ?case
  proof (cases rule: answer_items_Cons)
    case (1 inherits a w1 d b held w2)
    then show ?thesis by (simp add: stops_def)
  next
    case (2 inherits a w1 d b held w2 results1 decided1)
    note k = answer_item_keeps [OF 2(1)]
    from 2(2) have w2: "w2 = w1" by (auto simp: land_item_def s_ret_def split: option.splits prod.splits)
    have "ok w2" using k Cons.prems(1) w2 by simp
    from Cons.IH [OF this 2(4)] have h: "ok w'" "logs w' = logs w" "pending st caller req0 (Suc i) items results1 decided1" using k w2 by auto
    from 2(1) have "pending st caller req0 i (ie # items) results decided"
    proof (cases rule: answer_item_cases)
      case refused
      with 2(2) have "b = an_body a" "held = []" by (simp_all add: land_item_def s_ret_def)
      with refused h(3) 2(5,6) ie show ?thesis by simp
    next
      case (evaluated req ev)
      with 2(2) have "held = [(i, ev_errors ev, en, ev_shard ev, ev_entry ev)]" by (simp add: land_item_def s_ret_def)
      with evaluated(1,2) h(3) 2(5,6) ie show ?thesis by auto
    qed
    with h show ?thesis by simp
  qed
qed

lemma finish_recorded:
  assumes "ok w" and "\<forall>(spot, errs, en, z) \<in> set decided. fit en" and "finish_batch st io results decided w = (Inr results', w')"
  obtains es where "ok w'" "results' = settle_results decided es results" "list_all2 settled (map (\<lambda>(spot, errs, en, sh, e). e) decided) es"
    "landed_all x (logs w) es (logs w')"
proof (cases "decided = []")
  case True
  with assms(1,3) show thesis by (intro that [of "[]"]) (simp_all add: finish_batch_def s_ret_def)
next
  case False
  obtain q w1 where q: "record_decisions st io (map (\<lambda>(spot, errors, d). d) decided) w = (q, w1)" by force
  with assms(3) False obtain fs where f: "q = Inr fs" "results' = settle_results decided fs results" "w' = w1"
    by (cases q) (auto simp: finish_batch_def s_bind_def s_err_def s_ret_def)
  have "\<forall>(en, sh, e) \<in> set (map (\<lambda>(spot, errors, d). d) decided). fit en" using assms(2) by fastforce
  from records_law [OF assms(1) this q] f(1,3) have r: "ok w'" "landed_all x (logs w) fs (logs w')"
    "list_all2 settled (map (\<lambda>(en, sh, e). e) (map (\<lambda>(spot, errors, d). d) decided)) fs" by auto
  have m: "map (\<lambda>(en, sh, e). e) (map (\<lambda>(spot, errors, d). d) decided) = map (\<lambda>(spot, errs, en, sh, e). e) decided" by auto
  show thesis by (rule that [OF r(1) f(2) r(3) [unfolded m] r(2)])
qed

text \<open>Every result of an exchange that is answered is its own item's refusal or stands in a log, and the
  exchange stops where what was recorded says so.\<close>

lemma batch_recorded:
  assumes "ok w" and "\<And>n. fit (ens n)" and "evaluate_all st ens io caller req0 w = (Some resp, w')" and "rs_status resp = 200"
    and "bq_evaluations req0 = Some items" and "items \<noteq> []"
  obtains semantic results outs where "ok w'" "semantic_parse (st_ext st) (Option.bind (bq_options req0) (\<lambda>n. n)) = Inr semantic"
    "resp = ok_json (evaluations_body results)" "landed_all x (logs w) (recorded_entries outs) (logs w')"
    "length outs = length results" "length results \<le> length items" "outs \<noteq> []"
    "\<forall>j < length results. item_answer st (ens j) caller req0 j (items ! j) (results ! j) (outs ! j)"
    "\<forall>out \<in> set (butlast outs). \<not> stops semantic (allows out)" "length outs < length items \<longrightarrow> stops semantic (allows (last outs))"
proof -
  let ?pairs = "zip (map ens [0..<length items]) items"
  have ne: "unwrap_or [] (bq_evaluations req0) \<noteq> []" using assms(5,6) by simp
  have f: "\<forall>(en, item) \<in> set ?pairs. fit en" using assms(2) by (auto simp: set_zip)
  from assms(3,4) ne obtain semantic oversize results decided w1 results' where
    p: "semantic_parse (st_ext st) (Option.bind (bq_options req0) (\<lambda>n. n)) = Inr semantic"
    and a: "answer_items st caller req0 semantic oversize 0 ?pairs w = (Inr (results, decided), w1)"
    and b: "finish_batch st io results decided w1 = (Inr results', w')" and r: "resp = ok_json (evaluations_body results')"
    by (rule evaluate_all_ok) (simp add: assms(5))
  have "ok w' \<and> (\<exists>outs. answered st caller req0 0 ?pairs results' outs \<and> landed_all x (logs w) (recorded_entries outs) (logs w') \<and> outs \<noteq> [] \<and>
    (\<forall>out \<in> set (butlast outs). \<not> stops semantic (allows out)) \<and> (length outs < length items \<longrightarrow> stops semantic (allows (last outs))))"
  proof (cases "semantic = ExecuteAll")
    case True
    from execute_all [OF assms(1) a [unfolded True]] have e: "ok w1" "logs w1 = logs w" "pending st caller req0 0 ?pairs results decided" by auto
    obtain es where s: "ok w'" "results' = settle_results decided es results" "list_all2 settled (map (\<lambda>(spot, errs, en, sh, e). e) decided) es"
      "landed_all x (logs w1) es (logs w')" by (rule finish_recorded [OF e(1) pending_fits [OF e(3) f] b])
    from pending_settles [OF e(3) s(3), of "[]"] s(2) obtain outs where o: "answered st caller req0 0 ?pairs results' outs" "recorded_entries outs = es" by auto
    have "length results' = length results" unfolding s(2) by (induction decided es results rule: settle_results.induct) auto
    with answered_nth [OF o(1)] pending_length [OF e(3)] have "length outs = length items" by simp
    with o s e(2) assms(6) True show ?thesis by (intro conjI exI [of _ outs]) (auto simp: stops_def)
  next
    case False
    from short_circuit [OF False assms(1) f a] obtain outs where h: "ok w1" "decided = []" "answered st caller req0 0 ?pairs results outs"
      "landed_all x (logs w) (recorded_entries outs) (logs w1)" "outs \<noteq> []" "\<forall>out \<in> set (butlast outs). \<not> stops semantic (allows out)"
      "length outs < length items \<longrightarrow> stops semantic (allows (last outs))" using assms(6) by (auto simp: zip_eq_Nil_iff)
    moreover from b h(2) have "results' = results" "w' = w1" by (simp_all add: finish_batch_def s_ret_def)
    ultimately show ?thesis by blast
  qed
  then obtain outs where o: "ok w'" "answered st caller req0 0 ?pairs results' outs" "landed_all x (logs w) (recorded_entries outs) (logs w')" "outs \<noteq> []"
    "\<forall>out \<in> set (butlast outs). \<not> stops semantic (allows out)" "length outs < length items \<longrightarrow> stops semantic (allows (last outs))" by blast
  from answered_nth [OF o(2)] have "item_answer st (ens j) caller req0 j (items ! j) (results' ! j) (outs ! j)" if "j < length results'" for j
    using that by (auto dest!: spec [of _ j])
  with answered_nth [OF o(2)] show thesis by (intro that [OF o(1) p r o(3) _ _ o(4) _ o(5,6)]) simp_all
qed

end

lemma single_landed:
  "landed_all x (single_logs x w) es (single_logs x w') \<Longrightarrow>
    \<exists>lines. led_log x (w_single w') = led_log x (w_single w) @ lines \<and> list_all2 (carries x) lines es"
  using landed_all_single [of x "single_logs x w" es "single_logs x w'" "''''"] by (simp add: single_logs_def)

section \<open>Properties of an exchange\<close>

text \<open>C8: an exchange of several evaluations on one file is served only as recorded: it is answered 200
  only when each result answers the item of its own place, with a refusal or with the decision and the
  reasons of the entry that item's evaluation was recorded as, and the log grew by exactly one line for
  each of these entries, in the order of the items.\<close>

theorem batch_served_as_recorded:
  assumes "st_backend st = SingleBackend" and "single_ok (sx_base (st_ext st)) w"
    and "evaluate_all st ens io caller req0 w = (Some resp, w')" and "rs_status resp = 200" and "bq_evaluations req0 = Some (i # items)"
  shows "single_ok (sx_base (st_ext st)) w' \<and> (\<exists>results outs lines. resp = ok_json (evaluations_body results) \<and>
    length outs = length results \<and> length results \<le> length (i # items) \<and>
    (\<forall>j < length results. item_answer st (ens j) caller req0 j ((i # items) ! j) (results ! j) (outs ! j)) \<and>
    led_log (sx_base (st_ext st)) (w_single w') = led_log (sx_base (st_ext st)) (w_single w) @ lines \<and>
    list_all2 (carries (sx_base (st_ext st))) lines (recorded_entries outs))"
proof -
  have st: "st\<lparr>st_backend := SingleBackend\<rparr> = st" using assms(1) by simp
  obtain semantic results outs where b: "single_ok (sx_base (st_ext st)) w'" "resp = ok_json (evaluations_body results)"
    "landed_all (sx_base (st_ext st)) (single_logs (sx_base (st_ext st)) w) (recorded_entries outs) (single_logs (sx_base (st_ext st)) w')"
    "length outs = length results" "length results \<le> length (i # items)"
    "\<forall>j < length results. item_answer st (ens j) caller req0 j ((i # items) ! j) (results ! j) (outs ! j)"
    by (rule single_batch.batch_recorded [of st, unfolded st, OF assms(2) TrueI assms(3-5)]) simp
  from single_landed [OF b(3)] b show ?thesis by blast
qed

lemma sum_saturating_le: "sum_saturating ns \<le> sum_list ns"
proof -
  have "foldl sat_add64 a ns \<le> a + sum_list ns" for a
  proof (induction ns arbitrary: a)
    case (Cons n ns)
    have "sat_add64 a n \<le> a + n" by (simp add: sat_add64_def)
    with Cons [of "sat_add64 a n"] show ?case by simp
  qed simp
  from this [of 0] show ?thesis by (simp add: sum_saturating_def)
qed

lemma demo_item_merged: "merged demo_site (demo_batch [JObject demo_item] ''deny_on_first_deny'') (Some 0) (JObject demo_item) = Inr (demo_request demo_mission_ctx)"
  by code_simp

lemma demo_exchange:
  "\<exists>resp w'. evaluate_all (demo_state SingleBackend) (\<lambda>_. demo_env) no_faults None (demo_batch [JObject demo_item] ''deny_on_first_deny'') demo_world =
    (Some resp, w') \<and> rs_status resp = 200"
proof -
  let ?st = "demo_state SingleBackend" and ?top = "demo_batch [JObject demo_item] ''deny_on_first_deny''"
  obtain e where e: "evaluate_one ?st demo_env None (demo_request demo_mission_ctx) demo_world = (Inr e, demo_world)"
    "e_mission (ev_entry e) = Some \<lparr>mr_approver = ''alice'', mr_s256 = ''m''\<rparr>" using demo_evaluates by blast
  from demo_records [OF e(2), of "ev_shard e"] obtain y w' where y: "record_decision ?st demo_env (ev_shard e) (ev_entry e) demo_world = (Inr y, w')" by blast
  have x: "st_ext ?st = demo_site" by (simp add: demo_state_def)
  have s: "context_too_large demo_site v = False" for v by (simp add: context_too_large_def max_context_bytes_def demo_site_def demo_srv_def)
  have p: "semantic_parse demo_site (Some ''deny_on_first_deny'') = Inr DenyOnFirstDeny" by (simp add: semantic_parse_def)
  have b: "recorded_bytes demo_site ?top [JObject demo_item] (\<lambda>_. False) \<le> max_recorded_bytes"
  proof -
    have j: "json_len demo_site v = 2" for v by (simp add: json_len_def demo_site_def demo_srv_def)
    have "recorded_bytes demo_site ?top [JObject demo_item] (\<lambda>_. False) \<le> 8"
      unfolding recorded_bytes_def by (rule order_trans [OF sum_saturating_le], simp, rule order_trans [OF sum_saturating_le])
        (simp add: batch_keys_def j split: option.split)
    then show ?thesis by (simp add: max_recorded_bytes_def)
  qed
  have ad: "admit_items None ?top [JObject demo_item] = None"
    by (simp add: batch_facts_def as_object_def batch_field_def jget_def admit_named_def demo_batch_def default_for_def demo_mission_ctx_def demo_item_def
      named_decision_subject_def refuse_unless_admits_def as_str_def)
  have o: "(\<lambda>key. case default_for ?top key of Some v \<Rightarrow> context_too_large demo_site v | None \<Rightarrow> False) = (\<lambda>_. False)"
    by (auto simp: s split: option.splits)
  have a: "answer_items ?st None ?top DenyOnFirstDeny (\<lambda>_. False) 0 [(demo_env, JObject demo_item)] demo_world =
      (Inr ([evaluation_body (e_decision y) (e_reasons y) (ev_errors e)], []), w')"
    using e(1) y demo_item_merged by (simp add: Let_def answer_item_def x batch_keys_def s_bind_def s_err_def s_ret_def)
  have q: "unwrap_or [] (bq_evaluations ?top) = [JObject demo_item]" "Option.bind (bq_options ?top) (\<lambda>n. n) = Some ''deny_on_first_deny''"
    by (simp_all add: demo_batch_def)
  have "evaluate_all ?st (\<lambda>_. demo_env) no_faults None ?top demo_world =
      (Some (ok_json (evaluations_body [evaluation_body (e_decision y) (e_reasons y) (ev_errors e)])), w')"
    unfolding evaluate_all_def x q p o Let_def using ad b a by (simp add: s_bind_def finish_batch_def s_ret_def max_evaluations_def)
  then show ?thesis by (simp add: ok_json_def)
qed

theorem batch_served_as_recorded_witness:
  "\<exists>w' results outs lines. evaluate_all (demo_state SingleBackend) (\<lambda>_. demo_env) no_faults None (demo_batch [JObject demo_item] ''deny_on_first_deny'') demo_world =
    (Some (ok_json (evaluations_body results)), w') \<and>
    led_log demo_ext (w_single w') = led_log demo_ext (w_single demo_world) @ lines \<and> list_all2 (carries demo_ext) lines (recorded_entries outs) \<and>
    (\<forall>j < length results. item_answer (demo_state SingleBackend) demo_env None (demo_batch [JObject demo_item] ''deny_on_first_deny'') j
      ([JObject demo_item] ! j) (results ! j) (outs ! j))"
proof -
  obtain resp w' where r: "evaluate_all (demo_state SingleBackend) (\<lambda>_. demo_env) no_faults None (demo_batch [JObject demo_item] ''deny_on_first_deny'') demo_world =
    (Some resp, w')" "rs_status resp = 200" using demo_exchange by blast
  have "st_backend (demo_state SingleBackend) = SingleBackend" by (simp add: demo_state_def)
  moreover have "bq_evaluations (demo_batch [JObject demo_item] ''deny_on_first_deny'') = Some [JObject demo_item]" by (simp add: demo_batch_def)
  moreover have "sx_base (st_ext (demo_state SingleBackend)) = demo_ext" by (simp add: demo_state_def demo_site_def demo_srv_def demo_id_def)
  ultimately show ?thesis using batch_served_as_recorded [OF _ demo_single_ok r] r(1) by metis
qed

lemma evaluations_body_inj [simp]: "evaluations_body r = evaluations_body s \<longleftrightarrow> r = s"
  by (simp add: evaluations_body_def jobj_def bm_of_list_def)

text \<open>C38: under each of the three semantics an exchange on one file stops where the records say: there is a
  result for at least one item, for all of them under \<open>execute_all\<close>, no place before the last is one to stop
  at, and if items were left out the last place is: under \<open>deny_on_first_deny\<close> a refusal or an entry
  recorded as a Deny, under \<open>permit_on_first_permit\<close> an entry recorded as an Allow. The entries are those the
  log has new lines for, in order, and the results are what they say.\<close>

theorem batch_stopping_rule:
  assumes "st_backend st = SingleBackend" and "single_ok (sx_base (st_ext st)) w"
    and "semantic_parse (st_ext st) (Option.bind (bq_options req0) (\<lambda>n. n)) = Inr semantic"
    and "evaluate_all st ens io caller req0 w = (Some (ok_json (evaluations_body results)), w')" and "bq_evaluations req0 = Some (i # items)"
  shows "\<exists>outs lines. led_log (sx_base (st_ext st)) (w_single w') = led_log (sx_base (st_ext st)) (w_single w) @ lines \<and>
    list_all2 (carries (sx_base (st_ext st))) lines (recorded_entries outs) \<and> length outs = length results \<and>
    (\<forall>j < length results. item_answer st (ens j) caller req0 j ((i # items) ! j) (results ! j) (outs ! j)) \<and>
    results \<noteq> [] \<and> length results \<le> length (i # items) \<and> (semantic = ExecuteAll \<longrightarrow> length results = length (i # items)) \<and>
    (\<forall>out \<in> set (butlast outs). \<not> stops semantic (allows out)) \<and>
    (length results < length (i # items) \<longrightarrow> stops semantic (allows (last outs)))"
proof -
  have st: "st\<lparr>st_backend := SingleBackend\<rparr> = st" using assms(1) by simp
  have ok: "rs_status (ok_json (evaluations_body results)) = 200" by (simp add: ok_json_def)
  obtain semantic' results' outs where b: "semantic_parse (st_ext st) (Option.bind (bq_options req0) (\<lambda>n. n)) = Inr semantic'"
    "ok_json (evaluations_body results) = ok_json (evaluations_body results')"
    "landed_all (sx_base (st_ext st)) (single_logs (sx_base (st_ext st)) w) (recorded_entries outs) (single_logs (sx_base (st_ext st)) w')"
    "length outs = length results'" "length results' \<le> length (i # items)" "outs \<noteq> []"
    "\<forall>j < length results'. item_answer st (ens j) caller req0 j ((i # items) ! j) (results' ! j) (outs ! j)"
    "\<forall>out \<in> set (butlast outs). \<not> stops semantic' (allows out)" "length outs < length (i # items) \<longrightarrow> stops semantic' (allows (last outs))"
    by (rule single_batch.batch_recorded [of st, unfolded st, OF assms(2) TrueI assms(4) ok assms(5)]) simp
  have e: "semantic' = semantic" "results' = results" using b(1,2) assms(3) by (simp_all add: ok_json_def)
  have "\<not> stops ExecuteAll d" for d by (simp add: stops_def)
  then have "semantic = ExecuteAll \<longrightarrow> length results = length (i # items)" using b(4,5,9) e by (metis le_neq_implies_less)
  moreover have "results \<noteq> []" using b(4,6) e(2) by auto
  ultimately show ?thesis using single_landed [OF b(3)] b(4,5,7-9) unfolding e by (elim exE conjE) (intro exI conjI, assumption+, simp)
qed

theorem batch_stopping_rule_witness:
  "\<exists>w' results outs. evaluate_all (demo_state SingleBackend) (\<lambda>_. demo_env) no_faults None (demo_batch [JObject demo_item] ''deny_on_first_deny'') demo_world =
    (Some (ok_json (evaluations_body results)), w') \<and> results \<noteq> [] \<and> (\<forall>out \<in> set (butlast outs). allows out)"
proof -
  let ?top = "demo_batch [JObject demo_item] ''deny_on_first_deny''"
  obtain resp w' where r: "evaluate_all (demo_state SingleBackend) (\<lambda>_. demo_env) no_faults None ?top demo_world =
    (Some resp, w')" "rs_status resp = 200" using demo_exchange by blast
  have i: "bq_evaluations ?top = Some [JObject demo_item]" "unwrap_or [] (bq_evaluations ?top) \<noteq> []" by (simp_all add: demo_batch_def)
  have p: "semantic_parse (st_ext (demo_state SingleBackend)) (Option.bind (bq_options ?top) (\<lambda>n. n)) = Inr DenyOnFirstDeny"
    by (simp add: semantic_parse_def demo_batch_def)
  have st: "st_backend (demo_state SingleBackend) = SingleBackend" by (simp add: demo_state_def)
  from r i(2) obtain results where e: "resp = ok_json (evaluations_body results)" by (rule evaluate_all_ok)
  from batch_stopping_rule [OF st demo_single_ok p r(1) [unfolded e] i(1)] obtain outs where
    "results \<noteq> []" "\<forall>out \<in> set (butlast outs). \<not> stops DenyOnFirstDeny (allows out)" by (elim exE conjE)
  with r(1) e show ?thesis by (auto simp: stops_def)
qed

text \<open>Where its parties are written as objects an item, too, is evaluated for nobody but a caller bound to itself.\<close>

lemma self_bound_item:
  assumes "au_bind who = SelfOnly" and "admit_items (Some who) req0 items = None" and "JObject obj \<in> set items"
    and "merged sx req0 i (JObject obj) = Inr req" and "\<forall>key \<in> {''subject'', ''resource'', ''action''}. \<forall>v. batch_field req0 obj key = Some v \<longrightarrow> is_object v"
  shows "admit_request (Some who) req = None"
proof -
  from assms(2,3) have "case batch_facts req0 (JObject obj) of (s, d, ds) \<Rightarrow> admit_named (Some who) s d ds = None"
    by (induction items) (auto split: option.splits prod.splits)
  with facts_agree [OF assms(4,5)] show ?thesis by (simp add: admit_request_def case_prod_beta)
qed

end
