(* ===== verification/Mission_Routes.thy ===== *)
theory Mission_Routes
  imports Decisions
begin

text \<open>
  The Mission lifecycle layer, \<open>decern-server/src/mission.rs\<close>: approve, read and terminate. An
  approval is recorded before it is registered, so no mission is live without its record; a termination
  is persisted before it is recorded, so none goes on backing decisions for want of one. The error
  of a handler's steps is the response it returns with, or a panic.
\<close>

section \<open>The code\<close>

record mission_approve_req =
  mq_approver :: string
  mq_agent :: string
  mq_description :: string
  mq_approved_tools :: "string list"
  mq_capabilities :: "string list"
  mq_expiry :: nat

text \<open>The ledger entry of a lifecycle transition.\<close>

definition mission_event ::
  "srv_ext \<Rightarrow> directory \<Rightarrow> nat \<Rightarrow> string \<Rightarrow> string \<Rightarrow> string \<Rightarrow> json \<Rightarrow> asserted_by option \<Rightarrow> stop + entry" where
  "mission_event sx dir now_s approver action s256 context asserted_by =
     (let context = (case context of JObject m \<Rightarrow> JObject (bm_remove ''asserted_by'' m) | _ \<Rightarrow> context) in
      res_bind (server_digest sx (jobj [(''action'', JString action), (''approver'', JString approver), (''s256'', JString s256),
        (''context'', context)])) (\<lambda>parameters_digest.
      Inr \<lparr>e_seq = 0, e_ts_ms = sat_mul64 now_s 1000, e_subject_type = ''Principal'', e_subject_id = approver, e_action = action,
        e_resource_type = ''Mission'', e_resource_id = s256, e_context = context, e_decision = True, e_reasons = [],
        e_edge = Attenuate, e_sponsor = resolve_sponsor dir approver, e_sponsor_source = Derived,
        e_mission = Some \<lparr>mr_approver = approver, mr_s256 = s256\<rparr>, e_decision_subject = None, e_asserted_by = asserted_by,
        e_notice_required = False, e_challenge = None, e_digests = bm_of_list [(''parameters'', parameters_digest)]\<rparr>))"

definition approve_error :: "identity_error \<Rightarrow> response" where
  "approve_error e =
     refused (case e of Registry (SInvalid _) \<Rightarrow> 409 | Registry _ \<Rightarrow> 503 | _ \<Rightarrow> 422) ''mission not approved'' (DIdentity e)"

definition registry_unavailable :: "store_error \<Rightarrow> response" where
  "registry_unavailable e = refused 503 ''mission registry unavailable'' (DStore e)"

definition mission_reference :: "string \<Rightarrow> string \<Rightarrow> json" where
  "mission_reference approver s256 = jobj [(''approver'', JString approver), (''s256'', JString s256)]"

definition unknown_mission :: "string \<Rightarrow> response" where
  "unknown_mission s256 =
     \<lparr>rs_status = 404, rs_body = JsonBody (jobj [(''error'', JString ''unknown mission''), (''s256'', JString s256)])\<rparr>"

text \<open>A handler's steps run: what it returns with.\<close>

definition handle :: "('w, response option, response) sres \<Rightarrow> 'w \<Rightarrow> response option \<times> 'w" where
  "handle steps w = (case steps w of (Inl r, w') \<Rightarrow> (r, w') | (Inr r, w') \<Rightarrow> (Some r, w'))"

definition refuse_if :: "response option \<Rightarrow> response option + unit" where
  "refuse_if r = (case r of Some resp \<Rightarrow> Inl (Some resp) | None \<Rightarrow> Inr ())"

definition approval_context :: "approved_mission \<Rightarrow> json" where
  "approval_context a =
     (let m = am_mission a in
      jobj [(''agent'', JString (ms_agent m)), (''description'', JString (ms_description m)),
        (''approved_tools'', jstrings (ms_approved_tools m)), (''capabilities'', jstrings (ms_capabilities m)),
        (''expiry'', JNumber (PosInt (ms_expiry m))), (''approved_at'', JNumber (PosInt (ms_approved_at m))),
        (''s256'', JString (am_s256 a))])"

definition requested_mission :: "mission_approve_req \<Rightarrow> nat \<Rightarrow> mission" where
  "requested_mission req now_s =
     \<lparr>ms_approver = mq_approver req, ms_agent = mq_agent req, ms_approved_at = now_s, ms_description = mq_description req,
      ms_approved_tools = mq_approved_tools req, ms_capabilities = mq_capabilities req, ms_expiry = mq_expiry req\<rparr>"

definition approve_now ::
  "('s, 'p, 'e, 'c, 'r) app_state \<Rightarrow> ('h, 'm) env \<Rightarrow> caller \<Rightarrow> mission_approve_req \<Rightarrow> ('h, 'm) world \<Rightarrow> response option \<times> ('h, 'm) world" where
  "approve_now st en caller req = handle (
     s_bind (s_look (\<lambda>_. refuse_if (refuse_unless_admits caller (mq_approver req)))) (\<lambda>_.
     s_bind (s_look (\<lambda>_. ok_or (en_clock en) (Some (refusal_response clock_unavailable)))) (\<lambda>now_s.
     s_bind (on_missions (s_err (\<lambda>e. Some (approve_error e))
       (approve (sx_id (st_ext st)) (st_model st) (requested_mission req now_s) now_s None))) (\<lambda>approved.
     (let approver = ms_approver (am_mission approved); s256 = am_s256 approved; dir = k_directory (st_kernel st) in
      s_bind (on_missions (s_err (\<lambda>e. Some (registry_unavailable e)) (mr_status (en_registry en) s256))) (\<lambda>found.
      s_bind (s_look (\<lambda>_. res_guard (case found of Some entry \<Rightarrow> \<not> me_terminated entry | None \<Rightarrow> True)
        (Some (approve_error (Registry (SInvalid (TerminatedNoRevival s256))))))) (\<lambda>_.
      s_bind (s_look (\<lambda>_. map_err (\<lambda>_. None) (mission_event (st_ext st) dir now_s approver ''Mission.Approve'' s256
        (approval_context approved) (asserted_by_of caller)))) (\<lambda>entry.
      s_bind (s_err (\<lambda>e. Some (not_recorded e)) (append_to_backend st en (shard_for (st_backend st) dir approver) entry)) (\<lambda>_.
      s_bind (on_missions (s_err (\<lambda>e. Some (approve_error (Registry e)))
        (mr_register (en_registry_later en) s256 (entry_of (am_mission approved)) now_s))) (\<lambda>_.
      s_ret (ok_json (jobj [(''approver'', JString approver), (''s256'', JString s256),
        (''reference'', mission_reference approver s256)]))))))))))))"

definition get_now :: "('h, 'm) env \<Rightarrow> string \<Rightarrow> ('h, 'm) world \<Rightarrow> response option \<times> ('h, 'm) world" where
  "get_now en s256 = handle (
     s_bind (on_missions (s_err (\<lambda>e. Some (registry_unavailable e)) (mr_status (en_registry en) s256))) (\<lambda>found.
     s_ret (case found of
        Some entry \<Rightarrow>
          ok_json (jobj [(''reference'', mission_reference (me_approver entry) s256),
            (''state'', JString (if me_terminated entry then ''terminated'' else ''active'')),
            (''expiry'', JNumber (PosInt (me_expiry entry)))])
      | None \<Rightarrow> unknown_mission s256)))"

definition terminate_now ::
  "('s, 'p, 'e, 'c, 'r) app_state \<Rightarrow> ('h, 'm) env \<Rightarrow> caller \<Rightarrow> string \<Rightarrow> ('h, 'm) world \<Rightarrow> response option \<times> ('h, 'm) world" where
  "terminate_now st en caller s256 = handle (
     s_bind (s_look (\<lambda>_. ok_or (en_clock en) (Some (refusal_response clock_unavailable)))) (\<lambda>now_s.
     s_bind (on_missions (s_err (\<lambda>e. Some (registry_unavailable e)) (mr_status (en_registry en) s256))) (\<lambda>found.
     s_bind (s_look (\<lambda>_. ok_or found (Some (unknown_mission s256)))) (\<lambda>entry.
     s_bind (s_look (\<lambda>_. refuse_if (refuse_unless_admits caller (me_approver entry)))) (\<lambda>_.
     s_bind (on_missions (s_err (\<lambda>e. Some (registry_unavailable e)) (mr_terminate (en_registry_later en) s256 now_s))) (\<lambda>_.
     (let dir = k_directory (st_kernel st) in
      s_bind (s_look (\<lambda>_. map_err (\<lambda>_. None) (mission_event (st_ext st) dir now_s (me_approver entry) ''Mission.Terminate'' s256
        (jobj [(''s256'', JString s256), (''expiry'', JNumber (PosInt (me_expiry entry)))]) (asserted_by_of caller)))) (\<lambda>line.
      s_bind (s_err (\<lambda>e. Some (not_recorded e)) (append_to_backend st en (shard_for (st_backend st) dir (me_approver entry)) line)) (\<lambda>_.
      s_ret (ok_json (jobj [(''reference'', mission_reference (me_approver entry) s256), (''state'', JString ''terminated'')])))))))))))"

definition mission_approve ::
  "('s, 'p, 'e, 'c, 'r) app_state \<Rightarrow> ('h, 'm) env \<Rightarrow> nat \<Rightarrow> caller \<Rightarrow> (nat \<times> string) + mission_approve_req \<Rightarrow> ('h, 'm) world \<Rightarrow>
   response \<times> ('h, 'm) world" where
  "mission_approve st en taken caller req w =
     (case req of
        Inl (status, body_text) \<Rightarrow> (refused status ''mission not approved'' (DText (bounded body_text 512)), w)
      | Inr req \<Rightarrow> off_the_executor max_blocking taken ''approval_unavailable'' (approve_now st en caller req) w)"

definition mission_get :: "('h, 'm) env \<Rightarrow> nat \<Rightarrow> string \<Rightarrow> ('h, 'm) world \<Rightarrow> response \<times> ('h, 'm) world" where
  "mission_get en taken s256 = off_the_executor max_blocking taken ''mission_read_failed'' (get_now en s256)"

definition mission_terminate_route ::
  "('s, 'p, 'e, 'c, 'r) app_state \<Rightarrow> ('h, 'm) env \<Rightarrow> nat \<Rightarrow> caller \<Rightarrow> string \<Rightarrow> ('h, 'm) world \<Rightarrow> response \<times> ('h, 'm) world" where
  "mission_terminate_route st en taken caller s256 =
     off_the_executor max_blocking taken ''termination_unavailable'' (terminate_now st en caller s256)"

end
