(* ===== verification/Mission_Lifecycle.thy ===== *)
theory Mission_Lifecycle
  imports Mission_Routes Served
begin

text \<open>
  What holds of the Mission routes over any backend and any registry that keep their contracts: the
  locale \<open>mission_server\<close> joins \<open>recorder\<close> and \<open>mission_store\<close>, and is interpreted on
  the single-file ledger and the mission file. No mission becomes live without its record; a mission
  whose termination was recorded backs no decision afterwards.
\<close>

section \<open>Registering\<close>

lemma register_new:
  assumes "bm_wf m" and "bm_get (fst (mission_register m k e now)) j = Some e'" and "bm_get m j \<noteq> Some e'"
  shows "j = k \<and> e' = e"
  using assms by (auto simp: mission_register_def Let_def bm_get_retain split: option.splits if_splits)

lemma terminate_marks: "bm_wf m \<Longrightarrow> bm_get (mission_terminate m k now) k = Some e \<Longrightarrow> me_terminated e"
  by (auto simp: mission_terminate_def bm_get_retain mark_terminated_def split: option.splits if_splits)

section \<open>The steps of a handler\<close>

lemma approve_unregistered:
  "approve ix model m now None g = (r, g') \<Longrightarrow> g' = g \<and> (\<forall>a. r = Inr a \<longrightarrow> am_mission a = m)"
  by (auto simp: approve_def s_simps Let_def)

lemma mission_event_Inr:
  assumes "mission_event sx dir now approver action k ctx ab = Inr e"
  shows "e_action e = action" "e_resource_id e = k" "e_subject_id e = approver" "e_asserted_by e = ab"
  using assms by (auto simp: mission_event_def Let_def res_simps)

lemma approve_error_status: "rs_status (approve_error e) \<noteq> 200"
  by (auto simp: approve_error_def refused_def split: identity_error.splits store_error.splits)

lemma other_statuses: "rs_status (registry_unavailable e) = 503" "rs_status (not_recorded z) = 503" "rs_status (unknown_mission k) = 404"
  "rs_status (refusal_response clock_unavailable) = 503"
  by (simp_all add: registry_unavailable_def not_recorded_def unknown_mission_def refusal_response_def refused_def refusal_statuses)

lemma refuse_unless_admits_status: "refuse_unless_admits caller i = Some r \<Longrightarrow> rs_status r = 403"
  by (auto simp: refuse_unless_admits_def refused_def split: option.splits if_splits)

text \<open>An approval stops before anything is recorded, fails to be recorded, or is registered after its
  record landed.\<close>

lemma approve_now_cases:
  assumes "approve_now st en caller req w = (resp, w')"
  obtains (stopped) k where "w' = w \<or> w' = w\<lparr>w_missions := snd (mr_status (en_registry en) k (w_missions w))\<rparr>" "\<forall>r. resp = Some r \<longrightarrow> rs_status r \<noteq> 200"
  | (unrecorded) k z sh entry w1 where "w1 = w\<lparr>w_missions := snd (mr_status (en_registry en) k (w_missions w))\<rparr>"
      "append_to_backend st en sh entry w1 = (Inl z, w')" "resp = Some (not_recorded z)"
  | (recorded) now k sh entry w1 u q g where "en_clock en = Some now" "w1 = w\<lparr>w_missions := snd (mr_status (en_registry en) k (w_missions w))\<rparr>"
      "e_action entry = ''Mission.Approve''" "e_resource_id entry = k" "e_subject_id entry = mq_approver req" "e_asserted_by entry = asserted_by_of caller"
      "append_to_backend st en sh entry w1 = (Inr (), u)"
      "mr_register (en_registry_later en) k (entry_of (requested_mission req now)) now (w_missions u) = (q, g)" "w' = u\<lparr>w_missions := g\<rparr>"
      "\<forall>r. resp = Some r \<longrightarrow> rs_status r = 200 \<longrightarrow> q = Inr ()"
proof (cases "refuse_unless_admits caller (mq_approver req)")
  case (Some r)
  with assms refuse_unless_admits_status [OF Some] show ?thesis
    by (intro stopped [of "''''"]) (auto simp: approve_now_def handle_def s_bind_def s_look_def refuse_if_def)
next
  case admitted: None
  show ?thesis
  proof (cases "en_clock en")
    case None
    with assms admitted show ?thesis
      by (intro stopped [of "''''"]) (auto simp: approve_now_def handle_def s_bind_def s_look_def refuse_if_def ok_or_def other_statuses)
  next
    case (Some now)
    obtain a g0 where a: "approve (sx_id (st_ext st)) (st_model st) (requested_mission req now) now None (w_missions w) = (a, g0)" by force
    note u = approve_unregistered [OF a]
    note start = assms [unfolded approve_now_def handle_def] and on = s_bind_def s_look_def s_err_def refuse_if_def on_missions_def Let_def
    show ?thesis
    proof (cases a)
      case (Inl z)
      with start admitted Some a u show ?thesis by (intro stopped [of "''''"]) (auto simp: on approve_error_status)
    next
      case (Inr am)
      let ?k = "am_s256 am"
      obtain f g1 where f: "mr_status (en_registry en) ?k (w_missions w) = (f, g1)" by force
      let ?w1 = "w\<lparr>w_missions := snd (mr_status (en_registry en) ?k (w_missions w))\<rparr>"
      let ?ev = "mission_event (st_ext st) (k_directory (st_kernel st)) now (ms_approver (am_mission am)) ''Mission.Approve'' ?k (approval_context am) (asserted_by_of caller)"
      let ?live = "case f of Inr (Some entry) \<Rightarrow> \<not> me_terminated entry | Inr None \<Rightarrow> True | Inl _ \<Rightarrow> False"
      have am: "am_mission am = requested_mission req now" "g0 = w_missions w" using u Inr by auto
      show ?thesis
      proof (cases "?live \<and> \<not> isl ?ev")
        case False
        with start admitted Some a Inr am f show ?thesis
          by (intro stopped [of ?k]) (auto simp: on res_guard_def map_err_def approve_error_status other_statuses split: sum.splits option.splits if_splits)
      next
        case True
        then obtain entry where entry: "?ev = Inr entry" by (cases ?ev) auto
        from True obtain found where found: "f = Inr found" "case found of Some entry \<Rightarrow> \<not> me_terminated entry | None \<Rightarrow> True"
          by (cases f) (auto split: option.splits)
        let ?sh = "shard_for (st_backend st) (k_directory (st_kernel st)) (ms_approver (am_mission am))"
        obtain q2 v2 where q2: "append_to_backend st en ?sh entry ?w1 = (q2, v2)" by force
        note ev = mission_event_Inr [OF entry]
        show ?thesis
        proof (cases q2)
          case (Inl z)
          with start admitted Some a \<open>a = Inr am\<close> am f found entry q2 show ?thesis
            by (intro unrecorded [where k = ?k and sh = ?sh and entry = entry and z = z, OF refl]) (auto simp: on res_guard_def map_err_def)
        next
          case (Inr v)
          obtain q3 g3 where q: "mr_register (en_registry_later en) ?k (entry_of (requested_mission req now)) now (w_missions v2) = (q3, g3)" by force
          show ?thesis
          proof (rule recorded [where k = ?k and sh = ?sh and u = v2 and q = q3 and g = g3, OF Some refl ev(1) ev(2) _ ev(4)])
            show "e_subject_id entry = mq_approver req" using ev(3) am(1) by (simp add: requested_mission_def)
          qed (use start admitted Some a \<open>a = Inr am\<close> am f found entry q2 Inr q in \<open>auto simp: on res_guard_def map_err_def s_ret_def ok_json_def approve_error_status split: sum.splits\<close>)
        qed
      qed
    qed
  qed
qed

text \<open>A termination stops with the registry as it was read, or persists what it ends and then records it.\<close>

lemma terminate_now_cases:
  assumes "terminate_now st en caller k w = (resp, w')"
  obtains (stopped) "w' = w \<or> w' = w\<lparr>w_missions := snd (mr_status (en_registry en) k (w_missions w))\<rparr>" "\<forall>r. resp = Some r \<longrightarrow> rs_status r \<noteq> 200"
  | (ended) now m g1 q g2 where "en_clock en = Some now" "mr_status (en_registry en) k (w_missions w) = (Inr (Some m), g1)"
      "mr_terminate (en_registry_later en) k now g1 = (q, g2)" "isl q \<or> resp = None" "w' = w\<lparr>w_missions := g2\<rparr>" "\<forall>r. resp = Some r \<longrightarrow> rs_status r \<noteq> 200"
  | (recorded) now m g1 g2 sh entry q where "en_clock en = Some now" "mr_status (en_registry en) k (w_missions w) = (Inr (Some m), g1)"
      "mr_terminate (en_registry_later en) k now g1 = (Inr (), g2)" "e_action entry = ''Mission.Terminate''" "e_resource_id entry = k"
      "e_subject_id entry = me_approver m" "e_asserted_by entry = asserted_by_of caller"
      "append_to_backend st en sh entry (w\<lparr>w_missions := g2\<rparr>) = (q, w')" "\<forall>r. resp = Some r \<longrightarrow> rs_status r = 200 \<longrightarrow> q = Inr ()"
proof -
  note start = assms [unfolded terminate_now_def handle_def] and on = s_bind_def s_look_def s_err_def refuse_if_def on_missions_def Let_def
  obtain f g1 where f: "mr_status (en_registry en) k (w_missions w) = (f, g1)" by force
  show ?thesis
  proof (cases "\<exists>now m. en_clock en = Some now \<and> f = Inr (Some m) \<and> refuse_unless_admits caller (me_approver m) = None")
    case False
    with start f show ?thesis
      by (intro stopped) (auto simp: on ok_or_def other_statuses refuse_unless_admits_status split: option.splits sum.splits)
  next
    case True
    then obtain now m where n: "en_clock en = Some now" "f = Inr (Some m)" "refuse_unless_admits caller (me_approver m) = None" by blast
    obtain q g2 where q: "mr_terminate (en_registry_later en) k now g1 = (q, g2)" by force
    let ?ev = "mission_event (st_ext st) (k_directory (st_kernel st)) now (me_approver m) ''Mission.Terminate'' k
      (jobj [(''s256'', JString k), (''expiry'', JNumber (PosInt (me_expiry m)))]) (asserted_by_of caller)"
    show ?thesis
    proof (cases "isl q \<or> isl ?ev")
      case True
      with start f n q show ?thesis
        by (intro ended [OF n(1) f [unfolded n(2)] q]) (auto simp: on map_err_def other_statuses split: sum.splits)
    next
      case False
      then obtain entry where e: "?ev = Inr entry" "q = Inr ()" by (cases ?ev; cases q) auto
      let ?sh = "shard_for (st_backend st) (k_directory (st_kernel st)) (me_approver m)"
      obtain q2 w2 where q2: "append_to_backend st en ?sh entry (w\<lparr>w_missions := g2\<rparr>) = (q2, w2)" by force
      show ?thesis
        by (rule recorded [OF n(1) f [unfolded n(2)] q [unfolded e(2)] mission_event_Inr [OF e(1)], of ?sh q2])
          (use start f n q e q2 in \<open>auto simp: on map_err_def s_ret_def other_statuses split: sum.splits\<close>)
    qed
  qed
qed

section \<open>The server of missions\<close>

text \<open>The environment of a call that goes to the registry twice, through handles on the same store.\<close>

definition calls_on :: "('k \<Rightarrow> 'm mission_registry) \<Rightarrow> ('k \<Rightarrow> 'm \<Rightarrow> bool) \<Rightarrow> ('h, 'm) env \<Rightarrow> 'm \<Rightarrow> bool" where
  "calls_on R fresh en s \<longleftrightarrow> (\<exists>h h'. en_registry en = R h \<and> en_registry_later en = R h' \<and> fresh h s \<and> (\<forall>k. fresh h' (snd (mr_status (R h) k s))))"

text \<open>The logs after a lifecycle entry for mission \<open>k\<close> landed.\<close>

definition event_landed ::
  "ext \<Rightarrow> (string \<Rightarrow> string list) \<Rightarrow> (string \<Rightarrow> string list) \<Rightarrow> string \<Rightarrow> string \<Rightarrow> string \<Rightarrow> caller \<Rightarrow> bool" where
  "event_landed x logs logs' action k approver caller \<longleftrightarrow> (\<exists>name line ent. logs' = logs(name := logs name @ [line]) \<and> holds_entry x line ent \<and>
     e_action ent = action \<and> e_resource_id ent = k \<and> e_subject_id ent = approver \<and> e_asserted_by ent = asserted_by_of caller)"

locale mission_server = recorder x st fit ok logs + store: mission_store R fresh mok view
  for x :: ext and st :: "('s, 'p, 'e, 'c, 'r) app_state" and fit :: "('h, 'm) env \<Rightarrow> bool" and ok :: "('h, 'm) world \<Rightarrow> bool"
    and logs :: "('h, 'm) world \<Rightarrow> string \<Rightarrow> string list" and R :: "'k \<Rightarrow> 'm mission_registry" and fresh :: "'k \<Rightarrow> 'm \<Rightarrow> bool"
    and mok :: "'m \<Rightarrow> bool" and view :: "'m \<Rightarrow> missions"
begin

lemma calls_status:
  assumes "mok s" and "calls_on R fresh en s" and "mr_status (en_registry en) k s = (q, s')"
  shows "mok s' \<and> view s' = view s \<and> (\<forall>e. q = Inr (Some e) \<longrightarrow> bm_get (view s) k = Some e) \<and>
    (\<exists>h'. en_registry_later en = R h' \<and> fresh h' s')"
proof -
  from assms(2) obtain h h' where h: "en_registry en = R h" "en_registry_later en = R h'" "fresh h s" "\<forall>k. fresh h' (snd (mr_status (R h) k s))"
    unfolding calls_on_def by blast
  have "fresh h' s'" using h(4) [rule_format, of k] assms(3) h(1) by simp
  with store.status_law [OF assms(1) h(3) assms(3) [unfolded h(1)]] h(2) show ?thesis by blast
qed

lemma append_lands:
  assumes "ok w" and "fit en" and "append_to_backend st en sh e w = (Inr (), w')"
  shows "ok w' \<and> w_missions w' = w_missions w \<and> (\<exists>name line. logs w' = (logs w)(name := logs w name @ [line]) \<and> holds_entry x line e)"
proof (cases "place st sh")
  case (Inl z)
  with append_law [OF assms] show ?thesis by simp
next
  case (Inr name)
  with append_law [OF assms] obtain line where "ok w'" "w_missions w' = w_missions w" "logs w' = (logs w)(name := logs w name @ [line])" "holds_entry x line e"
    by (auto simp: grew_def)
  then show ?thesis by blast
qed

lemma append_keeps_missions: "ok w \<Longrightarrow> fit en \<Longrightarrow> append_to_backend st en sh e w = (q, w') \<Longrightarrow> ok w' \<and> w_missions w' = w_missions w"
  using append_law by blast

lemma approved_is_recorded:
  assumes "ok w" and "fit en" and "mok (w_missions w)" and "calls_on R fresh en (w_missions w)" and "approve_now st en caller req w = (resp, w')"
  shows "ok w' \<and> mok (w_missions w') \<and>
    (\<forall>k e. bm_get (view (w_missions w')) k = Some e \<longrightarrow> bm_get (view (w_missions w)) k \<noteq> Some e \<longrightarrow>
      event_landed x (logs w) (logs w') ''Mission.Approve'' k (mq_approver req) caller \<and>
      (\<exists>now. en_clock en = Some now \<and> e = entry_of (requested_mission req now)))"
  using assms(5)
proof (cases rule: approve_now_cases)
  case (stopped k)
  obtain q s' where q: "mr_status (en_registry en) k (w_missions w) = (q, s')" by force
  from calls_status [OF assms(3,4) q] stopped(1) q assms(1,3) show ?thesis by (auto simp: missions_law)
next
  case (unrecorded k z sh entry w1)
  obtain q s' where q: "mr_status (en_registry en) k (w_missions w) = (q, s')" by force
  have "ok w1" using unrecorded(1) assms(1) by (simp add: missions_law)
  from append_keeps_missions [OF this assms(2) unrecorded(2)] calls_status [OF assms(3,4) q] unrecorded(1) q show ?thesis by auto
next
  case (recorded now k sh entry w1 w2 q g)
  obtain q0 s' where q0: "mr_status (en_registry en) k (w_missions w) = (q0, s')" by force
  note c = calls_status [OF assms(3,4) q0]
  then obtain h' where h: "en_registry_later en = R h'" "fresh h' s'" by blast
  have w1: "ok w1" "logs w1 = logs w" "w_missions w1 = s'" using recorded(2) assms(1) q0 by (simp_all add: missions_law)
  note a = append_lands [OF w1(1) assms(2) recorded(7)]
  have s: "w_missions w2 = s'" using a w1(3) by simp
  from store.register_law [OF _ h(2) recorded(8) [unfolded h(1) s]] c have g: "mok g"
    "view g = view (w_missions w) \<or> view g = fst (mission_register (view (w_missions w)) k (entry_of (requested_mission req now)) now)" by auto
  have "ok w'" "logs w' = logs w2" using recorded(9) a by (simp_all add: missions_law)
  have "event_landed x (logs w) (logs w') ''Mission.Approve'' k (mq_approver req) caller"
    using a recorded(3-6) w1(2) \<open>logs w' = logs w2\<close> unfolding event_landed_def by auto
  moreover have "j = k \<and> e = entry_of (requested_mission req now)"
    if "bm_get (view g) j = Some e" "bm_get (view (w_missions w)) j \<noteq> Some e" for j e
    using that g(2) store.view_wf [OF assms(3)] register_new [where m = "view (w_missions w)" and j = j and k = k and e' = e] by auto
  ultimately show ?thesis using g(1) \<open>ok w'\<close> recorded(1,9) by auto
qed

end

section \<open>What a request names\<close>

definition names_mission :: "string \<Rightarrow> decide_req \<Rightarrow> bool" where
  "names_mission k req \<longleftrightarrow> (\<exists>c obj. dq_context req = Some c \<and> bm_get c ''mission'' = Some (JObject obj) \<and> bm_get obj ''s256'' = Some (JString k))"

lemma bind_mission_named:
  assumes "bind_mission reg dir require subject action ctx now g = (BindOk r, g')"
  shows "\<exists>obj. jget ctx ''mission'' = Some (JObject obj) \<and> bm_get obj ''s256'' = Some (JString (mr_s256 r))"
proof -
  have str: "v = JString s" if "as_str v = Some s" for v s using that by (cases v) (auto simp: as_str_def)
  have obj: "v = JObject m" if "as_object v = Some m" for v m using that by (cases v) (auto simp: as_object_def)
  from assms obtain v where v: "jget ctx ''mission'' = Some v" "bound_mission reg dir subject action v now g = (Inr r, g')"
    by (auto simp: bind_mission_def no_mission_bind_def split: option.splits if_splits prod.splits sum.splits)
  from v(2) obtain m where m: "as_object v = Some m" "mr_s256 r = unwrap_or '''' (Option.bind (bm_get m ''s256'') as_str)" "mr_s256 r \<noteq> ''''"
    by (auto simp: bound_mission_def s_simps Let_def res_simps split: if_splits)
  from m(2,3) have "bm_get m ''s256'' = Some (JString (mr_s256 r))"
    by (cases "bm_get m ''s256''"; cases "Option.bind (bm_get m ''s256'') as_str") (auto dest: str)
  with v(1) obj [OF m(1)] show ?thesis by blast
qed

lemma evaluate_named:
  assumes "evaluate_one st en caller req w = (Inr e, w')" and "names_mission k req"
  shows "(\<exists>r m now. e_mission (ev_entry e) = Some r \<and> mr_s256 r = k \<and> en_clock en = Some now \<and>
      mr_status (en_registry en) k (w_missions w) = (Inr (Some m), w_missions w') \<and>
      backed (k_directory (st_kernel st)) (rr_id (dq_subject req)) (ra_name (dq_action req)) now r m) \<or>
    e_mission (ev_entry e) = None \<and> \<not> e_decision (ev_entry e)"
  using assms(1)
proof (rule evaluate_one_Inr)
  fix p g ch
  assume pr: "prepare_decision st (en_registry en) (en_clock en) caller req (w_missions w) = (Inr p, g)" and w': "w' = w\<lparr>w_missions := g\<rparr>"
    and ro: "record_of st p (decide_prepared st p) ch = Inr (ev_entry e, ev_shard e)"
  note ro' = record_of_Inr [OF ro]
  let ?k = "kernel_context (unwrap_or [] (dq_context req)) (descriptions req)"
  from pr obtain now bound where b: "en_clock en = Some now" "bind_mission (en_registry en) (k_directory (st_kernel st)) (st_require_mission st)
      (rr_id (dq_subject req)) (ra_name (dq_action req)) (?k now) now (w_missions w) = (bound, g)"
    "mo_bound (pr_mission p) = (case bound of BindOk r \<Rightarrow> Some r | _ \<Rightarrow> None)"
    "mo_errors (pr_mission p) = (case bound of BindDeny errs \<Rightarrow> errs | _ \<Rightarrow> [])" by (rule prepare_Inr)
  have "fst ` set (descriptions req) = {''subject'', ''resource'', ''action''}" "''mission'' \<notin> server_keys" by (auto simp: server_keys_def)
  then have j: "jget (?k now) ''mission'' = bm_get (unwrap_or [] (dq_context req)) ''mission''" by (rule kernel_context_get(3))
  from assms(2) obtain obj where n: "jget (?k now) ''mission'' = Some (JObject obj)" "bm_get obj ''s256'' = Some (JString k)"
    unfolding names_mission_def j by auto
  show ?thesis
  proof (cases bound)
    case BindNone
    with bind_mission_None [OF b(2) [unfolded BindNone]] n show ?thesis by simp
  next
    case (BindOk r)
    from bind_mission_named [OF b(2) [unfolded BindOk]] n have "mr_s256 r = k" by simp
    with bind_mission_Ok [OF b(2) [unfolded BindOk]] b BindOk ro'(6) w' show ?thesis by auto
  next
    case (BindDeny errs)
    from bind_mission_Deny [OF b(2) [unfolded BindDeny]] BindDeny b(3,4) ro'(1,6) decide_prepared_denies [of p st] show ?thesis by simp
  qed
qed

section \<open>Ended missions\<close>

context mission_server
begin

lemma terminated_first:
  assumes "ok w" and "fit en" and "mok (w_missions w)" and "calls_on R fresh en (w_missions w)" and "terminate_now st en caller k w = (resp, w')"
  shows "ok w' \<and> mok (w_missions w') \<and>
    ((\<exists>r. resp = Some r \<and> rs_status r = 200) \<or> logs w' \<noteq> logs w \<longrightarrow> (\<forall>e. bm_get (view (w_missions w')) k = Some e \<longrightarrow> me_terminated e)) \<and>
    (\<forall>r. resp = Some r \<longrightarrow> rs_status r = 200 \<longrightarrow> (\<exists>m. bm_get (view (w_missions w)) k = Some m \<and>
      event_landed x (logs w) (logs w') ''Mission.Terminate'' k (me_approver m) caller))"
  using assms(5)
proof (cases rule: terminate_now_cases)
  case stopped
  obtain q s' where q: "mr_status (en_registry en) k (w_missions w) = (q, s')" by force
  from calls_status [OF assms(3,4) q] stopped q assms(1,3) show ?thesis by (auto simp: missions_law)
next
  case (ended now m g1 q g2)
  from calls_status [OF assms(3,4) ended(2)] obtain h' where c: "mok g1" "en_registry_later en = R h'" "fresh h' g1" by blast
  from store.terminate_law [OF c(1,3) ended(3) [unfolded c(2)]] ended(5,6) assms(1) show ?thesis by (auto simp: missions_law)
next
  case (recorded now m g1 g2 sh entry q)
  note cs = calls_status [OF assms(3,4) recorded(2)]
  then obtain h' where c: "mok g1" "view g1 = view (w_missions w)" "en_registry_later en = R h'" "fresh h' g1" by blast
  note t = store.terminate_law [OF c(1,4) recorded(3) [unfolded c(3)]]
  have w2: "ok (w\<lparr>w_missions := g2\<rparr>)" using assms(1) by (simp add: missions_law)
  note a = append_keeps_missions [OF w2 assms(2) recorded(8)]
  have "me_terminated e" if "bm_get (view g2) k = Some e" for e
    using t that store.view_wf [OF c(1)] terminate_marks [of "view g1" k now e] by auto
  moreover have "event_landed x (logs w) (logs w') ''Mission.Terminate'' k (me_approver m) caller" if "q = Inr ()"
    using append_lands [OF w2 assms(2) recorded(8) [unfolded that]] recorded(4-7) unfolding event_landed_def by (auto simp: missions_law)
  ultimately show ?thesis using a t recorded(9) cs by auto
qed

text \<open>After a recorded termination the registry reports the mission live to no one, whoever writes to it.\<close>

lemma ended_backs_nothing:
  assumes "ok w" and "fit en" and "mok (w_missions w)" and "calls_on R fresh en (w_missions w)" and "terminate_now st en caller k w = (Some resp, w1)"
    and "rs_status resp = 200" and "bm_get (view (w_missions w)) k = Some e" and "me_expiry e \<le> u64_max" and "en_clock en = Some now"
    and "(reg_step R fresh)\<^sup>*\<^sup>* (now, w_missions w1) (t, s)" and "fresh h s" and "mr_status (R h) k s = (Inr (Some m), s')"
  shows "me_terminated m \<or> me_expiry e < me_expiry m"
  using assms(5)
proof (cases rule: terminate_now_cases)
  case stopped
  with assms(6) show ?thesis by simp
next
  case (ended now m g1 q g2)
  with assms(6) show ?thesis by simp
next
  case (recorded now' m g1 g2 sh entry q)
  from calls_status [OF assms(3,4) recorded(2)] obtain h' where c: "mok g1" "view g1 = view (w_missions w)" "en_registry_later en = R h'" "fresh h' g1" by blast
  have w2: "ok (w\<lparr>w_missions := g2\<rparr>)" using assms(1) by (simp add: missions_law)
  have "w_missions w1 = g2" "now' = now" using append_keeps_missions [OF w2 assms(2) recorded(8)] recorded(1) assms(9) by simp_all
  with store.ended_stays_ended [OF c(1,4) recorded(3) [unfolded c(3)] _ assms(8) _ assms(11,12)] assms(7,10) c(2) show ?thesis by simp
qed

end

section \<open>On the mission file and the single-file ledger\<close>

interpretation mission_files: mission_server "sx_base (st_ext st)" "st\<lparr>st_backend := SingleBackend\<rparr>" "\<lambda>_. True"
    "single_ok (sx_base (st_ext st))" "single_logs (sx_base (st_ext st))" "file_registry co path" file_fresh "file_ok co" "file_view co"
  for st :: "('s, 'p, 'e, 'c, 'r) app_state" and co path
  by unfold_locales

text \<open>A deployment with its mission file, whose one mission is over when the server comes back to it.\<close>

definition demo_file_env :: "(disk, missions_file) env" where
  "demo_file_env = \<lparr>en_clock = Some 5, en_io = no_faults, en_heads = demo_heads calm,
     en_registry = file_registry demo_codec ''missions.json'' (0, demo_plan 2),
     en_registry_later = file_registry demo_codec ''missions.json'' (0, demo_plan 2)\<rparr>"

definition demo_file_world :: "missions_file \<Rightarrow> (disk, missions_file) world" where
  "demo_file_world s = \<lparr>w_single = (demo_disk1, demo_ledger), w_poisoned = False, w_heads = demo_root, w_missions = s\<rparr>"

text \<open>A handle whose cache is the file's answers from it.\<close>

lemma status_cached:
  assumes "\<And>op. sp_fault pl op = None" and "\<not> cc_poisoned (cs h)" and "cc_fp (cs h) = map_option sf_fp f"
  shows "mr_status (file_registry co path (h, pl)) k (f, cs) = (Inr (bm_get (cc_map (cs h)) k), (f, cs))"
  using assms by (simp add: file_registry_def on_handle_def file_status_def coherent_read_def s_bind_def lock_cache_def on_cache_def on_file_def
    file_fingerprint_def st_step_def s_look_def s_ret_def res_guard_def)

lemma demo_file_status:
  "mr_status (file_registry demo_codec ''missions.json'' (0, demo_plan 2)) k demo_store = (Inr (if k = ''m'' then Some (demo_mission_entry False) else None), demo_store)"
  unfolding demo_store_def by (subst status_cached) (simp_all add: demo_plan_def)

lemma demo_calls_on: "calls_on (file_registry demo_codec ''missions.json'') file_fresh demo_file_env demo_store"
  unfolding calls_on_def by (intro exI [of _ "(0, demo_plan 2)"]) (simp add: demo_file_env_def demo_file_status demo_store_ok)

lemma demo_base: "sx_base (st_ext (demo_state b)) = demo_ext"
  by (simp add: demo_state_def demo_site_def demo_srv_def demo_id_def)

lemma demo_file_single_ok: "single_ok (sx_base (st_ext (demo_state b))) (demo_file_world s)"
  using demo_ext_ok demo_inv by (simp add: demo_base single_ok_def demo_file_world_def led_ok_def demo_ledger_def)

lemma demo_appends:
  "\<exists>w'. append_to_backend (demo_state SingleBackend) demo_file_env sh e (demo_file_world s) = (Inr (), w') \<and> w_missions w' = s"
proof -
  obtain rec s' where "ledger_append demo_ext no_faults e (demo_disk1, demo_ledger) = (Inr rec, s')" using demo_append_any by blast
  moreover have "st_backend (demo_state SingleBackend) = SingleBackend" by (simp add: demo_state_def)
  ultimately show ?thesis
    by (simp add: append_to_backend_def demo_base demo_file_env_def demo_file_world_def s_bind_def s_ret_def lock_single_def res_guard_def on_single_def)
qed

text \<open>What a mission's record is digested from has a canonical form.\<close>

lemma demo_event:
  assumes "json_ok (jobj [(''action'', JString action), (''approver'', JString approver), (''s256'', JString k), (''context'', JObject c)])"
    and "bm_get c ''asserted_by'' = None" and "bm_wf c"
  shows "\<exists>e. mission_event demo_site dir now approver action k (JObject c) ab = Inr e"
proof -
  have "bm_remove ''asserted_by'' c = c" using assms(2,3) by (intro bm_ext) auto
  moreover from write_total [OF demo_jcs_laws assms(1)] obtain t where "write_canonical demo_jcs (jobj [(''action'', JString action),
      (''approver'', JString approver), (''s256'', JString k), (''context'', JObject c)]) = Some t" by blast
  ultimately show ?thesis by (simp add: mission_event_def Let_def server_digest_def digest_def canonicalize_def demo_site_def)
qed

section \<open>Properties\<close>

text \<open>C3: no mission is live without its record: whatever an approval answers and wherever it fails, an
  entry that is in the registry after it and was not before is the approved mission's, and the log
  has grown by the line that records the approval, in the approver's and the caller's name.\<close>

theorem no_live_mission_unrecorded:
  assumes "st_backend st = SingleBackend" and "single_ok (sx_base (st_ext st)) w" and "file_ok co (w_missions w)"
    and "calls_on (file_registry co path) file_fresh en (w_missions w)" and "approve_now st en caller req w = (resp, w')"
    and "bm_get (file_view co (w_missions w')) k = Some e" and "bm_get (file_view co (w_missions w)) k \<noteq> Some e"
  shows "event_landed (sx_base (st_ext st)) (single_logs (sx_base (st_ext st)) w) (single_logs (sx_base (st_ext st)) w')
      ''Mission.Approve'' k (mq_approver req) caller \<and>
    (\<exists>now. en_clock en = Some now \<and> e = entry_of (requested_mission req now))"
proof -
  have st: "st\<lparr>st_backend := SingleBackend\<rparr> = st" using assms(1) by simp
  from mission_files.approved_is_recorded [of st, unfolded st, OF assms(2) TrueI assms(3-5)] assms(6,7) show ?thesis by blast
qed

text \<open>C10: a termination is reported only when it is both persisted and recorded, and it is never recorded
  of a mission that is still live: once the log has a line for it, whatever was answered, the registry
  has the mission ended.\<close>

theorem termination_recorded_and_persisted:
  assumes "st_backend st = SingleBackend" and "single_ok (sx_base (st_ext st)) w" and "file_ok co (w_missions w)"
    and "calls_on (file_registry co path) file_fresh en (w_missions w)" and "terminate_now st en caller k w = (resp, w')"
  shows "((\<exists>r. resp = Some r \<and> rs_status r = 200) \<or> single_logs (sx_base (st_ext st)) w' \<noteq> single_logs (sx_base (st_ext st)) w \<longrightarrow>
      (\<forall>e. bm_get (file_view co (w_missions w')) k = Some e \<longrightarrow> me_terminated e)) \<and>
    (\<forall>r. resp = Some r \<longrightarrow> rs_status r = 200 \<longrightarrow> (\<exists>m. bm_get (file_view co (w_missions w)) k = Some m \<and>
      event_landed (sx_base (st_ext st)) (single_logs (sx_base (st_ext st)) w) (single_logs (sx_base (st_ext st)) w')
        ''Mission.Terminate'' k (me_approver m) caller))"
proof -
  have st: "st\<lparr>st_backend := SingleBackend\<rparr> = st" using assms(1) by simp
  from mission_files.terminated_first [of st, unfolded st, OF assms(2) TrueI assms(3-5)] show ?thesis by blast
qed

lemma demo_terminate_served:
  "\<exists>resp w1. terminate_now (demo_state SingleBackend) demo_file_env None ''m'' (demo_file_world demo_store) = (Some resp, w1) \<and>
    rs_status resp = 200 \<and> w_missions w1 = demo_ended"
proof -
  let ?c = "bm_of_list [(''s256'', JString ''m''), (''expiry'', JNumber (PosInt 90))]"
  have "json_ok (jobj [(''action'', JString ''Mission.Terminate''), (''approver'', JString ''alice''), (''s256'', JString ''m''), (''context'', JObject ?c)])"
    "bm_get ?c ''asserted_by'' = None" "bm_wf ?c"
    by (simp_all add: jobj_def bm_of_list_def bm_wf_def)
  from demo_event [OF this] obtain ev where ev: "mission_event demo_site (k_directory (st_kernel (demo_state SingleBackend))) 5 ''alice'' ''Mission.Terminate'' ''m''
      (jobj [(''s256'', JString ''m''), (''expiry'', JNumber (PosInt 90))]) None = Inr ev" unfolding jobj_def by blast
  let ?sh = "shard_for (st_backend (demo_state SingleBackend)) (k_directory (st_kernel (demo_state SingleBackend))) ''alice''"
  from demo_appends [of ?sh ev demo_ended] obtain w1 where
    a: "append_to_backend (demo_state SingleBackend) demo_file_env ?sh ev (demo_file_world demo_ended) = (Inr (), w1)" "w_missions w1 = demo_ended" by blast
  have w: "(demo_file_world demo_store)\<lparr>w_missions := s\<rparr> = demo_file_world s" "w_missions (demo_file_world s) = s" for s by (simp_all add: demo_file_world_def)
  have e: "me_approver (demo_mission_entry False) = ''alice''" "me_expiry (demo_mission_entry False) = 90" by (simp_all add: demo_mission_entry_def)
  have r: "en_registry demo_file_env = file_registry demo_codec ''missions.json'' (0, demo_plan 2)"
    "en_registry_later demo_file_env = file_registry demo_codec ''missions.json'' (0, demo_plan 2)" "en_clock demo_file_env = Some 5"
    by (simp_all add: demo_file_env_def)
  have x: "st_ext (demo_state SingleBackend) = demo_site" by (simp add: demo_state_def)
  show ?thesis
    using a ev demo_terminates
    by (simp add: terminate_now_def handle_def s_bind_def s_look_def s_err_def s_ret_def on_missions_def r w e x demo_file_status refuse_if_def
      refuse_unless_admits_def asserted_by_of_def Let_def map_err_def ok_json_def)
qed

theorem termination_recorded_and_persisted_witness:
  "\<exists>resp w1 (m :: mission_entry). terminate_now (demo_state SingleBackend) demo_file_env None ''m'' (demo_file_world demo_store) = (Some resp, w1) \<and>
    event_landed demo_ext (single_logs demo_ext (demo_file_world demo_store)) (single_logs demo_ext w1) ''Mission.Terminate'' ''m'' (me_approver m) None \<and>
    (\<forall>e. bm_get (file_view demo_codec (w_missions w1)) ''m'' = Some e \<longrightarrow> me_terminated e)"
proof -
  obtain resp w1 where t: "terminate_now (demo_state SingleBackend) demo_file_env None ''m'' (demo_file_world demo_store) = (Some resp, w1)" "rs_status resp = 200"
    using demo_terminate_served by blast
  have "st_backend (demo_state SingleBackend) = SingleBackend" by (simp add: demo_state_def)
  moreover have "file_ok demo_codec (w_missions (demo_file_world demo_store))"
    "calls_on (file_registry demo_codec ''missions.json'') file_fresh demo_file_env (w_missions (demo_file_world demo_store))"
    using demo_store_ok(1) demo_calls_on by (simp_all add: demo_file_world_def)
  ultimately have p: "(\<exists>r. Some resp = Some r \<and> rs_status r = 200) \<or> single_logs demo_ext w1 \<noteq> single_logs demo_ext (demo_file_world demo_store) \<longrightarrow>
      (\<forall>e. bm_get (file_view demo_codec (w_missions w1)) ''m'' = Some e \<longrightarrow> me_terminated e)"
    "\<forall>r. Some resp = Some r \<longrightarrow> rs_status r = 200 \<longrightarrow> (\<exists>m. bm_get (file_view demo_codec (w_missions (demo_file_world demo_store))) ''m'' = Some m \<and>
      event_landed demo_ext (single_logs demo_ext (demo_file_world demo_store)) (single_logs demo_ext w1) ''Mission.Terminate'' ''m'' (me_approver m) None)"
    using termination_recorded_and_persisted [OF _ demo_file_single_ok _ _ t(1), unfolded demo_base] by blast+
  have q: "\<forall>e. bm_get (file_view demo_codec (w_missions w1)) ''m'' = Some e \<longrightarrow> me_terminated e" using p(1) t(2) by simp
  from p(2) [rule_format, OF refl t(2)] obtain m :: mission_entry where
    "event_landed demo_ext (single_logs demo_ext (demo_file_world demo_store)) (single_logs demo_ext w1) ''Mission.Terminate'' ''m'' (me_approver m) None"
    by (elim exE conjE)
  with t(1) q show ?thesis by (intro exI conjI)
qed

text \<open>C9: a mission whose termination was answered backs no decision: whatever any handles on the mission
  file do afterwards, at times that never go back, a request that names it is evaluated to a Deny with no mission on its record, as
  long as the reference stands for a mission of the same expiry, which it is a digest of.\<close>

theorem terminated_mission_denied:
  assumes "st_backend st = SingleBackend" and "single_ok (sx_base (st_ext st)) w" and "file_ok co (w_missions w)"
    and "calls_on (file_registry co path) file_fresh en (w_missions w)" and "terminate_now st en caller k w = (Some resp, w1)"
    and "rs_status resp = 200" and "bm_get (file_view co (w_missions w)) k = Some e" and "me_expiry e \<le> u64_max" and "en_clock en = Some now"
    and "(reg_step (file_registry co path) file_fresh)\<^sup>*\<^sup>* (now, w_missions w1) (t, w_missions w2)"
    and "en_registry en2 = file_registry co path h" and "file_fresh h (w_missions w2)"
    and "\<And>m s. mr_status (file_registry co path h) k (w_missions w2) = (Inr (Some m), s) \<Longrightarrow> me_expiry m = me_expiry e"
    and "evaluate_one st2 en2 caller2 req w2 = (Inr ev, w3)" and "names_mission k req"
  shows "\<not> e_decision (ev_entry ev) \<and> e_mission (ev_entry ev) = None"
proof -
  have st: "st\<lparr>st_backend := SingleBackend\<rparr> = st" using assms(1) by simp
  have no: "\<not> backed dir subject action u r m" if "mr_status (en_registry en2) k (w_missions w2) = (Inr (Some m), s)" for dir subject action u r m s
    using mission_files.ended_backs_nothing [of st, unfolded st, OF assms(2) TrueI assms(3-10,12) that [unfolded assms(11)]]
      assms(13) [OF that [unfolded assms(11)]] by (auto simp: backed_def)
  from evaluate_named [OF assms(14,15)] no show ?thesis by blast
qed

text \<open>The demonstration request, asked of another handle once the mission is over.\<close>

definition demo_later_env :: "(disk, missions_file) env" where
  "demo_later_env = demo_file_env\<lparr>en_registry := file_registry demo_codec ''missions.json'' (1, demo_plan 3)\<rparr>"

lemma demo_later_status:
  "\<exists>s. mr_status (file_registry demo_codec ''missions.json'' (1, demo_plan 3)) ''m'' demo_ended = (Inr (Some (demo_mission_entry True)), s)"
proof -
  let ?st = "mr_status (file_registry demo_codec ''missions.json'' (1, demo_plan 3)) ''m'' demo_ended"
  have "fst ?st = Inr (Some (demo_mission_entry True))" by code_simp
  then have "?st = (Inr (Some (demo_mission_entry True)), snd ?st)" by (simp add: prod_eq_iff)
  then show ?thesis by blast
qed

lemma demo_later_evaluates:
  "\<exists>ev w3. evaluate_one (demo_state SingleBackend) demo_later_env None (demo_request demo_mission_ctx) (demo_file_world demo_ended) = (Inr ev, w3)"
proof -
  let ?st = "demo_state SingleBackend" and ?reg = "file_registry demo_codec ''missions.json'' (1, demo_plan 3)"
  obtain s where s: "mr_status ?reg ''m'' demo_ended = (Inr (Some (demo_mission_entry True)), s)" using demo_later_status by blast
  let ?bound = "BindDeny [''mission m is terminated'']"
  have "bind_mission ?reg demo_people True ''root'' ''Read'' (JObject [(''mission'', demo_mission_json), (''now'', JNumber (PosInt 5))]) 5 demo_ended = (?bound, s)"
    using s by (simp add: bind_mission_def bound_mission_def demo_mission_json_def as_object_def as_str_def s_bind_def s_look_def s_err_def Let_def
      mission_backs_def demo_mission_entry_def res_guard_def)
  note p = demo_prepares [OF this, of SingleBackend None]
  have c: "answer_challenge ?st (demo_after ?bound None) = Inr None" by (simp add: answer_challenge_def demo_after_def)
  obtain t where "canonicalize (sx_jcs demo_site) (parameters_json (demo_after ?bound None) (recorded_context (demo_after ?bound None))) = Some t"
    using demo_canonical by blast
  then have "\<exists>e. record_of ?st (demo_after ?bound None) (decide_prepared ?st (demo_after ?bound None)) None = Inr e"
    by (simp add: record_of_def server_digest_def digest_def Let_def demo_state_def)
  then obtain e sh where "record_of ?st (demo_after ?bound None) (decide_prepared ?st (demo_after ?bound None)) None = Inr (e, sh)" by auto
  with c p show ?thesis
    by (simp add: evaluate_one_def on_missions_def s_bind_def s_err_def s_look_def s_ret_def Let_def demo_later_env_def demo_file_env_def demo_file_world_def)
qed

theorem terminated_mission_denied_witness:
  "\<exists>resp w1 ev w3. terminate_now (demo_state SingleBackend) demo_file_env None ''m'' (demo_file_world demo_store) = (Some resp, w1) \<and>
    evaluate_one (demo_state SingleBackend) demo_later_env None (demo_request demo_mission_ctx) (demo_file_world demo_ended) = (Inr ev, w3) \<and>
    \<not> e_decision (ev_entry ev) \<and> e_mission (ev_entry ev) = None"
proof -
  obtain resp w1 where t: "terminate_now (demo_state SingleBackend) demo_file_env None ''m'' (demo_file_world demo_store) = (Some resp, w1)"
    "rs_status resp = 200" "w_missions w1 = demo_ended" using demo_terminate_served by blast
  obtain ev w3 where v: "evaluate_one (demo_state SingleBackend) demo_later_env None (demo_request demo_mission_ctx) (demo_file_world demo_ended) = (Inr ev, w3)"
    using demo_later_evaluates by blast
  have w: "w_missions (demo_file_world s) = s" for s by (simp add: demo_file_world_def)
  have "\<not> e_decision (ev_entry ev) \<and> e_mission (ev_entry ev) = None"
  proof (rule terminated_mission_denied [OF _ demo_file_single_ok _ _ t(1,2) _ _ _ _ _ _ _ v])
    show "st_backend (demo_state SingleBackend) = SingleBackend" by (simp add: demo_state_def)
    show "file_ok demo_codec (w_missions (demo_file_world demo_store))" by (simp add: w demo_store_ok(1))
    show "calls_on (file_registry demo_codec ''missions.json'') file_fresh demo_file_env (w_missions (demo_file_world demo_store))"
      by (simp add: w demo_calls_on)
    show "bm_get (file_view demo_codec (w_missions (demo_file_world demo_store))) ''m'' = Some (demo_mission_entry False)" by (simp add: w demo_store_ok(3))
    show "me_expiry (demo_mission_entry False) \<le> u64_max" by (simp add: demo_mission_entry_def)
    show "en_clock demo_file_env = Some 5" by (simp add: demo_file_env_def)
    show "(reg_step (file_registry demo_codec ''missions.json'') file_fresh)\<^sup>*\<^sup>* (5, w_missions w1) (5, w_missions (demo_file_world demo_ended))"
      by (simp add: w t(3))
    show "en_registry demo_later_env = file_registry demo_codec ''missions.json'' (1, demo_plan 3)" by (simp add: demo_later_env_def)
    show "file_fresh (1, demo_plan 3) (w_missions (demo_file_world demo_ended))" by (simp add: w demo_ended_fresh)
    show "me_expiry m = me_expiry (demo_mission_entry False)"
      if "mr_status (file_registry demo_codec ''missions.json'' (1, demo_plan 3)) ''m'' (w_missions (demo_file_world demo_ended)) = (Inr (Some m), s)" for m s
      using that demo_later_status by (auto simp: w demo_mission_entry_def)
    show "names_mission ''m'' (demo_request demo_mission_ctx)"
      by (simp add: names_mission_def demo_request_def demo_mission_ctx_def demo_mission_json_def)
  qed
  with t v show ?thesis by blast
qed

text \<open>An approval on a mission file that is empty.\<close>

definition demo_approve_req :: mission_approve_req where
  "demo_approve_req = \<lparr>mq_approver = ''root'', mq_agent = ''mid'', mq_description = '''', mq_approved_tools = [''a''], mq_capabilities = [], mq_expiry = 9\<rparr>"

definition demo_reference :: string where
  "demo_reference = hex_encode (pad32 ''m'')"

definition demo_granted :: mission_entry where
  "demo_granted = entry_of (requested_mission demo_approve_req 5)"

definition approval_codec :: "mission_entry codec" where
  "approval_codec = \<lparr>
     co_parse = (\<lambda>b. if b = ''0'' then Inr [] else if b = ''1'' then Inr [(demo_reference, demo_granted)] else Inl ''syntax''),
     co_print = (\<lambda>m. if m = [] then Inr ''0'' else if m = [(demo_reference, demo_granted)] then Inr ''1'' else Inl ''other'')\<rparr>"

definition approval_store :: missions_file where
  "approval_store = (Some \<lparr>sf_fp = new_fp (demo_plan 1) ''0'', sf_bytes = ''0''\<rparr>,
     \<lambda>_. \<lparr>cc_map = [], cc_fp = Some (new_fp (demo_plan 1) ''0''), cc_poisoned = False\<rparr>)"

definition approval_env :: "(disk, missions_file) env" where
  "approval_env = demo_file_env\<lparr>en_registry := file_registry approval_codec ''missions.json'' (0, demo_plan 2),
     en_registry_later := file_registry approval_codec ''missions.json'' (0, demo_plan 2)\<rparr>"

lemma approval_store_ok:
  "file_ok approval_codec approval_store" "file_fresh (0, demo_plan 2) approval_store" "file_view approval_codec approval_store = []"
  by (auto simp: file_ok_def file_fresh_def file_view_def approval_store_def approval_codec_def codec_ok_def demo_plan_def new_fp_def bm_wf_def split: if_splits)

lemma approval_status: "mr_status (file_registry approval_codec ''missions.json'' (0, demo_plan 2)) k approval_store = (Inr None, approval_store)"
  unfolding approval_store_def by (subst status_cached) (simp_all add: demo_plan_def)

lemma approval_registers:
  "\<exists>s. mr_register (file_registry approval_codec ''missions.json'' (0, demo_plan 2)) demo_reference demo_granted 5 approval_store = (Inr (), s) \<and>
    file_view approval_codec s = [(demo_reference, demo_granted)]"
  by (simp add: file_registry_def on_handle_def file_register_def coherent_write_def with_write_lock_def on_file_def on_cache_def lock_cache_def
    read_coherent_map_def atomic_write_json_def file_fingerprint_def st_step_def s_bind_def s_ret_def s_look_def res_guard_def
    mission_register_def approval_store_def approval_codec_def demo_plan_def new_fp_def file_view_def bm_retain_def Let_def
    demo_granted_def entry_of_def requested_mission_def demo_approve_req_def)

lemma approval_served:
  "\<exists>w'. approve_now (demo_state SingleBackend) approval_env None demo_approve_req (demo_file_world approval_store) = (Some (ok_json (jobj
      [(''approver'', JString ''root''), (''s256'', JString demo_reference), (''reference'', mission_reference ''root'' demo_reference)])), w') \<and>
    bm_get (file_view approval_codec (w_missions w')) demo_reference = Some demo_granted"
proof -
  let ?st = "demo_state SingleBackend" and ?m = "requested_mission demo_approve_req 5" and ?dir = "k_directory (st_kernel (demo_state SingleBackend))"
  let ?a = "\<lparr>am_mission = ?m, am_state = MActive, am_s256 = demo_reference, am_blob = ''m''\<rparr>"
  have "approvable demo_model ?m 5 = Inr ()" by code_simp
  then have ap: "approve (sx_id demo_site) demo_model ?m 5 None g = (Inr ?a, g)" for g :: missions_file
    by (simp add: approve_def s_bind_def s_look_def s_ret_def map_err_def demo_site_def demo_srv_def demo_id_def demo_ext_def demo_reference_def)
  obtain c where c: "approval_context ?a = JObject c" "json_ok (jobj [(''action'', JString ''Mission.Approve''), (''approver'', JString ''root''),
      (''s256'', JString demo_reference), (''context'', JObject c)])" "bm_get c ''asserted_by'' = None" "bm_wf c"
    by (simp add: approval_context_def jobj_def jstrings_def requested_mission_def demo_approve_req_def bm_of_list_def bm_wf_def Let_def)
  from demo_event [OF c(2-4)] obtain ev where ev: "mission_event demo_site ?dir 5 ''root'' ''Mission.Approve'' demo_reference (JObject c) None = Inr ev" by blast
  let ?sh = "shard_for (st_backend ?st) ?dir ''root''"
  from demo_appends [of ?sh ev approval_store] obtain w1 where
    a: "append_to_backend ?st demo_file_env ?sh ev (demo_file_world approval_store) = (Inr (), w1)" "w_missions w1 = approval_store" by blast
  have e: "append_to_backend ?st approval_env sh en = append_to_backend ?st demo_file_env sh en" for sh en
    by (intro ext) (simp add: append_to_backend_def approval_env_def demo_state_def)
  obtain s where s: "mr_register (file_registry approval_codec ''missions.json'' (0, demo_plan 2)) demo_reference demo_granted 5 approval_store = (Inr (), s)"
    "file_view approval_codec s = [(demo_reference, demo_granted)]" using approval_registers by blast
  have w: "(demo_file_world approval_store)\<lparr>w_missions := approval_store\<rparr> = demo_file_world approval_store"
    "w_missions (demo_file_world approval_store) = approval_store" by (simp_all add: demo_file_world_def)
  have r: "en_registry approval_env = file_registry approval_codec ''missions.json'' (0, demo_plan 2)"
    "en_registry_later approval_env = file_registry approval_codec ''missions.json'' (0, demo_plan 2)" "en_clock approval_env = Some 5"
    by (simp_all add: approval_env_def demo_file_env_def)
  have x: "st_ext ?st = demo_site" "st_model ?st = demo_model" "ms_approver ?m = ''root''"
    by (simp_all add: demo_state_def requested_mission_def demo_approve_req_def)
  show ?thesis
    using a(1) ev s
    by (simp add: approve_now_def handle_def s_bind_def s_look_def s_err_def s_ret_def on_missions_def r w x ap e c(1) a(2) approval_status refuse_if_def
      refuse_unless_admits_def asserted_by_of_def Let_def map_err_def res_guard_def demo_granted_def [symmetric])
qed

theorem no_live_mission_unrecorded_witness:
  "\<exists>resp w'. approve_now (demo_state SingleBackend) approval_env None demo_approve_req (demo_file_world approval_store) = (resp, w') \<and>
    bm_get (file_view approval_codec (w_missions w')) demo_reference = Some demo_granted \<and>
    event_landed demo_ext (single_logs demo_ext (demo_file_world approval_store)) (single_logs demo_ext w') ''Mission.Approve'' demo_reference ''root'' None"
proof -
  from approval_served obtain resp w' where r: "approve_now (demo_state SingleBackend) approval_env None demo_approve_req (demo_file_world approval_store) = (resp, w')"
    "bm_get (file_view approval_codec (w_missions w')) demo_reference = Some demo_granted" by blast
  have "event_landed demo_ext (single_logs demo_ext (demo_file_world approval_store)) (single_logs demo_ext w') ''Mission.Approve'' demo_reference
      (mq_approver demo_approve_req) None \<and> (\<exists>now. en_clock approval_env = Some now \<and> demo_granted = entry_of (requested_mission demo_approve_req now))"
    unfolding demo_base [symmetric, of SingleBackend]
  proof (rule no_live_mission_unrecorded [OF _ demo_file_single_ok _ _ r])
    show "st_backend (demo_state SingleBackend) = SingleBackend" by (simp add: demo_state_def)
    show "file_ok approval_codec (w_missions (demo_file_world approval_store))" by (simp add: demo_file_world_def approval_store_ok)
    show "calls_on (file_registry approval_codec ''missions.json'') file_fresh approval_env (w_missions (demo_file_world approval_store))"
      unfolding calls_on_def by (intro exI [of _ "(0, demo_plan 2)"]) (simp add: approval_env_def demo_file_world_def approval_status approval_store_ok)
    show "bm_get (file_view approval_codec (w_missions (demo_file_world approval_store))) demo_reference \<noteq> Some demo_granted"
      by (simp add: demo_file_world_def approval_store_ok)
  qed
  then have "event_landed demo_ext (single_logs demo_ext (demo_file_world approval_store)) (single_logs demo_ext w') ''Mission.Approve'' demo_reference ''root'' None"
    by (simp add: demo_approve_req_def)
  with r show ?thesis by (intro exI conjI)
qed

end
