(* ===== verification/Spec2Isabelle.thy ===== *)
theory Spec2Isabelle
  imports Prelude Merkle Json Graph Declared_Context Kernel Policy Ledger_Record Demo_Ext Verify
    Storage Segment Open Ledger Commitments Ledger_Machine Bundle Store Missions Identity
    Head_Store Head_Commit Head_Live Demo_Head Sharded Sharded_Runs Jcs Jcs_Number Jcs_Canonical
    Server_Text Caller Recording Challenge Decide Decisions Served Batch Batches Mission_Routes
    Mission_Lifecycle
begin

text \<open>
  Verification of decern, an authorization service that decides requests of principals and of the
  agents they delegate to, and that records every decision in a tamper-evident ledger.

  \<^bold>\<open>The program.\<close> The kernel (\<open>crates/decern-kernel\<close>) loads a model: a Cedar schema, policies and
  a graph of principals, resources and organizations. It validates the graph, injects derived
  attributes and then answers \<open>check\<close> and the searches through the Cedar engine. The ledger
  (\<open>crates/decern-ledger\<close>) appends one signed, hash-chained JSON line per decision to a file or
  to a directory of segments, issues checkpoints, tree heads and Merkle proofs over the lines, and
  verifies a log, an anchor or an evidence bundle offline. The identity layer
  (\<open>crates/decern-identity\<close>) issues badges, exchanges a delegation for a narrower one, which the
  kernel's validation must accept, and mints tokens under missions, whose approvals and
  terminations live in a registry (\<open>crates/decern-store\<close>) that several processes share. A
  deployment with several writers keeps one chain per tenant, a shard, in a head store of the same
  crate, and extends it through the sharded ledger. The server (\<open>crates/decern-server\<close>) admits a
  request, binds the mission it names, asks the kernel, settles the decision against the registry
  under the ledger's lock, records it and only then answers; it does the same for batches, and
  records the approval and the termination of missions. The command line calls the libraries.

  \<^bold>\<open>Theories and sources.\<close>
  \<^item> \<open>Prelude\<close>: results, ordered maps (\<open>BTreeMap\<close>), ordered sets, saturating arithmetic and the
    lemmas the components share; the collection \<open>res_simps\<close> inverts successful results.
  \<^item> \<open>Json\<close>: \<open>serde_json::Value\<close> and its accessors.
  \<^item> \<open>Merkle\<close>: \<open>merkle.rs\<close>. The tree hash, the two proof generators and the two verifiers, over a
    hash that is a parameter.
  \<^item> \<open>Graph\<close>: \<open>graph.rs\<close>. The directory, its parser, the ancestor and descendant walks and
    \<open>validate\<close>. A locale states the parent-pointer walk once; it is interpreted for delegation
    and for the organization hierarchy.
  \<^item> \<open>Declared_Context\<close>: \<open>context.rs\<close>, the shapes a schema declares and pruning to them.
  \<^item> \<open>Kernel\<close>: \<open>lib.rs\<close>. Loading, \<open>check\<close> and the searches over the record \<open>cedar\<close> of the
    engine's entry points.
  \<^item> \<open>Policy\<close>: the eleven policies of \<open>authority.cedar\<close> as conditions, and the proof suite of
    \<open>decern-proof\<close>.
  \<^item> \<open>Ledger_Record\<close>: \<open>record.rs\<close>, \<open>checkpoint.rs\<close> and \<open>error.rs\<close>: entries, lines, the chain
    hash, and the bytes each commitment signs.
  \<^item> \<open>Verify\<close>: \<open>verify.rs\<close> on lines: the verification loop, the succession of keys and the pages
    of proofs.
  \<^item> \<open>Storage\<close>: \<open>fsync.rs\<close> and the readers: the file system as a \<open>disk\<close> of files and locks, the
    state and error type \<open>sres\<close>, atomic writes, chained and bounded line readers, the backward
    scan for a torn tail.
  \<^item> \<open>Segment\<close>: \<open>segment.rs\<close>: manifests, their shape, and rollover.
  \<^item> \<open>Open\<close>: \<open>open.rs\<close>, \<open>anchor.rs\<close> and the paths of \<open>verify.rs\<close> that read the disk: healing a torn
    tail, finding the head, holding an anchor against the log.
  \<^item> \<open>Ledger\<close>: \<open>ledger.rs\<close>: the writer, its invariant \<open>ledger_inv\<close>, opening, rotation, append,
    rollover, the reads.
  \<^item> \<open>Commitments\<close>: \<open>ledger/commitments.rs\<close>: checkpoints, tree heads, proofs, anchors and bundle
    snapshots a ledger issues.
  \<^item> \<open>Ledger_Machine\<close>: the runs of a ledger as a step relation, and the locale \<open>append_only\<close> of
    append-only stores, interpreted on it.
  \<^item> \<open>Bundle\<close>: \<open>bundle.rs\<close>, the offline verifier.
  \<^item> \<open>Missions\<close>: \<open>missions.rs\<close>, \<open>fsio.rs\<close>: the memory and the file registry, the coherent map
    with its cache per handle, the locale \<open>mission_store\<close> of the registry contract with an
    interpretation for each.
  \<^item> \<open>Store\<close>: the errors of \<open>decern-store\<close>.
  \<^item> \<open>Head_Store\<close>: \<open>head.rs\<close>: the head store in memory and on files, a shard's head, log and earlier
    one-file layout, sections under its lock, the commit and the listing.
  \<^item> \<open>Head_Commit\<close>: what a shard's three files hold together (\<open>view_of\<close>), that a commit moves it in
    one step, and the locale \<open>shard_store\<close> of the trait's contract, interpreted on both stores;
    \<open>Head_Live\<close>: the same store when no call fails, and its properties.
  \<^item> \<open>Sharded\<close>: \<open>sharded.rs\<close>: sealing, the rotation guard, appends and critical sections, the reads
    and the audit of a directory; \<open>Sharded_Runs\<close>: the invariant \<open>sound_shard\<close>, proved once inside
    \<open>shard_store\<close>, and the step relation \<open>sh_step\<close> of many processes on one store.
  \<^item> \<open>Jcs\<close>: \<open>jcs.rs\<close>: canonical JSON and the digest; \<open>Jcs_Number\<close>: its number printer;
    \<open>Jcs_Canonical\<close>: its texts are self-delimiting.
  \<^item> \<open>Identity\<close>: \<open>decern-identity\<close>: badges, admission, exchange and missions.
  \<^item> \<open>Server_Text\<close>, \<open>Caller\<close>: \<open>caller.rs\<close> and the refusals of \<open>decide.rs\<close>: bounded echoes, the
    identity of a caller, whom it may name, the guard. A posture, what verifies a credential, is a
    record of functions.
  \<^item> \<open>Recording\<close>: \<open>state.rs\<close> and \<open>record.rs\<close>: the state of a server, shards of subjects, settling
    and recording. The locale \<open>recorder\<close> states what recording one entry promises, with an
    interpretation for one file (\<open>single_file\<close>) and for the head store on files (\<open>sharded_files\<close>).
  \<^item> \<open>Challenge\<close>: \<open>challenge.rs\<close>, \<open>jose.rs\<close>: standing tokens, with the comparison of dates as doubles.
  \<^item> \<open>Decide\<close>: \<open>decide.rs\<close>, \<open>blocking.rs\<close>: the decision endpoint; \<open>Decisions\<close>: its lemmas and, inside
    \<open>recorder\<close>, what it serves; \<open>Served\<close>: its properties on both backends.
  \<^item> \<open>Batch\<close>: \<open>batch.rs\<close>; \<open>Batches\<close>: its properties, through the locale \<open>batch_recorder\<close>, which extends
    \<open>recorder\<close> by recording many entries and is interpreted on both backends.
  \<^item> \<open>Mission_Routes\<close>: \<open>mission.rs\<close>; \<open>Mission_Lifecycle\<close>: its properties, in the locale
    \<open>mission_server\<close> that joins \<open>recorder\<close> and \<open>mission_store\<close>, interpreted on files.
  \<^item> \<open>Demo_Ext\<close>, \<open>Demo_Head\<close>: one concrete instance of the third-party functions, on which witnesses
    compute.

  \<^bold>\<open>Conventions.\<close> Definitions keep the names of the code. A \<open>Result\<close> is a sum with the error on
  the left, and every error return of the code is a value. \<open>u64\<close> quantities are natural numbers,
  with the bound or the saturation written where the code has it; \<open>i64\<close> expiries are integers.
  Strings and byte strings are lists of bytes.

  \<^bold>\<open>Parameters.\<close> Code that is not in the repository is an argument: the Cedar engine (record
  \<open>cedar\<close>), SHA-256, Ed25519, base64, hexadecimal and serde (records \<open>ext\<close>, \<open>id_ext\<close> and \<open>srv_ext\<close>,
  and the codec of a store). A request of the server also takes the environment \<open>env\<close> of its
  calls: its reading of the clock, the registry handle as it is at the binding and again under the
  lock, and the fault plans. What a theorem needs of them is a named hypothesis: \<open>ext_ok\<close> (printing and
  parsing round-trip, a signature verifies under its key, digests have their length),
  \<open>id_laws\<close>, \<open>codec_ok\<close>, \<open>head_laws\<close> (a printed head reads back), \<open>label_law\<close> (the two readers of a
  line agree on its key and hash), \<open>jcs_laws\<close> (string texts delimit themselves, Ryu's digits denote
  the double), and no collision of the hash on the finitely many strings that the
  statement names. \<open>Demo_Ext\<close> satisfies the laws, and every theorem with a hypothesis has a
  witness.

  \<^bold>\<open>Faults.\<close> Every call to the file system is looked up in a plan (\<open>io\<close>, \<open>store_plan\<close>, and one plan
  per stage of a head store's commit, \<open>stages\<close>) that may
  make it fail, and a failing write leaves any prefix of its bytes. The theorems quantify over the
  plans, so they cover a crash at every step of an append, a rollover or a rename. Loops are
  total functions: the walks end because the set of visited nodes grows, the shift loops of the
  Merkle verifiers because the numbers shrink, the backward scan because its offset does.
  No fuel is used.

  \<^bold>\<open>What is shown.\<close>
  \<^item> Authority: validation is exact (\<open>validate_iff_graph_ok\<close>); in a loaded graph authority only
    shrinks along a chain (\<open>ancestors_attenuate\<close>); what the policies allow stays inside tenant,
    expiry, scope and chain (\<open>allowed_within_chain\<close>); revocation reaches exactly the subtree;
    the kernel loads and checks fail-closed; every exchange attenuates (\<open>exchange_attenuates\<close>).
  \<^item> Merkle proofs: generated proofs verify, accepted proofs pin a leaf or a prefix.
  \<^item> The log: a verified root determines the records; keys never return; an anchored open finds
    the anchored history; opening writes only a torn tail.
  \<^item> The writer: opening, appending and rotating keep \<open>ledger_inv\<close>; after any failed append a
    reopen recovers; every run refines an append-only list of lines (\<open>runs_are_append_only\<close>);
    heads issued along a run are consistent, and a sealed anchor holds from then on.
  \<^item> Bundles: an accepted bundle holds the checkpoint's records, and an honest bundle is accepted.
  \<^item> Missions: a termination is final for every process that shares the file, and no token is
    minted under it afterwards, whatever handle asks, as long as the times of the calls do not go back.
  \<^item> Shards: whatever fails, a section leaves its shard as it was or with the one line its callback
    gave (\<open>section_all_or_nothing\<close>); any interleaving of processes keeps every shard verifying under
    their ring (\<open>sharded_runs_verify\<close>); a critical section decides on exactly the records its own
    follows; a key that may extend a shard does when nothing fails; an evidence snapshot agrees with
    itself; an audit misses no shard.
  \<^item> The server: the kernel sees the server's clock and none of the keys the server consumes; an Allow
    that needs a mission is backed by a live one (\<open>mission_backs_decision\<close>); at the single endpoint a
    caller bound to itself is evaluated for nobody else; a decision, single or in a batch, is served only as recorded and as
    settled (\<open>served_as_recorded_single\<close>, \<open>served_as_recorded_sharded\<close>, \<open>batch_served_as_recorded\<close>),
    each answer for the item of its place, and one that is not served leaves nothing in the log but, when
    recording failed, its own line (\<open>unserved_leaves_no_decision\<close>); no mission is live without its
    record, and one whose termination was answered backs nothing while clocks do not go back. The batch reads whom an item names before it parses it; the two readings agree where parties are
    objects (\<open>batch_facts_agree\<close>) and can differ where one is an array (\<open>batch_admission_gap\<close>).
  \<^item> Canonical JSON: equal texts exactly for equal values, where a number is compared as a number: an
    integer has the text of a double only when it is the double's shortest decimal
    (\<open>canonical_form_exact\<close>).

  \<^bold>\<open>Not modelled.\<close> The verifiers of credentials (bearer, HTTP signature, SPIFFE, AAuth), for which the
  guard takes any posture; the routing, startup and arguments of the server, its search and audit
  routes, the health probe and the disclosure document. The Postgres store is SQL against a database
  server; \<open>decern-crypto\<close> wraps the crates that are parameters here; the command line parses
  arguments and prints. Within modelled files: file permissions, the lock sidecar of Windows, the
  evaluation thread of the kernel, reading a model directory, and the interleaving of a mission
  file's read, or of a listing of shards, with a write of another process inside one call.
\<close>

end
